(* ===== verification/Prelude.thy ===== *)
theory Prelude
  imports Main
begin

text \<open>
  What every component of the development shares: the result type of code that may throw, the
  sequencing of such code, loops over vectors whose body may throw, and a few list facts.

  A C++ function that may throw is a function into \<open>'e + 'a\<close>: \<open>Inl e\<close> is the exception
  \<open>e\<close>, \<open>Inr x\<close> the normal return. \<open>ebind\<close> is the semicolon of such code, \<open>efold\<close> a
  \<open>for\<close> loop over a vector with one accumulator, \<open>emap\<close> a loop that computes a new vector,
  left to right; each stops at the first exception, as the C++ loop does.
\<close>

named_theorems result_simps "evaluation rules of the error monad and of the loops over it"
named_theorems inv_intros "introduction rules for the preservation of invariants"

section \<open>Results\<close>

definition ebind :: "'e + 'a \<Rightarrow> ('a \<Rightarrow> 'e + 'b) \<Rightarrow> 'e + 'b" where
  "ebind m f = (case m of Inl e \<Rightarrow> Inl e | Inr x \<Rightarrow> f x)"

lemma ebind_simps [simp, result_simps]:
  "ebind (Inl e) f = Inl e"
  "ebind (Inr x) f = f x"
  by (simp_all add: ebind_def)

lemma ebind_cong [fundef_cong]:
  assumes "m = m'" and "\<And>x. m' = Inr x \<Longrightarrow> f x = f' x"
  shows "ebind m f = ebind m' f'"
  using assms by (cases m') auto

lemma ebind_Inr_iff: "ebind m f = Inr y \<longleftrightarrow> (\<exists>x. m = Inr x \<and> f x = Inr y)"
  by (cases m) auto

lemma ebind_Inl_iff: "ebind m f = Inl e \<longleftrightarrow> m = Inl e \<or> (\<exists>x. m = Inr x \<and> f x = Inl e)"
  by (cases m) auto

lemma ebindE [elim!]:
  assumes "ebind m f = Inr y"
  obtains x where "m = Inr x" and "f x = Inr y"
  using assms by (auto simp: ebind_Inr_iff)

lemma ebind_assoc: "ebind (ebind m f) g = ebind m (\<lambda>x. ebind (f x) g)"
  by (cases m) simp_all

lemma ebind_Inr_right [simp]: "ebind m Inr = m"
  by (cases m) simp_all

section \<open>Loops over vectors\<close>

primrec efold :: "('b \<Rightarrow> 'a \<Rightarrow> 'e + 'b) \<Rightarrow> 'b \<Rightarrow> 'a list \<Rightarrow> 'e + 'b" where
  "efold f acc [] = Inr acc"
| "efold f acc (x # xs) = ebind (f acc x) (\<lambda>acc'. efold f acc' xs)"

primrec emap :: "('a \<Rightarrow> 'e + 'b) \<Rightarrow> 'a list \<Rightarrow> 'e + 'b list" where
  "emap f [] = Inr []"
| "emap f (x # xs) = ebind (f x) (\<lambda>y. ebind (emap f xs) (\<lambda>ys. Inr (y # ys)))"

lemma efold_cong [fundef_cong]:
  assumes "acc = acc'" and "xs = xs'" and "\<And>a x. x \<in> set xs' \<Longrightarrow> f a x = g a x"
  shows "efold f acc xs = efold g acc' xs'"
proof -
  have "(\<And>a x. x \<in> set ys \<Longrightarrow> f a x = g a x) \<Longrightarrow> efold f b ys = efold g b ys" for b ys
    by (induction ys arbitrary: b) (auto intro!: ebind_cong)
  then show ?thesis using assms by simp
qed

lemma emap_cong [fundef_cong]:
  assumes "xs = xs'" and "\<And>x. x \<in> set xs' \<Longrightarrow> f x = g x"
  shows "emap f xs = emap g xs'"
proof -
  have "(\<And>x. x \<in> set ys \<Longrightarrow> f x = g x) \<Longrightarrow> emap f ys = emap g ys" for ys
    by (induction ys) (auto intro!: ebind_cong)
  then show ?thesis using assms by simp
qed

lemma efold_append: "efold f acc (xs @ ys) = ebind (efold f acc xs) (\<lambda>a. efold f a ys)"
  by (induction xs arbitrary: acc) (simp_all add: ebind_assoc)

lemma efold_invariant:
  assumes "efold f acc xs = Inr r" and "P acc"
    and "\<And>a x a'. x \<in> set xs \<Longrightarrow> P a \<Longrightarrow> f a x = Inr a' \<Longrightarrow> P a'"
  shows "P r"
  using assms by (induction xs arbitrary: acc) auto

lemma emap_length: "emap f xs = Inr ys \<Longrightarrow> length ys = length xs"
  by (induction xs arbitrary: ys) auto

lemma emap_nth: "emap f xs = Inr ys \<Longrightarrow> i < length xs \<Longrightarrow> f (xs ! i) = Inr (ys ! i)"
  by (induction xs arbitrary: ys i) (auto simp: nth_Cons split: nat.splits)

lemma emap_set:
  assumes "emap f xs = Inr ys" and "y \<in> set ys"
  obtains x where "x \<in> set xs" and "f x = Inr y"
proof -
  have "\<exists>x \<in> set xs. f x = Inr y"
    using assms(1,2) by (induction xs arbitrary: ys) auto
  then show thesis using that by blast
qed

lemma emap_all_Inr: "(\<And>x. x \<in> set xs \<Longrightarrow> f x = Inr (g x)) \<Longrightarrow> emap f xs = Inr (map g xs)"
  by (induction xs) auto

section \<open>Lists\<close>

lemma length_dropWhile_less: "dropWhile P xs \<noteq> xs \<Longrightarrow> length (dropWhile P xs) < length xs"
  by (cases xs) (auto simp: length_dropWhile_le less_Suc_eq_le split: if_splits)

lemma takeWhile_append_stop:
  "(\<forall>x \<in> set xs. P x) \<Longrightarrow> (ys \<noteq> [] \<longrightarrow> \<not> P (hd ys)) \<Longrightarrow> takeWhile P (xs @ ys) = xs"
  by (induction xs) (auto, cases ys, auto)

lemma dropWhile_append_stop:
  "(\<forall>x \<in> set xs. P x) \<Longrightarrow> (ys \<noteq> [] \<longrightarrow> \<not> P (hd ys)) \<Longrightarrow> dropWhile P (xs @ ys) = ys"
  by (induction xs) (auto, cases ys, auto)

end
