(* ===== verification/Tokenizer.thy ===== *)
theory Tokenizer
  imports Prelude
begin

text \<open>
  The tokenizer of the interpreter (\<open>tasks/scheme/basic/tokenizer.h\<close> and \<open>tokenizer.cpp\<close>; the
  advanced and tidy interpreters carry the same file). The stream is the list of the characters
  not yet read; \<open>peek\<close> and \<open>get\<close> return an \<open>int\<close>, \<open>-1\<close> at the end, as \<open>std::istream\<close> does, and
  the predicates take a (signed) \<open>char\<close>, so that every call converts.
\<close>

section \<open>Exceptions of the interpreter\<close>

text \<open>
  The three exceptions of \<open>error.h\<close> with their messages, \<open>std::out_of_range\<close> thrown by
  \<open>std::stoi\<close>, and three outcomes that are undefined behaviour in C++: a member function called on a
  null pointer, a signed overflow of \<open>long long\<close>, and an index outside of a vector.
\<close>

datatype scheme_error =
    SyntaxError string
  | RuntimeError string
  | NameError string
  | OutOfRange
  | InvalidArgument
  | NullDereference
  | SignedOverflow
  | InvalidIndex

section \<open>Characters\<close>

text \<open>The conversion of an \<open>int\<close> to an 8-bit signed \<open>char\<close>.\<close>

definition to_char :: "int \<Rightarrow> int" where
  "to_char i = (i + 128) mod 256 - 128"

definition IsNumber :: "int \<Rightarrow> bool" where
  "IsNumber c \<longleftrightarrow> 48 \<le> c \<and> c \<le> 57"

definition IsStartSymbol :: "int \<Rightarrow> bool" where
  "IsStartSymbol c \<longleftrightarrow> (97 \<le> c \<and> c \<le> 122) \<or> (65 \<le> c \<and> c \<le> 90) \<or> c = 60 \<or> c = 61 \<or>
     c = 62 \<or> c = 42 \<or> c = 47 \<or> c = 35"

definition IsMidSymbol :: "int \<Rightarrow> bool" where
  "IsMidSymbol c \<longleftrightarrow> IsStartSymbol c \<or> IsNumber c \<or> c = 63 \<or> c = 33 \<or> c = 45"

definition IsPlusOrMinus :: "int \<Rightarrow> bool" where
  "IsPlusOrMinus c \<longleftrightarrow> c = 43 \<or> c = 45"

section \<open>Tokens\<close>

datatype BracketToken = OPEN | CLOSE

datatype Token =
    ConstantToken int
  | Bracket BracketToken
  | SymbolToken string
  | QuoteToken
  | DotToken

text \<open>\<open>Token ret;\<close> value-initialises the first alternative of the variant.\<close>

definition default_token :: Token where
  "default_token = ConstantToken 0"

section \<open>The stream\<close>

definition peek :: "string \<Rightarrow> int" where
  "peek s = (case s of [] \<Rightarrow> -1 | c # _ \<Rightarrow> of_char c)"

definition stream_get :: "string \<Rightarrow> int \<times> string" where
  "stream_get s = (case s of [] \<Rightarrow> (-1, []) | c # cs \<Rightarrow> (of_char c, cs))"

text \<open>The test of the loops that skip separators, and of the loops that collect a token.\<close>

definition is_blank :: "char \<Rightarrow> bool" where
  "is_blank c \<longleftrightarrow> of_char c = (32::int) \<or> of_char c = (10::int)"

definition digit_char :: "char \<Rightarrow> bool" where
  "digit_char c = IsNumber (to_char (of_char c))"

definition mid_char :: "char \<Rightarrow> bool" where
  "mid_char c = IsMidSymbol (to_char (of_char c))"

text \<open>\<open>std::stoi\<close> on an optional sign and decimal digits; \<open>int\<close> has 32 bits.\<close>

definition digits_value :: "string \<Rightarrow> int" where
  "digits_value ds = foldl (\<lambda>v c. 10 * v + (of_char c - 48)) 0 ds"

definition stoi :: "string \<Rightarrow> scheme_error + int" where
  "stoi s =
     (let (neg, rest) = (case s of [] \<Rightarrow> (False, [])
                         | c # cs \<Rightarrow> if c = CHR ''-'' then (True, cs)
                                      else if c = CHR ''+'' then (False, cs) else (False, s));
          ds = takeWhile digit_char rest
      in if ds = [] then Inl InvalidArgument
         else let v = (if neg then - digits_value ds else digits_value ds)
              in if - (2 ^ 31) \<le> v \<and> v < 2 ^ 31 then Inr v else Inl OutOfRange)"

section \<open>The tokenizer\<close>

record tokenizer =
  tk_stream :: string
  tk_current :: Token
  tk_got :: bool

definition Tokenizer_new :: "string \<Rightarrow> tokenizer" where
  "Tokenizer_new s = \<lparr>tk_stream = s, tk_current = default_token, tk_got = False\<rparr>"

definition IsEnd :: "tokenizer \<Rightarrow> bool \<times> tokenizer" where
  "IsEnd tk =
     (let s = dropWhile is_blank (tk_stream tk)
      in (peek s = -1, tk\<lparr>tk_stream := s\<rparr>))"

text \<open>The token read from a stream whose separators have been skipped, and the rest.\<close>

definition scan_token :: "string \<Rightarrow> scheme_error + Token \<times> string" where
  "scan_token s0 =
     (let (c, s) = stream_get s0
      in if c = 39 then Inr (QuoteToken, s)
         else if c = 46 then Inr (DotToken, s)
         else if c = 40 then Inr (Bracket OPEN, s)
         else if c = 41 then Inr (Bracket CLOSE, s)
         else if IsNumber (to_char c) \<or> IsPlusOrMinus (to_char c) then
           (if IsPlusOrMinus (to_char c) \<and> \<not> IsNumber (to_char (peek s))
            then Inr (SymbolToken [hd s0], s)
            else ebind (stoi (hd s0 # takeWhile digit_char s))
                   (\<lambda>v. Inr (ConstantToken v, dropWhile digit_char s)))
         else if IsStartSymbol (to_char c) then
           Inr (SymbolToken (hd s0 # takeWhile mid_char s), dropWhile mid_char s)
         else Inr (default_token, s))"

definition GetToken :: "tokenizer \<Rightarrow> scheme_error + Token \<times> tokenizer" where
  "GetToken tk =
     (if tk_got tk then Inr (tk_current tk, tk)
      else ebind (scan_token (dropWhile is_blank (tk_stream tk)))
             (\<lambda>(t, s). Inr (t, tk\<lparr>tk_stream := s, tk_current := t, tk_got := True\<rparr>)))"

definition Next :: "tokenizer \<Rightarrow> scheme_error + tokenizer" where
  "Next tk =
     (if tk_got tk then Inr (tk\<lparr>tk_got := False\<rparr>)
      else ebind (GetToken tk) (\<lambda>(_, tk'). Inr (tk'\<lparr>tk_got := False\<rparr>)))"

end
