(* ===== verification/Parser.thy ===== *)
theory Parser
  imports Tokenizer
begin

text \<open>
  The recursive-descent parser of the interpreter (\<open>tasks/scheme/basic/parser.cpp\<close>) and the
  objects it builds (\<open>object.h\<close>). An object of the pure interpreter is a tree: \<open>Null\<close> is the
  null \<open>shared_ptr\<close>, which stands for the empty list. The loop of \<open>ReadList\<close>, which appends cells
  through \<open>SetSecond\<close> to the last cell of the list under construction, is the function
  \<open>ReadTail\<close>: it returns what the loop stores in the second field of the current cell.
\<close>

section \<open>Objects\<close>

datatype object =
    Null
  | Number int
  | Symbol string
  | Cell object object

fun Is_Number :: "object \<Rightarrow> bool" where
  "Is_Number (Number v) = True"
| "Is_Number _ = False"

fun Is_Symbol :: "object \<Rightarrow> bool" where
  "Is_Symbol (Symbol n) = True"
| "Is_Symbol _ = False"

fun Is_Cell :: "object \<Rightarrow> bool" where
  "Is_Cell (Cell a b) = True"
| "Is_Cell _ = False"

text \<open>
  A member function called through \<open>As<T>(obj)\<close> when \<open>obj\<close> is not a \<open>T\<close> is called on a null
  pointer.
\<close>

fun GetValue :: "object \<Rightarrow> scheme_error + int" where
  "GetValue (Number v) = Inr v"
| "GetValue _ = Inl NullDereference"

fun GetName :: "object \<Rightarrow> scheme_error + string" where
  "GetName (Symbol n) = Inr n"
| "GetName _ = Inl NullDereference"

fun GetFirst :: "object \<Rightarrow> scheme_error + object" where
  "GetFirst (Cell a b) = Inr a"
| "GetFirst _ = Inl NullDereference"

fun GetSecond :: "object \<Rightarrow> scheme_error + object" where
  "GetSecond (Cell a b) = Inr b"
| "GetSecond _ = Inl NullDereference"

section \<open>What one call of the tokenizer consumes\<close>

text \<open>
  The work left in a tokenizer: nothing once only separators are left (then \<open>Read\<close> throws),
  otherwise twice the characters left, and one for a pending token.
\<close>

definition all_blank :: "string \<Rightarrow> bool" where
  "all_blank s \<longleftrightarrow> (\<forall>c \<in> set s. is_blank c)"

definition work :: "tokenizer \<Rightarrow> nat" where
  "work tk = (if all_blank (tk_stream tk) then 0
              else 2 * length (tk_stream tk) + (if tk_got tk then 1 else 0))"

lemma all_blank_dropWhile: "all_blank s \<longleftrightarrow> dropWhile is_blank s = []"
  by (simp add: all_blank_def)

lemma all_blank_dropWhile_iff [simp]: "all_blank (dropWhile is_blank s) \<longleftrightarrow> all_blank s"
  by (simp add: all_blank_dropWhile)

lemma all_blank_Nil [simp]: "all_blank []"
  by (simp add: all_blank_def)

lemma peek_minus_one: "peek s = -1 \<longleftrightarrow> s = []"
proof (cases s)
  case (Cons c cs)
  have "(0::int) \<le> of_nat (of_char c)" by (rule of_nat_0_le_iff)
  then have "(0::int) \<le> of_char c" by (simp only: of_nat_of_char)
  then show ?thesis using Cons by (simp add: peek_def)
qed (simp add: peek_def)

lemma IsEnd_work:
  assumes "IsEnd tk = (e, tk')"
  shows "work tk' \<le> work tk" and "e \<longleftrightarrow> work tk = 0" and "tk_got tk' = tk_got tk"
    and "tk_stream tk' = dropWhile is_blank (tk_stream tk)" and "tk_current tk' = tk_current tk"
proof -
  have "length (dropWhile is_blank (tk_stream tk)) \<le> length (tk_stream tk)"
    by (rule length_dropWhile_le)
  then show "work tk' \<le> work tk" using assms
    by (auto simp: IsEnd_def Let_def work_def)
  show "e \<longleftrightarrow> work tk = 0" using assms
    by (auto simp: IsEnd_def Let_def work_def all_blank_dropWhile peek_minus_one)
qed (use assms in \<open>auto simp: IsEnd_def Let_def\<close>)

lemma scan_token_shorter:
  assumes "scan_token s = Inr (t, s')" and "s \<noteq> []"
  shows "length s' < length s"
proof -
  obtain c cs where s: "s = c # cs" using assms(2) by (cases s) auto
  have "length (dropWhile P cs) \<le> length cs" for P by (rule length_dropWhile_le)
  then show ?thesis using assms(1) unfolding s
    by (auto simp: scan_token_def stream_get_def Let_def less_Suc_eq_le split: if_splits)
qed

lemma scan_token_Nil: "scan_token [] = Inr (default_token, [])"
  by (simp add: scan_token_def stream_get_def to_char_def IsNumber_def IsPlusOrMinus_def
      IsStartSymbol_def)

lemma GetToken_got: "GetToken tk = Inr (t, tk') \<Longrightarrow> tk_got tk'"
  by (auto simp: GetToken_def split: if_splits)

lemma GetToken_pending: "tk_got tk \<Longrightarrow> GetToken tk = Inr (tk_current tk, tk)"
  by (simp add: GetToken_def)

lemma GetToken_work:
  assumes "GetToken tk = Inr (t, tk')"
  shows "work tk' \<le> work tk" and "\<not> tk_got tk \<Longrightarrow> 0 < work tk \<Longrightarrow> work tk' < work tk"
proof -
  have *: "work tk' \<le> work tk \<and> (\<not> tk_got tk \<longrightarrow> 0 < work tk \<longrightarrow> work tk' < work tk)"
  proof (cases "tk_got tk")
    case True
    then show ?thesis using assms by (simp add: GetToken_def)
  next
    case False
    let ?s = "dropWhile is_blank (tk_stream tk)"
    from False assms obtain s' where s': "scan_token ?s = Inr (t, s')"
      and tk': "tk' = tk\<lparr>tk_stream := s', tk_current := t, tk_got := True\<rparr>"
      by (auto simp: GetToken_def)
    show ?thesis
    proof (cases "?s = []")
      case True
      then have "work tk = 0" by (simp add: work_def all_blank_dropWhile)
      then show ?thesis using s' tk' True
        by (simp add: scan_token_Nil work_def)
    next
      case ne: False
      have "length ?s \<le> length (tk_stream tk)" by (rule length_dropWhile_le)
      with scan_token_shorter [OF s' ne] show ?thesis using tk' ne False
        by (auto simp: work_def all_blank_dropWhile)
    qed
  qed
  then show "work tk' \<le> work tk" and "\<not> tk_got tk \<Longrightarrow> 0 < work tk \<Longrightarrow> work tk' < work tk"
    by auto
qed

lemma Next_work:
  assumes "Next tk = Inr tk'"
  shows "work tk' \<le> work tk" and "0 < work tk \<Longrightarrow> work tk' < work tk" and "\<not> tk_got tk'"
proof -
  have drop: "work (tk\<lparr>tk_got := False\<rparr>) \<le> work tk" for tk
    by (simp add: work_def)
  have "work tk' \<le> work tk \<and> (0 < work tk \<longrightarrow> work tk' < work tk) \<and> \<not> tk_got tk'"
  proof (cases "tk_got tk")
    case True
    then show ?thesis using assms by (auto simp: Next_def work_def split: if_splits)
  next
    case False
    with assms obtain t tk1 where g: "GetToken tk = Inr (t, tk1)" and "tk' = tk1\<lparr>tk_got := False\<rparr>"
      by (auto simp: Next_def)
    then show ?thesis
      using GetToken_work [OF g] drop [of tk1] False by (auto intro: le_less_trans le_trans)
  qed
  then show "work tk' \<le> work tk" and "0 < work tk \<Longrightarrow> work tk' < work tk" and "\<not> tk_got tk'"
    by auto
qed

section \<open>The parser\<close>

function (sequential) Read :: "tokenizer \<Rightarrow> scheme_error + object \<times> tokenizer"
  and ReadList :: "tokenizer \<Rightarrow> scheme_error + object \<times> tokenizer"
  and ReadTail :: "tokenizer \<Rightarrow> scheme_error + object \<times> tokenizer"
where
  "Read tk =
     (if fst (IsEnd tk) then Inl (SyntaxError ''No token'')
      else ebind (GetToken (snd (IsEnd tk))) (\<lambda>(next_token, tk1).
        case next_token of
          ConstantToken value \<Rightarrow> ebind (Next tk1) (\<lambda>tk2. Inr (Number value, tk2))
        | SymbolToken name \<Rightarrow> ebind (Next tk1) (\<lambda>tk2. Inr (Symbol name, tk2))
        | Bracket OPEN \<Rightarrow>
            ebind (ReadList tk1) (\<lambda>(return_object, tk2).
            ebind (GetToken tk2) (\<lambda>(closing, tk3).
              if closing \<noteq> Bracket CLOSE then Inl (SyntaxError (''No closing bracket '' @ [CHR 0x27, CHR 0x29, CHR 0x27]))
              else ebind (Next tk3) (\<lambda>tk4. Inr (return_object, tk4))))
        | QuoteToken \<Rightarrow>
            ebind (Next tk1) (\<lambda>tk2.
            ebind (Read tk2) (\<lambda>(quoted, tk3).
              Inr (Cell (Symbol ''quote'') (Cell quoted Null), tk3)))
        | _ \<Rightarrow> Inl (SyntaxError ''Unexpected token'')))"
| "ReadList tk =
     ebind (Next tk) (\<lambda>tk1.
     ebind (GetToken tk1) (\<lambda>(token, tk2).
       if token = Bracket CLOSE then Inr (Null, tk2)
       else ebind (Read tk2) (\<lambda>(first, tk3).
            ebind (ReadTail tk3) (\<lambda>(second, tk4). Inr (Cell first second, tk4)))))"
| "ReadTail tk =
     ebind (GetToken tk) (\<lambda>(token, tk1).
       if token = Bracket CLOSE then Inr (Null, tk1)
       else ebind (GetToken tk1) (\<lambda>(token', tk2).
         if token' = DotToken then ebind (Next tk2) (\<lambda>tk3. Read tk3)
         else ebind (Read tk2) (\<lambda>(first, tk3).
              ebind (ReadTail tk3) (\<lambda>(second, tk4). Inr (Cell first second, tk4)))))"
  by pat_completeness auto



lemma IsEnd_work':
  "\<not> fst (IsEnd tk) \<Longrightarrow> 0 < work tk" "work (snd (IsEnd tk)) \<le> work tk"
proof -
  obtain e tk' where e: "IsEnd tk = (e, tk')" by fastforce
  show "\<not> fst (IsEnd tk) \<Longrightarrow> 0 < work tk" and "work (snd (IsEnd tk)) \<le> work tk"
    using IsEnd_work(1,2) [OF e] e by auto
qed

lemma GetToken_le: "GetToken tk = Inr (t, tk') \<Longrightarrow> work tk' \<le> work tk"
  by (rule GetToken_work(1))

lemma Next_less: "Next tk = Inr tk' \<Longrightarrow> work tk' < work tk \<or> work tk' = 0 \<and> work tk = 0"
  using Next_work(1,2) [of tk tk'] by fastforce

lemmas work_dests = IsEnd_work'(1) GetToken_le Next_less

lemma Read_parts_work:
  "Read_ReadList_ReadTail_dom (Inl tk) \<Longrightarrow> Read tk = Inr (x, tk') \<Longrightarrow> work tk' < work tk"
  "Read_ReadList_ReadTail_dom (Inr (Inl tk)) \<Longrightarrow> ReadList tk = Inr (x, tk') \<Longrightarrow> work tk' \<le> work tk"
  "Read_ReadList_ReadTail_dom (Inr (Inr tk)) \<Longrightarrow> ReadTail tk = Inr (x, tk') \<Longrightarrow> work tk' \<le> work tk"
proof (induction arbitrary: x tk' and x tk' and x tk' rule: Read_ReadList_ReadTail.pinduct)
  case (1 tk)
  from 1(4) obtain t b where ne: "\<not> fst (IsEnd tk)"
    and g: "GetToken (snd (IsEnd tk)) = Inr (t, b)"
    by (auto simp: Read.psimps [OF 1(1)] split: if_splits)
  have IH: "t = Bracket OPEN \<Longrightarrow> ReadList b = Inr (y, tk2) \<Longrightarrow> work tk2 \<le> work b"
    "t = QuoteToken \<Longrightarrow> Next b = Inr tk3 \<Longrightarrow> Read tk3 = Inr (y, tk2) \<Longrightarrow> work tk2 < work tk3"
    for y tk2 tk3
    using 1(2,3) [OF ne g] by auto
  have "work b \<le> work tk"
    using GetToken_le [OF g] IsEnd_work'(2) [of tk] by simp
  then show ?case using 1(4) IsEnd_work'(1) [OF ne] IH
    by (simp add: Read.psimps [OF 1(1)] g ne split: Token.splits BracketToken.splits)
       (fastforce split: if_splits dest: IH Next_less GetToken_le)+
next
  case (2 tk)
  from 2(4) obtain tk1 t b where n: "Next tk = Inr tk1" and g: "GetToken tk1 = Inr (t, b)"
    by (auto simp: ReadList.psimps [OF 2(1)])
  have le: "work b \<le> work tk" using Next_less [OF n] GetToken_le [OF g] by auto
  show ?case
  proof (cases "t = Bracket CLOSE")
    case True
    then show ?thesis using 2(4) le by (auto simp: ReadList.psimps [OF 2(1)] n g)
  next
    case False
    then obtain y tk3 z where r: "Read b = Inr (y, tk3)" and t: "ReadTail tk3 = Inr (z, tk')"
      using 2(4) by (auto simp: ReadList.psimps [OF 2(1)] n g)
    from 2(2) [OF n g refl False r] have "work tk3 < work b" .
    moreover from 2(3) [OF n g refl False r refl t] have "work tk' \<le> work tk3" .
    ultimately show ?thesis using le by simp
  qed
next
  case (3 tk)
  from 3(5) obtain t b where g: "GetToken tk = Inr (t, b)"
    by (auto simp: ReadTail.psimps [OF 3(1)])
  have le: "work b \<le> work tk" using GetToken_le [OF g] .
  show ?case
  proof (cases "t = Bracket CLOSE")
    case True
    then show ?thesis using 3(5) le by (auto simp: ReadTail.psimps [OF 3(1)] g)
  next
    case False
    then obtain t' c where g': "GetToken b = Inr (t', c)"
      using 3(5) by (auto simp: ReadTail.psimps [OF 3(1)] g)
    have le': "work c \<le> work tk" using le GetToken_le [OF g'] by simp
    show ?thesis
    proof (cases "t' = DotToken")
      case True
      then obtain tk3 where n: "Next c = Inr tk3" and r: "Read tk3 = Inr (x, tk')"
        using 3(5) False by (auto simp: ReadTail.psimps [OF 3(1)] g g')
      from 3(2) [OF g refl False g' refl True n r] Next_less [OF n] le' show ?thesis by auto
    next
      case dot: False
      then obtain y tk3 z where r: "Read c = Inr (y, tk3)" and t: "ReadTail tk3 = Inr (z, tk')"
        using 3(5) False by (auto simp: ReadTail.psimps [OF 3(1)] g g')
      from 3(3) [OF g refl False g' refl dot r] 3(4) [OF g refl False g' refl dot r refl t] le'
      show ?thesis by simp
    qed
  qed
qed

termination Read
proof (relation "measure (\<lambda>c. case c of Inl tk \<Rightarrow> 3 * work tk + 1
      | Inr (Inl tk) \<Rightarrow> 3 * work tk + (if work tk = 0 then 2 else 0)
      | Inr (Inr tk) \<Rightarrow> 3 * work tk + 2)", goal_cases)
  case 1
  show ?case by simp
next
  case (2 tk)
  then show ?case using IsEnd_work'(2) [of tk] by (auto dest!: work_dests)
next
  case (3 tk)
  then show ?case using IsEnd_work'(2) [of tk] by (auto dest!: work_dests)
qed (auto dest!: work_dests Read_parts_work)

end
