(* ===== verification/Basic.thy ===== *)
theory Basic
  imports Parser "HOL-Library.Signed_Division"
begin

text \<open>
  The interpreter without variables (\<open>tasks/scheme/basic\<close>): the helpers, the function objects of
  \<open>functions.h\<close>, their call operators (\<open>functions.cpp\<close>, \<open>functions_integer.cpp\<close>,
  \<open>functions_boolean.cpp\<close>, \<open>functions_list.cpp\<close>), \<open>Compute\<close>, \<open>Serialize\<close> and \<open>Run\<close>
  (\<open>scheme.cpp\<close>).

  The C++ call operators call back \<open>Compute\<close>, which is defined after them: each is modelled with
  the evaluator as its first argument, and \<open>Compute\<close> passes itself. Function arguments of one
  C++ call (\<open>make_shared<Cell>(Compute(a), Compute(b))\<close>) are evaluated in an order the language
  leaves open; the model evaluates them from left to right.
\<close>

section \<open>Arithmetic of long long\<close>

definition ll_ok :: "int \<Rightarrow> bool" where
  "ll_ok v \<longleftrightarrow> - (2 ^ 63) \<le> v \<and> v < 2 ^ 63"

definition ll_check :: "int \<Rightarrow> scheme_error + int" where
  "ll_check v = (if ll_ok v then Inr v else Inl SignedOverflow)"

definition ll_add :: "int \<Rightarrow> int \<Rightarrow> scheme_error + int" where
  "ll_add a b = ll_check (a + b)"

definition ll_sub :: "int \<Rightarrow> int \<Rightarrow> scheme_error + int" where
  "ll_sub a b = ll_check (a - b)"

definition ll_mul :: "int \<Rightarrow> int \<Rightarrow> scheme_error + int" where
  "ll_mul a b = ll_check (a * b)"

text \<open>Division truncates towards zero; the callers have excluded a zero divisor.\<close>

definition ll_div :: "int \<Rightarrow> int \<Rightarrow> scheme_error + int" where
  "ll_div a b = ll_check (a sdiv b)"

definition ll_abs :: "int \<Rightarrow> scheme_error + int" where
  "ll_abs a = ll_check \<bar>a\<bar>"

section \<open>Helpers\<close>

fun AsVector :: "object \<Rightarrow> scheme_error + object list" where
  "AsVector (Cell first second) = ebind (AsVector second) (\<lambda>v. Inr (first # v))"
| "AsVector Null = Inr []"
| "AsVector _ = Inl (RuntimeError ''AsVector got incorrect list / pair'')"

definition ToBoolean :: "bool \<Rightarrow> object" where
  "ToBoolean b = (if b then Symbol ''#t'' else Symbol ''#f'')"

section \<open>Function objects\<close>

datatype AbstractFunction =
    QuoteFunction
  | CompareFunction "int \<Rightarrow> int \<Rightarrow> bool"
  | IsNumberFunction
  | AddFunction
  | SubFunction
  | MulFunction
  | DivFunction
  | MaxFunction
  | MinFunction
  | AbsFunction
  | IsBooleanFunction
  | NotFunction
  | AndFunction
  | OrFunction
  | IsPairFunction
  | IsNullFunction
  | IsListFunction
  | ConsFunction
  | CarFunction
  | CdrFunction
  | ListFunction
  | ListRefFunction
  | ListTailFunction

definition GetFunction :: "object \<Rightarrow> scheme_error + AbstractFunction" where
  "GetFunction obj =
     (if \<not> Is_Symbol obj then Inl (RuntimeError ''GetFunction got non-symbol value'')
      else ebind (GetName obj) (\<lambda>name.
        if name = ''quote'' then Inr QuoteFunction
        else if name = ''='' then Inr (CompareFunction (\<lambda>a b. a = b))
        else if name = ''<'' then Inr (CompareFunction (\<lambda>a b. a < b))
        else if name = ''>'' then Inr (CompareFunction (\<lambda>a b. a > b))
        else if name = ''<='' then Inr (CompareFunction (\<lambda>a b. a \<le> b))
        else if name = ''>='' then Inr (CompareFunction (\<lambda>a b. a \<ge> b))
        else if name = ''number?'' then Inr IsNumberFunction
        else if name = ''+'' then Inr AddFunction
        else if name = ''-'' then Inr SubFunction
        else if name = ''*'' then Inr MulFunction
        else if name = ''/'' then Inr DivFunction
        else if name = ''max'' then Inr MaxFunction
        else if name = ''min'' then Inr MinFunction
        else if name = ''abs'' then Inr AbsFunction
        else if name = ''boolean?'' then Inr IsBooleanFunction
        else if name = ''not'' then Inr NotFunction
        else if name = ''and'' then Inr AndFunction
        else if name = ''or'' then Inr OrFunction
        else if name = ''pair?'' then Inr IsPairFunction
        else if name = ''null?'' then Inr IsNullFunction
        else if name = ''list?'' then Inr IsListFunction
        else if name = ''cons'' then Inr ConsFunction
        else if name = ''car'' then Inr CarFunction
        else if name = ''cdr'' then Inr CdrFunction
        else if name = ''list'' then Inr ListFunction
        else if name = ''list-ref'' then Inr ListRefFunction
        else if name = ''list-tail'' then Inr ListTailFunction
        else Inl (RuntimeError ''GetFunction : Incorrect function'')))"

type_synonym evaluator = "object \<Rightarrow> scheme_error + object"

definition Quote_call :: "object \<Rightarrow> scheme_error + object" where
  "Quote_call argument = GetFirst argument"

section \<open>Integer functions\<close>

fun compare_loop :: "evaluator \<Rightarrow> (int \<Rightarrow> int \<Rightarrow> bool) \<Rightarrow> object list \<Rightarrow> scheme_error + object" where
  "compare_loop ev compare (x # y # rest) =
     ebind (ev x) (\<lambda>computed_argf.
     ebind (ev y) (\<lambda>computed_args.
       if \<not> Is_Number computed_argf \<or> \<not> Is_Number computed_args
       then Inl (RuntimeError ''Comparation argument is not a number'')
       else ebind (GetValue computed_argf) (\<lambda>a.
            ebind (GetValue computed_args) (\<lambda>b.
              if \<not> compare a b then Inr (Symbol ''#f'')
              else compare_loop ev compare (y # rest)))))"
| "compare_loop ev compare _ = Inr (Symbol ''#t'')"

definition Compare_call :: "evaluator \<Rightarrow> (int \<Rightarrow> int \<Rightarrow> bool) \<Rightarrow> object \<Rightarrow> scheme_error + object" where
  "Compare_call ev compare argument =
     (if argument = Null then Inr (Symbol ''#t'')
      else ebind (AsVector argument) (\<lambda>args. compare_loop ev compare args))"

definition IsNumber_call :: "evaluator \<Rightarrow> object \<Rightarrow> scheme_error + object" where
  "IsNumber_call ev argument =
     ebind (GetFirst argument) (\<lambda>first.
     ebind (ev first) (\<lambda>x. Inr (ToBoolean (Is_Number x))))"

text \<open>The value of the computed argument, or the exception the loop bodies throw.\<close>

definition number_arg :: "evaluator \<Rightarrow> string \<Rightarrow> object \<Rightarrow> scheme_error + int" where
  "number_arg ev message arg =
     ebind (ev arg) (\<lambda>computed_arg.
       if \<not> Is_Number computed_arg then Inl (RuntimeError message) else GetValue computed_arg)"

definition Add_call :: "evaluator \<Rightarrow> object \<Rightarrow> scheme_error + object" where
  "Add_call ev argument =
     ebind (AsVector argument) (\<lambda>args.
     ebind (efold (\<lambda>sum arg. ebind (number_arg ev ''Add argument is not a number'' arg)
                               (\<lambda>v. ll_add sum v)) 0 args) (\<lambda>sum.
       Inr (Number sum)))"

definition Sub_call :: "evaluator \<Rightarrow> object \<Rightarrow> scheme_error + object" where
  "Sub_call ev argument =
     ebind (AsVector argument) (\<lambda>args.
       if args = [] then Inl (RuntimeError ''Sub has no arguments'')
       else ebind (efold (\<lambda>sub arg. ebind (number_arg ev ''Sub argument is not a number'' arg)
                                      (\<lambda>v. ll_sub sub v)) 0 args) (\<lambda>sub.
            ebind (ev (hd args)) (\<lambda>x.
            ebind (GetValue x) (\<lambda>v.
            ebind (ll_mul 2 v) (\<lambda>w.
            ebind (ll_add sub w) (\<lambda>sub'. Inr (Number sub')))))))"

definition Mul_call :: "evaluator \<Rightarrow> object \<Rightarrow> scheme_error + object" where
  "Mul_call ev argument =
     ebind (AsVector argument) (\<lambda>args.
     ebind (efold (\<lambda>mul arg. ebind (number_arg ev ''Mul argument is not a number'' arg)
                               (\<lambda>v. ll_mul mul v)) 1 args) (\<lambda>mul.
       Inr (Number mul)))"

definition Div_call :: "evaluator \<Rightarrow> object \<Rightarrow> scheme_error + object" where
  "Div_call ev argument =
     ebind (AsVector argument) (\<lambda>args.
       if args = [] then Inl (RuntimeError ''Div has no arguments'')
       else ebind (ev (hd args)) (\<lambda>x.
            ebind (GetValue x) (\<lambda>first.
            ebind (efold (\<lambda>quot arg. ebind (number_arg ev ''Div argument is not a number'' arg)
                     (\<lambda>v. if v = 0 then Inl (RuntimeError ''Div argument is zero'')
                          else ll_div quot v)) first (tl args)) (\<lambda>quot.
              Inr (Number quot)))))"

definition Max_call :: "evaluator \<Rightarrow> object \<Rightarrow> scheme_error + object" where
  "Max_call ev argument =
     ebind (AsVector argument) (\<lambda>args.
       if args = [] then Inl (RuntimeError ''No arguments in max'')
       else ebind (ev (hd args)) (\<lambda>x.
         if \<not> Is_Number x then Inl (RuntimeError ''Max argument is not a number'')
         else ebind (ev (hd args)) (\<lambda>x'.
              ebind (GetValue x') (\<lambda>first.
              ebind (efold (\<lambda>m arg. ebind (number_arg ev ''Max argument is not a number'' arg)
                                      (\<lambda>v. Inr (max m v))) first args) (\<lambda>m.
                Inr (Number m))))))"

definition Min_call :: "evaluator \<Rightarrow> object \<Rightarrow> scheme_error + object" where
  "Min_call ev argument =
     ebind (AsVector argument) (\<lambda>args.
       if args = [] then Inl (RuntimeError ''No arguments in min'')
       else ebind (ev (hd args)) (\<lambda>x.
         if \<not> Is_Number x then Inl (RuntimeError ''Min argument is not a number'')
         else ebind (ev (hd args)) (\<lambda>x'.
              ebind (GetValue x') (\<lambda>first.
              ebind (efold (\<lambda>m arg. ebind (number_arg ev ''Min argument is not a number'' arg)
                                      (\<lambda>v. Inr (min m v))) first args) (\<lambda>m.
                Inr (Number m))))))"

definition Abs_call :: "evaluator \<Rightarrow> object \<Rightarrow> scheme_error + object" where
  "Abs_call ev argument =
     ebind (AsVector argument) (\<lambda>args.
       if length args \<noteq> 1 then Inl (RuntimeError ''Not one arguments in abs'')
       else ebind (ev (hd args)) (\<lambda>x.
         if \<not> Is_Number x then Inl (RuntimeError ''Abs argument is not a number'')
         else ebind (ev (hd args)) (\<lambda>x'.
              ebind (GetValue x') (\<lambda>v.
              ebind (ll_abs v) (\<lambda>a. Inr (Number a))))))"

section \<open>Boolean functions\<close>

definition IsBoolean_call :: "evaluator \<Rightarrow> object \<Rightarrow> scheme_error + object" where
  "IsBoolean_call ev argument =
     (if \<not> Is_Cell argument then Inr (Symbol ''#f'')
      else ebind (GetFirst argument) (\<lambda>first.
           ebind (ev first) (\<lambda>computed_arg.
             if \<not> Is_Symbol computed_arg then Inr (Symbol ''#f'')
             else ebind (GetName computed_arg) (\<lambda>str.
                    Inr (ToBoolean (str = ''#t'' \<or> str = ''#f''))))))"

definition Not_call :: "evaluator \<Rightarrow> object \<Rightarrow> scheme_error + object" where
  "Not_call ev argument =
     (if \<not> Is_Cell argument then Inl (RuntimeError ''Not 1 arg'')
      else ebind (GetSecond argument) (\<lambda>second.
        if second \<noteq> Null then Inl (RuntimeError ''Not 1 arg'')
        else ebind (GetFirst argument) (\<lambda>first.
             ebind (ev first) (\<lambda>computed_arg.
               if \<not> Is_Symbol computed_arg then Inr (Symbol ''#f'')
               else ebind (GetName computed_arg) (\<lambda>name. Inr (ToBoolean (name = ''#f'')))))))"

fun and_loop :: "evaluator \<Rightarrow> object list \<Rightarrow> (scheme_error + object) \<Rightarrow> scheme_error + object" where
  "and_loop ev [] after = after"
| "and_loop ev (arg # args) after =
     ebind (ev arg) (\<lambda>computed_arg.
       if computed_arg = Symbol ''#f'' then Inr (ToBoolean False) else and_loop ev args after)"

definition And_call :: "evaluator \<Rightarrow> object \<Rightarrow> scheme_error + object" where
  "And_call ev argument =
     ebind (AsVector argument) (\<lambda>args.
       and_loop ev args (if args = [] then Inr (ToBoolean True) else ev (last args)))"

fun or_loop :: "evaluator \<Rightarrow> object list \<Rightarrow> scheme_error + object" where
  "or_loop ev [] = Inr (ToBoolean False)"
| "or_loop ev (arg # args) =
     ebind (ev arg) (\<lambda>computed_arg.
       if \<not> Is_Symbol computed_arg \<or> computed_arg = Symbol ''#t'' then Inr computed_arg
       else or_loop ev args)"

definition Or_call :: "evaluator \<Rightarrow> object \<Rightarrow> scheme_error + object" where
  "Or_call ev argument = ebind (AsVector argument) (\<lambda>args. or_loop ev args)"

section \<open>List functions\<close>

definition IsPair_call :: "evaluator \<Rightarrow> object \<Rightarrow> scheme_error + object" where
  "IsPair_call ev argument =
     ebind (GetFirst argument) (\<lambda>first.
     ebind (ev first) (\<lambda>x. Inr (ToBoolean (Is_Cell x))))"

definition IsNull_call :: "evaluator \<Rightarrow> object \<Rightarrow> scheme_error + object" where
  "IsNull_call ev argument =
     ebind (GetFirst argument) (\<lambda>first.
     ebind (ev first) (\<lambda>x. Inr (ToBoolean (x = Null))))"

definition IsList_call :: "evaluator \<Rightarrow> object \<Rightarrow> scheme_error + object" where
  "IsList_call ev argument =
     ebind (GetFirst argument) (\<lambda>first.
     ebind (ev first) (\<lambda>computed_arg.
       case AsVector computed_arg of
         Inl (RuntimeError re) \<Rightarrow> Inr (ToBoolean False)
       | Inl e \<Rightarrow> Inl e
       | Inr _ \<Rightarrow> Inr (ToBoolean True)))"

definition Cons_call :: "evaluator \<Rightarrow> object \<Rightarrow> scheme_error + object" where
  "Cons_call ev argument =
     ebind (GetFirst argument) (\<lambda>a.
     ebind (ev a) (\<lambda>x.
     ebind (GetSecond argument) (\<lambda>second.
     ebind (GetFirst second) (\<lambda>b.
     ebind (ev b) (\<lambda>y. Inr (Cell x y))))))"

definition Car_call :: "evaluator \<Rightarrow> object \<Rightarrow> scheme_error + object" where
  "Car_call ev argument =
     ebind (GetFirst argument) (\<lambda>first.
     ebind (ev first) (\<lambda>computed_arg.
       if computed_arg = Null then Inl (RuntimeError ''null arg in car'')
       else GetFirst computed_arg))"

definition Cdr_call :: "evaluator \<Rightarrow> object \<Rightarrow> scheme_error + object" where
  "Cdr_call ev argument =
     ebind (GetFirst argument) (\<lambda>first.
     ebind (ev first) (\<lambda>computed_arg.
       if computed_arg = Null then Inl (RuntimeError ''null arg in cdr'')
       else GetSecond computed_arg))"

definition List_call :: "object \<Rightarrow> scheme_error + object" where
  "List_call argument = Inr argument"

text \<open>\<open>list[i]\<close> of a vector, which checks nothing.\<close>

definition vector_at :: "'a list \<Rightarrow> int \<Rightarrow> scheme_error + 'a" where
  "vector_at list i = (if 0 \<le> i \<and> i < int (length list) then Inr (list ! nat i) else Inl InvalidIndex)"

definition ListRef_call :: "evaluator \<Rightarrow> object \<Rightarrow> scheme_error + object" where
  "ListRef_call ev argument =
     ebind (GetFirst argument) (\<lambda>first.
     ebind (ev first) (\<lambda>computed_arg.
     ebind (AsVector computed_arg) (\<lambda>list.
     ebind (GetSecond argument) (\<lambda>second.
     ebind (GetFirst second) (\<lambda>index.
     ebind (GetValue index) (\<lambda>i.
       if i < 0 \<or> i \<ge> int (length list) then Inl (RuntimeError ''Incorrect index in list-ref'')
       else vector_at list i))))))"

text \<open>The loop of \<open>list-tail\<close>: the object it stops at and what is left of the counter.\<close>

fun tail_loop :: "object \<Rightarrow> int \<Rightarrow> object \<times> int" where
  "tail_loop (Cell first second) i =
     (if i > 0 then tail_loop second (i - 1) else (Cell first second, i))"
| "tail_loop current i = (current, i)"

definition ListTail_call :: "evaluator \<Rightarrow> object \<Rightarrow> scheme_error + object" where
  "ListTail_call ev argument =
     ebind (GetSecond argument) (\<lambda>second.
     ebind (GetFirst second) (\<lambda>index.
     ebind (GetValue index) (\<lambda>i.
       if i < 0 then Inl (RuntimeError ''Incorrect index in list-tail'')
       else ebind (GetFirst argument) (\<lambda>first.
            ebind (ev first) (\<lambda>computed_arg.
              case tail_loop computed_arg i of (current, i') \<Rightarrow>
                if i' = 0 then Inr current
                else Inl (RuntimeError ''Incorrect index in list-tail''))))))"

section \<open>Evaluation\<close>

text \<open>The virtual call operator.\<close>

fun call :: "evaluator \<Rightarrow> AbstractFunction \<Rightarrow> object \<Rightarrow> scheme_error + object" where
  "call ev QuoteFunction = Quote_call"
| "call ev (CompareFunction compare) = Compare_call ev compare"
| "call ev IsNumberFunction = IsNumber_call ev"
| "call ev AddFunction = Add_call ev"
| "call ev SubFunction = Sub_call ev"
| "call ev MulFunction = Mul_call ev"
| "call ev DivFunction = Div_call ev"
| "call ev MaxFunction = Max_call ev"
| "call ev MinFunction = Min_call ev"
| "call ev AbsFunction = Abs_call ev"
| "call ev IsBooleanFunction = IsBoolean_call ev"
| "call ev NotFunction = Not_call ev"
| "call ev AndFunction = And_call ev"
| "call ev OrFunction = Or_call ev"
| "call ev IsPairFunction = IsPair_call ev"
| "call ev IsNullFunction = IsNull_call ev"
| "call ev IsListFunction = IsList_call ev"
| "call ev ConsFunction = Cons_call ev"
| "call ev CarFunction = Car_call ev"
| "call ev CdrFunction = Cdr_call ev"
| "call ev ListFunction = List_call"
| "call ev ListRefFunction = ListRef_call ev"
| "call ev ListTailFunction = ListTail_call ev"

text \<open>
  A call evaluates parts of its argument only, each smaller than the argument: this is what makes
  \<open>Compute\<close> terminate on every tree.
\<close>

lemma AsVector_smaller: "AsVector obj = Inr args \<Longrightarrow> x \<in> set args \<Longrightarrow> size x < size obj"
  by (induction obj arbitrary: args) (auto simp: less_Suc_eq_le trans_le_add2)

lemma GetFirst_smaller: "GetFirst obj = Inr x \<Longrightarrow> size x < size obj"
  by (cases obj) auto

lemma GetSecond_smaller: "GetSecond obj = Inr x \<Longrightarrow> size x < size obj"
  by (cases obj) auto

lemma GetSecond_GetFirst_smaller:
  "GetSecond obj = Inr y \<Longrightarrow> GetFirst y = Inr x \<Longrightarrow> size x < size obj"
  using GetFirst_smaller GetSecond_smaller less_trans by blast

lemma compare_loop_cong:
  "(\<And>x. x \<in> set args \<Longrightarrow> ev x = ev' x) \<Longrightarrow> compare_loop ev c args = compare_loop ev' c args"
  by (induction ev c args rule: compare_loop.induct) (auto intro!: ebind_cong)

lemma and_loop_cong:
  "(\<And>x. x \<in> set args \<Longrightarrow> ev x = ev' x) \<Longrightarrow> and_loop ev args r = and_loop ev' args r"
  by (induction args) (auto intro!: ebind_cong)

lemma or_loop_cong:
  "(\<And>x. x \<in> set args \<Longrightarrow> ev x = ev' x) \<Longrightarrow> or_loop ev args = or_loop ev' args"
  by (induction args) (auto intro!: ebind_cong)

lemma number_arg_cong: "ev x = ev' x \<Longrightarrow> number_arg ev msg x = number_arg ev' msg x"
  by (simp add: number_arg_def)

lemmas vector_call_defs = Compare_call_def Add_call_def Sub_call_def Mul_call_def Div_call_def
  Max_call_def Min_call_def Abs_call_def And_call_def Or_call_def

lemmas cell_call_defs = IsNumber_call_def IsBoolean_call_def Not_call_def IsPair_call_def
  IsNull_call_def IsList_call_def Cons_call_def Car_call_def Cdr_call_def ListRef_call_def
  ListTail_call_def

lemmas call_defs = vector_call_defs cell_call_defs Quote_call_def List_call_def

lemma call_cong [fundef_cong]:
  assumes "f = f'" and "argument = argument'"
    and ev: "\<And>x. size x < size argument' \<Longrightarrow> ev x = ev' x"
  shows "call ev f argument = call ev' f' argument'"
proof -
  have "call ev f' argument' = call ev' f' argument'"
  proof (cases "AsVector argument'")
    case (Inl e)
    then show ?thesis
      by (cases f') (auto simp: call_defs
          dest: GetFirst_smaller GetSecond_GetFirst_smaller intro!: ebind_cong ev)
  next
    case (Inr args)
    then have args: "x \<in> set args \<Longrightarrow> ev x = ev' x" for x
      using ev AsVector_smaller by blast
    then have hd: "args \<noteq> [] \<Longrightarrow> ev (hd args) = ev' (hd args)"
      and last: "args \<noteq> [] \<Longrightarrow> ev (last args) = ev' (last args)"
      and hd1: "length args = Suc 0 \<Longrightarrow> ev (hd args) = ev' (hd args)"
      by (auto simp: length_Suc_conv)
    show ?thesis
      by (cases f') (auto simp: call_defs Inr args hd last hd1
          dest: GetFirst_smaller GetSecond_GetFirst_smaller list.set_sel(2) AsVector_smaller [OF Inr]
          intro!: ebind_cong efold_cong compare_loop_cong and_loop_cong or_loop_cong
            number_arg_cong ev)
  qed
  then show ?thesis using assms by simp
qed

function Compute :: "object \<Rightarrow> scheme_error + object" where
  "Compute Null = Inl (RuntimeError ''nullptr'')"
| "Compute (Number v) = Inr (Number v)"
| "Compute (Symbol name) =
     (if name = ''#t'' \<or> name = ''#f'' then Inr (Symbol name)
      else if name = ''some-unknown-token-which-eval-will-crash''
      then Inl (RuntimeError ''crash'')
      else Inr (Symbol name))"
| "Compute (Cell first second) =
     ebind (GetFunction first) (\<lambda>func. call Compute func second)"
  by pat_completeness auto
termination by (relation "measure size") auto

section \<open>Printing\<close>

definition digit_of :: "nat \<Rightarrow> char" where
  "digit_of d = char_of (48 + d)"

fun nat_string :: "nat \<Rightarrow> string" where
  "nat_string n = (if n < 10 then [digit_of n] else nat_string (n div 10) @ [digit_of (n mod 10)])"

declare nat_string.simps [simp del]

text \<open>\<open>std::to_string\<close> of an integer.\<close>

definition to_string :: "int \<Rightarrow> string" where
  "to_string v = (if v < 0 then CHR ''-'' # nat_string (nat (- v)) else nat_string (nat v))"

fun Serialize :: "object \<Rightarrow> bool \<Rightarrow> string" where
  "Serialize Null ongoing = (if \<not> ongoing then ''()'' else [])"
| "Serialize (Number v) ongoing = to_string v"
| "Serialize (Symbol name) ongoing = name"
| "Serialize (Cell first second) ongoing =
     (let s = Serialize first False;
          s' = (if Is_Cell second then s @ '' '' @ Serialize second True
                else if second \<noteq> Null then s @ '' . '' @ Serialize second True
                else s)
      in if \<not> ongoing then ''('' @ s' @ '')'' else s')"

section \<open>The interpreter\<close>

definition Run :: "string \<Rightarrow> scheme_error + string" where
  "Run str =
     ebind (Read (Tokenizer_new str)) (\<lambda>(obj, _).
     ebind (Compute obj) (\<lambda>obj'. Inr (Serialize obj' False)))"

end
