(* ===== verification/Memory.thy ===== *)
theory Memory
  imports Tokenizer
begin

text \<open>
  The memory of the interpreter with variables (\<open>tasks/scheme/advanced/scheme_memory.h\<close> and
  \<open>scheme_memory.cpp\<close>). A \<open>Variable\<close> is shared: it is reached through the storage and through the
  contexts of lambdas, so variables live in a store of their own (\<open>mem_vars\<close>, a
  \<open>shared_ptr<Variable>\<close> is an index into it) and \<open>storage_\<close> is a list of indices, its back at the
  end. The type of the values is a parameter. \<open>defined_variables_counter_\<close> is a map.
\<close>

section \<open>State\<close>

record 'v memory =
  mem_vars :: "(string \<times> 'v) list"
  storage :: "nat list"
  counter :: "string \<Rightarrow> nat option"

definition Memory_new :: "'v memory" where
  "Memory_new = \<lparr>mem_vars = [], storage = [], counter = Map.empty\<rparr>"

definition var_name :: "'v memory \<Rightarrow> nat \<Rightarrow> string" where
  "var_name mem a = fst (mem_vars mem ! a)"

definition var_value :: "'v memory \<Rightarrow> nat \<Rightarrow> 'v" where
  "var_value mem a = snd (mem_vars mem ! a)"

definition Variable_SetValue :: "nat \<Rightarrow> 'v \<Rightarrow> 'v memory \<Rightarrow> 'v memory" where
  "Variable_SetValue a value mem = mem\<lparr>mem_vars := (mem_vars mem)[a := (var_name mem a, value)]\<rparr>"

definition make_Variable :: "string \<Rightarrow> 'v \<Rightarrow> 'v memory \<Rightarrow> nat \<times> 'v memory" where
  "make_Variable name value mem =
     (length (mem_vars mem), mem\<lparr>mem_vars := mem_vars mem @ [(name, value)]\<rparr>)"

section \<open>Operations\<close>

definition IsDefined :: "string \<Rightarrow> 'v memory \<Rightarrow> bool" where
  "IsDefined name mem \<longleftrightarrow> counter mem name \<noteq> None \<and> counter mem name \<noteq> Some 0"

definition Inc :: "string \<Rightarrow> 'v memory \<Rightarrow> 'v memory" where
  "Inc name mem =
     (let c = (if \<not> IsDefined name mem then (counter mem)(name \<mapsto> 0) else counter mem)
      in mem\<lparr>counter := c(name \<mapsto> Suc (the (c name)))\<rparr>)"

definition Dec :: "string \<Rightarrow> 'v memory \<Rightarrow> 'v memory" where
  "Dec name mem =
     (if \<not> IsDefined name mem then mem
      else if counter mem name = Some 0 then mem
      else mem\<lparr>counter := (counter mem)(name \<mapsto> the (counter mem name) - 1)\<rparr>)"

definition DefineShared :: "nat \<Rightarrow> 'v memory \<Rightarrow> 'v memory" where
  "DefineShared a mem = Inc (var_name mem a) (mem\<lparr>storage := storage mem @ [a]\<rparr>)"

definition DefineVariable :: "string \<Rightarrow> 'v \<Rightarrow> 'v memory \<Rightarrow> 'v memory" where
  "DefineVariable name value mem =
     (let (a, mem') = make_Variable name value mem
      in Inc name (mem'\<lparr>storage := storage mem' @ [a]\<rparr>))"

text \<open>The default constructor of \<open>Variable\<close>: an empty name, a null value.\<close>

definition SetEndOfScope :: "'v \<Rightarrow> 'v memory \<Rightarrow> 'v memory" where
  "SetEndOfScope null mem =
     (let (a, mem') = make_Variable [] null mem in mem'\<lparr>storage := storage mem' @ [a]\<rparr>)"

definition IsEndOfScope :: "int \<Rightarrow> 'v memory \<Rightarrow> bool" where
  "IsEndOfScope index mem \<longleftrightarrow> index = -1 \<or> var_name mem (storage mem ! nat index) = []"

text \<open>The loops of \<open>SetVariable\<close> and \<open>GetVariable\<close>, from the back of the storage.\<close>

fun find_back :: "'v memory \<Rightarrow> string \<Rightarrow> nat list \<Rightarrow> nat option" where
  "find_back mem name [] = None"
| "find_back mem name (a # as) = (if var_name mem a = name then Some a else find_back mem name as)"

definition not_defined :: "string \<Rightarrow> scheme_error" where
  "not_defined name = NameError (''Variable '' @ name @ '' is not defined'')"

definition SetVariable :: "string \<Rightarrow> 'v \<Rightarrow> 'v memory \<Rightarrow> scheme_error + 'v memory" where
  "SetVariable name value mem =
     (case find_back mem name (rev (storage mem)) of
        Some a \<Rightarrow> Inr (Variable_SetValue a value mem)
      | None \<Rightarrow> Inl (not_defined name))"

definition GetVariable :: "string \<Rightarrow> 'v memory \<Rightarrow> scheme_error + 'v" where
  "GetVariable name mem =
     (case find_back mem name (rev (storage mem)) of
        Some a \<Rightarrow> Inr (var_value mem a)
      | None \<Rightarrow> Inl (not_defined name))"

definition pop_back :: "'v memory \<Rightarrow> 'v memory" where
  "pop_back mem = (Dec (var_name mem (last (storage mem))) mem)\<lparr>storage := butlast (storage mem)\<rparr>"

function pop_loop :: "'v memory \<Rightarrow> 'v memory" where
  "pop_loop mem =
     (if IsEndOfScope (int (length (storage mem)) - 1) mem then mem else pop_loop (pop_back mem))"
  by pat_completeness auto
termination
proof (relation "measure (\<lambda>mem. length (storage mem))", goal_cases)
  case (2 mem)
  then show ?case by (cases "storage mem") (auto simp: IsEndOfScope_def pop_back_def)
qed simp

declare pop_loop.simps [simp del]

definition Pop :: "'v memory \<Rightarrow> 'v memory" where
  "Pop mem =
     (let mem' = pop_loop mem in if storage mem' \<noteq> [] then pop_back mem' else mem')"

text \<open>The variables above the last end of scope, bottom first.\<close>

definition GetContext :: "'v memory \<Rightarrow> nat list" where
  "GetContext mem = rev (takeWhile (\<lambda>a. var_name mem a \<noteq> []) (rev (storage mem)))"

definition Clear :: "'v memory \<Rightarrow> 'v memory" where
  "Clear mem = mem\<lparr>storage := [], counter := Map.empty\<rparr>"

section \<open>Invariant\<close>

definition entries :: "string \<Rightarrow> 'v memory \<Rightarrow> nat" where
  "entries name mem = length (filter (\<lambda>a. var_name mem a = name) (storage mem))"

definition defined_count :: "string \<Rightarrow> 'v memory \<Rightarrow> nat" where
  "defined_count name mem = (case counter mem name of None \<Rightarrow> 0 | Some n \<Rightarrow> n)"

text \<open>Every address is allocated and the counter of a name counts its entries in the storage.\<close>

definition mem_ok :: "'v memory \<Rightarrow> bool" where
  "mem_ok mem \<longleftrightarrow> (\<forall>a \<in> set (storage mem). a < length (mem_vars mem)) \<and>
     (\<forall>name. name \<noteq> [] \<longrightarrow> defined_count name mem = entries name mem)"

lemma mem_okD:
  assumes "mem_ok mem"
  shows "a \<in> set (storage mem) \<Longrightarrow> a < length (mem_vars mem)"
    and "name \<noteq> [] \<Longrightarrow> defined_count name mem = entries name mem"
  using assms by (auto simp: mem_ok_def)

lemma IsDefined_count: "IsDefined name mem \<longleftrightarrow> 0 < defined_count name mem"
  by (auto simp: IsDefined_def defined_count_def split: option.splits)

lemma Inc_simps [simp]:
  "mem_vars (Inc name mem) = mem_vars mem" "storage (Inc name mem) = storage mem"
  "defined_count n (Inc name mem) = defined_count n mem + (if n = name then 1 else 0)"
  by (auto simp: Inc_def Let_def defined_count_def IsDefined_def split: option.splits)

lemma Dec_simps [simp]:
  "mem_vars (Dec name mem) = mem_vars mem" "storage (Dec name mem) = storage mem"
  "defined_count n (Dec name mem) = defined_count n mem - (if n = name then 1 else 0)"
  by (auto simp: Dec_def defined_count_def IsDefined_def split: option.splits)

lemma var_name_cong: "mem_vars mem = mem_vars mem' \<Longrightarrow> var_name mem = var_name mem'"
  by (auto simp: var_name_def)

lemma var_name_Inc [simp]: "var_name (Inc n mem) = var_name mem" "var_name (Dec n mem) = var_name mem"
  "var_name (mem\<lparr>storage := xs\<rparr>) = var_name mem" "var_name (mem\<lparr>counter := c\<rparr>) = var_name mem"
  by (auto intro: var_name_cong)

lemma defined_count_storage [simp]: "defined_count n (mem\<lparr>storage := xs\<rparr>) = defined_count n mem"
  "defined_count n (mem\<lparr>mem_vars := vs\<rparr>) = defined_count n mem"
  by (simp_all add: defined_count_def)

lemma find_back_eq: "find_back mem name as = find (\<lambda>a. var_name mem a = name) as"
  by (induction as) auto

lemma find_back_None: "find_back mem name as = None \<longleftrightarrow> (\<forall>a \<in> set as. var_name mem a \<noteq> name)"
  by (auto simp: find_back_eq find_None_iff)

lemma find_back_Some: "find_back mem name as = Some a \<Longrightarrow> a \<in> set as \<and> var_name mem a = name"
  by (induction as) (auto split: if_splits)

lemma entries_0: "entries name mem = 0 \<longleftrightarrow> (\<forall>a \<in> set (storage mem). var_name mem a \<noteq> name)"
  by (auto simp: entries_def filter_empty_conv)

lemma var_name_make:
  assumes "make_Variable n v mem = (a, mem')"
  shows "var_name mem' a = n" and "b < length (mem_vars mem) \<Longrightarrow> var_name mem' b = var_name mem b"
    and "storage mem' = storage mem" and "counter mem' = counter mem" and "a = length (mem_vars mem)"
    and "length (mem_vars mem') = Suc (length (mem_vars mem))"
  using assms by (auto simp: make_Variable_def var_name_def nth_append)

lemma entries_storage: "entries n (mem\<lparr>storage := xs\<rparr>) = length (filter (\<lambda>a. var_name mem a = n) xs)"
  by (simp add: entries_def)

lemma entries_Inc [simp]: "entries n (Inc m mem) = entries n mem" "entries n (Dec m mem) = entries n mem"
  by (simp_all add: entries_def)

lemma entries_make:
  assumes "make_Variable n v mem = (a, mem')" and "mem_ok mem"
  shows "length (filter (\<lambda>a. var_name mem' a = m) (storage mem)) = entries m mem"
proof -
  have "filter (\<lambda>a. var_name mem' a = m) (storage mem) = filter (\<lambda>a. var_name mem a = m) (storage mem)"
    using mem_okD(1) [OF assms(2)] var_name_make(2) [OF assms(1)] by (intro filter_cong) auto
  then show ?thesis by (simp add: entries_def)
qed

lemma defined_count_make: "make_Variable n v mem = (a, mem') \<Longrightarrow> defined_count m mem' = defined_count m mem"
  by (auto simp: make_Variable_def)

lemma storage_update_triv [simp]: "mem\<lparr>storage := storage mem\<rparr> = mem"
  by simp

lemma mem_ok_new [simp]: "mem_ok Memory_new"
  by (simp add: mem_ok_def Memory_new_def defined_count_def entries_def)

lemma mem_ok_DefineVariable [inv_intros]:
  assumes "mem_ok mem"
  shows "mem_ok (DefineVariable n v mem)"
proof -
  obtain a mem' where mk: "make_Variable n v mem = (a, mem')" by fastforce
  note d = mem_okD [OF assms]
  have "b \<in> set (storage mem) \<Longrightarrow> b < Suc (length (mem_vars mem))" for b
    using d(1) [of b] by simp
  then show ?thesis
    using d(2) var_name_make [OF mk] defined_count_make [OF mk] entries_make [OF mk assms]
    by (auto simp: DefineVariable_def mk mem_ok_def entries_storage)
qed

lemma mem_ok_DefineShared [inv_intros]:
  "mem_ok mem \<Longrightarrow> a < length (mem_vars mem) \<Longrightarrow> mem_ok (DefineShared a mem)"
  by (auto simp: DefineShared_def mem_ok_def entries_storage) (auto simp: entries_def)

lemma mem_ok_SetEndOfScope [inv_intros]:
  assumes "mem_ok mem"
  shows "mem_ok (SetEndOfScope null mem)"
proof -
  obtain a mem' where mk: "make_Variable [] null mem = (a, mem')" by fastforce
  note d = mem_okD [OF assms]
  have "b \<in> set (storage mem) \<Longrightarrow> b < Suc (length (mem_vars mem))" for b
    using d(1) [of b] by simp
  then show ?thesis
    using d(2) var_name_make [OF mk] defined_count_make [OF mk] entries_make [OF mk assms]
    by (auto simp: SetEndOfScope_def mk mem_ok_def entries_storage)
qed

lemma var_name_SetValue [simp]: "var_name (Variable_SetValue a v mem) = var_name mem"
proof
  fix b
  show "var_name (Variable_SetValue a v mem) b = var_name mem b"
    by (cases "a < length (mem_vars mem)")
      (auto simp: Variable_SetValue_def var_name_def nth_list_update list_update_beyond)
qed

lemma SetValue_simps [simp]:
  "storage (Variable_SetValue a v mem) = storage mem"
  "length (mem_vars (Variable_SetValue a v mem)) = length (mem_vars mem)"
  "defined_count n (Variable_SetValue a v mem) = defined_count n mem"
  "entries n (Variable_SetValue a v mem) = entries n mem"
proof -
  show "storage (Variable_SetValue a v mem) = storage mem"
    "length (mem_vars (Variable_SetValue a v mem)) = length (mem_vars mem)"
    "defined_count n (Variable_SetValue a v mem) = defined_count n mem"
    by (simp_all add: Variable_SetValue_def)
  then show "entries n (Variable_SetValue a v mem) = entries n mem"
    by (simp add: entries_def)
qed

lemma mem_ok_SetVariable:
  "mem_ok mem \<Longrightarrow> SetVariable n v mem = Inr mem' \<Longrightarrow> mem_ok mem'"
  by (auto simp: SetVariable_def mem_ok_def split: option.splits)

lemma mem_ok_pop_back:
  assumes "mem_ok mem" and "storage mem \<noteq> []"
  shows "mem_ok (pop_back mem)"
proof -
  obtain xs a where s: "storage mem = xs @ [a]" using assms(2) by (cases "storage mem" rule: rev_cases) auto
  have "entries n mem = entries n (mem\<lparr>storage := xs\<rparr>) + (if var_name mem a = n then 1 else 0)" for n
    by (simp add: entries_def s)
  then show ?thesis
    using mem_okD [OF assms(1)] by (auto simp: pop_back_def mem_ok_def s entries_def)
qed

lemma pop_back_simps [simp]:
  "storage (pop_back mem) = butlast (storage mem)" "mem_vars (pop_back mem) = mem_vars mem"
  "var_name (pop_back mem) = var_name mem"
  by (simp_all add: pop_back_def)

lemma IsEndOfScope_last:
  "IsEndOfScope (int (length (storage mem)) - 1) mem \<longleftrightarrow>
     storage mem = [] \<or> var_name mem (last (storage mem)) = []"
  by (cases "storage mem" rule: rev_cases) (auto simp: IsEndOfScope_def)

lemma pop_loop_facts:
  "storage (pop_loop mem) = rev (dropWhile (\<lambda>a. var_name mem a \<noteq> []) (rev (storage mem)))"
  "mem_vars (pop_loop mem) = mem_vars mem" "mem_ok mem \<Longrightarrow> mem_ok (pop_loop mem)"
proof (induction mem rule: pop_loop.induct)
  case (1 mem)
  {
    case 1
    show ?case
    proof (cases "storage mem" rule: rev_cases)
      case (snoc xs a)
      with "1.IH" show ?thesis
        unfolding IsEndOfScope_last
        by (subst pop_loop.simps, subst IsEndOfScope_last) auto
    qed (subst pop_loop.simps, simp add: IsEndOfScope_def)
  next
    case 2
    with "1.IH" show ?case by (subst pop_loop.simps) (auto simp: IsEndOfScope_last)
  next
    case 3
    with "1.IH" show ?case
      by (subst pop_loop.simps) (auto simp: IsEndOfScope_last mem_ok_pop_back)
  }
qed

lemma mem_ok_Pop [inv_intros]: "mem_ok mem \<Longrightarrow> mem_ok (Pop mem)"
  using pop_loop_facts(3) by (auto simp: Pop_def Let_def mem_ok_pop_back)

lemma mem_ok_Clear [inv_intros]: "mem_ok mem \<Longrightarrow> mem_ok (Clear mem)"
  by (auto simp: Clear_def mem_ok_def defined_count_def entries_def)

text \<open>\<open>IsDefined\<close> is what makes \<open>GetVariable\<close> return.\<close>

lemma IsDefined_iff_find:
  assumes "mem_ok mem" and "name \<noteq> []"
  shows "IsDefined name mem \<longleftrightarrow> find_back mem name (rev (storage mem)) \<noteq> None"
  unfolding IsDefined_count mem_okD(2) [OF assms] neq0_conv [symmetric] entries_0 find_back_None
  by simp

section \<open>Scopes\<close>

text \<open>The storage as a stack of scopes, the innermost first; each lists its variables, the latest
  first. The outermost scope has no end-of-scope entry below it.\<close>

fun scopes_of :: "(nat \<Rightarrow> string) \<Rightarrow> nat list \<Rightarrow> nat list list" where
  "scopes_of nm [] = [[]]"
| "scopes_of nm (a # as) =
     (if nm a = [] then [] # scopes_of nm as
      else (a # hd (scopes_of nm as)) # tl (scopes_of nm as))"

definition scopes :: "'v memory \<Rightarrow> nat list list" where
  "scopes mem = scopes_of (var_name mem) (rev (storage mem))"

lemma scopes_of_not_Nil [simp]: "scopes_of nm as \<noteq> []"
  by (induction as) auto

lemma scopes_of_cong: "(\<And>a. a \<in> set as \<Longrightarrow> nm a = nm' a) \<Longrightarrow> scopes_of nm as = scopes_of nm' as"
  by (induction as) auto

lemma scopes_not_Nil [simp]: "scopes mem \<noteq> []"
  by (simp add: scopes_def)

lemma scopes_of_takeWhile: "hd (scopes_of nm as) = takeWhile (\<lambda>a. nm a \<noteq> []) as"
  by (induction as) auto

lemma scopes_of_dropWhile:
  "tl (scopes_of nm as) = (case dropWhile (\<lambda>a. nm a \<noteq> []) as of [] \<Rightarrow> [] | _ # bs \<Rightarrow> scopes_of nm bs)"
  by (induction as) auto

lemma GetContext_scopes: "GetContext mem = rev (hd (scopes mem))"
  by (simp add: GetContext_def scopes_def scopes_of_takeWhile)

lemma scopes_Pop: "scopes (Pop mem) = (if tl (scopes mem) = [] then [[]] else tl (scopes mem))"
proof -
  let ?d = "dropWhile (\<lambda>a. var_name mem a \<noteq> []) (rev (storage mem))"
  have n: "var_name (pop_loop mem) = var_name mem" by (rule var_name_cong) (simp add: pop_loop_facts)
  show ?thesis
    by (cases ?d) (simp_all add: Pop_def Let_def scopes_def n pop_loop_facts(1) scopes_of_dropWhile
        butlast_append del: dropWhile_eq_Nil_conv)
qed

lemma scopes_DefineVariable:
  assumes "mem_ok mem" and "n \<noteq> []"
  shows "scopes (DefineVariable n v mem) =
    (length (mem_vars mem) # hd (scopes mem)) # tl (scopes mem)"
proof -
  obtain a mem' where mk: "make_Variable n v mem = (a, mem')" by fastforce
  have "scopes_of (var_name mem') (rev (storage mem)) = scopes mem"
    unfolding scopes_def using var_name_make [OF mk] mem_okD(1) [OF assms(1)]
    by (intro scopes_of_cong) auto
  then show ?thesis using var_name_make [OF mk] assms(2)
    by (simp add: DefineVariable_def mk scopes_def)
qed

lemma scopes_DefineShared:
  assumes "var_name mem a \<noteq> []"
  shows "scopes (DefineShared a mem) = (a # hd (scopes mem)) # tl (scopes mem)"
  using assms by (simp add: DefineShared_def scopes_def)

lemma scopes_SetEndOfScope:
  assumes "mem_ok mem"
  shows "scopes (SetEndOfScope null mem) = [] # scopes mem"
proof -
  obtain a mem' where mk: "make_Variable [] null mem = (a, mem')" by fastforce
  have "scopes_of (var_name mem') (rev (storage mem)) = scopes mem"
    unfolding scopes_def using var_name_make [OF mk] mem_okD(1) [OF assms(1)]
    by (intro scopes_of_cong) auto
  then show ?thesis using var_name_make [OF mk] by (simp add: SetEndOfScope_def mk scopes_def)
qed

lemma scopes_SetVariable: "SetVariable n v mem = Inr mem' \<Longrightarrow> scopes mem' = scopes mem"
  by (auto simp: SetVariable_def scopes_def split: option.splits)

lemma find_scopes_of:
  assumes "n \<noteq> []"
  shows "find (\<lambda>a. nm a = n) (concat (scopes_of nm as)) = find (\<lambda>a. nm a = n) as"
proof (induction as)
  case (Cons a as)
  obtain s ss where "scopes_of nm as = s # ss" using scopes_of_not_Nil [of nm as] by (cases "scopes_of nm as") auto
  then show ?case using Cons assms by auto
qed simp

text \<open>Lookup is lookup in the scopes, innermost first: scoping is dynamic.\<close>

definition find_var :: "string \<Rightarrow> 'v memory \<Rightarrow> nat option" where
  "find_var name mem = find (\<lambda>a. var_name mem a = name) (concat (scopes mem))"

lemma find_back_scopes:
  "name \<noteq> [] \<Longrightarrow> find_back mem name (rev (storage mem)) = find_var name mem"
  by (simp add: find_back_eq find_var_def scopes_def find_scopes_of)

section \<open>The contract of the memory\<close>

text \<open>
  What the interpreter relies on: a stack of scopes (\<open>stack\<close>, lists of variables), with a definition
  that pushes a fresh variable on the innermost scope, a scope that is opened empty and discarded
  whole, a lookup that searches the scopes from the innermost one and fails exactly when the name
  is not defined.
\<close>

locale scope_memory =
  fixes inv :: "'m \<Rightarrow> bool" and stack :: "'m \<Rightarrow> nat list list" and name_of :: "'m \<Rightarrow> nat \<Rightarrow> string"
    and size_of :: "'m \<Rightarrow> nat"
    and open_scope :: "'m \<Rightarrow> 'm" and close_scope :: "'m \<Rightarrow> 'm"
    and def :: "string \<Rightarrow> 'v \<Rightarrow> 'm \<Rightarrow> 'm" and share :: "nat \<Rightarrow> 'm \<Rightarrow> 'm"
  assumes inv_open: "inv m \<Longrightarrow> inv (open_scope m)"
    and inv_close: "inv m \<Longrightarrow> inv (close_scope m)"
    and inv_def: "inv m \<Longrightarrow> inv (def n v m)"
    and inv_share: "inv m \<Longrightarrow> a < size_of m \<Longrightarrow> inv (share a m)"
    and names: "inv m \<Longrightarrow> a < size_of m \<Longrightarrow> name_of (def n v m) a = name_of m a"
      "inv m \<Longrightarrow> a < size_of m \<Longrightarrow> name_of (open_scope m) a = name_of m a"
      "name_of (share b m) = name_of m"
    and sizes: "size_of (def n v m) = Suc (size_of m)" "size_of (open_scope m) = Suc (size_of m)"
      "size_of (share a m) = size_of m"
    and stack_open: "inv m \<Longrightarrow> stack (open_scope m) = [] # stack m"
    and stack_close: "tl (stack m) \<noteq> [] \<Longrightarrow> stack (close_scope m) = tl (stack m)"
    and stack_def: "inv m \<Longrightarrow> n \<noteq> [] \<Longrightarrow>
      stack (def n v m) = (size_of m # hd (stack m)) # tl (stack m)"
    and stack_share: "name_of m a \<noteq> [] \<Longrightarrow> stack (share a m) = (a # hd (stack m)) # tl (stack m)"
    and stack_ne: "stack m \<noteq> []"
begin

lemma shares:
  assumes "inv m" and "\<forall>a \<in> set as. a < size_of m \<and> name_of m a \<noteq> []"
  shows "inv (fold share as m)" and "stack (fold share as m) = (rev as @ hd (stack m)) # tl (stack m)"
    and "size_of (fold share as m) = size_of m" and "name_of (fold share as m) = name_of m"
proof -
  have "inv (fold share as m) \<and> stack (fold share as m) = (rev as @ hd (stack m)) # tl (stack m) \<and>
      size_of (fold share as m) = size_of m \<and> name_of (fold share as m) = name_of m"
    using assms
  proof (induction as arbitrary: m)
    case (Cons a as)
    have "inv (share a m)" using Cons.prems inv_share by simp
    from Cons.IH [OF this] Cons.prems show ?case
      by (simp add: sizes names(3) stack_share)
  qed (simp add: stack_ne)
  then show "inv (fold share as m)" and "stack (fold share as m) = (rev as @ hd (stack m)) # tl (stack m)"
    and "size_of (fold share as m) = size_of m" and "name_of (fold share as m) = name_of m" by auto
qed

lemma defs:
  assumes "inv m" and "\<forall>(n, v) \<in> set ds. n \<noteq> []"
  shows "inv (fold (\<lambda>(n, v). def n v) ds m)"
    and "tl (stack (fold (\<lambda>(n, v). def n v) ds m)) = tl (stack m)"
    and "size_of (fold (\<lambda>(n, v). def n v) ds m) = size_of m + length ds"
proof -
  have "inv (fold (\<lambda>(n, v). def n v) ds m) \<and>
      tl (stack (fold (\<lambda>(n, v). def n v) ds m)) = tl (stack m) \<and>
      size_of (fold (\<lambda>(n, v). def n v) ds m) = size_of m + length ds"
    using assms
  proof (induction ds arbitrary: m)
    case (Cons d ds)
    obtain n v where d: "d = (n, v)" by (cases d)
    have "inv (def n v m)" using Cons.prems inv_def by simp
    from Cons.IH [OF this] Cons.prems d show ?case by (auto simp: stack_def sizes)
  qed simp
  then show "inv (fold (\<lambda>(n, v). def n v) ds m)"
    and "tl (stack (fold (\<lambda>(n, v). def n v) ds m)) = tl (stack m)"
    and "size_of (fold (\<lambda>(n, v). def n v) ds m) = size_of m + length ds" by auto
qed

text \<open>A call: open a scope, define the context and the parameters, leave the scope.\<close>

lemma call_frame:
  assumes "inv m" and "\<forall>a \<in> set ctx. a < size_of m \<and> name_of m a \<noteq> []"
    and "\<forall>(n, v) \<in> set ps. n \<noteq> []"
  shows "stack (close_scope (fold (\<lambda>(n, v). def n v) ps (fold share ctx (open_scope m)))) = stack m"
proof -
  let ?m1 = "open_scope m" let ?m2 = "fold share ctx ?m1"
  have 1: "inv ?m1" "stack ?m1 = [] # stack m" using assms(1) inv_open stack_open by auto
  have ctx: "\<forall>a \<in> set ctx. a < size_of ?m1 \<and> name_of ?m1 a \<noteq> []"
    using assms(1,2) names(2) sizes by auto
  note 2 = shares [OF 1(1) ctx] and 3 = defs [OF shares(1) [OF 1(1) ctx] assms(3)]
  have "tl (stack (fold (\<lambda>(n, v). def n v) ps ?m2)) = stack m" using 2(2) 3(2) 1(2) by simp
  then show ?thesis using stack_close stack_ne by metis
qed

end

lemma DefineVariable_vars:
  "a < length (mem_vars mem) \<Longrightarrow> var_name (DefineVariable n v mem) a = var_name mem a"
  "length (mem_vars (DefineVariable n v mem)) = Suc (length (mem_vars mem))"
  "a < length (mem_vars mem) \<Longrightarrow> var_name (SetEndOfScope v mem) a = var_name mem a"
  "length (mem_vars (SetEndOfScope v mem)) = Suc (length (mem_vars mem))"
  "var_name (DefineShared a mem) = var_name mem"
  "length (mem_vars (DefineShared a mem)) = length (mem_vars mem)"
  by (simp_all add: DefineVariable_def SetEndOfScope_def DefineShared_def make_Variable_def)
    (simp_all add: var_name_def nth_append)

interpretation mem: scope_memory mem_ok scopes var_name "\<lambda>mem. length (mem_vars mem)"
  "SetEndOfScope null" Pop DefineVariable DefineShared for null :: 'v
  by unfold_locales
    (auto intro: inv_intros simp: DefineVariable_vars scopes_SetEndOfScope scopes_Pop
      scopes_DefineVariable scopes_DefineShared)

section \<open>Lookup\<close>

lemma GetVariable_find:
  "name \<noteq> [] \<Longrightarrow> GetVariable name mem =
     (case find_var name mem of Some a \<Rightarrow> Inr (var_value mem a) | None \<Rightarrow> Inl (not_defined name))"
  by (simp add: GetVariable_def find_back_scopes)

definition vars_extend :: "'v memory \<Rightarrow> 'v memory \<Rightarrow> bool" where
  "vars_extend mem mem' \<longleftrightarrow> length (mem_vars mem) \<le> length (mem_vars mem') \<and>
     (\<forall>a < length (mem_vars mem). mem_vars mem' ! a = mem_vars mem ! a)"

lemma vars_extend_refl [simp]: "vars_extend mem mem"
  by (simp add: vars_extend_def)

lemma vars_extend_trans: "vars_extend m1 m2 \<Longrightarrow> vars_extend m2 m3 \<Longrightarrow> vars_extend m1 m3"
  by (auto simp: vars_extend_def)

lemma vars_extend_ops:
  "vars_extend mem (DefineVariable n v mem)" "vars_extend mem (SetEndOfScope v mem)"
  "vars_extend mem (DefineShared a mem)" "vars_extend mem (Pop mem)"
  by (simp_all add: vars_extend_def DefineVariable_def SetEndOfScope_def DefineShared_def
      make_Variable_def Pop_def Let_def pop_loop_facts nth_append)

lemma vars_extend_fold:
  assumes "\<And>x m. vars_extend m (f x m)"
  shows "vars_extend m (fold f xs m)"
  using assms vars_extend_trans by (induction xs arbitrary: m) (simp, fastforce)

lemma find_var_vars:
  assumes "mem_ok mem" and "vars_extend mem mem'" and "scopes mem' = scopes mem" and "name \<noteq> []"
  shows "find_var name mem' = find_var name mem" and "GetVariable name mem' = GetVariable name mem"
proof -
  have bound: "a < length (mem_vars mem)" if "a \<in> set (concat (scopes mem))" for a
  proof -
    have "a \<in> set (concat (scopes_of nm as)) \<Longrightarrow> a \<in> set as" for nm as
    proof (induction as)
      case (Cons b as)
      then show ?case
        by (cases "scopes_of nm as") (auto split: if_splits)
    qed simp
    from this [of "var_name mem" "rev (storage mem)"] have "a \<in> set (storage mem)"
      using that by (simp add: scopes_def)
    then show ?thesis using mem_okD(1) [OF assms(1)] by blast
  qed
  have nm: "var_name mem' a = var_name mem a" "var_value mem' a = var_value mem a"
    if "a \<in> set (concat (scopes mem))" for a
    using bound [OF that] assms(2) by (simp_all add: vars_extend_def var_name_def var_value_def)
  have "find (\<lambda>a. var_name mem' a = name) xs = find (\<lambda>a. var_name mem a = name) xs"
    if "set xs \<subseteq> set (concat (scopes mem))" for xs
    using that nm(1) by (induction xs) auto
  then show f: "find_var name mem' = find_var name mem" by (simp add: find_var_def assms(3))
  have v: "find_var name mem = Some a \<Longrightarrow> var_value mem' a = var_value mem a" for a
    using nm(2) by (auto simp: find_var_def find_Some_iff dest!: nth_mem)
  show "GetVariable name mem' = GetVariable name mem"
    by (simp add: GetVariable_find [OF assms(4)] f v split: option.split)
qed

lemma find_back_cong:
  "(\<And>a. a \<in> set as \<Longrightarrow> var_name m a = var_name m' a) \<Longrightarrow> find_back m n as = find_back m' n as"
  by (induction as) auto

lemma lookup_define:
  assumes "mem_ok mem"
  shows "GetVariable name (DefineVariable name v mem) = Inr v"
    and "other \<noteq> name \<Longrightarrow> GetVariable other (DefineVariable name v mem) = GetVariable other mem"
proof -
  let ?mem = "DefineVariable name v mem"
  have s: "rev (storage ?mem) = length (mem_vars mem) # rev (storage mem)"
    by (simp add: DefineVariable_def make_Variable_def)
  have nm: "var_name ?mem (length (mem_vars mem)) = name" "var_value ?mem (length (mem_vars mem)) = v"
    by (simp_all add: DefineVariable_def make_Variable_def var_name_def var_value_def)
  then show "GetVariable name ?mem = Inr v" by (simp add: GetVariable_def s)
  have b: "var_name ?mem a = var_name mem a" "var_value ?mem a = var_value mem a"
    if "a \<in> set (storage mem)" for a
    using mem_okD(1) [OF assms that] by (simp_all add: DefineVariable_def make_Variable_def
        var_name_def var_value_def nth_append)
  have "find_back ?mem other (rev (storage mem)) = find_back mem other (rev (storage mem))"
    by (rule find_back_cong) (simp add: b)
  then show "GetVariable other ?mem = GetVariable other mem" if "other \<noteq> name"
    using that nm(1) b(2) find_back_Some [of mem other "rev (storage mem)"]
    by (auto simp: GetVariable_def s split: option.splits)
qed

text \<open>The variable \<open>a\<close> is the last in the storage that has the name.\<close>

definition innermost :: "string \<Rightarrow> 'v memory \<Rightarrow> nat \<Rightarrow> bool" where
  "innermost name mem a \<longleftrightarrow>
     (\<exists>below above. storage mem = below @ a # above \<and> var_name mem a = name \<and> (\<forall>b \<in> set above. var_name mem b \<noteq> name))"

lemma find_back_innermost:
  assumes "find_back mem name (rev (storage mem)) = Some a"
  shows "innermost name mem a"
proof -
  have "\<exists>xs ys. as = xs @ a # ys \<and> (\<forall>b \<in> set xs. var_name mem b \<noteq> name)" if "find_back mem name as = Some a" for as
    using that
  proof (induction as)
    case (Cons b as)
    show ?case
    proof (cases "var_name mem b = name")
      case True
      then show ?thesis using Cons.prems by (intro exI [of _ "[]"] exI [of _ as]) simp
    next
      case False
      then obtain xs ys where "as = xs @ a # ys" "\<forall>c \<in> set xs. var_name mem c \<noteq> name" using Cons by auto
      then show ?thesis using False by (intro exI [of _ "b # xs"] exI [of _ ys]) simp
    qed
  qed simp
  then obtain xs ys where "rev (storage mem) = xs @ a # ys" "\<forall>b \<in> set xs. var_name mem b \<noteq> name"
    using assms by blast
  moreover from this(1) have "storage mem = rev ys @ a # rev xs" by (simp add: rev_swap)
  ultimately show ?thesis using find_back_Some [OF assms] unfolding innermost_def by fastforce
qed

lemma lookup_set:
  assumes "mem_ok mem" and "name \<noteq> []" and "IsDefined name mem"
  obtains a where "innermost name mem a" and "a < length (mem_vars mem)"
    and "SetVariable name v mem = Inr (mem\<lparr>mem_vars := (mem_vars mem)[a := (name, v)]\<rparr>)"
    and "GetVariable name (mem\<lparr>mem_vars := (mem_vars mem)[a := (name, v)]\<rparr>) = Inr v"
    and "\<And>other. other \<noteq> name \<Longrightarrow>
      GetVariable other (mem\<lparr>mem_vars := (mem_vars mem)[a := (name, v)]\<rparr>) = GetVariable other mem"
proof -
  obtain a where a: "find_back mem name (rev (storage mem)) = Some a"
    using assms(3) IsDefined_iff_find [OF assms(1,2)] by auto
  let ?mem = "Variable_SetValue a v mem"
  have mem': "?mem = mem\<lparr>mem_vars := (mem_vars mem)[a := (name, v)]\<rparr>"
    using find_back_Some [OF a] by (simp add: Variable_SetValue_def)
  have len: "a < length (mem_vars mem)"
    using find_back_Some [OF a] mem_okD(1) [OF assms(1)] by simp
  then have v: "var_value ?mem b = (if b = a then v else var_value mem b)" for b
    by (auto simp: Variable_SetValue_def var_value_def nth_list_update)
  have f: "find_back ?mem n as = find_back mem n as" for n as
    by (rule find_back_cong) simp
  have "GetVariable other ?mem = GetVariable other mem" if "other \<noteq> name" for other
    using v f that find_back_Some [OF a] find_back_Some [of mem other "rev (storage mem)"]
    by (auto simp: GetVariable_def split: option.splits)
  moreover have "SetVariable name v mem = Inr ?mem" "GetVariable name ?mem = Inr v"
    using a v f by (simp_all add: SetVariable_def GetVariable_def)
  ultimately show thesis using that [OF find_back_innermost [OF a] len] unfolding mem' by blast
qed

section \<open>Properties\<close>

text \<open>\<open>IsDefined\<close>, which reads the counters, says exactly whether \<open>GetVariable\<close> and
  \<open>SetVariable\<close>, which search the storage, return or throw a \<open>NameError\<close>.\<close>

theorem IsDefined_lookup:
  assumes "mem_ok mem" and "name \<noteq> []"
  shows "(IsDefined name mem \<longleftrightarrow> (\<exists>v. GetVariable name mem = Inr v)) \<and>
    (IsDefined name mem \<longleftrightarrow> (\<exists>mem'. SetVariable name w mem = Inr mem')) \<and>
    (\<not> IsDefined name mem \<longrightarrow> GetVariable name mem = Inl (not_defined name))"
  using IsDefined_iff_find [OF assms]
  by (auto simp: GetVariable_def SetVariable_def split: option.splits)

theorem IsDefined_lookup_witness:
  "IsDefined ''x'' (DefineVariable ''x'' (5::int) (SetEndOfScope 0 Memory_new))"
proof -
  let ?mem = "DefineVariable ''x'' (5::int) (SetEndOfScope 0 Memory_new)"
  have "mem_ok ?mem" by (intro inv_intros mem_ok_new)
  moreover have "GetVariable ''x'' ?mem = Inr 5" by code_simp
  ultimately show ?thesis using IsDefined_lookup [of ?mem "''x''"] by blast
qed

text \<open>C8. The frame of a call, opened, filled with the shared variables of a context and with
  parameters, and popped, leaves no trace: the scopes and what every name means are as before.\<close>

theorem call_frame_restored:
  assumes "mem_ok mem" and "\<forall>a \<in> set ctx. a < length (mem_vars mem) \<and> var_name mem a \<noteq> []"
    and "\<forall>(n, v) \<in> set ps. n \<noteq> []" and "name \<noteq> []"
  shows "scopes (Pop (fold (\<lambda>(n, v). DefineVariable n v) ps (fold DefineShared ctx (SetEndOfScope null mem)))) = scopes mem \<and>
    GetVariable name (Pop (fold (\<lambda>(n, v). DefineVariable n v) ps (fold DefineShared ctx (SetEndOfScope null mem)))) =
      GetVariable name mem"
proof -
  let ?mem' = "Pop (fold (\<lambda>(n, v). DefineVariable n v) ps (fold DefineShared ctx (SetEndOfScope null mem)))"
  have s: "scopes ?mem' = scopes mem" by (rule mem.call_frame [OF assms(1-3)])
  have "vars_extend m (fold DefineShared ctx m)" and
    "vars_extend m (fold (\<lambda>(n, v). DefineVariable n v) ps m)" for m :: "'a memory"
    by (rule vars_extend_fold; simp add: vars_extend_ops split: prod.split)+
  then have "vars_extend mem ?mem'" using vars_extend_ops vars_extend_trans by metis
  then show ?thesis using s find_var_vars [OF assms(1) _ s assms(4)] by simp
qed

theorem call_frame_restored_witness:
  "scopes (Pop (fold (\<lambda>(n, v). DefineVariable n v) [(''x'', 9)] (fold DefineShared [0]
      (SetEndOfScope 0 (DefineVariable ''x'' (5::int) Memory_new))))) = scopes (DefineVariable ''x'' (5::int) Memory_new) \<and>
   GetVariable ''x'' (Pop (fold (\<lambda>(n, v). DefineVariable n v) [(''x'', 9)] (fold DefineShared [0]
      (SetEndOfScope 0 (DefineVariable ''x'' (5::int) Memory_new))))) =
   GetVariable ''x'' (DefineVariable ''x'' (5::int) Memory_new)"
proof (rule call_frame_restored)
  show "mem_ok (DefineVariable ''x'' (5::int) Memory_new)" by (intro inv_intros mem_ok_new)
qed (simp_all add: DefineVariable_def make_Variable_def Memory_new_def var_name_def)

text \<open>C9. A definition adds one variable at the top, which hides the others of its name and of no other
  name; an assignment changes the value of the innermost variable of the name and of no other variable,
  so every other name keeps its value, and it throws a \<open>NameError\<close> when there is none.\<close>

theorem define_and_set:
  assumes "mem_ok mem" and "name \<noteq> []"
  shows "mem_vars (DefineVariable name v mem) = mem_vars mem @ [(name, v)] \<and>
    storage (DefineVariable name v mem) = storage mem @ [length (mem_vars mem)] \<and>
    GetVariable name (DefineVariable name v mem) = Inr v \<and>
    (\<forall>other. other \<noteq> name \<longrightarrow> GetVariable other (DefineVariable name v mem) = GetVariable other mem) \<and>
    (if IsDefined name mem then
       (\<exists>a. innermost name mem a \<and> a < length (mem_vars mem) \<and>
         (let mem' = mem\<lparr>mem_vars := (mem_vars mem)[a := (name, v)]\<rparr> in
            SetVariable name v mem = Inr mem' \<and> GetVariable name mem' = Inr v \<and>
            (\<forall>other. other \<noteq> name \<longrightarrow> GetVariable other mem' = GetVariable other mem)))
     else SetVariable name v mem = Inl (not_defined name))"
proof -
  have "mem_vars (DefineVariable name v mem) = mem_vars mem @ [(name, v)]"
    and "storage (DefineVariable name v mem) = storage mem @ [length (mem_vars mem)]"
    by (simp_all add: DefineVariable_def make_Variable_def)
  moreover have "SetVariable name v mem = Inl (not_defined name)" if "\<not> IsDefined name mem"
    using that IsDefined_iff_find [OF assms] by (simp add: SetVariable_def)
  moreover have "\<exists>a. innermost name mem a \<and> a < length (mem_vars mem) \<and>
      (let mem' = mem\<lparr>mem_vars := (mem_vars mem)[a := (name, v)]\<rparr> in
         SetVariable name v mem = Inr mem' \<and> GetVariable name mem' = Inr v \<and>
         (\<forall>other. other \<noteq> name \<longrightarrow> GetVariable other mem' = GetVariable other mem))" if "IsDefined name mem"
    by (rule lookup_set [OF assms that, of v]) (auto simp: Let_def)
  ultimately show ?thesis using lookup_define [OF assms(1)] by simp
qed

text \<open>Of two variables of one name the assignment changes the inner one.\<close>

theorem define_and_set_witness:
  "\<exists>mem'. SetVariable ''x'' 7 (DefineVariable ''x'' (6::int) (DefineVariable ''x'' 5 Memory_new)) = Inr mem' \<and>
     mem_vars mem' = [(''x'', 5), (''x'', 7)] \<and> GetVariable ''x'' mem' = Inr 7"
proof -
  let ?mem = "DefineVariable ''x'' (6::int) (DefineVariable ''x'' 5 Memory_new)"
  have ok: "mem_ok ?mem" by (intro inv_intros mem_ok_new)
  have "IsDefined ''x'' ?mem" by code_simp
  then obtain a where a: "innermost ''x'' ?mem a"
    "SetVariable ''x'' 7 ?mem = Inr (?mem\<lparr>mem_vars := (mem_vars ?mem)[a := (''x'', 7)]\<rparr>)"
    "GetVariable ''x'' (?mem\<lparr>mem_vars := (mem_vars ?mem)[a := (''x'', 7)]\<rparr>) = Inr 7"
    using define_and_set [OF ok, of "''x''" 7] by (auto simp: Let_def)
  have vars: "storage ?mem = [0, 1]" "mem_vars ?mem = [(''x'', 5), (''x'', 6)]"
    by (simp_all add: DefineVariable_def make_Variable_def Memory_new_def)
  then have "a = 1" using a(1) by (auto simp: innermost_def var_name_def Cons_eq_append_conv)
  then show ?thesis using a(2,3) vars(2) by simp
qed

end
