(* ===== verification/Heap.thy ===== *)
theory Heap
  imports Basic Memory
begin

text \<open>
  The state of the interpreter with variables (\<open>tasks/scheme/advanced\<close>). Its objects are shared
  and mutable (\<open>set-car!\<close>, the context of a lambda), so a cell or a \<open>LambdaRun\<close> is an index into a
  store; numbers, symbols and the built-in functions never change and are values. Code that runs
  in this state returns \<open>None\<close> when it does not return at all (a cyclic list, no fuel left), and
  otherwise an exception or a value together with the state left behind: an exception does not
  undo what was done before it.
\<close>

section \<open>Values and state\<close>

datatype Builtin =
    BQuote
  | BCompare "int \<Rightarrow> int \<Rightarrow> bool"
  | BIsNumber
  | BDirectArithmetic "int \<Rightarrow> int \<Rightarrow> scheme_error + int" int
  | BReverseArithmetic "int \<Rightarrow> int \<Rightarrow> scheme_error + int" int
  | BExtremum "int \<Rightarrow> int \<Rightarrow> int"
  | BAbs
  | BIsBoolean
  | BNot
  | BAnd
  | BOr
  | BIsPair
  | BIsNull
  | BIsList
  | BCons
  | BCar
  | BCdr
  | BList
  | BListRef
  | BListTail
  | BIf
  | BIsSymbol
  | BDefine
  | BSet
  | BSetCar
  | BSetCdr
  | BLambda

datatype val =
    VNull
  | VNumber int
  | VSymbol string
  | VCell nat
  | VFunction Builtin
  | VLambda nat

record LambdaRun =
  lambda_params :: "val list"
  lambda_instructions :: "val list"
  lambda_context :: "nat list"

record interp =
  mem :: "val memory"
  cells :: "(val \<times> val) list"
  lambdas :: "LambdaRun list"

type_synonym 'a action = "interp \<Rightarrow> ((scheme_error + 'a) \<times> interp) option"
type_synonym hevaluator = "val \<Rightarrow> val action"

definition interp_new :: interp where
  "interp_new = \<lparr>mem = Memory_new, cells = [], lambdas = []\<rparr>"

section \<open>Actions\<close>

definition sret :: "'a \<Rightarrow> 'a action" where
  "sret x s = Some (Inr x, s)"

definition sthrow :: "scheme_error \<Rightarrow> 'a action" where
  "sthrow e s = Some (Inl e, s)"

definition sbind :: "'a action \<Rightarrow> ('a \<Rightarrow> 'b action) \<Rightarrow> 'b action" where
  "sbind m f s = (case m s of None \<Rightarrow> None | Some (Inl e, s') \<Rightarrow> Some (Inl e, s') | Some (Inr x, s') \<Rightarrow> f x s')"

definition sget :: "(interp \<Rightarrow> 'a) \<Rightarrow> 'a action" where
  "sget f s = Some (Inr (f s), s)"

definition smodify :: "(interp \<Rightarrow> interp) \<Rightarrow> unit action" where
  "smodify f s = Some (Inr (), f s)"

definition slift :: "scheme_error + 'a \<Rightarrow> 'a action" where
  "slift r s = Some (r, s)"

definition sdiverge :: "'a action" where
  "sdiverge s = None"

primrec sfold :: "('b \<Rightarrow> 'a \<Rightarrow> 'b action) \<Rightarrow> 'b \<Rightarrow> 'a list \<Rightarrow> 'b action" where
  "sfold f acc [] = sret acc"
| "sfold f acc (x # xs) = sbind (f acc x) (\<lambda>acc'. sfold f acc' xs)"

primrec smap :: "('a \<Rightarrow> 'b action) \<Rightarrow> 'a list \<Rightarrow> 'b list action" where
  "smap f [] = sret []"
| "smap f (x # xs) = sbind (f x) (\<lambda>y. sbind (smap f xs) (\<lambda>ys. sret (y # ys)))"

section \<open>Objects\<close>

fun IsV_Number :: "val \<Rightarrow> bool" where
  "IsV_Number (VNumber v) = True"
| "IsV_Number _ = False"

fun IsV_Null :: "val \<Rightarrow> bool" where
  "IsV_Null VNull = True"
| "IsV_Null _ = False"

fun IsV_Symbol :: "val \<Rightarrow> bool" where
  "IsV_Symbol (VSymbol n) = True"
| "IsV_Symbol _ = False"

fun IsV_Cell :: "val \<Rightarrow> bool" where
  "IsV_Cell (VCell a) = True"
| "IsV_Cell _ = False"

text \<open>\<open>LambdaRun\<close> is an \<open>AbstractFunction\<close> like the built-in functions.\<close>

fun IsV_Function :: "val \<Rightarrow> bool" where
  "IsV_Function (VFunction f) = True"
| "IsV_Function (VLambda l) = True"
| "IsV_Function _ = False"

fun HGetValue :: "val \<Rightarrow> int action" where
  "HGetValue (VNumber v) = sret v"
| "HGetValue _ = sthrow NullDereference"

fun HGetName :: "val \<Rightarrow> string action" where
  "HGetName (VSymbol n) = sret n"
| "HGetName _ = sthrow NullDereference"

fun HGetFirst :: "val \<Rightarrow> val action" where
  "HGetFirst (VCell a) = sget (\<lambda>s. fst (cells s ! a))"
| "HGetFirst _ = sthrow NullDereference"

fun HGetSecond :: "val \<Rightarrow> val action" where
  "HGetSecond (VCell a) = sget (\<lambda>s. snd (cells s ! a))"
| "HGetSecond _ = sthrow NullDereference"

fun HSetFirst :: "val \<Rightarrow> val \<Rightarrow> unit action" where
  "HSetFirst (VCell a) v = smodify (\<lambda>s. s\<lparr>cells := (cells s)[a := (v, snd (cells s ! a))]\<rparr>)"
| "HSetFirst _ v = sthrow NullDereference"

fun HSetSecond :: "val \<Rightarrow> val \<Rightarrow> unit action" where
  "HSetSecond (VCell a) v = smodify (\<lambda>s. s\<lparr>cells := (cells s)[a := (fst (cells s ! a), v)]\<rparr>)"
| "HSetSecond _ v = sthrow NullDereference"

definition make_Cell :: "val \<Rightarrow> val \<Rightarrow> val action" where
  "make_Cell a b = sbind (sget (\<lambda>s. length (cells s))) (\<lambda>n.
     sbind (smodify (\<lambda>s. s\<lparr>cells := cells s @ [(a, b)]\<rparr>)) (\<lambda>_. sret (VCell n)))"

definition make_LambdaRun :: "LambdaRun \<Rightarrow> val action" where
  "make_LambdaRun l = sbind (sget (\<lambda>s. length (lambdas s))) (\<lambda>n.
     sbind (smodify (\<lambda>s. s\<lparr>lambdas := lambdas s @ [l]\<rparr>)) (\<lambda>_. sret (VLambda n)))"

definition smem :: "(val memory \<Rightarrow> val memory) \<Rightarrow> unit action" where
  "smem f = smodify (\<lambda>s. s\<lparr>mem := f (mem s)\<rparr>)"

section \<open>Helpers\<close>

text \<open>
  The loop of \<open>AsVector\<close>. A list of the store visits each of its cells once, so that the number of
  cells, plus one for its end, is fuel enough; a loop that runs out of it has met a cycle and
  never ends.
\<close>

fun as_vector :: "nat \<Rightarrow> (val \<times> val) list \<Rightarrow> val \<Rightarrow> (scheme_error + val list) option" where
  "as_vector 0 cs v = None"
| "as_vector (Suc n) cs (VCell a) =
     (case as_vector n cs (snd (cs ! a)) of
        None \<Rightarrow> None
      | Some (Inl e) \<Rightarrow> Some (Inl e)
      | Some (Inr vs) \<Rightarrow> Some (Inr (fst (cs ! a) # vs)))"
| "as_vector (Suc n) cs VNull = Some (Inr [])"
| "as_vector (Suc n) cs v = Some (Inl (RuntimeError ''AsVector got incorrect list / pair''))"

definition HAsVector :: "val \<Rightarrow> val list action" where
  "HAsVector v s =
     (case as_vector (Suc (length (cells s))) (cells s) v of
        None \<Rightarrow> None
      | Some r \<Rightarrow> Some (r, s))"

definition HToBoolean :: "bool \<Rightarrow> val" where
  "HToBoolean b = (if b then VSymbol ''#t'' else VSymbol ''#f'')"

text \<open>\<open>Serialize\<close>; a path of calls visits each cell once unless it is on a cycle.\<close>

fun serialize :: "nat \<Rightarrow> (val \<times> val) list \<Rightarrow> val \<Rightarrow> bool \<Rightarrow> string option" where
  "serialize 0 cs v ongoing = None"
| "serialize (Suc n) cs VNull ongoing = Some (if \<not> ongoing then ''()'' else [])"
| "serialize (Suc n) cs (VNumber v) ongoing = Some (to_string v)"
| "serialize (Suc n) cs (VSymbol name) ongoing = Some name"
| "serialize (Suc n) cs (VCell a) ongoing =
     (let (first, second) = cs ! a in
      case serialize n cs first False of
        None \<Rightarrow> None
      | Some s \<Rightarrow>
          (let s' = (if IsV_Cell second then map_option (\<lambda>r. s @ '' '' @ r) (serialize n cs second True)
                     else if \<not> IsV_Null second then map_option (\<lambda>r. s @ '' . '' @ r) (serialize n cs second True)
                     else Some s)
           in map_option (\<lambda>r. if \<not> ongoing then ''('' @ r @ '')'' else r) s'))"
| "serialize (Suc n) cs (VLambda l) ongoing = Some ''LAMBDA''"
| "serialize (Suc n) cs (VFunction f) ongoing = Some ''Some non-LAMBDA function''"

definition HSerialize :: "val \<Rightarrow> string action" where
  "HSerialize v s =
     (case serialize (Suc (length (cells s))) (cells s) v False of
        None \<Rightarrow> None
      | Some r \<Rightarrow> Some (Inr r, s))"

end
