(* ===== verification/HeapEval.thy ===== *)
theory HeapEval
  imports Heap
begin

text \<open>
  The evaluator of the interpreter with variables: the call operators of
  \<open>functions_fundamental.cpp\<close>, \<open>functions_integer.cpp\<close>, \<open>functions_boolean.cpp\<close>,
  \<open>functions_list.cpp\<close> and \<open>functions_advanced.cpp\<close> of \<open>tasks/scheme/advanced\<close>, \<open>Compute\<close>, and
  \<open>Interpreter::Run\<close>. \<open>Compute\<close> is recursive through the call operators and need not return, so
  it has fuel, the depth of its recursion: \<open>HCompute n\<close> returns \<open>None\<close> when that is not enough.
\<close>

section \<open>Fundamental, integer and boolean functions\<close>

definition HQuote :: "val \<Rightarrow> val action" where
  "HQuote argument = HGetFirst argument"

fun hcompare_loop :: "hevaluator \<Rightarrow> (int \<Rightarrow> int \<Rightarrow> bool) \<Rightarrow> val list \<Rightarrow> val action" where
  "hcompare_loop ev compare (x # y # rest) =
     sbind (ev x) (\<lambda>computed_argf.
     sbind (ev y) (\<lambda>computed_args.
       if \<not> IsV_Number computed_argf \<or> \<not> IsV_Number computed_args
       then sbind (HSerialize computed_argf) (\<lambda>text.
              sthrow (RuntimeError (''Comparation argument is not a number : '' @ text)))
       else sbind (HGetValue computed_argf) (\<lambda>a.
            sbind (HGetValue computed_args) (\<lambda>b.
              if \<not> compare a b then sret (VSymbol ''#f'')
              else hcompare_loop ev compare (y # rest)))))"
| "hcompare_loop ev compare _ = sret (VSymbol ''#t'')"

definition HCompare :: "hevaluator \<Rightarrow> (int \<Rightarrow> int \<Rightarrow> bool) \<Rightarrow> val \<Rightarrow> val action" where
  "HCompare ev compare argument =
     (if IsV_Null argument then sret (VSymbol ''#t'')
      else sbind (HAsVector argument) (\<lambda>args. hcompare_loop ev compare args))"

definition HIsNumber :: "hevaluator \<Rightarrow> val \<Rightarrow> val action" where
  "HIsNumber ev argument =
     sbind (HGetFirst argument) (\<lambda>first.
     sbind (ev first) (\<lambda>x. sret (HToBoolean (IsV_Number x))))"

text \<open>A computed argument that must be a number.\<close>

definition hnumber :: "hevaluator \<Rightarrow> string \<Rightarrow> val \<Rightarrow> int action" where
  "hnumber ev message arg =
     sbind (ev arg) (\<lambda>computed_arg.
       if \<not> IsV_Number computed_arg then sthrow (RuntimeError message) else HGetValue computed_arg)"

definition HDirectArithmetic ::
  "hevaluator \<Rightarrow> (int \<Rightarrow> int \<Rightarrow> scheme_error + int) \<Rightarrow> int \<Rightarrow> val \<Rightarrow> val action" where
  "HDirectArithmetic ev func init argument =
     sbind (HAsVector argument) (\<lambda>args.
     sbind (sfold (\<lambda>result arg. sbind (hnumber ev ''Add/Mul argument is not a number'' arg)
                                  (\<lambda>v. slift (func result v))) init args) (\<lambda>result.
       sret (VNumber result)))"

definition HReverseArithmetic ::
  "hevaluator \<Rightarrow> (int \<Rightarrow> int \<Rightarrow> scheme_error + int) \<Rightarrow> int \<Rightarrow> val \<Rightarrow> val action" where
  "HReverseArithmetic ev func init argument =
     sbind (HAsVector argument) (\<lambda>args.
       if args = [] then sthrow (RuntimeError ''Sub/Div has no arguments'')
       else sbind (hnumber ev ''Sub/Div argument is not a number'' (hd args)) (\<lambda>first.
            sbind (sfold (\<lambda>result arg. sbind (hnumber ev ''Sub/Div argument is not a number'' arg)
                     (\<lambda>v. if init = 1 \<and> v = 0 then sthrow (RuntimeError ''Div argument is zero'')
                          else slift (func result v))) first (tl args)) (\<lambda>result.
              sret (VNumber result))))"

definition HExtremum :: "hevaluator \<Rightarrow> (int \<Rightarrow> int \<Rightarrow> int) \<Rightarrow> val \<Rightarrow> val action" where
  "HExtremum ev func argument =
     sbind (HAsVector argument) (\<lambda>args.
       if args = [] then sthrow (RuntimeError ''No arguments in max/min'')
       else sbind (ev (hd args)) (\<lambda>x.
         if \<not> IsV_Number x then sthrow (RuntimeError ''Max/Min argument is not a number'')
         else sbind (smap (hnumber ev ''Max/Min argument is not a number'') args) (\<lambda>vs.
                sret (VNumber (foldl func (hd vs) vs)))))"

definition HAbs :: "hevaluator \<Rightarrow> val \<Rightarrow> val action" where
  "HAbs ev argument =
     sbind (HAsVector argument) (\<lambda>args.
       if length args \<noteq> 1 then sthrow (RuntimeError ''Not one arguments in abs'')
       else sbind (ev (hd args)) (\<lambda>x.
         if \<not> IsV_Number x then sthrow (RuntimeError ''Abs argument is not a number'')
         else sbind (ev (hd args)) (\<lambda>x'.
              sbind (HGetValue x') (\<lambda>v.
              sbind (slift (ll_abs v)) (\<lambda>a. sret (VNumber a))))))"

definition HIsBoolean :: "hevaluator \<Rightarrow> val \<Rightarrow> val action" where
  "HIsBoolean ev argument =
     (if \<not> IsV_Cell argument then sret (VSymbol ''#f'')
      else sbind (HGetFirst argument) (\<lambda>first.
           sbind (ev first) (\<lambda>computed_arg.
             if \<not> IsV_Symbol computed_arg then sret (VSymbol ''#f'')
             else sbind (HGetName computed_arg) (\<lambda>str.
                    sret (HToBoolean (str = ''#t'' \<or> str = ''#f''))))))"

definition HNot :: "hevaluator \<Rightarrow> val \<Rightarrow> val action" where
  "HNot ev argument =
     (if \<not> IsV_Cell argument then sthrow (RuntimeError ''Not 1 arg'')
      else sbind (HGetSecond argument) (\<lambda>second.
        if \<not> IsV_Null second then sthrow (RuntimeError ''Not 1 arg'')
        else sbind (HGetFirst argument) (\<lambda>first.
             sbind (ev first) (\<lambda>computed_arg.
               if \<not> IsV_Symbol computed_arg then sret (VSymbol ''#f'')
               else sbind (HGetName computed_arg) (\<lambda>name. sret (HToBoolean (name = ''#f'')))))))"

definition is_symbol_named :: "string \<Rightarrow> val \<Rightarrow> bool" where
  "is_symbol_named n v = (case v of VSymbol m \<Rightarrow> m = n | _ \<Rightarrow> False)"

fun hand_loop :: "hevaluator \<Rightarrow> val list \<Rightarrow> val action \<Rightarrow> val action" where
  "hand_loop ev [] after = after"
| "hand_loop ev (arg # args) after =
     sbind (ev arg) (\<lambda>computed_arg.
       if is_symbol_named ''#f'' computed_arg then sret (HToBoolean False)
       else hand_loop ev args after)"

definition HAnd :: "hevaluator \<Rightarrow> val \<Rightarrow> val action" where
  "HAnd ev argument =
     sbind (HAsVector argument) (\<lambda>args.
       hand_loop ev args (if args = [] then sret (HToBoolean True) else ev (last args)))"

fun hor_loop :: "hevaluator \<Rightarrow> val list \<Rightarrow> val action" where
  "hor_loop ev [] = sret (HToBoolean False)"
| "hor_loop ev (arg # args) =
     sbind (ev arg) (\<lambda>computed_arg.
       if \<not> IsV_Symbol computed_arg \<or> is_symbol_named ''#t'' computed_arg then sret computed_arg
       else hor_loop ev args)"

definition HOr :: "hevaluator \<Rightarrow> val \<Rightarrow> val action" where
  "HOr ev argument = sbind (HAsVector argument) (\<lambda>args. hor_loop ev args)"

section \<open>List functions\<close>

definition HIsPair :: "hevaluator \<Rightarrow> val \<Rightarrow> val action" where
  "HIsPair ev argument =
     sbind (HGetFirst argument) (\<lambda>first.
     sbind (ev first) (\<lambda>x. sret (HToBoolean (IsV_Cell x))))"

definition HIsNull :: "hevaluator \<Rightarrow> val \<Rightarrow> val action" where
  "HIsNull ev argument =
     sbind (HGetFirst argument) (\<lambda>first.
     sbind (ev first) (\<lambda>x. sret (HToBoolean (IsV_Null x))))"

text \<open>\<open>try { AsVector(x); } catch (RuntimeError&)\<close>: the list, or the answer of the handler.\<close>

definition HIsList :: "hevaluator \<Rightarrow> val \<Rightarrow> val action" where
  "HIsList ev argument =
     sbind (HGetFirst argument) (\<lambda>first.
     sbind (ev first) (\<lambda>computed_arg s.
       case HAsVector computed_arg s of
         Some (Inl (RuntimeError re), s') \<Rightarrow> sret (HToBoolean False) s'
       | Some (Inl e, s') \<Rightarrow> sthrow e s'
       | Some (Inr _, s') \<Rightarrow> sret (HToBoolean True) s'
       | None \<Rightarrow> None))"

definition HCons :: "hevaluator \<Rightarrow> val \<Rightarrow> val action" where
  "HCons ev argument =
     sbind (HGetFirst argument) (\<lambda>a.
     sbind (ev a) (\<lambda>x.
     sbind (HGetSecond argument) (\<lambda>second.
     sbind (HGetFirst second) (\<lambda>b.
     sbind (ev b) (\<lambda>y. make_Cell x y)))))"

definition HCar :: "hevaluator \<Rightarrow> val \<Rightarrow> val action" where
  "HCar ev argument =
     sbind (HGetFirst argument) (\<lambda>first.
     sbind (ev first) (\<lambda>computed_arg.
       if IsV_Null computed_arg then sthrow (RuntimeError ''null arg in car'')
       else HGetFirst computed_arg))"

definition HCdr :: "hevaluator \<Rightarrow> val \<Rightarrow> val action" where
  "HCdr ev argument =
     sbind (HGetFirst argument) (\<lambda>first.
     sbind (ev first) (\<lambda>computed_arg.
       if IsV_Null computed_arg then sthrow (RuntimeError ''null arg in cdr'')
       else HGetSecond computed_arg))"

definition HList :: "val \<Rightarrow> val action" where
  "HList argument = sret argument"

definition HListRef :: "hevaluator \<Rightarrow> val \<Rightarrow> val action" where
  "HListRef ev argument =
     sbind (HGetFirst argument) (\<lambda>first.
     sbind (ev first) (\<lambda>computed_arg.
     sbind (HAsVector computed_arg) (\<lambda>list.
     sbind (HGetSecond argument) (\<lambda>second.
     sbind (HGetFirst second) (\<lambda>index.
     sbind (HGetValue index) (\<lambda>i.
       if i < 0 \<or> i \<ge> int (length list) then sthrow (RuntimeError ''Incorrect index in list-ref'')
       else sret (list ! nat i)))))))"

fun htail_loop :: "(val \<times> val) list \<Rightarrow> val \<Rightarrow> nat \<Rightarrow> val \<times> nat" where
  "htail_loop cs (VCell a) (Suc i) = htail_loop cs (snd (cs ! a)) i"
| "htail_loop cs current i = (current, i)"

definition htail :: "val \<Rightarrow> nat \<Rightarrow> (val \<times> nat) action" where
  "htail v i = sget (\<lambda>s. htail_loop (cells s) v i)"

definition HListTail :: "hevaluator \<Rightarrow> val \<Rightarrow> val action" where
  "HListTail ev argument =
     sbind (HGetSecond argument) (\<lambda>second.
     sbind (HGetFirst second) (\<lambda>index.
     sbind (HGetValue index) (\<lambda>i.
       if i < 0 then sthrow (RuntimeError ''Incorrect index in list-tail'')
       else sbind (HGetFirst argument) (\<lambda>first.
            sbind (ev first) (\<lambda>computed_arg.
            sbind (htail computed_arg (nat i)) (\<lambda>(current, i').
              if i' = 0 then sret current
              else sthrow (RuntimeError ''Incorrect index in list-tail'')))))))"

section \<open>Variables and lambdas\<close>

definition HIf :: "hevaluator \<Rightarrow> val \<Rightarrow> val action" where
  "HIf ev argument =
     sbind (HAsVector argument) (\<lambda>args.
       if 2 > length args \<or> length args > 3 then sthrow (SyntaxError ''Incorrect number of args in if'')
       else sbind (ev (args ! 0)) (\<lambda>condition.
         if \<not> IsV_Symbol condition \<or> is_symbol_named ''#t'' condition then ev (args ! 1)
         else if length args = 2 then sret VNull
         else ev (args ! 2)))"

definition HIsSymbol :: "hevaluator \<Rightarrow> val \<Rightarrow> val action" where
  "HIsSymbol ev argument =
     sbind (HAsVector argument) (\<lambda>args.
       if length args \<noteq> 1 then sthrow (SyntaxError ''Incorrect number of args in symbol?'')
       else sbind (ev (hd args)) (\<lambda>x. sret (HToBoolean (IsV_Symbol x))))"

definition MakeLambda :: "val \<Rightarrow> val \<Rightarrow> val action" where
  "MakeLambda args instructions =
     sbind (HAsVector args) (\<lambda>params.
     sbind (HAsVector instructions) (\<lambda>instrs.
     sbind (sget (\<lambda>s. GetContext (mem s))) (\<lambda>context.
       make_LambdaRun \<lparr>lambda_params = params, lambda_instructions = instrs, lambda_context = context\<rparr>)))"

text \<open>\<open>context_.push_back(std::make_shared<Variable>(name, value))\<close> on a lambda.\<close>

definition push_context :: "val \<Rightarrow> string \<Rightarrow> val \<Rightarrow> unit action" where
  "push_context v name value =
     (case v of
        VLambda l \<Rightarrow> smodify (\<lambda>s. let (a, m) = make_Variable name value (mem s) in
          s\<lparr>mem := m, lambdas := (lambdas s)[l := (lambdas s ! l)
             \<lparr>lambda_context := lambda_context (lambdas s ! l) @ [a]\<rparr>]\<rparr>)
      | _ \<Rightarrow> sthrow NullDereference)"

fun IsV_Lambda :: "val \<Rightarrow> bool" where
  "IsV_Lambda (VLambda l) = True"
| "IsV_Lambda _ = False"

definition HDefine :: "hevaluator \<Rightarrow> val \<Rightarrow> val action" where
  "HDefine ev argument =
     sbind (HAsVector argument) (\<lambda>args.
       if args = [] then sthrow (SyntaxError ''Incorrect number of args in define'')
       else if IsV_Cell (hd args) then
         sbind (HGetSecond (hd args)) (\<lambda>params.
         sbind (HGetSecond argument) (\<lambda>instructions.
         sbind (MakeLambda params instructions) (\<lambda>new_lambda.
         sbind (HGetFirst (hd args)) (\<lambda>first.
           if \<not> IsV_Symbol first then sthrow (SyntaxError ''Lambda name is not a symbol'')
           else sbind (HGetName first) (\<lambda>name.
                sbind (push_context new_lambda name new_lambda) (\<lambda>_.
                sbind (smem (DefineVariable name new_lambda)) (\<lambda>_. sret VNull)))))))
       else if length args \<noteq> 2 then sthrow (SyntaxError ''Incorrect number of args in define'')
       else if \<not> IsV_Symbol (hd args)
       then sthrow (SyntaxError ''Incorrect type of variable name in define'')
       else sbind (ev (args ! 1)) (\<lambda>computed_arg.
            sbind (HGetName (hd args)) (\<lambda>name.
            sbind (if IsV_Lambda computed_arg then push_context computed_arg name computed_arg
                   else sret ()) (\<lambda>_.
            sbind (smem (DefineVariable name computed_arg)) (\<lambda>_. sret VNull)))))"

definition HSet :: "hevaluator \<Rightarrow> val \<Rightarrow> val action" where
  "HSet ev argument =
     sbind (HAsVector argument) (\<lambda>args.
       if length args \<noteq> 2 then sthrow (SyntaxError ''Incorrect number of args in set!'')
       else if \<not> IsV_Symbol (args ! 0)
       then sthrow (SyntaxError ''Incorrect type of variable name in set!'')
       else sbind (ev (args ! 1)) (\<lambda>computed_arg.
            sbind (HGetName (args ! 0)) (\<lambda>name.
            sbind (sget (\<lambda>s. SetVariable name computed_arg (mem s))) (\<lambda>r.
            sbind (slift r) (\<lambda>m.
            sbind (smem (\<lambda>_. m)) (\<lambda>_. sret VNull))))))"

definition HSetCar :: "hevaluator \<Rightarrow> val \<Rightarrow> val action" where
  "HSetCar ev argument =
     sbind (HAsVector argument) (\<lambda>args.
       if length args \<noteq> 2 then sthrow (SyntaxError ''Incorrect number of args in set-car!'')
       else sbind (ev (args ! 1)) (\<lambda>computed_arg.
            sbind (ev (args ! 0)) (\<lambda>value.
              if \<not> IsV_Cell value
              then sthrow (SyntaxError ''Variable's value is not a complex structure'')
              else sbind (HSetFirst value computed_arg) (\<lambda>_. sret VNull))))"

definition HSetCdr :: "hevaluator \<Rightarrow> val \<Rightarrow> val action" where
  "HSetCdr ev argument =
     sbind (HAsVector argument) (\<lambda>args.
       if length args \<noteq> 2 then sthrow (SyntaxError ''Incorrect number of args in set-cdr!'')
       else sbind (ev (args ! 1)) (\<lambda>computed_arg.
            sbind (ev (args ! 0)) (\<lambda>value.
              if \<not> IsV_Cell value
              then sthrow (SyntaxError ''Variable's value is not a complex structure'')
              else sbind (HSetSecond value computed_arg) (\<lambda>_. sret VNull))))"

definition HLambda :: "val \<Rightarrow> val action" where
  "HLambda argument =
     sbind (HAsVector argument) (\<lambda>args.
       if length args < 2 then sthrow (SyntaxError ''Wrong lambda syntax'')
       else sbind (HGetFirst argument) (\<lambda>params.
            sbind (HGetSecond argument) (\<lambda>instructions. MakeLambda params instructions)))"

text \<open>A call of a lambda. The parameters are bound after the variables of the context, which hide
  the globals; the scope is popped only when the body returns normally.\<close>

definition bind_params :: "val list \<Rightarrow> val list \<Rightarrow> unit action" where
  "bind_params params args =
     sfold (\<lambda>_ (p, v). sbind (HGetName p) (\<lambda>name. smem (DefineVariable name v))) () (zip params args)"

definition LambdaRun_call :: "hevaluator \<Rightarrow> nat \<Rightarrow> val \<Rightarrow> val action" where
  "LambdaRun_call ev l argument =
     sbind (HAsVector argument) (\<lambda>lambda_args.
     sbind (sget (\<lambda>s. lambdas s ! l)) (\<lambda>lam.
       if length lambda_args \<noteq> length (lambda_params lam)
       then sthrow (RuntimeError ''Incorrect number of arguments for lambda'')
       else sbind (smap ev lambda_args) (\<lambda>values.
            sbind (smem (SetEndOfScope VNull)) (\<lambda>_.
            sbind (sget (\<lambda>s. lambda_context (lambdas s ! l))) (\<lambda>context.
            sbind (smem (fold DefineShared context)) (\<lambda>_.
            sbind (bind_params (lambda_params lam) values) (\<lambda>_.
            sbind (sfold (\<lambda>_ instruction. ev instruction) VNull (lambda_instructions lam)) (\<lambda>computed_arg.
            sbind (smem Pop) (\<lambda>_. sret computed_arg)))))))))"

section \<open>Evaluation\<close>

definition functions_list :: "string \<Rightarrow> Builtin option" where
  "functions_list = map_of
     [(''quote'', BQuote),
      (''='', BCompare (\<lambda>a b. a = b)), (''<'', BCompare (\<lambda>a b. a < b)),
      (''>'', BCompare (\<lambda>a b. a > b)), (''<='', BCompare (\<lambda>a b. a \<le> b)),
      (''>='', BCompare (\<lambda>a b. a \<ge> b)), (''number?'', BIsNumber),
      (''+'', BDirectArithmetic ll_add 0), (''-'', BReverseArithmetic ll_sub 0),
      (''*'', BDirectArithmetic ll_mul 1), (''/'', BReverseArithmetic ll_div 1),
      (''max'', BExtremum max), (''min'', BExtremum min), (''abs'', BAbs),
      (''boolean?'', BIsBoolean), (''not'', BNot), (''and'', BAnd), (''or'', BOr),
      (''pair?'', BIsPair), (''null?'', BIsNull), (''list?'', BIsList),
      (''cons'', BCons), (''car'', BCar), (''cdr'', BCdr),
      (''list'', BList), (''list-ref'', BListRef), (''list-tail'', BListTail),
      (''if'', BIf), (''symbol?'', BIsSymbol), (''define'', BDefine), (''set!'', BSet),
      (''set-car!'', BSetCar), (''set-cdr!'', BSetCdr), (''lambda'', BLambda)]"

definition IsFunction :: "string \<Rightarrow> bool" where
  "IsFunction name = (functions_list name \<noteq> None)"

fun builtin_call :: "hevaluator \<Rightarrow> Builtin \<Rightarrow> val \<Rightarrow> val action" where
  "builtin_call ev BQuote = HQuote"
| "builtin_call ev (BCompare compare) = HCompare ev compare"
| "builtin_call ev BIsNumber = HIsNumber ev"
| "builtin_call ev (BDirectArithmetic func init) = HDirectArithmetic ev func init"
| "builtin_call ev (BReverseArithmetic func init) = HReverseArithmetic ev func init"
| "builtin_call ev (BExtremum func) = HExtremum ev func"
| "builtin_call ev BAbs = HAbs ev"
| "builtin_call ev BIsBoolean = HIsBoolean ev"
| "builtin_call ev BNot = HNot ev"
| "builtin_call ev BAnd = HAnd ev"
| "builtin_call ev BOr = HOr ev"
| "builtin_call ev BIsPair = HIsPair ev"
| "builtin_call ev BIsNull = HIsNull ev"
| "builtin_call ev BIsList = HIsList ev"
| "builtin_call ev BCons = HCons ev"
| "builtin_call ev BCar = HCar ev"
| "builtin_call ev BCdr = HCdr ev"
| "builtin_call ev BList = HList"
| "builtin_call ev BListRef = HListRef ev"
| "builtin_call ev BListTail = HListTail ev"
| "builtin_call ev BIf = HIf ev"
| "builtin_call ev BIsSymbol = HIsSymbol ev"
| "builtin_call ev BDefine = HDefine ev"
| "builtin_call ev BSet = HSet ev"
| "builtin_call ev BSetCar = HSetCar ev"
| "builtin_call ev BSetCdr = HSetCdr ev"
| "builtin_call ev BLambda = HLambda"

fun hcall :: "hevaluator \<Rightarrow> val \<Rightarrow> val \<Rightarrow> val action" where
  "hcall ev (VFunction f) argument = builtin_call ev f argument"
| "hcall ev (VLambda l) argument = LambdaRun_call ev l argument"
| "hcall ev _ argument =
     sthrow (RuntimeError ''First element in list does not evaluate to the functor'')"

definition compute_symbol :: "string \<Rightarrow> val action" where
  "compute_symbol name =
     (if name = ''#t'' \<or> name = ''#f'' then sret (VSymbol name)
      else sbind (sget (\<lambda>s. IsDefined name (mem s))) (\<lambda>defined.
        if defined then sbind (sget (\<lambda>s. GetVariable name (mem s))) slift
        else case functions_list name of
               Some f \<Rightarrow> sret (VFunction f)
             | None \<Rightarrow> sthrow (NameError ''Wrong symbol name'')))"

fun HCompute :: "nat \<Rightarrow> val \<Rightarrow> val action" where
  "HCompute 0 tree = sdiverge"
| "HCompute (Suc n) VNull = sthrow (RuntimeError ''nullptr'')"
| "HCompute (Suc n) (VNumber v) = sret (VNumber v)"
| "HCompute (Suc n) (VSymbol name) = compute_symbol name"
| "HCompute (Suc n) tree =
     sbind (HGetFirst tree) (\<lambda>first.
     sbind (HCompute n first) (\<lambda>func.
       if \<not> IsV_Function func
       then sthrow (RuntimeError ''First element in list does not evaluate to the functor'')
       else sbind (HGetSecond tree) (\<lambda>argument. hcall (HCompute n) func argument)))"

section \<open>The interpreter\<close>

text \<open>The objects the parser makes are fresh: the tree it returns is copied into the store.\<close>

fun load :: "object \<Rightarrow> val action" where
  "load Null = sret VNull"
| "load (Number v) = sret (VNumber v)"
| "load (Symbol n) = sret (VSymbol n)"
| "load (Cell a b) = sbind (load a) (\<lambda>x. sbind (load b) (\<lambda>y. make_Cell x y))"

definition HRun :: "nat \<Rightarrow> string \<Rightarrow> string action" where
  "HRun n str =
     sbind (slift (Read (Tokenizer_new str))) (\<lambda>(obj, _).
     sbind (load obj) (\<lambda>tree.
     sbind (HCompute n tree) (\<lambda>value. HSerialize value)))"

text \<open>The queries of one interpreter, each with what it printed or threw.\<close>

fun session :: "nat \<Rightarrow> string list \<Rightarrow> interp \<Rightarrow> (scheme_error + string) list option" where
  "session n [] s = Some []"
| "session n (q # qs) s =
     (case HRun n q s of
        None \<Rightarrow> None
      | Some (r, s') \<Rightarrow> map_option (\<lambda>rs. r # rs) (session n qs s'))"

definition Interpreter_delete :: "interp \<Rightarrow> interp" where
  "Interpreter_delete s = s\<lparr>mem := Clear (mem s)\<rparr>"

end
