(* ===== verification/HeapProps.thy ===== *)
theory HeapProps
  imports HeapEval
begin

text \<open>
  Safety of the interpreter with variables: no operation ever reaches for a cell, a lambda or a
  variable that does not exist, and a call that returns leaves the stack of scopes as it found it,
  up to the definitions it made in the innermost scope. The call operators are verified once,
  against any evaluator that is safe (the locale \<open>safe_evaluator\<close>); \<open>HCompute\<close> is one.
\<close>

section \<open>Well-formed states\<close>

fun wf_val :: "interp \<Rightarrow> val \<Rightarrow> bool" where
  "wf_val s (VCell a) = (a < length (cells s))"
| "wf_val s (VLambda l) = (l < length (lambdas s))"
| "wf_val s (VSymbol n) = (n \<noteq> [])"
| "wf_val s _ = True"

definition wf_var :: "interp \<Rightarrow> nat \<Rightarrow> bool" where
  "wf_var s a \<longleftrightarrow> a < length (mem_vars (mem s)) \<and> var_name (mem s) a \<noteq> []"

definition wf_lambda :: "interp \<Rightarrow> LambdaRun \<Rightarrow> bool" where
  "wf_lambda s l \<longleftrightarrow> (\<forall>v \<in> set (lambda_params l). wf_val s v) \<and>
     (\<forall>v \<in> set (lambda_instructions l). wf_val s v) \<and> (\<forall>a \<in> set (lambda_context l). wf_var s a)"

definition wf_interp :: "interp \<Rightarrow> bool" where
  "wf_interp s \<longleftrightarrow> mem_ok (mem s) \<and>
     (\<forall>(n, v) \<in> set (mem_vars (mem s)). wf_val s v) \<and>
     (\<forall>(v, w) \<in> set (cells s). wf_val s v \<and> wf_val s w) \<and>
     (\<forall>l \<in> set (lambdas s). wf_lambda s l)"

text \<open>The stores only grow, and a variable keeps its name.\<close>

definition up :: "interp \<Rightarrow> interp \<Rightarrow> bool" where
  "up s s' \<longleftrightarrow> length (cells s) \<le> length (cells s') \<and> length (lambdas s) \<le> length (lambdas s') \<and>
     length (mem_vars (mem s)) \<le> length (mem_vars (mem s')) \<and>
     (\<forall>a < length (mem_vars (mem s)). var_name (mem s') a = var_name (mem s) a)"

definition same_scopes :: "interp \<Rightarrow> interp \<Rightarrow> bool" where
  "same_scopes s s' \<longleftrightarrow> tl (scopes (mem s')) = tl (scopes (mem s)) \<and>
     (\<exists>new. hd (scopes (mem s')) = new @ hd (scopes (mem s)))"

lemma up_refl [simp]: "up s s"
  by (simp add: up_def)

lemma up_trans: "up s1 s2 \<Longrightarrow> up s2 s3 \<Longrightarrow> up s1 s3"
  by (auto simp: up_def)

lemma same_scopes_refl [simp]: "same_scopes s s"
  by (simp add: same_scopes_def)

lemma same_scopes_trans: "same_scopes s1 s2 \<Longrightarrow> same_scopes s2 s3 \<Longrightarrow> same_scopes s1 s3"
  by (auto simp: same_scopes_def)

lemma up_wf_val: "up s s' \<Longrightarrow> wf_val s v \<Longrightarrow> wf_val s' v"
  by (cases v) (auto simp: up_def)

lemma up_wf_var: "up s s' \<Longrightarrow> wf_var s a \<Longrightarrow> wf_var s' a"
  by (auto simp: up_def wf_var_def)

lemma up_wf_lambda: "up s s' \<Longrightarrow> wf_lambda s l \<Longrightarrow> wf_lambda s' l"
  by (auto simp: wf_lambda_def intro: up_wf_val up_wf_var)

lemma wf_cell:
  assumes "wf_interp s" and "a < length (cells s)"
  shows "wf_val s (fst (cells s ! a))" and "wf_val s (snd (cells s ! a))"
proof -
  have "\<forall>(v, w) \<in> set (cells s). wf_val s v \<and> wf_val s w" using assms(1) by (simp add: wf_interp_def)
  with nth_mem [OF assms(2)] show "wf_val s (fst (cells s ! a))" and "wf_val s (snd (cells s ! a))"
    by (auto simp: case_prod_beta)
qed

lemma wf_interp_new: "wf_interp interp_new"
  by (simp add: wf_interp_def interp_new_def Memory_new_def mem_ok_def defined_count_def entries_def)

section \<open>Safe actions\<close>

definition safe :: "interp \<Rightarrow> 'a action \<Rightarrow> ('a \<Rightarrow> interp \<Rightarrow> bool) \<Rightarrow> bool" where
  "safe s m Q \<longleftrightarrow> (wf_interp s \<longrightarrow>
     (case m s of
        None \<Rightarrow> True
      | Some (Inl e, s') \<Rightarrow> wf_interp s' \<and> up s s'
      | Some (Inr x, s') \<Rightarrow> wf_interp s' \<and> up s s' \<and> same_scopes s s' \<and> Q x s'))"

lemma safe_bind [inv_intros]:
  assumes "safe s m (\<lambda>x s'. wf_interp s' \<longrightarrow> up s s' \<longrightarrow> (\<forall>v. wf_val s v \<longrightarrow> wf_val s' v) \<longrightarrow> safe s' (f x) R)"
  shows "safe s (sbind m f) R"
proof (cases "wf_interp s")
  case wf: True
  show ?thesis
  proof (cases "m s")
    case None
    then show ?thesis by (simp add: safe_def sbind_def)
  next
    case (Some p)
    show ?thesis
    proof (cases p)
      case (Pair r s')
      show ?thesis
      proof (cases r)
        case (Inl e)
        then show ?thesis using assms Some Pair by (simp add: safe_def sbind_def)
      next
        case (Inr x)
        have 1: "wf_interp s'" "up s s'" "same_scopes s s'" and 2: "safe s' (f x) R"
          using assms wf Some Pair Inr up_wf_val by (auto simp: safe_def)
        have "sbind m f s = f x s'" using Some Pair Inr by (simp add: sbind_def)
        then show ?thesis using 1 2 up_trans [OF 1(2)] same_scopes_trans [OF 1(3)]
          by (auto simp: safe_def split: option.splits sum.splits)
      qed
    qed
  qed
qed (simp add: safe_def)

lemma safe_sret [inv_intros]: "(wf_interp s \<Longrightarrow> Q x s) \<Longrightarrow> safe s (sret x) Q"
  by (simp add: safe_def sret_def)

lemma safe_sthrow [inv_intros]: "safe s (sthrow e) Q"
  by (simp add: safe_def sthrow_def)

lemma safe_sdiverge [inv_intros]: "safe s sdiverge Q"
  by (simp add: safe_def sdiverge_def)

lemma safe_sget [inv_intros]: "(wf_interp s \<Longrightarrow> Q (f s) s) \<Longrightarrow> safe s (sget f) Q"
  by (simp add: safe_def sget_def)

lemma safe_slift [inv_intros]: "(\<And>x. wf_interp s \<Longrightarrow> r = Inr x \<Longrightarrow> Q x s) \<Longrightarrow> safe s (slift r) Q"
  by (auto simp: safe_def slift_def split: sum.splits)

lemma safe_if [inv_intros]:
  "(b \<Longrightarrow> safe s m Q) \<Longrightarrow> (\<not> b \<Longrightarrow> safe s m' Q) \<Longrightarrow> safe s (if b then m else m') Q"
  by simp

lemma safe_weaken:
  "safe s m Q \<Longrightarrow> (\<And>x s'. wf_interp s' \<Longrightarrow> up s s' \<Longrightarrow> Q x s' \<Longrightarrow> R x s') \<Longrightarrow> safe s m R"
  by (auto simp: safe_def split: option.splits sum.splits prod.splits)

lemma safe_HGetFirst [inv_intros]:
  "wf_val s v \<Longrightarrow> (\<And>x. wf_interp s \<Longrightarrow> wf_val s x \<Longrightarrow> Q x s) \<Longrightarrow> safe s (HGetFirst v) Q"
  by (cases v) (auto simp: safe_def sget_def sthrow_def wf_cell)

lemma safe_HGetSecond [inv_intros]:
  "wf_val s v \<Longrightarrow> (\<And>x. wf_interp s \<Longrightarrow> wf_val s x \<Longrightarrow> Q x s) \<Longrightarrow> safe s (HGetSecond v) Q"
  by (cases v) (auto simp: safe_def sget_def sthrow_def wf_cell)

lemma safe_HGetValue [inv_intros]: "(\<And>i. wf_interp s \<Longrightarrow> Q i s) \<Longrightarrow> safe s (HGetValue v) Q"
  by (cases v) (auto simp: safe_def sret_def sthrow_def)

lemma safe_HGetName [inv_intros]:
  "wf_val s v \<Longrightarrow> (\<And>n. wf_interp s \<Longrightarrow> n \<noteq> [] \<Longrightarrow> Q n s) \<Longrightarrow> safe s (HGetName v) Q"
  by (cases v) (auto simp: safe_def sret_def sthrow_def)

lemma as_vector_wf:
  "wf_interp s \<Longrightarrow> wf_val s v \<Longrightarrow> as_vector n (cells s) v = Some (Inr vs) \<Longrightarrow> \<forall>x \<in> set vs. wf_val s x"
proof (induction n arbitrary: v vs)
  case (Suc n)
  show ?case
  proof (cases v)
    case (VCell a)
    then have "a < length (cells s)" using Suc.prems by simp
    note c = wf_cell [OF Suc.prems(1) this]
    obtain ws where "as_vector n (cells s) (snd (cells s ! a)) = Some (Inr ws)" "vs = fst (cells s ! a) # ws"
      using Suc.prems(3) VCell by (auto split: option.splits sum.splits)
    then show ?thesis using Suc.IH [OF Suc.prems(1) c(2)] c(1) by auto
  qed (use Suc.prems in auto)
qed simp

lemma safe_HAsVector [inv_intros]:
  assumes "wf_val s v" and "\<And>vs. wf_interp s \<Longrightarrow> \<forall>x \<in> set vs. wf_val s x \<Longrightarrow> Q vs s"
  shows "safe s (HAsVector v) Q"
  using as_vector_wf [of s v] assms
  by (auto simp: safe_def HAsVector_def split: option.splits sum.splits)

lemma safe_HSerialize [inv_intros]: "(\<And>t. wf_interp s \<Longrightarrow> Q t s) \<Longrightarrow> safe s (HSerialize v) Q"
  by (auto simp: safe_def HSerialize_def split: option.splits)


section \<open>Primitive changes of the state\<close>

lemma scopes_mem_cong:
  "mem s' = mem s \<Longrightarrow> same_scopes s s'"
  by (simp add: same_scopes_def)

lemma safe_HSetFirst [inv_intros]:
  assumes "wf_val s v" and "wf_val s w" and "\<And>s'. wf_interp s' \<Longrightarrow> up s s' \<Longrightarrow> Q () s'"
  shows "safe s (HSetFirst v w) Q"
proof (cases v)
  case (VCell a)
  let ?s = "s\<lparr>cells := (cells s)[a := (w, snd (cells s ! a))]\<rparr>"
  have up: "up s ?s" by (simp add: up_def)
  have "wf_interp s \<Longrightarrow> wf_interp ?s"
    using assms(1,2) VCell wf_cell(2) [of s a] up_wf_val [OF up] up_wf_lambda [OF up]
    by (fastforce simp: wf_interp_def dest!: set_update_subset_insert [THEN subsetD])
  then show ?thesis using up VCell assms(3) [of ?s]
    by (auto simp: safe_def smodify_def scopes_mem_cong)
qed (simp_all add: safe_sthrow)

lemma safe_HSetSecond [inv_intros]:
  assumes "wf_val s v" and "wf_val s w" and "\<And>s'. wf_interp s' \<Longrightarrow> up s s' \<Longrightarrow> Q () s'"
  shows "safe s (HSetSecond v w) Q"
proof (cases v)
  case (VCell a)
  let ?s = "s\<lparr>cells := (cells s)[a := (fst (cells s ! a), w)]\<rparr>"
  have up: "up s ?s" by (simp add: up_def)
  have "wf_interp s \<Longrightarrow> wf_interp ?s"
    using assms(1,2) VCell wf_cell(1) [of s a] up_wf_val [OF up] up_wf_lambda [OF up]
    by (fastforce simp: wf_interp_def dest!: set_update_subset_insert [THEN subsetD])
  then show ?thesis using up VCell assms(3) [of ?s]
    by (auto simp: safe_def smodify_def scopes_mem_cong)
qed (simp_all add: safe_sthrow)

lemma safe_make_Cell [inv_intros]:
  assumes "wf_val s v" and "wf_val s w" and "\<And>c s'. wf_interp s' \<Longrightarrow> up s s' \<Longrightarrow> wf_val s' c \<Longrightarrow> Q c s'"
  shows "safe s (make_Cell v w) Q"
proof -
  let ?s = "s\<lparr>cells := cells s @ [(v, w)]\<rparr>"
  have up: "up s ?s" by (simp add: up_def)
  have "wf_interp s \<Longrightarrow> wf_interp ?s"
    using assms(1,2) up_wf_val [OF up] up_wf_lambda [OF up] by (auto simp: wf_interp_def)
  then show ?thesis using up assms(3) [of ?s "VCell (length (cells s))"]
    by (simp add: safe_def make_Cell_def sbind_def sget_def smodify_def sret_def scopes_mem_cong)
qed

lemma safe_make_LambdaRun [inv_intros]:
  assumes "wf_interp s \<Longrightarrow> wf_lambda s l" and "\<And>c s'. wf_interp s' \<Longrightarrow> up s s' \<Longrightarrow> wf_val s' c \<Longrightarrow> Q c s'"
  shows "safe s (make_LambdaRun l) Q"
proof -
  let ?s = "s\<lparr>lambdas := lambdas s @ [l]\<rparr>"
  have up: "up s ?s" by (simp add: up_def)
  have "wf_interp s \<Longrightarrow> wf_interp ?s"
    using assms(1) up_wf_val [OF up] up_wf_lambda [OF up] by (auto simp: wf_interp_def)
  then show ?thesis using up assms(2) [of ?s "VLambda (length (lambdas s))"]
    by (simp add: safe_def make_LambdaRun_def sbind_def sget_def smodify_def sret_def scopes_mem_cong)
qed

lemma mem_vars_DefineVariable: "mem_vars (DefineVariable n v m) = mem_vars m @ [(n, v)]"
  by (simp add: DefineVariable_def make_Variable_def)

lemma mem_vars_others: "mem_vars (SetEndOfScope v m) = mem_vars m @ [([], v)]"
  "mem_vars (DefineShared a m) = mem_vars m" "mem_vars (Pop m) = mem_vars m"
  by (simp_all add: SetEndOfScope_def make_Variable_def DefineShared_def Pop_def Let_def pop_loop_facts)

text \<open>A new memory whose variables extend the old ones, all of their values being well-formed.\<close>

lemma wf_new_mem:
  assumes "wf_interp s" and "mem_ok m" and "mem_vars m = mem_vars (mem s) @ new"
    and "\<forall>(n, v) \<in> set new. wf_val s v"
  shows "wf_interp (s\<lparr>mem := m\<rparr>)" and "up s (s\<lparr>mem := m\<rparr>)"
proof -
  show up: "up s (s\<lparr>mem := m\<rparr>)"
    using assms(3) by (auto simp: up_def var_name_def nth_append)
  show "wf_interp (s\<lparr>mem := m\<rparr>)"
    using assms up_wf_val [OF up] up_wf_lambda [OF up] by (fastforce simp: wf_interp_def)
qed

lemma wf_DefineVariable:
  assumes "wf_interp s" and "wf_val s v"
  shows "wf_interp (s\<lparr>mem := DefineVariable n v (mem s)\<rparr>)" and "up s (s\<lparr>mem := DefineVariable n v (mem s)\<rparr>)"
  using wf_new_mem [OF assms(1), of "DefineVariable n v (mem s)" "[(n, v)]"] assms
  by (simp_all add: wf_interp_def mem_ok_DefineVariable mem_vars_DefineVariable)

lemma wf_SetEndOfScope:
  assumes "wf_interp s"
  shows "wf_interp (s\<lparr>mem := SetEndOfScope VNull (mem s)\<rparr>)" and "up s (s\<lparr>mem := SetEndOfScope VNull (mem s)\<rparr>)"
  using wf_new_mem [OF assms(1), of "SetEndOfScope VNull (mem s)" "[([], VNull)]"] assms
  by (simp_all add: wf_interp_def mem_ok_SetEndOfScope mem_vars_others)

lemma wf_Pop:
  assumes "wf_interp s"
  shows "wf_interp (s\<lparr>mem := Pop (mem s)\<rparr>)" and "up s (s\<lparr>mem := Pop (mem s)\<rparr>)"
  using wf_new_mem [OF assms(1), of "Pop (mem s)" "[]"] assms
  by (simp_all add: wf_interp_def mem_ok_Pop mem_vars_others)

lemma safe_DefineVariable [inv_intros]:
  assumes "wf_val s v" and "n \<noteq> []" and "\<And>s'. wf_interp s' \<Longrightarrow> up s s' \<Longrightarrow> Q () s'"
  shows "safe s (smem (DefineVariable n v)) Q"
proof -
  have "wf_interp s \<Longrightarrow> same_scopes s (s\<lparr>mem := DefineVariable n v (mem s)\<rparr>)"
    using assms(2) by (simp add: same_scopes_def wf_interp_def scopes_DefineVariable)
  then show ?thesis using wf_DefineVariable [OF _ assms(1)] assms(3)
    by (simp add: safe_def smem_def smodify_def)
qed

lemma GetVariable_wf:
  assumes "wf_interp s" and "GetVariable n (mem s) = Inr v"
  shows "wf_val s v"
proof -
  obtain a where a: "a \<in> set (storage (mem s))" "v = var_value (mem s) a"
    using assms(2) find_back_Some by (fastforce simp: GetVariable_def split: option.splits)
  then have "a < length (mem_vars (mem s))" using assms(1) by (simp add: wf_interp_def mem_ok_def)
  from nth_mem [OF this] show ?thesis using assms(1) a(2)
    by (auto simp: wf_interp_def var_value_def case_prod_beta)
qed

lemma SetVariable_wf:
  assumes "wf_interp s" and "SetVariable n v (mem s) = Inr m" and "wf_val s v"
  shows "wf_interp (s\<lparr>mem := m\<rparr>)" and "up s (s\<lparr>mem := m\<rparr>)" and "same_scopes s (s\<lparr>mem := m\<rparr>)"
proof -
  obtain a where m: "m = Variable_SetValue a v (mem s)"
    using assms(2) by (auto simp: SetVariable_def split: option.splits)
  show up: "up s (s\<lparr>mem := m\<rparr>)" by (simp add: up_def m)
  have "mem_ok m" using assms(1,2) mem_ok_SetVariable by (auto simp: wf_interp_def)
  moreover have "\<forall>(n, w) \<in> set (mem_vars m). wf_val s w"
    using assms(1,3) unfolding m Variable_SetValue_def
    by (auto simp: wf_interp_def dest!: set_update_subset_insert [THEN subsetD])
  ultimately show "wf_interp (s\<lparr>mem := m\<rparr>)"
    using assms(1) up_wf_val [OF up] up_wf_lambda [OF up] by (fastforce simp: wf_interp_def)
  show "same_scopes s (s\<lparr>mem := m\<rparr>)"
    using scopes_SetVariable [OF assms(2)] by (simp add: same_scopes_def)
qed

lemma make_Variable_scopes:
  assumes "make_Variable n v m = (a, m')" and "mem_ok m"
  shows "mem_ok m'" and "scopes m' = scopes m" and "mem_vars m' = mem_vars m @ [(n, v)]"
proof -
  note mk = var_name_make [OF assms(1)]
  have eq: "var_name m' b = var_name m b" if "b \<in> set (storage m)" for b
    using mk(2) mem_okD(1) [OF assms(2) that] .
  show "scopes m' = scopes m" unfolding scopes_def mk(3) by (rule scopes_of_cong) (simp add: eq)
  show "mem_vars m' = mem_vars m @ [(n, v)]" using assms(1) by (auto simp: make_Variable_def)
  have "entries k m' = entries k m" for k
    using entries_make [OF assms] by (simp add: entries_def mk(3))
  then show "mem_ok m'" using mem_okD [OF assms(2)] mk(3,6) defined_count_make [OF assms(1)]
    by (auto simp: mem_ok_def less_Suc_eq)
qed

lemma safe_push_context [inv_intros]:
  assumes "wf_val s l" and "wf_val s v" and "n \<noteq> []" and "\<And>s'. wf_interp s' \<Longrightarrow> up s s' \<Longrightarrow> Q () s'"
  shows "safe s (push_context l n v) Q"
proof (cases l)
  case (VLambda i)
  obtain a m where mk: "make_Variable n v (mem s) = (a, m)" by fastforce
  note vm = var_name_make [OF mk]
  let ?l = "(lambdas s ! i)\<lparr>lambda_context := lambda_context (lambdas s ! i) @ [a]\<rparr>"
  let ?s1 = "s\<lparr>mem := m\<rparr>" let ?s = "?s1\<lparr>lambdas := (lambdas s)[i := ?l]\<rparr>"
  have "wf_interp ?s \<and> up s ?s \<and> same_scopes s ?s" if wf: "wf_interp s"
  proof -
    have ok: "mem_ok (mem s)" using wf by (simp add: wf_interp_def)
    note ms = make_Variable_scopes [OF mk ok]
    have 1: "wf_interp ?s1" "up s ?s1" using wf_new_mem [OF wf ms(1,3)] assms(2) by auto
    have up: "up ?s1 ?s" by (simp add: up_def)
    have "i < length (lambdas s)" using assms(1) VLambda by simp
    then have "wf_lambda ?s1 (lambdas s ! i)" using 1(1) by (simp add: wf_interp_def)
    moreover have "wf_var ?s1 a" using vm assms(3) by (simp add: wf_var_def)
    ultimately have l: "wf_lambda ?s1 ?l" by (auto simp: wf_lambda_def)
    have "wf_interp ?s"
      using 1(1) l up_wf_val [OF up] up_wf_lambda [OF up]
      by (fastforce simp: wf_interp_def dest!: set_update_subset_insert [THEN subsetD])
    moreover have "same_scopes s ?s" using ms(2) by (simp add: same_scopes_def)
    ultimately show ?thesis using up_trans [OF 1(2) up] by blast
  qed
  then show ?thesis using assms(4) [of ?s] VLambda mk
    by (simp add: safe_def push_context_def smodify_def)
qed (simp_all add: push_context_def safe_sthrow)

lemma wf_GetContext:
  assumes "wf_interp s" and "a \<in> set (GetContext (mem s))"
  shows "wf_var s a"
  using assms mem_okD(1) [of "mem s" a] set_takeWhileD [of a _ "rev (storage (mem s))"]
  by (auto simp: GetContext_def wf_var_def wf_interp_def)

lemma safe_MakeLambda [inv_intros]:
  assumes "wf_val s args" and "wf_val s instructions"
    and "\<And>c s'. wf_interp s' \<Longrightarrow> up s s' \<Longrightarrow> wf_val s' c \<Longrightarrow> Q c s'"
  shows "safe s (MakeLambda args instructions) Q"
proof -
  have "safe s (MakeLambda args instructions) (\<lambda>c s'. wf_val s' c)"
    unfolding MakeLambda_def using assms(1,2)
    by (intro inv_intros impI) (auto simp: wf_lambda_def wf_GetContext intro!: inv_intros)
  then show ?thesis by (rule safe_weaken) (rule assms(3))
qed

section \<open>The call operators\<close>

lemma safe_smap:
  assumes "\<forall>x \<in> set xs. wf_val s x" and "\<And>x s'. wf_val s' x \<Longrightarrow> safe s' (f x) (\<lambda>y s''. P s'' y)"
    and "\<And>y s' s''. up s' s'' \<Longrightarrow> P s' y \<Longrightarrow> P s'' y"
  shows "safe s (smap f xs) (\<lambda>ys s'. length ys = length xs \<and> (\<forall>y \<in> set ys. P s' y))"
  using assms(1)
proof (induction xs arbitrary: s)
  case (Cons x xs)
  have 1: "safe s (f x) (\<lambda>y s''. P s'' y)" using assms(2) Cons.prems by simp
  show ?case unfolding smap.simps
  proof (rule safe_bind, rule safe_weaken [OF 1], intro impI)
    fix y s'
    assume s': "up s s'" "\<forall>v. wf_val s v \<longrightarrow> wf_val s' v" "P s' y"
    have "safe s' (smap f xs) (\<lambda>ys s''. length ys = length xs \<and> (\<forall>y \<in> set ys. P s'' y))"
      using Cons s' by auto
    then show "safe s' (sbind (smap f xs) (\<lambda>ys. sret (y # ys)))
        (\<lambda>ys s''. length ys = length (x # xs) \<and> (\<forall>y \<in> set ys. P s'' y))"
      by (intro safe_bind) (erule safe_weaken, auto intro!: safe_sret intro: assms(3) [OF _ s'(3)])
  qed
qed (auto intro: safe_sret)

lemma safe_sfold:
  assumes "\<forall>x \<in> set xs. wf_val s x" and "P s acc"
    and "\<And>x a s'. wf_val s' x \<Longrightarrow> P s' a \<Longrightarrow> safe s' (f a x) (\<lambda>b s''. P s'' b)"
  shows "safe s (sfold f acc xs) (\<lambda>b s'. P s' b)"
  using assms(1,2)
proof (induction xs arbitrary: s acc)
  case (Cons x xs)
  have 1: "safe s (f acc x) (\<lambda>y s''. P s'' y)" using assms(3) Cons.prems by simp
  show ?case unfolding sfold.simps
    by (rule safe_bind, rule safe_weaken [OF 1], intro impI) (use Cons in auto)
qed (auto intro: safe_sret)

text \<open>The state in which the parameters of a call are bound.\<close>

definition call_state :: "nat \<Rightarrow> interp \<Rightarrow> interp" where
  "call_state l s = s\<lparr>mem := fold DefineShared (lambda_context (lambdas s ! l)) (SetEndOfScope VNull (mem s))\<rparr>"

lemma call_state:
  assumes "wf_interp s" and "l < length (lambdas s)"
  shows "wf_interp (call_state l s)" and "up s (call_state l s)" and "tl (scopes (mem (call_state l s))) = scopes (mem s)"
proof -
  let ?ctx = "lambda_context (lambdas s ! l)" let ?s1 = "s\<lparr>mem := SetEndOfScope VNull (mem s)\<rparr>"
  note 1 = wf_SetEndOfScope [OF assms(1)]
  have "wf_lambda s (lambdas s ! l)" using assms by (simp add: wf_interp_def)
  then have "\<forall>a \<in> set ?ctx. wf_var ?s1 a" using up_wf_var [OF 1(2)] by (simp add: wf_lambda_def)
  then have ctx: "\<forall>a \<in> set ?ctx. a < length (mem_vars (mem ?s1)) \<and> var_name (mem ?s1) a \<noteq> []"
    by (simp add: wf_var_def)
  have ok: "mem_ok (mem ?s1)" using 1(1) by (simp add: wf_interp_def)
  have vars: "mem_vars (fold DefineShared as m) = mem_vars m" for as and m :: "val memory"
    by (induction as arbitrary: m) (simp_all add: mem_vars_others)
  have "mem_ok (fold DefineShared ?ctx (mem ?s1))" by (rule mem.shares(1) [OF ok ctx])
  from wf_new_mem [OF 1(1) this, of "[]"] vars
  show "wf_interp (call_state l s)" and "up s (call_state l s)"
    using up_trans [OF 1(2)] by (auto simp: call_state_def)
  show "tl (scopes (mem (call_state l s))) = scopes (mem s)"
    using mem.shares(2) [OF ok ctx] assms(1) by (simp add: call_state_def scopes_SetEndOfScope wf_interp_def)
qed

locale safe_evaluator =
  fixes ev :: hevaluator
  assumes ev_safe: "wf_val s v \<Longrightarrow> safe s (ev v) (\<lambda>x s'. wf_val s' x)"
begin

lemma ev_rule [inv_intros]:
  assumes "wf_val s v" and "\<And>x s'. wf_interp s' \<Longrightarrow> up s s' \<Longrightarrow> wf_val s' x \<Longrightarrow> Q x s'"
  shows "safe s (ev v) Q"
  using ev_safe [OF assms(1)] by (rule safe_weaken) (rule assms(2))

lemma HToBoolean_wf [simp]: "wf_val s (HToBoolean b)"
  by (simp add: HToBoolean_def)

lemma wf_elems:
  assumes "\<forall>x \<in> set vs. wf_val s x"
  shows "length vs = Suc 0 \<Longrightarrow> wf_val s (hd vs)" and "vs \<noteq> [] \<Longrightarrow> wf_val s (hd vs)"
    and "vs \<noteq> [] \<Longrightarrow> wf_val s (last vs)" and "nat i < length vs \<Longrightarrow> wf_val s (vs ! nat i)"
    and "length vs = 2 \<Longrightarrow> wf_val s (vs ! 0)" and "length vs = 2 \<Longrightarrow> wf_val s (vs ! Suc 0)"
    and "j < length vs \<Longrightarrow> wf_val s (vs ! j)"
  using assms by (auto simp: length_Suc_conv)

lemma hnumber_safe:
  assumes "wf_val s x" and "\<And>i s'. wf_interp s' \<Longrightarrow> up s s' \<Longrightarrow> Q i s'"
  shows "safe s (hnumber ev m x) Q"
proof -
  have "safe s (hnumber ev m x) (\<lambda>_ _. True)"
    unfolding hnumber_def using assms(1) by (auto intro!: inv_intros)
  then show ?thesis by (rule safe_weaken) (rule assms(2))
qed

lemma predicates_safe:
  assumes "wf_val s argument"
  shows "safe s (HQuote argument) (\<lambda>x s'. wf_val s' x)" and "safe s (HIsNumber ev argument) (\<lambda>x s'. wf_val s' x)"
    and "safe s (HIsBoolean ev argument) (\<lambda>x s'. wf_val s' x)" and "safe s (HNot ev argument) (\<lambda>x s'. wf_val s' x)"
    and "safe s (HIsPair ev argument) (\<lambda>x s'. wf_val s' x)" and "safe s (HIsNull ev argument) (\<lambda>x s'. wf_val s' x)"
    and "safe s (HIsSymbol ev argument) (\<lambda>x s'. wf_val s' x)"
  unfolding HQuote_def HIsNumber_def HIsBoolean_def HNot_def HIsPair_def HIsNull_def HIsSymbol_def
  using assms by (auto intro!: inv_intros wf_elems)

lemma lists_safe:
  assumes "wf_val s argument"
  shows "safe s (HCons ev argument) (\<lambda>x s'. wf_val s' x)" and "safe s (HCar ev argument) (\<lambda>x s'. wf_val s' x)"
    and "safe s (HCdr ev argument) (\<lambda>x s'. wf_val s' x)" and "safe s (HList argument) (\<lambda>x s'. wf_val s' x)"
    and "safe s (HListRef ev argument) (\<lambda>x s'. wf_val s' x)"
  unfolding HCons_def HCar_def HCdr_def HList_def HListRef_def
  using assms by (auto intro!: inv_intros wf_elems)

lemma htail_loop_wf:
  "wf_interp s \<Longrightarrow> wf_val s v \<Longrightarrow> htail_loop (cells s) v i = (w, j) \<Longrightarrow> wf_val s w"
proof (induction "cells s" v i arbitrary: w j rule: htail_loop.induct)
  case (1 a i)
  then show ?case using wf_cell(2) [of s a] by auto
qed auto

lemma safe_htail:
  "wf_val s v \<Longrightarrow> (\<And>w j. wf_interp s \<Longrightarrow> wf_val s w \<Longrightarrow> Q (w, j) s) \<Longrightarrow> safe s (htail v i) Q"
  using htail_loop_wf [of s v i] unfolding htail_def
  by (cases "htail_loop (cells s) v i") (auto simp: safe_def sget_def)

lemma HListTail_safe:
  assumes "wf_val s argument"
  shows "safe s (HListTail ev argument) (\<lambda>x s'. wf_val s' x)"
  unfolding HListTail_def
  using assms by (auto intro!: inv_intros safe_htail)

lemma HIsList_safe:
  assumes "wf_val s argument"
  shows "safe s (HIsList ev argument) (\<lambda>x s'. wf_val s' x)"
proof -
  have k: "safe s' (\<lambda>s. case HAsVector x s of
         Some (Inl (RuntimeError re), s') \<Rightarrow> sret (HToBoolean False) s'
       | Some (Inl e, s') \<Rightarrow> sthrow e s'
       | Some (Inr _, s') \<Rightarrow> sret (HToBoolean True) s'
       | None \<Rightarrow> None) (\<lambda>x s'. wf_val s' x)" for s' x
    by (auto simp: safe_def HAsVector_def sret_def sthrow_def
        split: option.splits sum.splits scheme_error.splits)
  show ?thesis unfolding HIsList_def using assms by (auto intro!: inv_intros k)
qed

lemma arithmetic_safe:
  assumes "wf_val s argument"
  shows "safe s (HDirectArithmetic ev func init argument) (\<lambda>x s'. wf_val s' x)"
    and "safe s (HReverseArithmetic ev func init argument) (\<lambda>x s'. wf_val s' x)"
    and "safe s (HExtremum ev func' argument) (\<lambda>x s'. wf_val s' x)"
    and "safe s (HAbs ev argument) (\<lambda>x s'. wf_val s' x)"
proof -
  have fold: "safe s' (sfold (\<lambda>r x. sbind (hnumber ev m x) (\<lambda>v. k r v)) acc xs) Q"
    if "\<forall>x \<in> set xs. wf_val s' x" "\<And>i s''. wf_interp s'' \<Longrightarrow> up s' s'' \<Longrightarrow> Q i s''"
      "\<And>r v s. safe s (k r v) (\<lambda>_ _. True)"
    for s' :: interp and m acc xs Q and k :: "int \<Rightarrow> int \<Rightarrow> int action"
  proof -
    have "safe s' (sfold (\<lambda>r x. sbind (hnumber ev m x) (\<lambda>v. k r v)) acc xs) (\<lambda>_ _. True)"
      by (rule safe_sfold [OF that(1)]) (auto intro!: inv_intros hnumber_safe that(3))
    then show ?thesis by (rule safe_weaken) (rule that(2))
  qed
  show "safe s (HDirectArithmetic ev func init argument) (\<lambda>x s'. wf_val s' x)"
    unfolding HDirectArithmetic_def using assms by (auto intro!: inv_intros fold)
  show "safe s (HReverseArithmetic ev func init argument) (\<lambda>x s'. wf_val s' x)"
    unfolding HReverseArithmetic_def using assms
    by (auto intro!: inv_intros fold hnumber_safe wf_elems dest: list.set_sel(2))
  show "safe s (HAbs ev argument) (\<lambda>x s'. wf_val s' x)"
    unfolding HAbs_def using assms by (auto intro!: inv_intros wf_elems)
  have map: "safe s' (smap (hnumber ev m) xs) Q"
    if "\<forall>x \<in> set xs. wf_val s' x" "\<And>i s''. wf_interp s'' \<Longrightarrow> up s' s'' \<Longrightarrow> Q i s''" for s' m xs Q
  proof -
    have "safe s' (smap (hnumber ev m) xs) (\<lambda>ys s'. length ys = length xs \<and> (\<forall>y \<in> set ys. True))"
      by (rule safe_smap [OF that(1)]) (auto intro!: inv_intros hnumber_safe)
    then show ?thesis by (rule safe_weaken) (rule that(2))
  qed
  show "safe s (HExtremum ev func' argument) (\<lambda>x s'. wf_val s' x)"
    unfolding HExtremum_def using assms by (auto intro!: inv_intros map wf_elems)
qed

lemma logic_safe:
  assumes "\<forall>x \<in> set args. wf_val s x"
  shows "safe s (hcompare_loop ev c args) (\<lambda>x s'. wf_val s' x)"
    and "safe s (hor_loop ev args) (\<lambda>x s'. wf_val s' x)"
    and "(\<And>s'. wf_interp s' \<Longrightarrow> up s s' \<Longrightarrow> safe s' after (\<lambda>x s'. wf_val s' x)) \<Longrightarrow> wf_interp s \<Longrightarrow>
      safe s (hand_loop ev args after) (\<lambda>x s'. wf_val s' x)"
proof -
  show "safe s (hcompare_loop ev c args) (\<lambda>x s'. wf_val s' x)"
    using assms by (induction args arbitrary: s rule: induct_list012) (auto intro!: inv_intros)
  show "safe s (hor_loop ev args) (\<lambda>x s'. wf_val s' x)"
    using assms by (induction args arbitrary: s) (auto intro!: inv_intros)
  show "safe s (hand_loop ev args after) (\<lambda>x s'. wf_val s' x)"
    if "\<And>s'. wf_interp s' \<Longrightarrow> up s s' \<Longrightarrow> safe s' after (\<lambda>x s'. wf_val s' x)" "wf_interp s"
    using assms that
  proof (induction args arbitrary: s)
    case (Cons x xs)
    then show ?case by (auto intro!: inv_intros intro: up_trans)
  qed auto
qed

lemma logic_call_safe:
  assumes "wf_val s argument"
  shows "safe s (HCompare ev c argument) (\<lambda>x s'. wf_val s' x)"
    and "safe s (HOr ev argument) (\<lambda>x s'. wf_val s' x)"
    and "safe s (HAnd ev argument) (\<lambda>x s'. wf_val s' x)"
    and "safe s (HIf ev argument) (\<lambda>x s'. wf_val s' x)"
proof -
  show "safe s (HCompare ev c argument) (\<lambda>x s'. wf_val s' x)" "safe s (HOr ev argument) (\<lambda>x s'. wf_val s' x)"
    unfolding HCompare_def HOr_def using assms by (auto intro!: inv_intros logic_safe)
  show "safe s (HAnd ev argument) (\<lambda>x s'. wf_val s' x)"
    unfolding HAnd_def using assms
    by (auto intro!: inv_intros logic_safe(3) wf_elems dest: up_wf_val)
  show "safe s (HIf ev argument) (\<lambda>x s'. wf_val s' x)"
    unfolding HIf_def using assms by (auto intro!: inv_intros wf_elems)
qed

lemma changes_safe:
  assumes "wf_val s argument"
  shows "safe s (HSet ev argument) (\<lambda>x s'. wf_val s' x)"
    and "safe s (HSetCar ev argument) (\<lambda>x s'. wf_val s' x)"
    and "safe s (HSetCdr ev argument) (\<lambda>x s'. wf_val s' x)"
    and "safe s (HLambda argument) (\<lambda>x s'. wf_val s' x)"
    and "safe s (HDefine ev argument) (\<lambda>x s'. wf_val s' x)"
proof -
  have set: "safe s' (smem (\<lambda>_. m)) Q" if "SetVariable n v (mem s') = Inr m" "wf_val s' v"
    "\<And>s''. wf_interp s'' \<Longrightarrow> up s' s'' \<Longrightarrow> Q () s''" for s' m n v Q
    using SetVariable_wf [OF _ that(1,2)] that(3) by (simp add: safe_def smem_def smodify_def)
  show "safe s (HSet ev argument) (\<lambda>x s'. wf_val s' x)"
    unfolding HSet_def using assms
    by (auto intro!: inv_intros set wf_elems)
  show "safe s (HSetCar ev argument) (\<lambda>x s'. wf_val s' x)" "safe s (HSetCdr ev argument) (\<lambda>x s'. wf_val s' x)"
    unfolding HSetCar_def HSetCdr_def using assms by (auto intro!: inv_intros wf_elems)
  show "safe s (HLambda argument) (\<lambda>x s'. wf_val s' x)"
    unfolding HLambda_def using assms by (auto intro!: inv_intros)
  show "safe s (HDefine ev argument) (\<lambda>x s'. wf_val s' x)"
    unfolding HDefine_def using assms by (auto intro!: inv_intros wf_elems)
qed

lemma bind_params_safe:
  assumes "\<forall>p \<in> set ps. wf_val s p" and "\<forall>v \<in> set vs. wf_val s v"
  shows "safe s (bind_params ps vs) (\<lambda>_ _. True)"
proof -
  have "\<forall>(p, v) \<in> set xs. wf_val s p \<and> wf_val s v \<Longrightarrow> safe s (sfold (\<lambda>_ (p, v).
      sbind (HGetName p) (\<lambda>name. smem (DefineVariable name v))) () xs) (\<lambda>_ _. True)" for xs
  proof (induction xs arbitrary: s)
    case (Cons x xs)
    then show ?case by (cases x) (auto intro!: inv_intros simp: case_prod_beta)
  qed (auto intro!: inv_intros)
  then show ?thesis using assms unfolding bind_params_def
    by (auto dest: set_zip_leftD set_zip_rightD)
qed

definition call_body :: "LambdaRun \<Rightarrow> val list \<Rightarrow> val action" where
  "call_body lam values =
     sbind (bind_params (lambda_params lam) values) (\<lambda>_.
       sfold (\<lambda>_ instruction. ev instruction) VNull (lambda_instructions lam))"

lemma sbind_assoc: "sbind (sbind m f) g = sbind m (\<lambda>x. sbind (f x) g)"
  by (auto simp: sbind_def fun_eq_iff split: option.splits sum.splits)

lemma call_body_safe:
  assumes "wf_lambda s lam" and "\<forall>v \<in> set values. wf_val s v"
  shows "safe s (call_body lam values) (\<lambda>x s'. wf_val s' x)"
proof -
  have fold: "safe s' (sfold (\<lambda>_ instruction. ev instruction) VNull xs) (\<lambda>x s'. wf_val s' x)"
    if "\<forall>v \<in> set xs. wf_val s' v" for s' xs
    by (rule safe_sfold [OF that, of "\<lambda>s' x. wf_val s' x"]) (auto intro: ev_safe)
  show ?thesis unfolding call_body_def
  proof (rule safe_bind, rule safe_weaken [OF bind_params_safe], goal_cases)
    case (3 _ s')
    then show ?case using assms by (intro impI fold) (auto simp: wf_lambda_def)
  qed (use assms in \<open>auto simp: wf_lambda_def\<close>)
qed

lemma frame_unfold:
  "sbind (smem (SetEndOfScope VNull)) (\<lambda>_.
     sbind (sget (\<lambda>s. lambda_context (lambdas s ! l))) (\<lambda>context.
     sbind (smem (fold DefineShared context)) (\<lambda>_.
     sbind (bind_params (lambda_params lam) values) (\<lambda>_.
     sbind (sfold (\<lambda>_ instruction. ev instruction) VNull (lambda_instructions lam)) (\<lambda>computed_arg.
     sbind (smem Pop) (\<lambda>_. sret computed_arg)))))) s =
   sbind (call_body lam values) (\<lambda>x. sbind (smem Pop) (\<lambda>_. sret x)) (call_state l s)"
  by (simp add: call_body_def sbind_assoc call_state_def)
    (simp add: sbind_def smem_def smodify_def sget_def)

lemma frame_safe:
  assumes "l < length (lambdas s)" and "wf_interp s \<Longrightarrow> wf_lambda s lam" and "\<forall>v \<in> set values. wf_val s v"
    and "m s = sbind (call_body lam values) (\<lambda>x. sbind (smem Pop) (\<lambda>_. sret x)) (call_state l s)"
  shows "safe s m (\<lambda>x s'. wf_val s' x)"
proof (cases "wf_interp s")
  case True
  note c = call_state [OF True assms(1)]
  have b: "safe (call_state l s) (call_body lam values) (\<lambda>x s'. wf_val s' x)"
    using up_wf_lambda [OF c(2) assms(2) [OF True]] assms(3) up_wf_val [OF c(2)]
    by (intro call_body_safe) auto
  show ?thesis
  proof (cases "call_body lam values (call_state l s)")
    case None
    then show ?thesis using assms(4) by (simp add: safe_def sbind_def)
  next
    case (Some p)
    obtain r s4 where p: "p = (r, s4)" by (cases p)
    have wf4: "wf_interp s4" "up s s4"
      using b c Some p up_trans by (auto simp: safe_def split: sum.splits)
    show ?thesis
    proof (cases r)
      case (Inl e)
      then show ?thesis using wf4 Some p assms(4) by (simp add: safe_def sbind_def)
    next
      case (Inr x)
      let ?s5 = "s4\<lparr>mem := Pop (mem s4)\<rparr>"
      have 4: "same_scopes (call_state l s) s4" "wf_val s4 x"
        using b c(1) Some p Inr by (auto simp: safe_def)
      have "tl (scopes (mem s4)) = scopes (mem s)" using 4(1) c(3) by (simp add: same_scopes_def)
      then have "scopes (Pop (mem s4)) = scopes (mem s)" by (simp add: scopes_Pop)
      then have "same_scopes s ?s5" by (simp add: same_scopes_def)
      then show ?thesis
        using Some p Inr assms(4) 4(2) wf_Pop [OF wf4(1)] up_trans [OF wf4(2)] up_wf_val
        by (auto simp: safe_def sbind_def smem_def smodify_def sret_def)
    qed
  qed
qed (simp add: safe_def)

lemma LambdaRun_call_safe:
  assumes "wf_val s (VLambda l)" and "wf_val s argument"
  shows "safe s (LambdaRun_call ev l argument) (\<lambda>x s'. wf_val s' x)"
  unfolding LambdaRun_call_def
proof (rule safe_bind, rule safe_HAsVector [OF assms(2)], intro impI, rule safe_bind, rule safe_sget,
    intro impI, rule safe_if)
  fix vs
  assume vs: "\<forall>x \<in> set vs. wf_val s x" and wf: "wf_interp s"
  show "safe s (sthrow e) Q" for e :: scheme_error and Q :: "val \<Rightarrow> interp \<Rightarrow> bool" by (rule safe_sthrow)
  have lam: "wf_lambda s (lambdas s ! l)" using assms(1) wf by (simp add: wf_interp_def)
  have m: "safe s (smap ev vs) (\<lambda>ys s'. length ys = length vs \<and> (\<forall>y \<in> set ys. wf_val s' y))"
    by (rule safe_smap [OF vs ev_safe up_wf_val])
  show "safe s (sbind (smap ev vs) (\<lambda>values.
            sbind (smem (SetEndOfScope VNull)) (\<lambda>_.
            sbind (sget (\<lambda>s. lambda_context (lambdas s ! l))) (\<lambda>context.
            sbind (smem (fold DefineShared context)) (\<lambda>_.
            sbind (bind_params (lambda_params (lambdas s ! l)) values) (\<lambda>_.
            sbind (sfold (\<lambda>_ instruction. ev instruction) VNull (lambda_instructions (lambdas s ! l))) (\<lambda>computed_arg.
            sbind (smem Pop) (\<lambda>_. sret computed_arg)))))))) (\<lambda>x s'. wf_val s' x)"
  proof (rule safe_bind, rule safe_weaken [OF m], intro impI)
    fix vals s'
    assume "up s s'" and "length vals = length vs \<and> (\<forall>y \<in> set vals. wf_val s' y)"
    then show "safe s' (sbind (smem (SetEndOfScope VNull)) (\<lambda>_.
            sbind (sget (\<lambda>s. lambda_context (lambdas s ! l))) (\<lambda>context.
            sbind (smem (fold DefineShared context)) (\<lambda>_.
            sbind (bind_params (lambda_params (lambdas s ! l)) vals) (\<lambda>_.
            sbind (sfold (\<lambda>_ instruction. ev instruction) VNull (lambda_instructions (lambdas s ! l))) (\<lambda>computed_arg.
            sbind (smem Pop) (\<lambda>_. sret computed_arg))))))) (\<lambda>x s'. wf_val s' x)"
      using assms(1) up_wf_lambda [OF _ lam] up_wf_val [of s s' "VLambda l"]
      by (intro frame_safe [OF _ _ _ frame_unfold]) auto
  qed
qed

lemma builtin_call_safe:
  assumes "wf_val s argument"
  shows "safe s (builtin_call ev f argument) (\<lambda>x s'. wf_val s' x)"
  by (cases f) (simp_all only: builtin_call.simps predicates_safe [OF assms] lists_safe [OF assms]
    HListTail_safe [OF assms] HIsList_safe [OF assms] arithmetic_safe [OF assms]
    logic_call_safe [OF assms] changes_safe [OF assms])

lemma hcall_safe:
  assumes "wf_val s f" and "wf_val s argument"
  shows "safe s (hcall ev f argument) (\<lambda>x s'. wf_val s' x)"
  using assms builtin_call_safe LambdaRun_call_safe by (cases f) (simp_all add: safe_sthrow)

end

lemma compute_symbol_safe: "name \<noteq> [] \<Longrightarrow> safe s (compute_symbol name) (\<lambda>x s'. wf_val s' x)"
  unfolding compute_symbol_def
  by (auto intro!: inv_intros simp: GetVariable_wf split: option.split)

lemma HCompute_safe: "wf_val s v \<Longrightarrow> safe s (HCompute n v) (\<lambda>x s'. wf_val s' x)"
proof (induction n arbitrary: s v)
  case (Suc n)
  have ev: "safe_evaluator (HCompute n)" by unfold_locales (rule Suc.IH)
  show ?case
  proof (cases v)
    case (VSymbol name)
    then show ?thesis using compute_symbol_safe Suc.prems by simp
  next
    case (VCell a)
    have "safe s (sbind (HGetFirst v) (\<lambda>first.
     sbind (HCompute n first) (\<lambda>func.
       if \<not> IsV_Function func
       then sthrow (RuntimeError ''First element in list does not evaluate to the functor'')
       else sbind (HGetSecond v) (\<lambda>argument. hcall (HCompute n) func argument)))) (\<lambda>x s'. wf_val s' x)"
      using Suc.prems
      by (auto intro!: inv_intros safe_evaluator.ev_rule [OF ev] safe_evaluator.hcall_safe [OF ev])
    then show ?thesis unfolding VCell HCompute.simps .
  qed (use Suc.prems in \<open>auto intro!: inv_intros\<close>)
qed (simp add: safe_sdiverge)

interpretation evaluator: safe_evaluator "HCompute n" for n
  by unfold_locales (rule HCompute_safe)

end
