(* ===== verification/BasicProps.thy ===== *)
theory BasicProps
  imports Basic
begin

text \<open>
  What the interpreter without variables promises. The call operators see the evaluator only
  through the two locales below: one says which values it returns, the other which exceptions it
  throws. \<open>Compute\<close> is an instance of both.
\<close>

section \<open>Lists of objects\<close>

definition list_of :: "object list \<Rightarrow> object" where
  "list_of xs = foldr Cell xs Null"

lemma list_of_simps [simp]: "list_of [] = Null" "list_of (x # xs) = Cell x (list_of xs)"
  by (simp_all add: list_of_def)

lemma AsVector_list_of [simp]: "AsVector (list_of xs) = Inr xs"
  by (induction xs) simp_all

lemma AsVector_Inr_iff: "AsVector obj = Inr xs \<longleftrightarrow> obj = list_of xs"
  by (induction obj arbitrary: xs) (auto simp: list_of_def ebind_Inr_iff neq_Nil_conv split: list.splits
      | (case_tac xs, auto simp: list_of_def))+

lemma list_of_eq_Null [simp]: "list_of xs = Null \<longleftrightarrow> xs = []"
  by (cases xs) simp_all

lemma AsVector_error: "AsVector obj = Inl e \<Longrightarrow> \<exists>m. e = RuntimeError m"
  by (induction obj) (auto simp: ebind_Inl_iff)

section \<open>Values\<close>

fun obj_all :: "(int \<Rightarrow> bool) \<Rightarrow> (string \<Rightarrow> bool) \<Rightarrow> object \<Rightarrow> bool" where
  "obj_all okn oks Null = True"
| "obj_all okn oks (Number v) = okn v"
| "obj_all okn oks (Symbol s) = oks s"
| "obj_all okn oks (Cell a b) = (obj_all okn oks a \<and> obj_all okn oks b)"

lemma obj_all_list_of [simp]: "obj_all p q (list_of xs) \<longleftrightarrow> (\<forall>x \<in> set xs. obj_all p q x)"
  by (induction xs) auto

lemma ll_check_Inr [simp]: "ll_check v = Inr w \<longleftrightarrow> w = v \<and> ll_ok v"
  by (auto simp: ll_check_def)

lemmas ll_defs = ll_add_def ll_sub_def ll_mul_def ll_div_def ll_abs_def

locale value_evaluator =
  fixes ev :: evaluator and n :: nat and okn :: "int \<Rightarrow> bool" and oks :: "string \<Rightarrow> bool"
  assumes okn: "ll_ok v \<Longrightarrow> okn v"
    and oks: "oks ''#t''" "oks ''#f''"
    and ev_ok: "size x < n \<Longrightarrow> obj_all okn oks x \<Longrightarrow> ev x = Inr y \<Longrightarrow> obj_all okn oks y"
begin

lemma ToBoolean_ok [simp]: "obj_all okn oks (ToBoolean b)"
  using oks by (simp add: ToBoolean_def)

lemma GetFirst_ok: "obj_all okn oks x \<Longrightarrow> GetFirst x = Inr y \<Longrightarrow> obj_all okn oks y"
  by (cases x) auto

lemma GetSecond_ok: "obj_all okn oks x \<Longrightarrow> GetSecond x = Inr y \<Longrightarrow> obj_all okn oks y"
  by (cases x) auto

lemma GetValue_ok: "obj_all okn oks x \<Longrightarrow> GetValue x = Inr v \<Longrightarrow> okn v"
  by (cases x) auto

lemma compare_loop_ok: "compare_loop ev c args = Inr y \<Longrightarrow> obj_all okn oks y"
  using oks by (induction ev c args rule: compare_loop.induct) (auto split: if_splits)

lemma number_arg_ok:
  "size x < n \<Longrightarrow> obj_all okn oks x \<Longrightarrow> number_arg ev m x = Inr v \<Longrightarrow> okn v"
  by (auto simp: number_arg_def split: if_splits dest: GetValue_ok [OF ev_ok])

lemma or_loop_ok:
  "\<forall>x \<in> set args. size x < n \<and> obj_all okn oks x \<Longrightarrow> or_loop ev args = Inr y \<Longrightarrow> obj_all okn oks y"
  by (induction args) (auto split: if_splits dest: ev_ok)

lemma and_loop_ok:
  "and_loop ev args r = Inr y \<Longrightarrow> obj_all okn oks y \<or> r = Inr y"
  by (induction args) (auto split: if_splits)

lemma tail_loop_ok: "obj_all okn oks x \<Longrightarrow> tail_loop x i = (y, j) \<Longrightarrow> obj_all okn oks y"
  by (induction x i rule: tail_loop.induct) (auto split: if_splits)

lemma vector_ok:
  assumes "obj_all okn oks argument" and "size argument \<le> n" and "AsVector argument = Inr args"
    and "x \<in> set args"
  shows "obj_all okn oks x \<and> size x < n"
  using assms AsVector_smaller [OF assms(3,4)] by (auto simp: AsVector_Inr_iff)

lemma fold_ok:
  assumes "efold f acc args = Inr r" and "okn acc"
    and "\<And>a x b. x \<in> set args \<Longrightarrow> okn a \<Longrightarrow> f a x = Inr b \<Longrightarrow> okn b"
  shows "okn r"
  using assms by (rule efold_invariant)

lemma okn_small [simp]: "okn 0" "okn 1"
  by (simp_all add: okn ll_ok_def)

lemma arithmetic_ok:
  assumes "efold (\<lambda>a x. ebind (number_arg ev m x) (\<lambda>v. g a v)) acc args = Inr r" and "okn acc"
    and "\<And>a v b. g a v = Inr b \<Longrightarrow> ll_ok b"
  shows "okn r"
  using assms by (auto intro!: fold_ok [OF assms(1,2)] intro: okn)

lemma extremum_ok:
  assumes "efold (\<lambda>a x. ebind (number_arg ev m x) (\<lambda>v. Inr (g a v))) acc args = Inr r" and "okn acc"
    and "\<And>a v. g a v = a \<or> g a v = v" and "\<And>x. x \<in> set args \<Longrightarrow> obj_all okn oks x \<and> size x < n"
  shows "okn r"
proof (rule fold_ok [OF assms(1,2)])
  fix a x b
  assume "x \<in> set args" and "okn a" and "ebind (number_arg ev m x) (\<lambda>v. Inr (g a v)) = Inr b"
  then show "okn b" using assms(3,4) number_arg_ok by (auto) metis
qed

lemma part_ok:
  assumes "obj_all okn oks argument" and "size argument \<le> n" and "ev x = Inr z"
    and "GetFirst argument = Inr x \<or> (\<exists>u. GetSecond argument = Inr u \<and> GetFirst u = Inr x)"
  shows "obj_all okn oks z"
proof -
  have "size x < n" and "obj_all okn oks x"
    using assms(1,2,4) GetFirst_smaller GetSecond_GetFirst_smaller GetFirst_ok GetSecond_ok
    by (meson order_less_le_trans)+
  then show ?thesis using ev_ok assms(3) by blast
qed

lemma ev_elem_ok: "\<lbrakk>obj_all okn oks argument; size argument \<le> n; argument = list_of args; x \<in> set args;
   ev x = Inr z\<rbrakk> \<Longrightarrow> obj_all okn oks z"
  using vector_ok ev_ok AsVector_Inr_iff by metis

lemma arithmetic_call_ok:
  shows "Add_call ev argument = Inr y \<Longrightarrow> obj_all okn oks y"
    and "Mul_call ev argument = Inr y \<Longrightarrow> obj_all okn oks y"
    and "Sub_call ev argument = Inr y \<Longrightarrow> obj_all okn oks y"
    and "Abs_call ev argument = Inr y \<Longrightarrow> obj_all okn oks y"
proof -
  assume "Add_call ev argument = Inr y"
  then obtain args r where r: "efold (\<lambda>sum arg. ebind (number_arg ev ''Add argument is not a number'' arg)
      (\<lambda>v. ll_add sum v)) 0 args = Inr r" and y: "y = Number r"
    by (auto simp: Add_call_def)
  have "okn r" by (rule arithmetic_ok [OF r]) (auto simp: ll_defs)
  then show "obj_all okn oks y" using y by simp
next
  assume "Mul_call ev argument = Inr y"
  then obtain args r where r: "efold (\<lambda>mul arg. ebind (number_arg ev ''Mul argument is not a number'' arg)
      (\<lambda>v. ll_mul mul v)) 1 args = Inr r" and y: "y = Number r"
    by (auto simp: Mul_call_def)
  have "okn r" by (rule arithmetic_ok [OF r]) (auto simp: ll_defs)
  then show "obj_all okn oks y" using y by simp
qed (auto simp: Sub_call_def Abs_call_def ll_defs okn split: if_splits)

lemma div_call_ok:
  assumes "obj_all okn oks argument" and "size argument \<le> n" and "Div_call ev argument = Inr y"
  shows "obj_all okn oks y"
proof -
  obtain args x first r where args: "AsVector argument = Inr args" "args \<noteq> []"
    and x: "ev (hd args) = Inr x" "GetValue x = Inr first"
    and r: "efold (\<lambda>quot arg. ebind (number_arg ev ''Div argument is not a number'' arg)
       (\<lambda>v. if v = 0 then Inl (RuntimeError ''Div argument is zero'') else ll_div quot v))
       first (tl args) = Inr r" and y: "y = Number r"
    using assms(3) by (auto simp: Div_call_def split: if_splits)
  have "okn first"
    using vector_ok [OF assms(1,2) args(1), of "hd args"] args(2) x ev_ok GetValue_ok by auto
  then have "okn r"
    by (rule fold_ok [OF r]) (auto simp: ll_defs okn split: if_splits)
  then show ?thesis using y by simp
qed

lemma extremum_fold_ok:
  assumes "obj_all okn oks argument" and "size argument \<le> n" and "AsVector argument = Inr args"
    and "args \<noteq> []" and "ev (hd args) = Inr x" and "GetValue x = Inr first"
    and "efold (\<lambda>m arg. ebind (number_arg ev msg arg) (\<lambda>v. Inr (g m v))) first args = Inr r"
    and "\<And>a v. g a v = a \<or> g a v = v"
  shows "okn r"
proof (rule extremum_ok [OF assms(7) _ assms(8)])
  show "okn first" using vector_ok [OF assms(1-3), of "hd args"] assms(4-6) ev_ok GetValue_ok by auto
  show "x \<in> set args \<Longrightarrow> obj_all okn oks x \<and> size x < n" for x
    using vector_ok [OF assms(1-3)] by blast
qed

lemma extremum_call_ok:
  assumes "obj_all okn oks argument" and "size argument \<le> n"
  shows "Max_call ev argument = Inr y \<Longrightarrow> obj_all okn oks y"
    and "Min_call ev argument = Inr y \<Longrightarrow> obj_all okn oks y"
proof -
  assume "Max_call ev argument = Inr y"
  then obtain args x first r where "AsVector argument = Inr args" "args \<noteq> []" "ev (hd args) = Inr x"
    "GetValue x = Inr first" "efold (\<lambda>m arg. ebind (number_arg ev ''Max argument is not a number'' arg)
       (\<lambda>v. Inr (max m v))) first args = Inr r" "y = Number r"
    by (auto simp: Max_call_def split: if_splits)
  then show "obj_all okn oks y" using extremum_fold_ok [OF assms, where g = max] by (simp add: max_def)
next
  assume "Min_call ev argument = Inr y"
  then obtain args x first r where "AsVector argument = Inr args" "args \<noteq> []" "ev (hd args) = Inr x"
    "GetValue x = Inr first" "efold (\<lambda>m arg. ebind (number_arg ev ''Min argument is not a number'' arg)
       (\<lambda>v. Inr (min m v))) first args = Inr r" "y = Number r"
    by (auto simp: Min_call_def split: if_splits)
  then show "obj_all okn oks y" using extremum_fold_ok [OF assms, where g = min] by (simp add: min_def)
qed

lemma logic_call_ok:
  assumes "obj_all okn oks argument" and "size argument \<le> n"
  shows "And_call ev argument = Inr y \<Longrightarrow> obj_all okn oks y"
    and "Or_call ev argument = Inr y \<Longrightarrow> obj_all okn oks y"
    and "Compare_call ev c argument = Inr y \<Longrightarrow> obj_all okn oks y"
proof -
  assume "And_call ev argument = Inr y"
  then obtain args where args: "AsVector argument = Inr args"
    and "and_loop ev args (if args = [] then Inr (ToBoolean True) else ev (last args)) = Inr y"
    by (auto simp: And_call_def)
  then have "obj_all okn oks y \<or> (if args = [] then Inr (ToBoolean True) else ev (last args)) = Inr y"
    using and_loop_ok by blast
  then show "obj_all okn oks y"
    using ev_elem_ok [OF assms, of args "last args"] args by (auto simp: AsVector_Inr_iff split: if_splits)
next
  assume "Or_call ev argument = Inr y"
  then show "obj_all okn oks y"
    using or_loop_ok vector_ok [OF assms] by (auto simp: Or_call_def)
qed (use oks in \<open>auto simp: Compare_call_def split: if_splits intro: compare_loop_ok\<close>)

lemma list_call_ok:
  assumes "obj_all okn oks argument" and "size argument \<le> n"
  shows "ListRef_call ev argument = Inr y \<Longrightarrow> obj_all okn oks y"
    and "ListTail_call ev argument = Inr y \<Longrightarrow> obj_all okn oks y"
proof -
  assume "ListRef_call ev argument = Inr y"
  then obtain x list i where x: "GetFirst argument = Inr x" "ev x = Inr (list_of list)"
    and i: "0 \<le> i" "i < int (length list)" "y = list ! nat i"
    by (auto simp: ListRef_call_def vector_at_def AsVector_Inr_iff not_less split: if_splits)
  have "obj_all okn oks (list_of list)" using part_ok [OF assms x(2)] x(1) by blast
  then show "obj_all okn oks y" using i by auto
next
  assume "ListTail_call ev argument = Inr y"
  then obtain x z i where x: "GetFirst argument = Inr x" "ev x = Inr z" and "tail_loop z i = (y, 0)"
    by (auto simp: ListTail_call_def split: if_splits prod.splits)
  then show "obj_all okn oks y" using part_ok [OF assms x(2)] tail_loop_ok by blast
qed

lemma pair_call_ok:
  assumes "obj_all okn oks argument" and "size argument \<le> n"
  shows "Cons_call ev argument = Inr y \<Longrightarrow> obj_all okn oks y"
    and "Car_call ev argument = Inr y \<Longrightarrow> obj_all okn oks y"
    and "Cdr_call ev argument = Inr y \<Longrightarrow> obj_all okn oks y"
proof -
  assume "Cons_call ev argument = Inr y"
  then obtain a u b v w where "GetFirst argument = Inr a" "ev a = Inr u" "GetSecond argument = Inr v"
    "GetFirst v = Inr b" "ev b = Inr w" "y = Cell u w"
    by (auto simp: Cons_call_def)
  then show "obj_all okn oks y" using part_ok [OF assms, of a u] part_ok [OF assms, of b w] by auto
next
  assume "Car_call ev argument = Inr y"
  then obtain a u where "GetFirst argument = Inr a" "ev a = Inr u" "GetFirst u = Inr y"
    by (auto simp: Car_call_def split: if_splits)
  then show "obj_all okn oks y" using part_ok [OF assms, of a u] GetFirst_ok by blast
next
  assume "Cdr_call ev argument = Inr y"
  then obtain a u where "GetFirst argument = Inr a" "ev a = Inr u" "GetSecond u = Inr y"
    by (auto simp: Cdr_call_def split: if_splits)
  then show "obj_all okn oks y" using part_ok [OF assms, of a u] GetSecond_ok by blast
qed

lemma predicate_call_ok:
    "IsNumber_call ev argument = Inr y \<Longrightarrow> obj_all okn oks y"
    "IsPair_call ev argument = Inr y \<Longrightarrow> obj_all okn oks y"
    "IsNull_call ev argument = Inr y \<Longrightarrow> obj_all okn oks y"
    "IsList_call ev argument = Inr y \<Longrightarrow> obj_all okn oks y"
    "IsBoolean_call ev argument = Inr y \<Longrightarrow> obj_all okn oks y"
    "Not_call ev argument = Inr y \<Longrightarrow> obj_all okn oks y"
  using oks by (auto simp: cell_call_defs split: if_splits sum.splits scheme_error.splits)

lemma call_ok:
  assumes "obj_all okn oks argument" and "size argument \<le> n" and "call ev f argument = Inr y"
  shows "obj_all okn oks y"
  using assms(3)
  by (cases f)
    (simp_all only: call.simps arithmetic_call_ok div_call_ok [OF assms(1,2)]
      extremum_call_ok [OF assms(1,2)] logic_call_ok [OF assms(1,2)] list_call_ok [OF assms(1,2)]
      pair_call_ok [OF assms(1,2)] predicate_call_ok,
      use assms(1) in \<open>auto simp: Quote_call_def List_call_def dest: GetFirst_ok\<close>)

end

lemma Compute_obj_all:
  assumes "\<And>v. ll_ok v \<Longrightarrow> okn v" and "oks ''#t''" and "oks ''#f''"
  shows "obj_all okn oks x \<Longrightarrow> Compute x = Inr y \<Longrightarrow> obj_all okn oks y"
proof (induction x arbitrary: y rule: measure_induct_rule [of size])
  case (less x)
  show ?case
  proof (cases x)
    case (Cell first second)
    then obtain f where "call Compute f second = Inr y" using less.prems(2) by auto
    moreover have "value_evaluator Compute (size second) okn oks"
    proof unfold_locales
      show "size x < size second \<Longrightarrow> obj_all okn oks x \<Longrightarrow> Compute x = Inr y \<Longrightarrow> obj_all okn oks y" for x y
        by (rule less.IH) (simp_all add: Cell)
    qed (use assms in auto)
    ultimately show ?thesis
      using less.prems(1) Cell value_evaluator.call_ok [of Compute "size second" okn oks second f y] by auto
  qed (use less.prems in \<open>auto split: if_splits\<close>)
qed

interpretation range: value_evaluator Compute n ll_ok "\<lambda>_. True" for n
  by unfold_locales (auto intro: Compute_obj_all [of ll_ok "\<lambda>_. True"])

section \<open>Exceptions\<close>

locale error_evaluator =
  fixes ev :: evaluator and args_ok :: "object \<Rightarrow> bool" and bad :: "scheme_error \<Rightarrow> bool"
  assumes ev_bad: "args_ok x \<Longrightarrow> ev x = Inl e \<Longrightarrow> bad e"
    and bad_Runtime: "bad (RuntimeError m)"
    and bad_Overflow: "bad SignedOverflow"
begin

lemmas bads = bad_Runtime bad_Overflow

lemma AsVector_bad: "AsVector argument = Inl e \<Longrightarrow> bad e"
  using AsVector_error bad_Runtime by blast

lemma ll_check_bad: "ll_check v = Inl e \<Longrightarrow> bad e"
  using bads by (simp add: ll_check_def split: if_splits)

lemma number_arg_bad: "args_ok x \<Longrightarrow> number_arg ev m x = Inl e \<Longrightarrow> bad e"
  using bads by (auto simp: number_arg_def ebind_Inl_iff split: if_splits dest: ev_bad
     elim!: Is_Number.elims)

lemma fold_bad:
  assumes "efold f acc args = Inl e" and "\<And>a x. x \<in> set args \<Longrightarrow> f a x = Inl e \<Longrightarrow> bad e"
  shows "bad e"
  using assms by (induction args arbitrary: acc) (auto simp: ebind_Inl_iff)

lemma compare_loop_bad:
  "\<forall>x \<in> set args. args_ok x \<Longrightarrow> compare_loop ev c args = Inl e \<Longrightarrow> bad e"
  using bads by (induction args rule: induct_list012)
    (auto simp: ebind_Inl_iff split: if_splits dest: ev_bad elim!: Is_Number.elims)

lemma and_loop_bad:
  "\<forall>x \<in> set args. args_ok x \<Longrightarrow> and_loop ev args r = Inl e \<Longrightarrow> bad e \<or> r = Inl e"
  by (induction args) (auto simp: ebind_Inl_iff split: if_splits dest: ev_bad)

lemma or_loop_bad: "\<forall>x \<in> set args. args_ok x \<Longrightarrow> or_loop ev args = Inl e \<Longrightarrow> bad e"
  by (induction args) (auto simp: ebind_Inl_iff split: if_splits dest: ev_bad)

lemma number_fold_bad:
  assumes "efold (\<lambda>a x. ebind (number_arg ev m x) (\<lambda>v. g a v)) acc args = Inl e"
    and "\<forall>x \<in> set args. args_ok x" and "\<And>a v. g a v = Inl e \<Longrightarrow> bad e"
  shows "bad e"
  by (rule fold_bad [OF assms(1)]) (use assms(2,3) in \<open>auto simp: ebind_Inl_iff dest: number_arg_bad\<close>)

lemma number_fold_Is_Number:
  assumes "efold (\<lambda>a x. ebind (number_arg ev m x) (\<lambda>v. g a v)) acc args = Inr r" and "x \<in> set args"
  shows "\<exists>v. ev x = Inr (Number v)"
  using assms by (induction args arbitrary: acc)
    (auto simp: number_arg_def split: if_splits elim!: Is_Number.elims)

text \<open>The call operators that check the types of what they evaluate never call a member function
  on a null pointer of their own; \<open>SubFunction\<close> computes its first argument a second time.\<close>

lemma vector_call_bad:
  assumes "\<And>args. AsVector argument = Inr args \<Longrightarrow> \<forall>x \<in> set args. args_ok x"
  shows "Add_call ev argument = Inl e \<Longrightarrow> bad e" and "Mul_call ev argument = Inl e \<Longrightarrow> bad e"
    and "Sub_call ev argument = Inl e \<Longrightarrow> bad e" and "Abs_call ev argument = Inl e \<Longrightarrow> bad e"
    and "Max_call ev argument = Inl e \<Longrightarrow> bad e" and "Min_call ev argument = Inl e \<Longrightarrow> bad e"
    and "And_call ev argument = Inl e \<Longrightarrow> bad e" and "Or_call ev argument = Inl e \<Longrightarrow> bad e"
    and "Compare_call ev c argument = Inl e \<Longrightarrow> bad e"
proof -
  note ok = assms
  have hd: "AsVector argument = Inr args \<Longrightarrow> args \<noteq> [] \<Longrightarrow> args_ok (hd args) \<and> args_ok (last args)" for args
    using ok by simp
  have hd1: "AsVector argument = Inr args \<Longrightarrow> length args = Suc 0 \<Longrightarrow> args_ok (hd args)" for args
    using hd by (cases args) auto
  show "Add_call ev argument = Inl e \<Longrightarrow> bad e" and "Mul_call ev argument = Inl e \<Longrightarrow> bad e"
    by (auto simp: Add_call_def Mul_call_def ll_defs ebind_Inl_iff
        dest!: ok dest: AsVector_bad number_fold_bad ll_check_bad)
  show "Sub_call ev argument = Inl e \<Longrightarrow> bad e"
  proof -
    assume call: "Sub_call ev argument = Inl e"
    show "bad e"
    proof (cases "AsVector argument")
      case (Inr args)
      show ?thesis
      proof (cases "efold (\<lambda>sub arg. ebind (number_arg ev ''Sub argument is not a number'' arg)
                                      (\<lambda>v. ll_sub sub v)) 0 args")
        case f: (Inl e')
        have "bad e'"
          by (rule number_fold_bad [OF f ok [OF Inr]]) (auto simp: ll_defs dest: ll_check_bad)
        then show ?thesis using call Inr f bads by (auto simp: Sub_call_def split: if_splits)
      next
        case f: (Inr sub)
        show ?thesis
        proof (cases "args = []")
          case False
          then obtain v where "ev (hd args) = Inr (Number v)"
            using number_fold_Is_Number [OF f, of "hd args"] by auto
          then show ?thesis using call Inr f False
            by (auto simp: Sub_call_def ll_defs ebind_Inl_iff dest: ll_check_bad)
        qed (use call Inr bads in \<open>auto simp: Sub_call_def\<close>)
      qed
    qed (use call in \<open>auto simp: Sub_call_def dest: AsVector_bad\<close>)
  qed
  show "Abs_call ev argument = Inl e \<Longrightarrow> bad e"
    using bads by (auto simp: Abs_call_def ll_defs ebind_Inl_iff split: if_splits
        dest: AsVector_bad ll_check_bad hd1 ev_bad elim!: Is_Number.elims)
  show "Max_call ev argument = Inl e \<Longrightarrow> bad e" and "Min_call ev argument = Inl e \<Longrightarrow> bad e"
    using bads by (auto simp: Max_call_def Min_call_def ebind_Inl_iff split: if_splits
        dest: AsVector_bad hd ev_bad number_fold_bad [OF _ ok] elim!: Is_Number.elims)
  show "And_call ev argument = Inl e \<Longrightarrow> bad e"
    by (auto simp: And_call_def ebind_Inl_iff split: if_splits
        dest: AsVector_bad and_loop_bad [OF ok] intro: ev_bad [OF conjunct2 [OF hd]])
  show "Or_call ev argument = Inl e \<Longrightarrow> bad e"
    by (auto simp: Or_call_def ebind_Inl_iff dest: AsVector_bad or_loop_bad [OF ok])
  show "Compare_call ev c argument = Inl e \<Longrightarrow> bad e"
    by (auto simp: Compare_call_def ebind_Inl_iff split: if_splits dest: AsVector_bad compare_loop_bad [OF ok])
qed

end

text \<open>
  The other call operators call \<open>As<Cell>(argument)->GetFirst()\<close> and the like without a check.
  They evaluate parts of the argument that are smaller than it.
\<close>

locale loose_evaluator = error_evaluator +
  assumes bad_Null: "bad NullDereference"
begin

lemma part_bad:
  "GetFirst x = Inl e \<Longrightarrow> bad e" "GetSecond x = Inl e \<Longrightarrow> bad e" "GetValue x = Inl e \<Longrightarrow> bad e"
  "GetName x = Inl e \<Longrightarrow> bad e"
  using bad_Null by (cases x; simp)+

lemma first_bad:
  assumes "ebind (GetFirst argument) (\<lambda>first. ebind (ev first) k) = Inl e"
    and "\<And>x. GetFirst argument = Inr x \<Longrightarrow> args_ok x" and "\<And>z. k z = Inl e \<Longrightarrow> bad e"
  shows "bad e"
  using assms part_bad(1) ev_bad by (auto simp: ebind_Inl_iff)

lemma second_bad:
  assumes "ebind (GetSecond argument) (\<lambda>u. ebind (GetFirst u) k) = Inl e"
    and "\<And>x. k x = Inl e \<Longrightarrow> bad e"
  shows "bad e"
  using assms part_bad(1,2) by (auto simp: ebind_Inl_iff)

lemma Div_call_bad:
  assumes "\<And>args. AsVector argument = Inr args \<Longrightarrow> \<forall>x \<in> set args. args_ok x"
    and "Div_call ev argument = Inl e"
  shows "bad e"
proof (cases "AsVector argument")
  case (Inr args)
  show ?thesis
  proof (cases args)
    case (Cons a as)
    have "args_ok a" and as: "\<forall>x \<in> set as. args_ok x" using assms(1) [OF Inr] Cons by auto
    then show ?thesis using assms(2) Inr Cons bads
      by (auto simp: Div_call_def ll_defs ebind_Inl_iff dest: ev_bad part_bad ll_check_bad
          dest!: number_fold_bad [OF _ as] split: if_splits)
  qed (use assms Inr bads in \<open>auto simp: Div_call_def\<close>)
qed (use assms(2) in \<open>auto simp: Div_call_def dest: AsVector_bad\<close>)

lemma predicate_call_bad:
  assumes first: "\<And>x. GetFirst argument = Inr x \<Longrightarrow> args_ok x"
  shows "Quote_call argument = Inl e \<Longrightarrow> bad e" and "IsNumber_call ev argument = Inl e \<Longrightarrow> bad e"
    and "IsBoolean_call ev argument = Inl e \<Longrightarrow> bad e" and "Not_call ev argument = Inl e \<Longrightarrow> bad e"
    and "IsPair_call ev argument = Inl e \<Longrightarrow> bad e" and "IsNull_call ev argument = Inl e \<Longrightarrow> bad e"
    and "IsList_call ev argument = Inl e \<Longrightarrow> bad e"
    and "Car_call ev argument = Inl e \<Longrightarrow> bad e" and "Cdr_call ev argument = Inl e \<Longrightarrow> bad e"
proof -
  show "Quote_call argument = Inl e \<Longrightarrow> bad e" by (simp add: Quote_call_def part_bad)
  show "IsNumber_call ev argument = Inl e \<Longrightarrow> bad e" "IsPair_call ev argument = Inl e \<Longrightarrow> bad e"
    "IsNull_call ev argument = Inl e \<Longrightarrow> bad e"
    unfolding IsNumber_call_def IsPair_call_def IsNull_call_def by (erule first_bad [OF _ first]; simp)+
  show "IsList_call ev argument = Inl e \<Longrightarrow> bad e"
    unfolding IsList_call_def
    by (erule first_bad [OF _ first]) (auto split: sum.splits scheme_error.splits dest: AsVector_bad)
  show "Car_call ev argument = Inl e \<Longrightarrow> bad e" "Cdr_call ev argument = Inl e \<Longrightarrow> bad e"
    unfolding Car_call_def Cdr_call_def
    by (erule first_bad [OF _ first]; use bads in \<open>auto split: if_splits dest: part_bad\<close>)+
  show "IsBoolean_call ev argument = Inl e \<Longrightarrow> bad e"
    unfolding IsBoolean_call_def
    by (cases argument) (use ev_bad first in \<open>auto simp: ebind_Inl_iff split: if_splits elim!: Is_Symbol.elims\<close>)
  show "Not_call ev argument = Inl e \<Longrightarrow> bad e"
    unfolding Not_call_def
    by (cases argument) (use ev_bad first bads in \<open>auto simp: ebind_Inl_iff split: if_splits elim!: Is_Symbol.elims\<close>)
qed

lemma binary_call_bad:
  assumes first: "\<And>x. GetFirst argument = Inr x \<Longrightarrow> args_ok x"
    and second: "\<And>u x. GetSecond argument = Inr u \<Longrightarrow> GetFirst u = Inr x \<Longrightarrow> args_ok x"
  shows "Cons_call ev argument = Inl e \<Longrightarrow> bad e" and "ListRef_call ev argument = Inl e \<Longrightarrow> bad e"
    and "ListTail_call ev argument = Inl e \<Longrightarrow> bad e"
proof -
  show "Cons_call ev argument = Inl e \<Longrightarrow> bad e"
    unfolding Cons_call_def
    by (erule first_bad [OF _ first]) (auto simp: ebind_Inl_iff dest: part_bad second ev_bad)
  show "ListRef_call ev argument = Inl e \<Longrightarrow> bad e"
    unfolding ListRef_call_def
    by (erule first_bad [OF _ first])
      (use bads in \<open>auto simp: ebind_Inl_iff vector_at_def split: if_splits dest: part_bad AsVector_bad\<close>)
  show "ListTail_call ev argument = Inl e \<Longrightarrow> bad e"
    unfolding ListTail_call_def
    by (erule second_bad)
      (use bads in \<open>auto simp: ebind_Inl_iff split_def split: if_splits dest: part_bad first ev_bad\<close>)
qed

end

lemma call_bad:
  assumes "\<And>x e. size x < size argument \<Longrightarrow> ev x = Inl e \<Longrightarrow> bad e"
    and "\<And>m. bad (RuntimeError m)" and "bad SignedOverflow" and "bad NullDereference"
    and "call ev f argument = Inl e"
  shows "bad e"
proof -
  have l: "loose_evaluator ev (\<lambda>x. size x < size argument) bad"
    by unfold_locales (use assms in auto)
  note e = loose_evaluator.axioms(1) [OF l]
  have v: "AsVector argument = Inr args \<Longrightarrow> \<forall>x \<in> set args. size x < size argument" for args
    using AsVector_smaller by blast
  note bad = error_evaluator.vector_call_bad [OF e v] loose_evaluator.Div_call_bad [OF l v]
    loose_evaluator.predicate_call_bad [OF l GetFirst_smaller]
    loose_evaluator.binary_call_bad [OF l GetFirst_smaller GetSecond_GetFirst_smaller]
  show ?thesis using assms(5)
    by (cases f) (simp_all only: call.simps bad, simp_all add: List_call_def)
qed

lemma Compute_bad:
  assumes "\<And>m. bad (RuntimeError m)" and "bad SignedOverflow" and "bad NullDereference"
  shows "Compute x = Inl e \<Longrightarrow> bad e"
proof (induction x arbitrary: e rule: measure_induct_rule [of size])
  case (less x)
  have GF: "GetFunction first = Inl e \<Longrightarrow> bad e" for first e
    using assms by (cases first) (auto simp: GetFunction_def split: if_splits)
  show ?case
  proof (cases x)
    case (Cell first second)
    have IH: "size y < size second \<Longrightarrow> Compute y = Inl e \<Longrightarrow> bad e" for y e
      by (rule less.IH) (simp_all add: Cell)
    show ?thesis using less.prems Cell GF call_bad [of second Compute bad, OF IH assms]
      by (auto simp: ebind_Inl_iff)
  qed (use less.prems assms in \<open>auto split: if_splits\<close>)
qed

text \<open>The exceptions \<open>Compute\<close> lets out: neither a syntax nor a name error, and nothing of the reader's.\<close>

definition eval_error :: "scheme_error \<Rightarrow> bool" where
  "eval_error e = (case e of RuntimeError _ \<Rightarrow> True | SignedOverflow \<Rightarrow> True | NullDereference \<Rightarrow> True | _ \<Rightarrow> False)"

lemma eval_error_simps [simp]:
  "eval_error (RuntimeError m)" "eval_error SignedOverflow" "eval_error NullDereference"
  "\<not> eval_error (SyntaxError m)" "\<not> eval_error (NameError m)" "\<not> eval_error OutOfRange"
  "\<not> eval_error InvalidArgument" "\<not> eval_error InvalidIndex"
  by (simp_all add: eval_error_def)

interpretation errors: loose_evaluator Compute "\<lambda>_. True" eval_error
  by unfold_locales (auto intro: Compute_bad)

end
