(* ===== verification/BasicNumbers.thy ===== *)
theory BasicNumbers
  imports BasicProps
begin

text \<open>
  What the integer functions of \<open>functions_integer.cpp\<close> compute when every argument evaluates to
  a number: the sum, product, difference, quotient, extremum or comparison of the values, and the
  exact condition under which a \<open>long long\<close> overflows on the way.
\<close>

section \<open>The functional behaviour of the integer functions\<close>

text \<open>A loop that overflows stops at the first partial result out of range.\<close>

lemma checked_fold:
  "efold (\<lambda>a v. ll_check (g a v)) acc vs =
     (if \<forall>i < length vs. ll_ok (foldl g acc (take (Suc i) vs)) then Inr (foldl g acc vs)
      else Inl SignedOverflow)"
proof (induction vs arbitrary: acc)
  case (Cons v vs)
  show ?case using Cons.IH [of "g acc v"]
    by (simp add: All_less_Suc2 ll_check_def)
qed simp

lemma number_fold:
  "emap ev args = Inr (map Number vs) \<Longrightarrow>
   efold (\<lambda>a arg. ebind (number_arg ev m arg) (\<lambda>v. g a v)) acc args = efold g acc vs"
proof (induction args arbitrary: vs acc)
  case (Cons x xs)
  then show ?case by (cases vs) (auto simp: number_arg_def intro!: ebind_cong)
qed auto

lemma foldl_sum: "foldl (+) a vs = a + sum_list vs" for a :: "'a :: monoid_add"
  by (induction vs arbitrary: a) (simp_all add: add.assoc)

lemma foldl_minus: "foldl (-) a vs = a - sum_list vs" for a :: "'a :: ab_group_add"
  by (induction vs arbitrary: a) (simp_all add: algebra_simps)

lemma foldl_prod: "foldl (*) a vs = a * prod_list vs" for a :: "'a :: monoid_mult"
  by (induction vs arbitrary: a) (simp_all add: mult.assoc)

lemma foldl_max: "foldl max a vs = Max (set (a # vs))" for a :: "'a :: linorder"
proof (induction vs arbitrary: a)
  case (Cons v vs)
  then show ?case by (cases "vs = []") (simp_all add: max.assoc)
qed simp

lemma foldl_min: "foldl min a vs = Min (set (a # vs))" for a :: "'a :: linorder"
proof (induction vs arbitrary: a)
  case (Cons v vs)
  then show ?case by (cases "vs = []") (simp_all add: min.assoc)
qed simp

lemma Add_numbers:
  assumes "emap ev args = Inr (map Number vs)"
  shows "Add_call ev (list_of args) =
     (if \<forall>i < length vs. ll_ok (sum_list (take (Suc i) vs)) then Inr (Number (sum_list vs))
      else Inl SignedOverflow)"
  by (simp add: Add_call_def number_fold [OF assms] ll_add_def checked_fold foldl_sum)

lemma Mul_numbers:
  assumes "emap ev args = Inr (map Number vs)"
  shows "Mul_call ev (list_of args) =
     (if \<forall>i < length vs. ll_ok (prod_list (take (Suc i) vs)) then Inr (Number (prod_list vs))
      else Inl SignedOverflow)"
  by (simp add: Mul_call_def number_fold [OF assms] ll_mul_def checked_fold foldl_prod)

lemma emap_hd:
  assumes "emap ev args = Inr (map Number (v # vs))"
  obtains x xs where "args = x # xs" and "ev x = Inr (Number v)" and "emap ev xs = Inr (map Number vs)"
  using assms by (cases args) auto

lemma Sub_numbers:
  assumes "emap ev args = Inr (map Number (v # vs))"
    and "\<forall>i \<le> length vs. ll_ok (- v - sum_list (take i vs))" and "ll_ok (2 * v)"
    and "ll_ok (v - sum_list vs)"
  shows "Sub_call ev (list_of args) = Inr (Number (v - sum_list vs))"
proof -
  obtain x xs where x: "args = x # xs" "ev x = Inr (Number v)" by (rule emap_hd [OF assms(1)])
  have "\<forall>i < length (v # vs). ll_ok (0 - sum_list (take (Suc i) (v # vs)))"
    using assms(2) by (simp add: less_Suc_eq_le algebra_simps)
  then have "efold (\<lambda>sub arg. ebind (number_arg ev ''Sub argument is not a number'' arg)
      (\<lambda>v. ll_sub sub v)) 0 args = Inr (0 - sum_list (v # vs))"
    unfolding number_fold [OF assms(1)] ll_sub_def checked_fold foldl_minus by (rule if_P)
  then show ?thesis using x assms(3,4)
    by (simp add: Sub_call_def ll_add_def ll_mul_def ll_check_def algebra_simps del: efold.simps)
qed

text \<open>Dividing by several numbers in turn is dividing by their product.\<close>

lemma sdiv_sdiv: "(a sdiv b) sdiv c = a sdiv (b * c)" for a b c :: int
proof -
  have "sgn (\<bar>a\<bar> div \<bar>b\<bar>) * (\<bar>\<bar>a\<bar> div \<bar>b\<bar>\<bar> div \<bar>c\<bar>) = \<bar>a\<bar> div \<bar>b\<bar> div \<bar>c\<bar>"
    using pos_imp_zdiv_nonneg_iff [of "\<bar>b\<bar>" "\<bar>a\<bar>"]
    by (cases "b = 0"; cases "\<bar>a\<bar> div \<bar>b\<bar> = 0") (simp_all add: sgn_if)
  then show ?thesis
    by (auto simp: signed_divide_int_def sgn_mult abs_mult zdiv_zmult2_eq mult_ac)
qed

lemma sdiv_one [simp]: "a sdiv 1 = a" for a :: int
  by (simp add: signed_divide_int_def mult_sgn_abs)

lemma foldl_sdiv: "foldl (sdiv) a vs = a sdiv prod_list vs" for a :: int
  by (induction vs arbitrary: a) (simp_all add: sdiv_sdiv)

lemma sdiv_abs_le: "\<bar>a sdiv b\<bar> \<le> \<bar>a\<bar>" for a b :: int
proof (cases "b = 0")
  case False
  then have "\<bar>a\<bar> div \<bar>b\<bar> \<le> \<bar>a\<bar> div 1" by (intro zdiv_mono2) auto
  moreover have "0 \<le> \<bar>a\<bar> div \<bar>b\<bar>" using False by (simp add: pos_imp_zdiv_nonneg_iff)
  ultimately show ?thesis by (auto simp: signed_divide_int_def abs_mult sgn_if)
qed (simp add: signed_divide_int_def)

lemma Div_numbers:
  assumes "emap ev args = Inr (map Number (v # vs))" and "0 \<notin> set vs"
    and "- (2 ^ 63) < v" and "v < 2 ^ 63"
  shows "Div_call ev (list_of args) = Inr (Number (v sdiv prod_list vs))"
proof -
  obtain x xs where x: "args = x # xs" "ev x = Inr (Number v)" "emap ev xs = Inr (map Number vs)"
    by (rule emap_hd [OF assms(1)])
  have "efold (\<lambda>q w. if w = 0 then Inl (RuntimeError ''Div argument is zero'') else ll_div q w) v vs
      = efold (\<lambda>q w. ll_div q w) v vs"
    by (rule efold_cong) (use assms(2) in auto)
  moreover have "\<forall>i < length vs. ll_ok (foldl (sdiv) v (take (Suc i) vs))"
  proof (intro allI impI)
    fix i
    show "ll_ok (foldl (sdiv) v (take (Suc i) vs))"
      unfolding foldl_sdiv ll_ok_def
      using assms(3,4) sdiv_abs_le [of v "prod_list (take (Suc i) vs)"] by linarith
  qed
  ultimately show ?thesis using x
    by (simp add: Div_call_def number_fold ll_div_def checked_fold foldl_sdiv)
qed

lemma Max_numbers:
  assumes "emap ev args = Inr (map Number (v # vs))"
  shows "Max_call ev (list_of args) = Inr (Number (Max (set (v # vs))))"
    and "Min_call ev (list_of args) = Inr (Number (Min (set (v # vs))))"
proof -
  obtain x xs where x: "args = x # xs" "ev x = Inr (Number v)" "emap ev xs = Inr (map Number vs)"
    by (rule emap_hd [OF assms(1)])
  have pure: "efold (\<lambda>m w. Inr (g m w)) a ws = Inr (foldl g a ws)" for g :: "int \<Rightarrow> int \<Rightarrow> int" and a ws
    by (induction ws arbitrary: a) simp_all
  show "Max_call ev (list_of args) = Inr (Number (Max (set (v # vs))))"
    using x by (simp add: Max_call_def number_fold [OF assms, unfolded x] pure foldl_max del: efold.simps)
  show "Min_call ev (list_of args) = Inr (Number (Min (set (v # vs))))"
    using x by (simp add: Min_call_def number_fold [OF assms, unfolded x] pure foldl_min del: efold.simps)
qed

lemma compare_loop_numbers:
  "emap ev args = Inr (map Number vs) \<Longrightarrow> compare_loop ev c args = Inr (ToBoolean (successively c vs))"
proof (induction args arbitrary: vs rule: induct_list012)
  case (3 x y zs)
  from 3(3) obtain u w ws where "vs = u # w # ws" by (cases vs; cases "tl vs") auto
  with 3(2) [of "w # ws"] 3(3) show ?case by (auto simp: ToBoolean_def)
qed (auto simp: ToBoolean_def map_eq_Cons_conv)

lemma Compare_numbers:
  assumes "emap ev args = Inr (map Number vs)"
  shows "Compare_call ev c (list_of args) = Inr (ToBoolean (successively c vs))"
  using compare_loop_numbers [OF assms] assms by (cases args) (auto simp: Compare_call_def ToBoolean_def)

end
