(* ===== verification/RoundTrip.thy ===== *)
theory RoundTrip
  imports BasicNumbers
begin

text \<open>
  The reader and the printer agree: the text \<open>Serialize\<close> makes of an object whose numbers fit an
  \<open>int\<close> and whose symbols are symbols of the tokenizer is read back by \<open>Read\<close> as that object.
  \<open>at_text\<close> relates a tokenizer, with or without a pending token, to the text it stands at; every
  step of the parser is a lemma from one such position to the next.
\<close>

section \<open>Where a tokenizer stands\<close>

abbreviation skip :: "string \<Rightarrow> string" where
  "skip s \<equiv> dropWhile is_blank s"

definition at_text :: "tokenizer \<Rightarrow> string \<Rightarrow> bool" where
  "at_text tk s \<longleftrightarrow>
     (if tk_got tk then \<exists>s'. scan_token (skip s) = Inr (tk_current tk, s') \<and> skip (tk_stream tk) = skip s'
      else skip (tk_stream tk) = skip s)"

lemma at_text_new [simp]: "at_text (Tokenizer_new s) s" "\<not> tk_got (Tokenizer_new s)"
  by (simp_all add: at_text_def Tokenizer_new_def)

lemma at_text_skip: "\<not> tk_got tk \<Longrightarrow> at_text tk s \<Longrightarrow> skip s = skip s' \<Longrightarrow> at_text tk s'"
  by (simp add: at_text_def)

lemma at_text_GetToken:
  assumes "at_text tk s" and "scan_token (skip s) = Inr (t, s')"
  shows "\<exists>tk'. GetToken tk = Inr (t, tk') \<and> tk_got tk' \<and> at_text tk' s \<and> GetToken tk' = Inr (t, tk')"
proof (cases "tk_got tk")
  case True
  then show ?thesis using assms by (auto simp: at_text_def GetToken_def)
next
  case False
  let ?tk = "tk\<lparr>tk_stream := s', tk_current := t, tk_got := True\<rparr>"
  have "GetToken tk = Inr (t, ?tk)" using assms False by (simp add: at_text_def GetToken_def)
  moreover have "at_text ?tk s" using assms(2) by (simp add: at_text_def)
  moreover have "GetToken ?tk = Inr (t, ?tk)" by (simp add: GetToken_def)
  ultimately show ?thesis by fastforce
qed

lemma at_text_Next:
  assumes "at_text tk s" and "scan_token (skip s) = Inr (t, s')"
  shows "\<exists>tk'. Next tk = Inr tk' \<and> \<not> tk_got tk' \<and> at_text tk' s'"
  using assms by (auto simp: at_text_def Next_def GetToken_def split: if_splits)

lemma skip_eq_all_blank: "skip s = skip s' \<Longrightarrow> all_blank s = all_blank s'"
  by (simp add: all_blank_dropWhile)

lemma IsEnd_eq: "IsEnd tk = (all_blank (tk_stream tk), tk\<lparr>tk_stream := skip (tk_stream tk)\<rparr>)"
  unfolding IsEnd_def Let_def peek_minus_one all_blank_dropWhile ..

lemma at_text_IsEnd:
  assumes "at_text tk s" and "scan_token (skip s) = Inr (t, s')"
    and "\<not> all_blank (if tk_got tk then s' else s)"
  shows "\<not> fst (IsEnd tk)" and "at_text (snd (IsEnd tk)) s"
proof -
  have "\<not> all_blank (tk_stream tk)"
  proof (cases "tk_got tk")
    case True
    then have "skip (tk_stream tk) = skip s'" using assms(1,2) by (simp add: at_text_def)
    from skip_eq_all_blank [OF this] show ?thesis using assms(3) True by simp
  next
    case False
    then have "skip (tk_stream tk) = skip s" using assms(1) by (simp add: at_text_def)
    from skip_eq_all_blank [OF this] show ?thesis using assms(3) False by simp
  qed
  then show "\<not> fst (IsEnd tk)" by (simp add: IsEnd_eq)
  have "tk_got (snd (IsEnd tk)) = tk_got tk" "tk_current (snd (IsEnd tk)) = tk_current tk"
    "skip (tk_stream (snd (IsEnd tk))) = skip (tk_stream tk)"
    unfolding IsEnd_eq by simp_all
  then show "at_text (snd (IsEnd tk)) s" using assms(1) unfolding at_text_def by simp
qed

section \<open>Printable objects\<close>

definition delimited :: "string \<Rightarrow> bool" where
  "delimited s \<longleftrightarrow> (case s of [] \<Rightarrow> True | c # _ \<Rightarrow> c = CHR '' '' \<or> c = CHR '')'')"

definition start_char :: "char \<Rightarrow> bool" where
  "start_char c = IsStartSymbol (to_char (of_char c))"

definition symbol_name :: "string \<Rightarrow> bool" where
  "symbol_name s \<longleftrightarrow> s = ''+'' \<or> s = ''-'' \<or>
     (case s of [] \<Rightarrow> False | c # cs \<Rightarrow> start_char c \<and> list_all mid_char cs)"

definition int_ok :: "int \<Rightarrow> bool" where
  "int_ok v \<longleftrightarrow> - (2 ^ 31) \<le> v \<and> v < 2 ^ 31"

abbreviation printable :: "object \<Rightarrow> bool" where
  "printable \<equiv> obj_all int_ok symbol_name"

lemma delimited_stops:
  assumes "delimited s" and "s \<noteq> []"
  shows "\<not> digit_char (hd s)" and "\<not> mid_char (hd s)"
  using assms by (auto simp: delimited_def digit_char_def mid_char_def to_char_def IsNumber_def
      IsMidSymbol_def IsStartSymbol_def split: list.splits)

lemma digit_of_char: "d < 10 \<Longrightarrow> of_char (digit_of d) = (48 + int d)"
proof -
  assume "d < 10"
  then have "of_char (digit_of d) = 48 + d" by (simp add: digit_of_def)
  then have "int (of_char (digit_of d)) = 48 + int d" by linarith
  then show ?thesis by (simp only: of_nat_of_char)
qed

lemma digit_char_digit_of: "d < 10 \<Longrightarrow> digit_char (digit_of d)"
  by (simp add: digit_char_def digit_of_char to_char_def IsNumber_def)

lemma nat_string_digits: "c \<in> set (nat_string n) \<Longrightarrow> digit_char c"
proof (induction n rule: nat_string.induct)
  case (1 n)
  then show ?case
    by (subst (asm) (2) nat_string.simps) (auto simp: digit_char_digit_of split: if_splits)
qed

lemma nat_string_not_Nil [simp]: "nat_string n \<noteq> []"
  by (subst nat_string.simps) simp

lemma digits_value_snoc: "digits_value (s @ [c]) = 10 * digits_value s + (of_char c - 48)"
  by (simp add: digits_value_def)

lemma digits_value_nat_string: "digits_value (nat_string n) = int n"
proof (induction n rule: nat_string.induct)
  case (1 n)
  show ?case
  proof (cases "n < 10")
    case True
    then show ?thesis by (subst nat_string.simps) (simp add: digits_value_def digit_of_char)
  next
    case False
    moreover have "10 * int (n div 10) + int (n mod 10) = int n" by presburger
    ultimately show ?thesis using 1
      by (subst nat_string.simps) (simp add: digits_value_snoc digit_of_char)
  qed
qed

lemma digits_stop:
  assumes "delimited rest"
  shows "takeWhile digit_char (nat_string n @ rest) = nat_string n"
    and "dropWhile digit_char (nat_string n @ rest) = rest"
proof -
  have "\<forall>c \<in> set (nat_string n). digit_char c" and "rest \<noteq> [] \<longrightarrow> \<not> digit_char (hd rest)"
    using nat_string_digits delimited_stops(1) [OF assms] by auto
  then show "takeWhile digit_char (nat_string n @ rest) = nat_string n"
    and "dropWhile digit_char (nat_string n @ rest) = rest"
    by (rule takeWhile_append_stop, rule dropWhile_append_stop)
qed

lemma to_char_byte:
  assumes "0 \<le> i" and "i < 256"
  shows "to_char i = (if i < 128 then i else i - 256)"
proof (cases "i < 128")
  case False
  have "(i + 128) mod 256 = (i - 128 + 256) mod 256" by (rule arg_cong [where f = "\<lambda>x. x mod 256"]) simp
  also have "\<dots> = (i - 128) mod 256" by (rule mod_add_self2)
  also have "\<dots> = i - 128" using assms False by (intro mod_pos_pos_trivial) auto
  finally show ?thesis using False by (simp add: to_char_def)
next
  case True
  then have "(i + 128) mod 256 = i + 128" using assms by (intro mod_pos_pos_trivial) auto
  then show ?thesis using True by (simp add: to_char_def)
qed

lemma byte_range: "0 \<le> (of_char c :: int) \<and> (of_char c :: int) < 256"
proof -
  have "0 \<le> int (of_char c)" and "int (of_char c) < 256"
    using nat_of_char_less_256 [of c] by linarith+
  then show ?thesis by (simp only: of_nat_of_char simp_thms)
qed

lemma digit_char_range: "digit_char c \<longleftrightarrow> 48 \<le> (of_char c :: int) \<and> (of_char c :: int) \<le> 57"
  using byte_range [of c] by (auto simp: digit_char_def to_char_byte IsNumber_def)

lemma digit_char_facts:
  assumes "digit_char c"
  shows "\<not> is_blank c" and "(of_char c :: int) \<noteq> 39" and "(of_char c :: int) \<noteq> 46"
    and "(of_char c :: int) \<noteq> 40" and "(of_char c :: int) \<noteq> 41" and "c \<noteq> CHR ''-''"
    and "c \<noteq> CHR ''+''"
  using assms by (auto simp: digit_char_range is_blank_def)

lemma digit_char_IsNumber: "digit_char c \<Longrightarrow> IsNumber (to_char (of_char c))"
  by (simp add: digit_char_def)

lemma IsNumber_not_sign: "IsNumber i \<Longrightarrow> \<not> IsPlusOrMinus i"
  by (auto simp: IsNumber_def IsPlusOrMinus_def)

lemma nat_string_Cons:
  obtains d ds where "nat_string n = d # ds" and "digit_char d" and "\<forall>c \<in> set ds. digit_char c"
  using nat_string_not_Nil [of n] nat_string_digits [of _ n] by (cases "nat_string n") auto

lemma stoi_digits:
  assumes "digit_char d" and "\<forall>c \<in> set ds. digit_char c" and "int_ok v"
  shows "digits_value (d # ds) = v \<Longrightarrow> stoi (d # ds) = Inr v"
    and "digits_value (d # ds) = - v \<Longrightarrow> stoi (CHR ''-'' # d # ds) = Inr v"
proof -
  have t: "takeWhile digit_char (d # ds) = d # ds" using assms by (simp add: takeWhile_eq_all_conv)
  show "stoi (d # ds) = Inr v" if "digits_value (d # ds) = v"
    unfolding stoi_def using that assms(3) digit_char_facts(6,7) [OF assms(1)]
    by (simp add: t int_ok_def del: takeWhile.simps)
  show "stoi (CHR ''-'' # d # ds) = Inr v" if "digits_value (d # ds) = - v"
    unfolding stoi_def using that assms(3) by (simp add: t int_ok_def del: takeWhile.simps)
qed

lemma scan_digits:
  assumes "digit_char d" and "\<forall>c \<in> set ds. digit_char c" and "delimited rest"
  shows "scan_token (d # ds @ rest) = ebind (stoi (d # ds)) (\<lambda>v. Inr (ConstantToken v, rest))"
    and "scan_token (CHR ''-'' # d # ds @ rest) =
      ebind (stoi (CHR ''-'' # d # ds)) (\<lambda>v. Inr (ConstantToken v, rest))"
proof -
  have stop: "rest \<noteq> [] \<longrightarrow> \<not> digit_char (hd rest)" using delimited_stops(1) [OF assms(3)] by blast
  note t = takeWhile_append_stop [OF assms(2) stop] dropWhile_append_stop [OF assms(2) stop]
  note d = digit_char_facts [OF assms(1)] digit_char_IsNumber [OF assms(1)]
  show "scan_token (d # ds @ rest) = ebind (stoi (d # ds)) (\<lambda>v. Inr (ConstantToken v, rest))"
    by (simp add: scan_token_def stream_get_def d IsNumber_not_sign t)
  have minus: "of_char CHR ''-'' = (45::int)" by simp
  have sign: "to_char 45 = 45" "IsPlusOrMinus 45" by (simp_all add: to_char_def IsPlusOrMinus_def)
  show "scan_token (CHR ''-'' # d # ds @ rest) =
      ebind (stoi (CHR ''-'' # d # ds)) (\<lambda>v. Inr (ConstantToken v, rest))"
    unfolding scan_token_def stream_get_def list.case minus
    by (simp add: sign peek_def d assms(1) t)
qed

lemma scan_number:
  assumes "int_ok v" and "delimited rest"
  shows "scan_token (to_string v @ rest) = Inr (ConstantToken v, rest) \<and>
    skip (to_string v @ rest) = to_string v @ rest"
proof -
  obtain d ds where n: "nat_string (nat \<bar>v\<bar>) = d # ds" and d: "digit_char d" "\<forall>c \<in> set ds. digit_char c"
    by (rule nat_string_Cons)
  have val: "digits_value (d # ds) = \<bar>v\<bar>" using digits_value_nat_string [of "nat \<bar>v\<bar>"] n by simp
  show ?thesis
  proof (cases "v < 0")
    case True
    then have s: "to_string v = CHR ''-'' # d # ds" using n by (simp add: to_string_def)
    have "stoi (CHR ''-'' # d # ds) = Inr v"
      using stoi_digits(2) [OF d assms(1)] val True by simp
    then show ?thesis using scan_digits(2) [OF d assms(2)] unfolding s by (simp add: is_blank_def)
  next
    case False
    then have s: "to_string v = d # ds" using n by (simp add: to_string_def)
    have "stoi (d # ds) = Inr v"
      using stoi_digits(1) [OF d assms(1)] val False by simp
    then show ?thesis
      using scan_digits(1) [OF d assms(2)] digit_char_facts(1) [OF d(1)] unfolding s by simp
  qed
qed

lemma start_char_facts:
  assumes "start_char c"
  shows "\<not> is_blank c" and "(of_char c :: int) \<noteq> 39" and "(of_char c :: int) \<noteq> 46"
    and "(of_char c :: int) \<noteq> 40" and "(of_char c :: int) \<noteq> 41"
    and "\<not> IsNumber (to_char (of_char c))" and "\<not> IsPlusOrMinus (to_char (of_char c))"
    and "IsStartSymbol (to_char (of_char c))"
  using assms by (auto simp: start_char_def is_blank_def IsStartSymbol_def to_char_def IsNumber_def
     IsPlusOrMinus_def)

lemma scan_symbol:
  assumes "symbol_name s" and "delimited rest"
  shows "scan_token (s @ rest) = Inr (SymbolToken s, rest) \<and> skip (s @ rest) = s @ rest"
proof -
  have sign: "to_char 45 = 45" "IsPlusOrMinus 45" "to_char 43 = 43" "IsPlusOrMinus 43"
    by (simp_all add: to_char_def IsPlusOrMinus_def)
  have nd: "\<not> IsNumber (to_char (peek rest))"
    using delimited_stops(1) [OF assms(2)]
    by (cases rest) (simp_all add: peek_def digit_char_def to_char_def IsNumber_def)
  consider "s = ''+''" | "s = ''-''" | c cs where "s = c # cs" "start_char c" "list_all mid_char cs"
    using assms(1) by (auto simp: symbol_name_def split: list.splits)
  then show ?thesis
  proof cases
    case 3
    have stop: "rest \<noteq> [] \<longrightarrow> \<not> mid_char (hd rest)" and all: "\<forall>c \<in> set cs. mid_char c"
      using delimited_stops(2) [OF assms(2)] 3(3) by (auto simp: list_all_iff)
    note t = takeWhile_append_stop [OF all stop] dropWhile_append_stop [OF all stop]
    show ?thesis
      using 3(1) by (simp add: scan_token_def stream_get_def start_char_facts [OF 3(2)] t)
  qed (simp_all add: scan_token_def stream_get_def is_blank_def sign nd)
qed

section \<open>Reading what was printed\<close>

text \<open>What follows the first element inside the parentheses of a printed cell.\<close>

definition tail_text :: "object \<Rightarrow> string" where
  "tail_text second =
     (if Is_Cell second then '' '' @ Serialize second True
      else if second \<noteq> Null then '' . '' @ Serialize second True else [])"

lemma tail_text_simps:
  "tail_text Null = []"
  "tail_text (Cell a b) = '' '' @ Serialize a False @ tail_text b"
  "tail_text (Number v) = '' . '' @ to_string v"
  "tail_text (Symbol n) = '' . '' @ n"
  by (auto simp: tail_text_def Let_def)

lemma Serialize_Cell: "Serialize (Cell a b) False = ''('' @ Serialize a False @ tail_text b @ '')''"
  by (simp add: tail_text_def Let_def)

lemma delimited_simps [simp]: "delimited []" "delimited (CHR '' '' # s)" "delimited (CHR '')'' # s)"
  by (simp_all add: delimited_def)

lemma delimited_tail_text: "delimited rest \<Longrightarrow> delimited (tail_text t @ rest)"
  by (cases t) (simp_all add: tail_text_simps)

lemma scan_simps:
  "scan_token (CHR ''('' # s) = Inr (Bracket OPEN, s)"
  "scan_token (CHR '')'' # s) = Inr (Bracket CLOSE, s)"
  "scan_token (CHR ''.'' # s) = Inr (DotToken, s)"
  "scan_token (CHR 0x27 # s) = Inr (QuoteToken, s)"
  by (simp_all add: scan_token_def stream_get_def)

lemma skip_simps [simp]:
  "skip (CHR ''('' # s) = CHR ''('' # s" "skip (CHR '')'' # s) = CHR '')'' # s"
  "skip (CHR ''.'' # s) = CHR ''.'' # s" "skip (CHR '' '' # s) = skip s"
  "skip (CHR 0x27 # s) = CHR 0x27 # s"
  by (simp_all add: is_blank_def)

lemma at_text_space: "at_text tk (CHR '' '' # s) \<longleftrightarrow> at_text tk s"
  unfolding at_text_def skip_simps ..

declare dropWhile.simps(2) [simp del] Read.simps [simp del] ReadList.simps [simp del]
  ReadTail.simps [simp del]

text \<open>The first token of a printed object is neither a bracket that closes nor a dot.\<close>

lemma scan_Serialize:
  assumes "printable t" and "delimited rest"
  shows "\<exists>tok s'. scan_token (skip (Serialize t False @ rest)) = Inr (tok, s') \<and>
           tok \<noteq> Bracket CLOSE \<and> tok \<noteq> DotToken"
proof (cases t)
  case (Number v)
  then show ?thesis using scan_number [of v rest] assms by simp
next
  case (Symbol n)
  then show ?thesis using scan_symbol [of n rest] assms by simp
next
  case (Cell a b)
  then show ?thesis unfolding Cell Serialize_Cell by (simp add: scan_simps)
qed (simp add: scan_simps)

definition reads :: "(tokenizer \<Rightarrow> scheme_error + object \<times> tokenizer) \<Rightarrow> tokenizer \<Rightarrow> object \<Rightarrow> string \<Rightarrow> bool \<Rightarrow> bool" where
  "reads f tk t rest got \<longleftrightarrow>
     (\<exists>tk'. f tk = Inr (t, tk') \<and> at_text tk' rest \<and> tk_got tk' = got)"

lemma ReadTail_close:
  assumes "at_text tk (CHR '')'' # rest)"
  shows "reads ReadTail tk Null (CHR '')'' # rest) True"
proof -
  obtain tk' where "GetToken tk = Inr (Bracket CLOSE, tk')" "tk_got tk'" "at_text tk' (CHR '')'' # rest)"
    using at_text_GetToken [OF assms] by (force simp: scan_simps)
  then show ?thesis by (simp add: reads_def ReadTail.simps)
qed

lemma ReadTail_dot:
  assumes "at_text tk ('' . '' @ rest)"
    and "\<And>tk'. at_text tk' rest \<Longrightarrow> \<not> tk_got tk' \<Longrightarrow> reads Read tk' t rest' got"
  shows "reads ReadTail tk t rest' got"
proof -
  have s: "scan_token (skip ('' . '' @ rest)) = Inr (DotToken, CHR '' '' # rest)" by (simp add: scan_simps)
  obtain tk1 where g: "GetToken tk = Inr (DotToken, tk1)" "at_text tk1 ('' . '' @ rest)"
    "GetToken tk1 = Inr (DotToken, tk1)"
    using at_text_GetToken [OF assms(1) s] by blast
  obtain tk2 where n: "Next tk1 = Inr tk2" "\<not> tk_got tk2" "at_text tk2 (CHR '' '' # rest)"
    using at_text_Next [OF g(2) s] by blast
  have "at_text tk2 rest" by (rule at_text_skip [OF n(2,3)]) simp
  then have "reads Read tk2 t rest' got" using assms(2) n(2) by blast
  then show ?thesis using g n by (simp add: reads_def ReadTail.simps)
qed

lemma ReadTail_cell:
  assumes "at_text tk s" and "scan_token (skip s) = Inr (tok, s')" and "tok \<noteq> Bracket CLOSE"
    and "tok \<noteq> DotToken"
    and "\<And>tk'. at_text tk' s \<Longrightarrow> reads Read tk' a s1 False"
    and "\<And>tk'. at_text tk' s1 \<Longrightarrow> \<exists>got. reads ReadTail tk' b s2 got"
  shows "\<exists>got. reads ReadTail tk (Cell a b) s2 got"
proof -
  obtain tk1 where g: "GetToken tk = Inr (tok, tk1)" "at_text tk1 s" "GetToken tk1 = Inr (tok, tk1)"
    using at_text_GetToken [OF assms(1,2)] by blast
  obtain tk2 where r: "Read tk1 = Inr (a, tk2)" "at_text tk2 s1"
    using assms(5) [OF g(2)] by (auto simp: reads_def)
  obtain tk3 where "ReadTail tk2 = Inr (b, tk3)" "at_text tk3 s2"
    using assms(6) [OF r(2)] by (auto simp: reads_def)
  then have "reads ReadTail tk (Cell a b) s2 (tk_got tk3)" unfolding reads_def
    using g r assms(3,4) by (subst ReadTail.simps) simp
  then show ?thesis ..
qed

lemma ReadList_cell:
  assumes "at_text tk (CHR ''('' # s)" and "scan_token (skip s) = Inr (tok, s')" and "tok \<noteq> Bracket CLOSE"
    and "\<And>tk'. at_text tk' s \<Longrightarrow> reads Read tk' a s1 False"
    and "\<And>tk'. at_text tk' s1 \<Longrightarrow> \<exists>got. reads ReadTail tk' b s2 got"
  shows "\<exists>got. reads ReadList tk (Cell a b) s2 got"
proof -
  obtain tk0 where n: "Next tk = Inr tk0" "at_text tk0 s"
    using at_text_Next [OF assms(1)] by (force simp: scan_simps)
  obtain tk1 where g: "GetToken tk0 = Inr (tok, tk1)" "at_text tk1 s"
    using at_text_GetToken [OF n(2) assms(2)] by blast
  obtain tk2 where r: "Read tk1 = Inr (a, tk2)" "at_text tk2 s1"
    using assms(4) [OF g(2)] by (auto simp: reads_def)
  from assms(5) [OF r(2)] show ?thesis using n g r assms(3)
    by (auto simp: reads_def ReadList.simps)
qed

lemma ReadList_close:
  assumes "at_text tk (CHR ''('' # CHR '')'' # s)"
  shows "reads ReadList tk Null (CHR '')'' # s) True"
proof -
  obtain tk0 where n: "Next tk = Inr tk0" "at_text tk0 (CHR '')'' # s)"
    using at_text_Next [OF assms] by (force simp: scan_simps)
  obtain tk1 where "GetToken tk0 = Inr (Bracket CLOSE, tk1)" "tk_got tk1" "at_text tk1 (CHR '')'' # s)"
    using at_text_GetToken [OF n(2)] by (force simp: scan_simps)
  then show ?thesis using n by (simp add: reads_def ReadList.simps)
qed

lemma Read_atom:
  assumes "at_text tk s" and "scan_token (skip s) = Inr (tok, rest)"
    and "\<not> all_blank (if tk_got tk then rest else s)"
    and "tok = ConstantToken v \<and> t = Number v \<or> tok = SymbolToken n \<and> t = Symbol n"
  shows "reads Read tk t rest False"
proof -
  note e = at_text_IsEnd [OF assms(1-3)]
  obtain tk1 where g: "GetToken (snd (IsEnd tk)) = Inr (tok, tk1)" "at_text tk1 s"
    using at_text_GetToken [OF e(2) assms(2)] by blast
  obtain tk2 where n: "Next tk1 = Inr tk2" "\<not> tk_got tk2" "at_text tk2 rest"
    using at_text_Next [OF g(2) assms(2)] by blast
  then show ?thesis using e(1) g n assms(4) by (auto simp: reads_def Read.simps)
qed

lemma all_blank_simps [simp]:
  "all_blank (s @ s') \<longleftrightarrow> all_blank s \<and> all_blank s'" "\<not> all_blank (CHR '')'' # s)"
  "\<not> all_blank (CHR ''('' # s)"
  by (auto simp: all_blank_def is_blank_def)

lemma Read_bracket:
  assumes "at_text tk (CHR ''('' # s)" and "\<not> all_blank s"
    and "\<And>tk'. at_text tk' (CHR ''('' # s) \<Longrightarrow> \<exists>got. reads ReadList tk' t (CHR '')'' # rest) got"
  shows "reads Read tk t rest False"
proof -
  have s: "scan_token (skip (CHR ''('' # s)) = Inr (Bracket OPEN, s)" by (simp add: scan_simps)
  have ne: "\<not> all_blank (if tk_got tk then s else CHR ''('' # s)" using assms(2) by (simp add: all_blank_def)
  note e = at_text_IsEnd [OF assms(1) s ne]
  obtain tk1 where g: "GetToken (snd (IsEnd tk)) = Inr (Bracket OPEN, tk1)" "at_text tk1 (CHR ''('' # s)"
    using at_text_GetToken [OF e(2) s] by blast
  obtain tk2 where l: "ReadList tk1 = Inr (t, tk2)" "at_text tk2 (CHR '')'' # rest)"
    using assms(3) [OF g(2)] by (auto simp: reads_def)
  have c: "scan_token (skip (CHR '')'' # rest)) = Inr (Bracket CLOSE, rest)" by (simp add: scan_simps)
  obtain tk3 where g': "GetToken tk2 = Inr (Bracket CLOSE, tk3)" "at_text tk3 (CHR '')'' # rest)"
    using at_text_GetToken [OF l(2) c] by blast
  obtain tk4 where n: "Next tk3 = Inr tk4" "\<not> tk_got tk4" "at_text tk4 rest"
    using at_text_Next [OF g'(2) c] by blast
  show ?thesis using e(1) g l g' n by (simp add: reads_def Read.simps)
qed


lemma Read_number:
  assumes "int_ok v" and "delimited rest" and "at_text tk (to_string v @ rest)"
    and "tk_got tk \<longrightarrow> \<not> all_blank rest"
  shows "reads Read tk (Number v) rest False"
proof (rule Read_atom [OF assms(3)])
  show "scan_token (skip (to_string v @ rest)) = Inr (ConstantToken v, rest)"
    using scan_number [OF assms(1,2)] by simp
  have "all_blank [] \<and> to_string v @ rest \<noteq> []" by (auto simp: to_string_def)
  then have "\<not> all_blank (to_string v @ rest)"
    using scan_number [OF assms(1,2)] by (simp add: all_blank_dropWhile del: dropWhile_eq_Nil_conv)
  then show "\<not> all_blank (if tk_got tk then rest else to_string v @ rest)" using assms(4) by simp
qed simp

lemma Read_symbol:
  assumes "symbol_name n" and "delimited rest" and "at_text tk (n @ rest)"
    and "tk_got tk \<longrightarrow> \<not> all_blank rest"
  shows "reads Read tk (Symbol n) rest False"
proof (rule Read_atom [OF assms(3)])
  show "scan_token (skip (n @ rest)) = Inr (SymbolToken n, rest)"
    using scan_symbol [OF assms(1,2)] by simp
  have "n \<noteq> []" using assms(1) by (auto simp: symbol_name_def)
  then have "\<not> all_blank (n @ rest)"
    using scan_symbol [OF assms(1,2)] by (simp add: all_blank_dropWhile del: dropWhile_eq_Nil_conv)
  then show "\<not> all_blank (if tk_got tk then rest else n @ rest)" using assms(4) by simp
qed simp

lemma Read_ReadTail_Serialize:
  "printable t \<Longrightarrow> delimited rest \<Longrightarrow> at_text tk (Serialize t False @ rest) \<Longrightarrow>
     tk_got tk \<longrightarrow> \<not> all_blank rest \<Longrightarrow> reads Read tk t rest False"
  "printable t \<Longrightarrow> at_text tk (tail_text t @ CHR '')'' # rest') \<Longrightarrow>
     \<exists>got. reads ReadTail tk t (CHR '')'' # rest') got"
proof (induction t arbitrary: tk rest rest')
  case Null
  {
    case 1
    show ?case
      by (rule Read_bracket [where s = "CHR '')'' # rest"])
        (use 1 ReadList_close in \<open>auto\<close>)
  next
    case 2
    then show ?case using ReadTail_close by (auto simp: tail_text_simps)
  }
next
  case (Number v)
  {
    case 1
    then show ?case using Read_number by simp
  next
    case 2
    then have "reads ReadTail tk (Number v) (CHR '')'' # rest) False"
      by (intro ReadTail_dot Read_number) (auto simp: tail_text_simps)
    then show ?case ..
  }
next
  case (Symbol n)
  {
    case 1
    then show ?case using Read_symbol by simp
  next
    case 2
    then have "reads ReadTail tk (Symbol n) (CHR '')'' # rest) False"
      by (intro ReadTail_dot Read_symbol) (auto simp: tail_text_simps)
    then show ?case ..
  }
next
  case (Cell a b)
  {
    case 1
    let ?t = "tail_text b @ CHR '')'' # rest"
    let ?s = "Serialize a False @ ?t"
    have ok: "printable a" "printable b" and d: "delimited ?t"
      using 1 by (auto intro: delimited_tail_text)
    obtain tok s' where tok: "scan_token (skip ?s) = Inr (tok, s')" "tok \<noteq> Bracket CLOSE"
      using scan_Serialize [OF ok(1) d] by auto
    show ?case
    proof (rule Read_bracket [where s = ?s])
      show "at_text tk (CHR ''('' # ?s)" using 1(3) by (simp only: Serialize_Cell) simp
      show "\<exists>got. reads ReadList tk' (Cell a b) (CHR '')'' # rest) got"
        if tk': "at_text tk' (CHR ''('' # ?s)" for tk'
      proof (rule ReadList_cell [OF tk' tok])
        show "reads Read tk'' a ?t False" if "at_text tk'' ?s" for tk''
          by (rule Cell.IH(1) [OF ok(1) d that]) simp
        show "\<exists>got. reads ReadTail tk'' b (CHR '')'' # rest) got" if "at_text tk'' ?t" for tk''
          by (rule Cell.IH(4) [OF ok(2) that])
      qed
    qed simp
  next
    case 2
    let ?t = "tail_text b @ CHR '')'' # rest"
    let ?s = "Serialize a False @ ?t"
    have ok: "printable a" "printable b" and d: "delimited ?t"
      using 2 by (auto intro: delimited_tail_text)
    obtain tok s' where tok: "scan_token (skip (CHR '' '' # ?s)) = Inr (tok, s')"
      "tok \<noteq> Bracket CLOSE" "tok \<noteq> DotToken"
      using scan_Serialize [OF ok(1) d] by auto
    have tk: "at_text tk (CHR '' '' # ?s)" using 2(2) by (simp add: tail_text_simps)
    show ?case
    proof (rule ReadTail_cell [OF tk tok])
      show "reads Read tk' a ?t False" if "at_text tk' (CHR '' '' # ?s)" for tk'
        by (rule Cell.IH(1) [OF ok(1) d]) (use that in \<open>simp_all add: at_text_space\<close>)
      show "\<exists>got. reads ReadTail tk' b (CHR '')'' # rest) got" if "at_text tk' ?t" for tk'
        by (rule Cell.IH(4) [OF ok(2) that])
    qed
  }
qed

text \<open>The text of a printable object is read back as that object, whatever follows it.\<close>

lemma Read_Serialize_rest:
  assumes "printable t" and "delimited rest"
  shows "\<exists>tk. Read (Tokenizer_new (Serialize t False @ rest)) = Inr (t, tk) \<and> at_text tk rest \<and> \<not> tk_got tk"
  using Read_ReadTail_Serialize(1) [OF assms at_text_new(1)] by (auto simp: reads_def)

lemma Read_quoted:
  assumes "printable t" and "delimited rest"
  shows "\<exists>tk. Read (Tokenizer_new (CHR 0x27 # Serialize t False @ rest)) =
    Inr (Cell (Symbol ''quote'') (Cell t Null), tk)"
proof -
  let ?s = "CHR 0x27 # Serialize t False @ rest"
  have s: "scan_token (skip ?s) = Inr (QuoteToken, Serialize t False @ rest)" by (simp add: scan_simps)
  have ne: "\<not> all_blank ?s" by (simp add: all_blank_def is_blank_def)
  note e = at_text_IsEnd [OF at_text_new(1) s]
  obtain tk1 where g: "GetToken (snd (IsEnd (Tokenizer_new ?s))) = Inr (QuoteToken, tk1)" "at_text tk1 ?s"
    using at_text_GetToken [OF e(2) s] ne by (auto simp: at_text_new)
  obtain tk2 where n: "Next tk1 = Inr tk2" "\<not> tk_got tk2" "at_text tk2 (Serialize t False @ rest)"
    using at_text_Next [OF g(2) s] by blast
  have "reads Read tk2 t rest False"
    using Read_ReadTail_Serialize(1) [OF assms n(3)] n(2) by blast
  then show ?thesis using e(1) ne g n by (subst Read.simps) (auto simp: reads_def at_text_new)
qed

section \<open>What the tokenizer throws\<close>

lemma stoi_error:
  assumes "stoi (c # ds) = Inl e"
    and "digit_char c \<or> (c = CHR ''-'' \<or> c = CHR ''+'') \<and> ds \<noteq> [] \<and> digit_char (hd ds)"
  shows "e = OutOfRange"
  using assms digit_char_facts(6,7) [of c]
  by (cases ds) (auto simp: stoi_def Let_def takeWhile.simps split: if_splits)

lemma peek_digit: "IsNumber (to_char (peek s)) \<Longrightarrow> s \<noteq> [] \<and> digit_char (hd s)"
  by (cases s) (auto simp: peek_def digit_char_def to_char_def IsNumber_def)

lemma sign_char: "IsPlusOrMinus (to_char (of_char c)) \<Longrightarrow> c = CHR ''-'' \<or> c = CHR ''+''"
proof -
  assume "IsPlusOrMinus (to_char (of_char c))"
  then have "of_char c = (of_char CHR ''-'' :: int) \<or> of_char c = (of_char CHR ''+'' :: int)"
    using byte_range [of c] by (auto simp: IsPlusOrMinus_def to_char_byte split: if_splits)
  then show ?thesis by (simp only: of_char_eq_iff)
qed

lemma scan_token_error: "scan_token s = Inl e \<Longrightarrow> e = OutOfRange"
proof (cases s)
  case (Cons c cs)
  assume e: "scan_token s = Inl e"
  let ?c = "to_char (of_char c)"
  have st: "stoi (c # takeWhile digit_char cs) = Inl e"
    and n: "IsNumber ?c \<or> IsPlusOrMinus ?c \<and> IsNumber (to_char (peek cs))"
    using Cons e by (auto simp: scan_token_def stream_get_def ebind_Inl_iff split: if_splits)
  have "digit_char c \<or> (c = CHR ''-'' \<or> c = CHR ''+'') \<and> takeWhile digit_char cs \<noteq> [] \<and>
      digit_char (hd (takeWhile digit_char cs))"
  proof (cases "IsNumber ?c")
    case False
    then have "cs \<noteq> [] \<and> digit_char (hd cs)" and "c = CHR ''-'' \<or> c = CHR ''+''"
      using n peek_digit [of cs] sign_char [of c] by blast+
    then show ?thesis by (cases cs) auto
  qed (simp add: digit_char_def)
  then show ?thesis using stoi_error [OF st] by blast
qed (simp add: scan_token_Nil)

end
