(* ===== verification/Exceptions.thy ===== *)
theory Exceptions
  imports RoundTrip "HOL-Library.Sublist"
begin

text \<open>
  What can be thrown, and when, by the interpreter without variables: the reader throws
  \<open>std::out_of_range\<close> only for a number that is too long, and the evaluator dereferences a null pointer
  only for a call whose argument has not the shape that its call operator takes for granted.
\<close>

section \<open>Numbers that are too long\<close>

text \<open>Somewhere in the text there are digits whose value is no \<open>int\<close>.\<close>

definition long_number :: "string \<Rightarrow> bool" where
  "long_number s \<longleftrightarrow> (\<exists>ds. sublist ds s \<and> list_all digit_char ds \<and> 2 ^ 31 \<le> digits_value ds)"

lemma long_number_sublist: "long_number s \<Longrightarrow> sublist s t \<Longrightarrow> long_number t"
  unfolding long_number_def using sublist_order.order_trans by blast

lemma digits_value_pos: "list_all digit_char ds \<Longrightarrow> 0 \<le> digits_value ds"
proof (induction ds rule: rev_induct)
  case (snoc c ds)
  then have "(48::int) \<le> of_char c" by (simp add: digit_char_range)
  then show ?case using snoc by (simp add: digits_value_snoc)
qed (simp add: digits_value_def)

lemma digits_out_of_range:
  assumes "2 ^ 31 \<le> \<bar>digits_value (takeWhile digit_char rest)\<bar>"
  shows "long_number rest"
proof -
  let ?ds = "takeWhile digit_char rest"
  have ds: "list_all digit_char ?ds" by (auto simp: list_all_iff dest: set_takeWhileD)
  moreover have "2 ^ 31 \<le> digits_value ?ds" using assms digits_value_pos [OF ds] by simp
  moreover have "sublist ?ds rest" by (intro prefix_imp_sublist takeWhile_is_prefix)
  ultimately show ?thesis unfolding long_number_def by blast
qed

lemma stoi_out_of_range:
  assumes "stoi s = Inl OutOfRange"
  shows "long_number s"
proof (cases s)
  case (Cons c cs)
  have "long_number cs \<or> long_number s"
    using assms digits_out_of_range [of cs] digits_out_of_range [of s] unfolding stoi_def Let_def Cons
    by (auto split: if_splits simp del: takeWhile.simps)
  then show ?thesis unfolding Cons using long_number_sublist [of cs "c # cs"] by (auto simp: suffix_imp_sublist suffix_ConsI)
qed (use assms in \<open>simp add: stoi_def\<close>)

section \<open>The reader\<close>

text \<open>A step of the reader started at the text \<open>s\<close> never goes back in it, and throws a syntax error or,
  for a number in it that is too long, \<open>std::out_of_range\<close>.\<close>

definition within :: "('a \<Rightarrow> string) \<Rightarrow> string \<Rightarrow> scheme_error + 'a \<Rightarrow> bool" where
  "within left s r \<longleftrightarrow> (case r of
     Inr x \<Rightarrow> suffix (left x) s
   | Inl e \<Rightarrow> (\<exists>m. e = SyntaxError m) \<or> e = OutOfRange \<and> long_number s)"

lemma within_Inr [simp]: "within left s (Inr x) \<longleftrightarrow> suffix (left x) s"
  and within_Syntax [simp]: "within left s (Inl (SyntaxError m))"
  and within_range [simp]: "within left s (Inl OutOfRange) \<longleftrightarrow> long_number s"
  by (simp_all add: within_def)

lemma within_suffix: "within left s r \<Longrightarrow> suffix s t \<Longrightarrow> within left t r"
  unfolding within_def
  by (auto split: sum.splits intro: suffix_order.order_trans long_number_sublist suffix_imp_sublist)

lemma within_ebind:
  assumes "within left s r" and "\<And>x. r = Inr x \<Longrightarrow> within left' (left x) (f x)"
  shows "within left' s (ebind r f)"
proof (cases r)
  case (Inr x)
  then show ?thesis using assms(2) [OF Inr] assms(1) by (simp add: within_suffix)
qed (use assms(1) in \<open>simp add: within_def\<close>)

lemma within_scan: "within snd s (scan_token s)"
proof (cases "scan_token s")
  case (Inr p)
  then show ?thesis
    by (cases s) (auto simp: scan_token_def stream_get_def Let_def suffix_dropWhile suffix_ConsI split: if_splits)
next
  case (Inl e)
  then have e: "e = OutOfRange" by (rule scan_token_error)
  obtain c cs where s: "s = c # cs" using Inl by (cases s) (auto simp: scan_token_Nil)
  have "stoi (c # takeWhile digit_char cs) = Inl OutOfRange"
    using Inl e unfolding s by (auto simp: scan_token_def stream_get_def ebind_Inl_iff split: if_splits)
  then have "long_number (c # takeWhile digit_char cs)" by (rule stoi_out_of_range)
  then have "long_number s" unfolding s
    by (rule long_number_sublist) (simp add: prefix_imp_sublist takeWhile_is_prefix)
  then show ?thesis using Inl e by simp
qed

lemma within_GetToken: "within (\<lambda>r. tk_stream (snd r)) (tk_stream tk) (GetToken tk)"
proof (cases "tk_got tk")
  case False
  have "within (\<lambda>r. tk_stream (snd r)) (dropWhile is_blank (tk_stream tk)) (GetToken tk)"
    unfolding GetToken_def using False within_scan by (auto intro!: within_ebind)
  then show ?thesis by (rule within_suffix [OF _ suffix_dropWhile])
qed (simp add: GetToken_def)

lemma within_Next: "within tk_stream (tk_stream tk) (Next tk)"
  unfolding Next_def by (auto intro!: within_ebind [OF within_GetToken])

lemma IsEnd_stream: "suffix (tk_stream (snd (IsEnd tk))) (tk_stream tk)"
  by (simp add: IsEnd_def Let_def suffix_dropWhile)

lemma within_closing:
  "within (\<lambda>r. tk_stream (snd r)) (tk_stream tk)
     (ebind (GetToken tk) (\<lambda>(closing, tk3).
        if closing \<noteq> Bracket CLOSE then Inl (SyntaxError m) else ebind (Next tk3) (\<lambda>tk4. Inr (x, tk4))))"
  by (auto intro!: within_ebind [OF within_GetToken] within_ebind [OF within_Next])

lemma within_cell:
  assumes "within (\<lambda>r. tk_stream (snd r)) (tk_stream tk) (Read tk)"
    and "\<And>x tk'. Read tk = Inr (x, tk') \<Longrightarrow> within (\<lambda>r. tk_stream (snd r)) (tk_stream tk') (ReadTail tk')"
  shows "within (\<lambda>r. tk_stream (snd r)) (tk_stream tk)
     (ebind (Read tk) (\<lambda>(first, tk3). ebind (ReadTail tk3) (\<lambda>(second, tk4). Inr (Cell first second, tk4))))"
proof (rule within_ebind [OF assms(1)])
  fix p
  assume "Read tk = Inr p"
  then have "within (\<lambda>r. tk_stream (snd r)) (tk_stream (snd p)) (ReadTail (snd p))"
    by (cases p) (simp add: assms(2))
  then show "within (\<lambda>r. tk_stream (snd r)) ((\<lambda>r. tk_stream (snd r)) p)
      (case p of (first, tk3) \<Rightarrow> ebind (ReadTail tk3) (\<lambda>(second, tk4). Inr (Cell first second, tk4)))"
    by (auto simp: split_beta intro: within_ebind)
qed

lemma within_Read:
  "within (\<lambda>r. tk_stream (snd r)) (tk_stream tk) (Read tk)"
  "within (\<lambda>r. tk_stream (snd r)) (tk_stream tk) (ReadList tk)"
  "within (\<lambda>r. tk_stream (snd r)) (tk_stream tk) (ReadTail tk)"
proof (induction tk and tk and tk rule: Read_ReadList_ReadTail.induct)
  case (1 tk)
  show ?case
  proof (cases "fst (IsEnd tk)")
    case False
    note IH = 1 [OF False]
    show ?thesis unfolding Read.simps [of tk] if_not_P [OF False]
    proof (rule within_suffix [OF within_ebind [OF within_GetToken] IsEnd_stream], goal_cases)
      case (1 p)
      obtain t tk1 where p: "p = (t, tk1)" by (cases p)
      show ?case
      proof (cases t)
        case (Bracket b)
        show ?thesis
        proof (cases b)
          case OPEN
          then show ?thesis using Bracket p
            by (simp, intro within_ebind [OF IH(1) [OF 1 p [symmetric]]])
              (auto intro: within_closing)
        qed (use Bracket p in simp)
      next
        case QuoteToken
        then show ?thesis using IH(2) [OF 1 p [symmetric]] p
          by (auto intro!: within_ebind within_ebind [OF within_Next])
      qed (use p in \<open>auto intro!: within_ebind [OF within_Next]\<close>)
    qed
  qed (simp add: Read.simps)
next
  case (2 tk)
  show ?case unfolding ReadList.simps [of tk]
    by (rule within_ebind [OF within_Next], rule within_ebind [OF within_GetToken])
      (auto intro!: within_cell 2)
next
  case (3 tk)
  note IH = 3 [OF _ refl _ _ refl]
  have dot: "within (\<lambda>r. tk_stream (snd r)) (tk_stream tk2) (ebind (Next tk2) Read)"
    if "GetToken tk = Inr (token, tk1)" "token \<noteq> Bracket CLOSE" "GetToken tk1 = Inr (DotToken, tk2)"
    for token tk1 tk2
    using IH(1) [OF that] by (auto intro: within_ebind [OF within_Next])
  have cell: "within (\<lambda>r. tk_stream (snd r)) (tk_stream tk2)
      (ebind (Read tk2) (\<lambda>(first, tk3). ebind (ReadTail tk3) (\<lambda>(second, tk4). Inr (Cell first second, tk4))))"
    if "GetToken tk = Inr (token, tk1)" "token \<noteq> Bracket CLOSE" "GetToken tk1 = Inr (token', tk2)"
      "token' \<noteq> DotToken" for token tk1 token' tk2
    by (rule within_cell [OF IH(2) [OF that] IH(3) [OF that _ refl]])
  show ?case unfolding ReadTail.simps [of tk]
    by (rule within_ebind [OF within_GetToken])
      (auto intro!: within_ebind [OF within_GetToken] dot cell)
qed

section \<open>The evaluator\<close>

text \<open>The parts of its argument that a call operator may evaluate.\<close>

definition first_part :: "object \<Rightarrow> object list" where
  "first_part argument = (case argument of Cell a b \<Rightarrow> [a] | _ \<Rightarrow> [])"

definition elements :: "object \<Rightarrow> object list" where
  "elements argument = (case AsVector argument of Inl e \<Rightarrow> [] | Inr args \<Rightarrow> args)"

fun evaluated :: "AbstractFunction \<Rightarrow> object \<Rightarrow> object list" where
  "evaluated QuoteFunction argument = []"
| "evaluated ListFunction argument = []"
| "evaluated IsNumberFunction argument = first_part argument"
| "evaluated IsBooleanFunction argument = first_part argument"
| "evaluated NotFunction argument = first_part argument"
| "evaluated IsPairFunction argument = first_part argument"
| "evaluated IsNullFunction argument = first_part argument"
| "evaluated IsListFunction argument = first_part argument"
| "evaluated CarFunction argument = first_part argument"
| "evaluated CdrFunction argument = first_part argument"
| "evaluated ListRefFunction argument = first_part argument"
| "evaluated ListTailFunction argument = first_part argument"
| "evaluated ConsFunction argument =
     first_part argument @ (case argument of Cell a b \<Rightarrow> first_part b | _ \<Rightarrow> [])"
| "evaluated f argument = elements argument"

text \<open>The shape that a call operator takes for granted, without a check, of its argument: at least one
  argument, a second one, an index that is a number; a first argument whose value, if it has one, is a
  number, or a list.\<close>

definition value_is :: "(object \<Rightarrow> bool) \<Rightarrow> object \<Rightarrow> bool" where
  "value_is P x \<longleftrightarrow> (case Compute x of Inl e \<Rightarrow> True | Inr v \<Rightarrow> P v)"

definition indexed :: "object \<Rightarrow> bool" where
  "indexed argument \<longleftrightarrow> (case argument of Cell a (Cell (Number i) b) \<Rightarrow> True | _ \<Rightarrow> False)"

fun shape :: "AbstractFunction \<Rightarrow> object \<Rightarrow> bool" where
  "shape QuoteFunction argument \<longleftrightarrow> Is_Cell argument"
| "shape IsNumberFunction argument \<longleftrightarrow> Is_Cell argument"
| "shape IsPairFunction argument \<longleftrightarrow> Is_Cell argument"
| "shape IsNullFunction argument \<longleftrightarrow> Is_Cell argument"
| "shape IsListFunction argument \<longleftrightarrow> Is_Cell argument"
| "shape CarFunction argument \<longleftrightarrow>
     Is_Cell argument \<and> list_all (value_is (\<lambda>v. v = Null \<or> Is_Cell v)) (first_part argument)"
| "shape CdrFunction argument \<longleftrightarrow>
     Is_Cell argument \<and> list_all (value_is (\<lambda>v. v = Null \<or> Is_Cell v)) (first_part argument)"
| "shape ConsFunction argument \<longleftrightarrow> (case argument of Cell a (Cell b c) \<Rightarrow> True | _ \<Rightarrow> False)"
| "shape ListRefFunction argument \<longleftrightarrow> indexed argument"
| "shape ListTailFunction argument \<longleftrightarrow> indexed argument"
| "shape DivFunction argument \<longleftrightarrow> list_all (value_is Is_Number) (first_part argument)"
| "shape _ argument \<longleftrightarrow> True"

text \<open>\<open>evaluates x y\<close>: the evaluation of \<open>x\<close> may get to that of \<open>y\<close>.\<close>

inductive evaluates :: "object \<Rightarrow> object \<Rightarrow> bool" where
  evaluates_refl: "evaluates x x"
| evaluates_part: "GetFunction first = Inr f \<Longrightarrow> x \<in> set (evaluated f argument) \<Longrightarrow> evaluates x y
    \<Longrightarrow> evaluates (Cell first argument) y"

text \<open>What a call operator throws by itself: only arithmetic overflows.\<close>

definition arithmetic :: "AbstractFunction set" where
  "arithmetic = {AddFunction, SubFunction, MulFunction, DivFunction, AbsFunction}"

definition own_error :: "AbstractFunction \<Rightarrow> object \<Rightarrow> scheme_error \<Rightarrow> bool" where
  "own_error f argument e \<longleftrightarrow>
     (\<exists>m. e = RuntimeError m) \<or> e = SignedOverflow \<and> f \<in> arithmetic \<or>
     e = NullDereference \<and> \<not> shape f argument"

lemma own_error_simps [simp]:
  "own_error f argument (RuntimeError m)" "own_error f argument SignedOverflow \<longleftrightarrow> f \<in> arithmetic"
  "own_error f argument NullDereference \<longleftrightarrow> \<not> shape f argument"
  by (simp_all add: own_error_def)

text \<open>Comparisons, \<open>max\<close>, \<open>min\<close>, \<open>and\<close> and \<open>or\<close> compute no new number.\<close>

lemma compare_loop_overflow:
  "compare_loop ev c args = Inl SignedOverflow \<Longrightarrow> \<exists>x \<in> set args. ev x = Inl SignedOverflow"
  by (induction args rule: induct_list012) (auto simp: ebind_Inl_iff split: if_splits elim!: Is_Number.elims)

lemma and_loop_overflow:
  "and_loop ev args r = Inl SignedOverflow \<Longrightarrow> r = Inl SignedOverflow \<or> (\<exists>x \<in> set args. ev x = Inl SignedOverflow)"
  by (induction args) (auto simp: ebind_Inl_iff split: if_splits)

lemma or_loop_overflow: "or_loop ev args = Inl SignedOverflow \<Longrightarrow> \<exists>x \<in> set args. ev x = Inl SignedOverflow"
  by (induction args) (auto simp: ebind_Inl_iff split: if_splits)

lemma extremum_overflow:
  "efold (\<lambda>m arg. ebind (number_arg ev msg arg) (\<lambda>v. Inr (g m v))) a args = Inl SignedOverflow \<Longrightarrow>
     \<exists>x \<in> set args. ev x = Inl SignedOverflow"
  by (induction args arbitrary: a) (auto simp: number_arg_def ebind_Inl_iff split: if_splits elim!: Is_Number.elims)

lemma no_overflow:
  assumes "f \<in> {MaxFunction, MinFunction, AndFunction, OrFunction, CompareFunction c}"
    and "call ev f argument = Inl SignedOverflow"
  shows "\<exists>x \<in> set (elements argument). ev x = Inl SignedOverflow"
proof (cases "AsVector argument")
  case (Inr args)
  then show ?thesis using assms unfolding elements_def
    by (auto simp: Max_call_def Min_call_def And_call_def Or_call_def Compare_call_def ebind_Inl_iff
        split: if_splits elim!: Is_Number.elims
        intro: bexI [OF _ hd_in_set] bexI [OF _ last_in_set]
        dest!: compare_loop_overflow and_loop_overflow or_loop_overflow extremum_overflow)
qed (use assms in \<open>auto simp: Max_call_def Min_call_def And_call_def Or_call_def Compare_call_def
      dest: AsVector_error split: if_splits\<close>)

lemma checked_call_error:
  assumes "f \<in> {AddFunction, SubFunction, MulFunction, MaxFunction, MinFunction, AbsFunction,
      AndFunction, OrFunction, CompareFunction c}"
    and "call ev f argument = Inl e"
  shows "own_error f argument e \<or> (\<exists>x \<in> set (elements argument). ev x = Inl e)"
proof -
  let ?bad = "\<lambda>e. (\<exists>m. e = RuntimeError m) \<or> e = SignedOverflow \<or> (\<exists>x \<in> set (elements argument). ev x = Inl e)"
  have l: "error_evaluator ev (\<lambda>x. x \<in> set (elements argument)) ?bad" by unfold_locales auto
  have v: "AsVector argument = Inr args \<Longrightarrow> \<forall>x \<in> set args. x \<in> set (elements argument)" for args
    by (simp add: elements_def)
  have bad: "?bad e"
    using assms(1)
  proof (elim insertE emptyE)
  qed (use assms(2) error_evaluator.vector_call_bad [OF l v] in \<open>simp only: call.simps; blast\<close>)+
  show ?thesis
  proof (cases "e = SignedOverflow \<and> f \<notin> arithmetic")
    case True
    then show ?thesis using assms no_overflow [of f c ev argument] by (auto simp: arithmetic_def)
  qed (use bad in \<open>auto simp: own_error_def\<close>)
qed

lemma Div_call_error:
  assumes "Div_call Compute argument = Inl e"
  shows "own_error DivFunction argument e \<or> (\<exists>x \<in> set (elements argument). Compute x = Inl e)"
proof (cases "AsVector argument")
  case (Inr args)
  then have argument: "argument = list_of args" by (simp add: AsVector_Inr_iff)
  have l: "error_evaluator Compute (\<lambda>x. x \<in> set args)
      (\<lambda>e. own_error DivFunction argument e \<or> (\<exists>x \<in> set args. Compute x = Inl e))"
    by unfold_locales (auto simp: arithmetic_def)
  show ?thesis
  proof (cases args)
    case (Cons a as)
    show ?thesis
    proof (cases "Compute a")
      case v: (Inr v)
      show ?thesis
      proof (cases v)
        case (Number first)
        have "efold (\<lambda>quot arg. ebind (number_arg Compute ''Div argument is not a number'' arg)
            (\<lambda>v. if v = 0 then Inl (RuntimeError ''Div argument is zero'') else ll_div quot v)) first as = Inl e"
          using assms Inr Cons v Number by (auto simp: Div_call_def ebind_Inl_iff)
        then show ?thesis unfolding argument elements_def AsVector_list_of sum.case
          by (rule error_evaluator.number_fold_bad [OF l [unfolded argument]])
            (auto simp: Cons ll_div_def ll_check_def arithmetic_def split: if_splits)
      qed (use assms Inr Cons v argument in \<open>simp_all add: Div_call_def value_is_def first_part_def\<close>)
    qed (use assms Inr Cons in \<open>simp add: Div_call_def elements_def\<close>)
  qed (use assms Inr in \<open>auto simp: Div_call_def\<close>)
qed (use assms in \<open>auto simp: Div_call_def dest: AsVector_error\<close>)

lemma IsList_no_error:
  "(case AsVector v of Inl (RuntimeError re) \<Rightarrow> Inr x | Inl e \<Rightarrow> Inl e | Inr _ \<Rightarrow> Inr y) \<noteq> Inl e"
  by (cases "AsVector v") (auto dest: AsVector_error)

lemma part_call_error:
  assumes "f \<in> {QuoteFunction, IsNumberFunction, IsBooleanFunction, NotFunction, IsPairFunction,
      IsNullFunction, IsListFunction, ConsFunction, CarFunction, CdrFunction, ListFunction, ListRefFunction, ListTailFunction}"
    and "call Compute f argument = Inl e"
  shows "own_error f argument e \<or> (\<exists>x \<in> set (evaluated f argument). Compute x = Inl e)"
proof (cases argument)
  case (Cell a b)
  show ?thesis using assms(1)
  proof (elim insertE emptyE)
    assume "f = IsListFunction"
    moreover from this have "Compute a = Inl e"
      using assms(2) Cell by (cases "Compute a") (simp_all add: IsList_call_def IsList_no_error)
    ultimately show ?thesis using Cell by (simp add: first_part_def)
  next
    assume "f = ConsFunction"
    then show ?thesis using assms(2) Cell
      by (cases b) (auto simp: Cons_call_def first_part_def ebind_Inl_iff)
  next
    assume "f = CarFunction"
    then show ?thesis using assms(2) Cell
      by (auto simp: Car_call_def first_part_def value_is_def ebind_Inl_iff split: if_splits elim!: GetFirst.elims)
  next
    assume "f = CdrFunction"
    then show ?thesis using assms(2) Cell
      by (auto simp: Cdr_call_def first_part_def value_is_def ebind_Inl_iff split: if_splits elim!: GetSecond.elims)
  next
    assume "f = ListRefFunction"
    then show ?thesis using assms(2) Cell
      by (auto simp: ListRef_call_def vector_at_def first_part_def indexed_def ebind_Inl_iff split: if_splits object.splits
          dest: AsVector_error elim!: GetFirst.elims GetValue.elims)
  next
    assume "f = ListTailFunction"
    then show ?thesis using assms(2) Cell
      by (auto simp: ListTail_call_def first_part_def indexed_def ebind_Inl_iff split_beta split: if_splits object.splits
          elim!: GetFirst.elims GetValue.elims)
  next
    assume "f = IsBooleanFunction"
    then show ?thesis using assms(2) Cell
      by (auto simp: IsBoolean_call_def first_part_def ebind_Inl_iff split: if_splits elim!: Is_Symbol.elims)
  next
    assume "f = NotFunction"
    then show ?thesis using assms(2) Cell
      by (auto simp: Not_call_def first_part_def ebind_Inl_iff split: if_splits elim!: Is_Symbol.elims)
  qed (use assms(2) Cell in \<open>simp add: IsNumber_call_def IsPair_call_def IsNull_call_def Quote_call_def
      List_call_def first_part_def ebind_Inl_iff\<close>)+
qed (use assms in \<open>auto simp: IsNumber_call_def IsPair_call_def IsNull_call_def Quote_call_def List_call_def IsBoolean_call_def
      Not_call_def Cons_call_def Car_call_def Cdr_call_def ListRef_call_def ListTail_call_def IsList_call_def indexed_def\<close>)

lemma call_error:
  assumes "call Compute f argument = Inl e"
  shows "own_error f argument e \<or> (\<exists>x \<in> set (evaluated f argument). Compute x = Inl e)"
proof (cases f)
  case (CompareFunction c)
  then show ?thesis using checked_call_error [of f c] assms by simp
qed (use assms checked_call_error [of f "(=)"] part_call_error [of f] Div_call_error in simp_all)

lemma GetFunction_error: "GetFunction first = Inl e \<Longrightarrow> \<exists>m. e = RuntimeError m"
  by (cases first) (auto simp: GetFunction_def split: if_splits)

lemma first_part_smaller: "x \<in> set (first_part argument) \<Longrightarrow> size x < size argument"
  by (cases argument) (simp_all add: first_part_def)

lemma elements_smaller: "x \<in> set (elements argument) \<Longrightarrow> size x < size argument"
  unfolding elements_def by (cases "AsVector argument") (simp_all add: AsVector_smaller)

lemma evaluated_smaller:
  assumes "x \<in> set (evaluated f argument)"
  shows "size x < size argument"
proof (cases f)
  case ConsFunction
  then show ?thesis using assms first_part_smaller
    by (cases argument) (fastforce simp: first_part_def split: object.splits)+
qed (use assms first_part_smaller elements_smaller in simp_all)

text \<open>An exception of \<open>Compute\<close> is a runtime error, or the own error of a call that the evaluation gets to.\<close>

lemma Compute_thrown:
  assumes "Compute x = Inl e"
  shows "(\<exists>m. e = RuntimeError m) \<or>
    (\<exists>first argument f. evaluates x (Cell first argument) \<and> GetFunction first = Inr f \<and>
       call Compute f argument = Inl e \<and> own_error f argument e)"
  using assms
proof (induction x rule: measure_induct_rule [of size])
  case (less x)
  show ?case
  proof (cases x)
    case (Cell first argument)
    show ?thesis
    proof (cases "GetFunction first")
      case (Inr f)
      then have call: "call Compute f argument = Inl e" using less.prems Cell by simp
      show ?thesis
      proof (cases "own_error f argument e")
        case True
        then show ?thesis using Inr call evaluates_refl unfolding Cell by blast
      next
        case False
        then obtain y where y: "y \<in> set (evaluated f argument)" "Compute y = Inl e"
          using call_error [OF call] by blast
        have "size y < size x" using evaluated_smaller [OF y(1)] Cell by simp
        from less.IH [OF this y(2)] show ?thesis using evaluates_part [OF Inr y(1)] unfolding Cell by blast
      qed
    qed (use less.prems Cell GetFunction_error in auto)
  qed (use less.prems in \<open>auto split: if_splits\<close>)
qed

end
