(* ===== verification/SchemeProps.thy ===== *)
theory SchemeProps
  imports Exceptions
begin

text \<open>
  The properties of the reader, the printer and the evaluator of the interpreter without variables,
  over the lemmas of the theories below it.
\<close>

section \<open>Lists and logic\<close>

lemma tail_loop_list:
  assumes "0 \<le> i"
  shows "tail_loop (list_of xs) i =
     (if i \<le> int (length xs) then (list_of (drop (nat i) xs), 0) else (Null, i - int (length xs)))"
  using assms
proof (induction xs arbitrary: i)
  case (Cons x xs)
  show ?case
  proof (cases "i = 0")
    case False
    then have "nat i = Suc (nat (i - 1))" using Cons.prems by simp
    then show ?thesis using Cons False by simp
  qed simp
qed simp

lemma and_loop_prefix:
  assumes "emap ev xs = Inr vs" and "Symbol ''#f'' \<notin> set vs"
  shows "and_loop ev (xs @ ys) r = and_loop ev ys r"
  using assms by (induction xs arbitrary: vs) auto

lemma or_loop_prefix:
  assumes "emap ev xs = Inr vs" and "\<forall>v \<in> set vs. Is_Symbol v \<and> v \<noteq> Symbol ''#t''"
  shows "or_loop ev (xs @ ys) = or_loop ev ys"
  using assms by (induction xs arbitrary: vs) auto

section \<open>Properties\<close>

text \<open>C3. Reading back what \<open>Serialize\<close> printed gives the printed object and leaves the tokenizer
  after its text, for every object of 32-bit numbers and tokenizer symbols, followed by nothing, a
  space or a closing bracket.\<close>

theorem Read_of_Serialize:
  assumes "obj_all int_ok symbol_name t" and "delimited rest"
  shows "\<exists>tk. Read (Tokenizer_new (Serialize t False @ rest)) = Inr (t, tk) \<and>
    skip (tk_stream tk) = skip rest \<and> \<not> tk_got tk"
  using Read_Serialize_rest [OF assms] by (auto simp: at_text_def)

theorem Read_of_Serialize_witness:
  "\<exists>tk. Read (Tokenizer_new (Serialize (Cell (Number (-7)) (Cell (Symbol ''a'') (Number 2))) False @ '' x''))
      = Inr (Cell (Number (-7)) (Cell (Symbol ''a'') (Number 2)), tk) \<and>
      skip (tk_stream tk) = skip '' x'' \<and> \<not> tk_got tk"
  by (rule Read_of_Serialize)
    (simp_all add: int_ok_def symbol_name_def start_char_def to_char_def IsStartSymbol_def)

text \<open>Running the quoted text of a printable object prints that object.\<close>

theorem Run_quoted:
  assumes "obj_all int_ok symbol_name t"
  shows "Run (CHR 0x27 # Serialize t False) = Inr (Serialize t False)"
proof -
  obtain tk where "Read (Tokenizer_new (CHR 0x27 # Serialize t False)) =
      Inr (Cell (Symbol ''quote'') (Cell t Null), tk)"
    using Read_quoted [OF assms, of "[]"] by auto
  then show ?thesis by (simp add: Run_def GetFunction_def Quote_call_def)
qed

theorem Run_quoted_witness:
  "Run (CHR 0x27 # Serialize (Cell (Number 1) (Cell Null (Symbol ''+''))) False) =
     Inr (Serialize (Cell (Number 1) (Cell Null (Symbol ''+''))) False)"
  by (rule Run_quoted) (simp add: int_ok_def symbol_name_def)

text \<open>C14. Where an exception of \<open>Run\<close> comes from. The reader throws syntax errors and, for a number
  in the program text that is no \<open>int\<close>, \<open>std::out_of_range\<close>. Evaluation throws runtime errors; a signed
  overflow only in a call of an arithmetic operator that the evaluation gets to; and it dereferences a
  null pointer only in such a call whose argument has not the shape its operator takes for granted (a
  first or second argument that is not there, an index that is no number, a first argument of \<open>/\<close> that is
  no number, of \<open>car\<close> or \<open>cdr\<close> that is no list): every other type, count and bounds check is made. Never
  is there a \<open>NameError\<close>, the \<open>std::invalid_argument\<close> of \<open>std::stoi\<close>, or an index outside of a vector. (The README promises syntax,
  runtime and name errors only: \<open>out_of_range\<close>, overflow and null dereference are findings.)\<close>

theorem Run_exceptions:
  assumes "Run s = Inl e"
  shows "Read (Tokenizer_new s) = Inl e \<and> ((\<exists>m. e = SyntaxError m) \<or> e = OutOfRange \<and> long_number s) \<or>
    (\<exists>x tk. Read (Tokenizer_new s) = Inr (x, tk) \<and> Compute x = Inl e \<and>
       ((\<exists>m. e = RuntimeError m) \<or>
        (\<exists>first argument f. evaluates x (Cell first argument) \<and> GetFunction first = Inr f \<and>
           call Compute f argument = Inl e \<and>
           (e = SignedOverflow \<and> f \<in> arithmetic \<or> e = NullDereference \<and> \<not> shape f argument))))"
proof (cases "Read (Tokenizer_new s)")
  case (Inl e')
  then have "e' = e" using assms by (simp add: Run_def)
  then show ?thesis using within_Read(1) [of "Tokenizer_new s"] Inl by (simp add: within_def Tokenizer_new_def)
next
  case (Inr p)
  obtain x tk where p: "p = (x, tk)" by (cases p)
  then have "Compute x = Inl e" using assms Inr by (auto simp: Run_def ebind_Inl_iff)
  then show ?thesis using Compute_thrown [of x e] Inr p unfolding own_error_def by blast
qed

theorem Run_exceptions_witness:
  "\<exists>x tk. Read (Tokenizer_new ''(cons (- 1) (car 5))'') = Inr (x, tk) \<and>
     (\<exists>first argument f. evaluates x (Cell first argument) \<and> GetFunction first = Inr f \<and> \<not> shape f argument)"
proof -
  have "Run ''(cons (- 1) (car 5))'' = Inl NullDereference" by code_simp
  from Run_exceptions [OF this] show ?thesis by auto
qed

text \<open>The three exceptions that the README does not allow do occur.\<close>

lemma Run_breaks_promise:
  "Run ''(quote)'' = Inl NullDereference" and "Run ''(/ #t 1)'' = Inl NullDereference"
  "Run ''99999999999'' = Inl OutOfRange"
  "Run ''(* 2147483647 2147483647 2147483647)'' = Inl SignedOverflow"
  by code_simp+

text \<open>Evaluation invents nothing: the numbers of a value are \<open>long long\<close>s and its symbols are
  symbols of the program or one of \<open>#t\<close> and \<open>#f\<close>.\<close>

theorem Compute_values:
  assumes "obj_all ll_ok (\<lambda>n. n \<in> names) x" and "{''#t'', ''#f''} \<subseteq> names" and "Compute x = Inr y"
  shows "obj_all ll_ok (\<lambda>n. n \<in> names) y"
  using Compute_obj_all [OF _ _ _ assms(1,3)] assms(2) by simp

theorem Compute_values_witness:
  "obj_all ll_ok (\<lambda>n. n \<in> {''#t'', ''#f'', ''cons'', ''<''})
     (Cell (Symbol ''#t'') (Number 2))"
proof (rule Compute_values)
  show "Compute (list_of [Symbol ''cons'', list_of [Symbol ''<'', Number 1, Number 2], Number 2]) =
    Inr (Cell (Symbol ''#t'') (Number 2))" by code_simp
qed (simp_all add: ll_ok_def)

text \<open>C38. On arguments that evaluate to numbers \<open>+\<close> and \<open>*\<close> return the sum and the product, and throw
  exactly when a partial result leaves the range of \<open>long long\<close>.\<close>

theorem Add_Mul_numbers:
  assumes "emap ev args = Inr (map Number vs)"
  shows "call ev AddFunction (list_of args) =
      (if \<forall>i < length vs. ll_ok (sum_list (take (Suc i) vs)) then Inr (Number (sum_list vs))
       else Inl SignedOverflow) \<and>
    call ev MulFunction (list_of args) =
      (if \<forall>i < length vs. ll_ok (prod_list (take (Suc i) vs)) then Inr (Number (prod_list vs))
       else Inl SignedOverflow)"
  using Add_numbers [OF assms] Mul_numbers [OF assms] by simp

theorem Add_Mul_numbers_witness:
  "call Compute AddFunction (list_of [Number 3, Number 4]) = Inr (Number 7) \<and>
   call Compute MulFunction (list_of [Number 3, Number (2 ^ 62)]) = Inl SignedOverflow"
  using Add_Mul_numbers [of Compute "[Number 3, Number 4]" "[3, 4]"]
    Add_Mul_numbers [of Compute "[Number 3, Number (2 ^ 62)]" "[3, 2 ^ 62]"]
  by (simp add: All_less_Suc2 ll_ok_def)

text \<open>\<open>-\<close> subtracts the other arguments from the first although the code accumulates the negated
  sum and adds twice the first argument, as long as the intermediate values are \<open>long long\<close>s; \<open>/\<close>
  divides the first argument by the product of the others, truncating towards zero.\<close>

theorem Sub_Div_numbers:
  assumes "emap ev args = Inr (map Number (v # vs))"
  shows "((\<forall>i \<le> length vs. ll_ok (- v - sum_list (take i vs))) \<and> ll_ok (2 * v) \<and> ll_ok (v - sum_list vs)
      \<longrightarrow> call ev SubFunction (list_of args) = Inr (Number (v - sum_list vs))) \<and>
    (0 \<notin> set vs \<and> - (2 ^ 63) < v \<and> v < 2 ^ 63
      \<longrightarrow> call ev DivFunction (list_of args) = Inr (Number (v sdiv prod_list vs)))"
  using Sub_numbers [OF assms] Div_numbers [OF assms] by simp

theorem Sub_Div_numbers_witness:
  "call Compute SubFunction (list_of [Number (- 9), Number 2, Number 2]) = Inr (Number (- 13)) \<and>
   call Compute DivFunction (list_of [Number (- 9), Number 2, Number 2]) = Inr (Number (- 2))"
  using Sub_Div_numbers [of Compute "[Number (- 9), Number 2, Number 2]" "- 9" "[2, 2]"]
  by (simp add: ll_ok_def le_Suc_eq all_conj_distrib signed_divide_int_def)

text \<open>A comparison of numbers holds when it holds between neighbours: \<open><\<close> says strictly sorted.
  \<open>max\<close> and \<open>min\<close> are the greatest and the least value.\<close>

theorem Compare_extremum_numbers:
  assumes "emap ev args = Inr (map Number vs)"
  shows "call ev (CompareFunction (\<lambda>a b. a < b)) (list_of args) = Inr (ToBoolean (sorted_wrt (<) vs)) \<and>
    call ev (CompareFunction (\<lambda>a b. a \<le> b)) (list_of args) = Inr (ToBoolean (sorted vs)) \<and>
    (vs \<noteq> [] \<longrightarrow> call ev MaxFunction (list_of args) = Inr (Number (Max (set vs))) \<and>
       call ev MinFunction (list_of args) = Inr (Number (Min (set vs))))"
proof -
  have "successively (<) vs = sorted_wrt (<) vs" and "successively (\<le>) vs = sorted vs"
    by (rule successively_conv_sorted_wrt, simp add: transp_def)+
  moreover have "vs \<noteq> [] \<longrightarrow> call ev MaxFunction (list_of args) = Inr (Number (Max (set vs))) \<and>
      call ev MinFunction (list_of args) = Inr (Number (Min (set vs)))"
    using Max_numbers [of ev args "hd vs" "tl vs"] assms by (cases vs) auto
  ultimately show ?thesis using Compare_numbers [OF assms] by simp
qed

theorem Compare_extremum_numbers_witness:
  "call Compute (CompareFunction (\<lambda>a b. a < b)) (list_of [Number 1, Number 5, Number 5]) =
     Inr (Symbol ''#f'') \<and>
   call Compute MaxFunction (list_of [Number 1, Number 5, Number 5]) = Inr (Number 5)"
  using Compare_extremum_numbers [of Compute "[Number 1, Number 5, Number 5]" "[1, 5, 5]"]
  by (simp add: ToBoolean_def)

text \<open>On an expression that evaluates to a proper list, \<open>list-ref\<close> returns the element at the
  index and \<open>list-tail\<close> the list without its first elements; an index out of range is a runtime
  error, one past the end still being an index for \<open>list-tail\<close>.\<close>

lemma list_index:
  assumes "ev l = Inr (list_of xs)"
  shows "call ev ListRefFunction (list_of [l, Number i]) =
      (if 0 \<le> i \<and> i < int (length xs) then Inr (xs ! nat i)
       else Inl (RuntimeError ''Incorrect index in list-ref'')) \<and>
    call ev ListTailFunction (list_of [l, Number i]) =
      (if 0 \<le> i \<and> i \<le> int (length xs) then Inr (list_of (drop (nat i) xs))
       else Inl (RuntimeError ''Incorrect index in list-tail''))"
  using assms by (auto simp: ListRef_call_def vector_at_def ListTail_call_def tail_loop_list)

lemma list_index_example:
  "call Compute ListRefFunction (list_of [list_of [Symbol ''quote'', list_of [Number 7, Number 8]], Number 1]) =
     Inr (Number 8) \<and>
   call Compute ListTailFunction (list_of [list_of [Symbol ''quote'', list_of [Number 7, Number 8]], Number 3]) =
     Inl (RuntimeError ''Incorrect index in list-tail'')"
proof -
  have "Compute (list_of [Symbol ''quote'', list_of [Number 7, Number 8]]) = Inr (list_of [Number 7, Number 8])"
    by (simp add: GetFunction_def Quote_call_def)
  from list_index [of Compute, OF this, of 1] list_index [of Compute, OF this, of 3]
  show ?thesis by (simp del: call.simps)
qed

text \<open>\<open>and\<close> stops at the first \<open>#f\<close>, \<open>or\<close> at the first value that is not a symbol or is \<open>#t\<close>:
  what follows is not evaluated. Without such an argument \<open>and\<close> returns its last value.\<close>

theorem short_circuit:
  assumes "emap ev xs = Inr vs"
  shows "(Symbol ''#f'' \<notin> set vs \<and> ev f = Inr (Symbol ''#f'')
      \<longrightarrow> call ev AndFunction (list_of (xs @ f # ys)) = Inr (Symbol ''#f'')) \<and>
    (Symbol ''#f'' \<notin> set vs \<and> xs \<noteq> [] \<longrightarrow> call ev AndFunction (list_of xs) = Inr (last vs)) \<and>
    ((\<forall>v \<in> set vs. Is_Symbol v \<and> v \<noteq> Symbol ''#t'') \<and> ev f = Inr w \<and> (Is_Symbol w \<longrightarrow> w = Symbol ''#t'')
      \<longrightarrow> call ev OrFunction (list_of (xs @ f # ys)) = Inr w)"
proof -
  have last: "ev (last xs) = Inr (last vs)" if "xs \<noteq> []"
    using emap_nth [OF assms, of "length xs - 1"] emap_length [OF assms] that
    by (cases "vs = []") (simp_all add: last_conv_nth)
  show ?thesis
    using and_loop_prefix [OF assms] or_loop_prefix [OF assms] last
      and_loop_prefix [OF assms, of "[]"]
    by (auto simp: And_call_def Or_call_def ToBoolean_def)
qed

theorem short_circuit_witness:
  "call Compute AndFunction (list_of ([Number 1] @ Symbol ''#f'' # [Null])) = Inr (Symbol ''#f'') \<and>
   call Compute OrFunction (list_of ([Symbol ''#f''] @ Number 2 # [Null])) = Inr (Number 2)"
  using short_circuit [of Compute "[Number 1]" "[Number 1]" "Symbol ''#f''" "[Null]"]
    short_circuit [of Compute "[Symbol ''#f'']" "[Symbol ''#f'']" "Number 2" "[Null]"]
  by (simp del: call.simps)

end
