(* ===== verification/HeapSpec.thy ===== *)
theory HeapSpec
  imports HeapProps SchemeProps
begin

text \<open>
  What the interpreter with variables computes: fuel is only a bound (a run that returns returns the
  same with more of it), lists and printing of the store refine the trees of \<open>Parser\<close> and
  \<open>Basic\<close>, and a call of a lambda runs its body with the parameters bound to the arguments.
\<close>

section \<open>Fuel\<close>

definition approx :: "'a action \<Rightarrow> 'a action \<Rightarrow> bool" where
  "approx m m' \<longleftrightarrow> (\<forall>s r. m s = Some r \<longrightarrow> m' s = Some r)"

named_theorems approx_intros "rules for the approximation of actions"

lemma approx_refl [approx_intros, simp]: "approx m m"
  by (simp add: approx_def)

lemma approx_sdiverge [simp]: "approx sdiverge m"
  by (simp add: approx_def sdiverge_def)

lemma approx_bind [approx_intros]:
  "approx m m' \<Longrightarrow> (\<And>x. approx (f x) (f' x)) \<Longrightarrow> approx (sbind m f) (sbind m' f')"
  by (auto simp: approx_def sbind_def split: option.splits sum.splits prod.splits)

lemma approx_if [approx_intros]:
  "approx m m' \<Longrightarrow> approx k k' \<Longrightarrow> approx (if b then m else k) (if b then m' else k')"
  by simp

lemma approx_sfold [approx_intros]:
  "(\<And>a x. approx (f a x) (f' a x)) \<Longrightarrow> approx (sfold f acc xs) (sfold f' acc xs)"
  by (induction xs arbitrary: acc) (auto intro!: approx_intros)

lemma approx_smap [approx_intros]:
  "(\<And>x. approx (f x) (f' x)) \<Longrightarrow> approx (smap f xs) (smap f' xs)"
  by (induction xs) (auto intro!: approx_intros)

locale approx_evaluator =
  fixes ev ev' :: hevaluator
  assumes ev: "approx (ev v) (ev' v)"
begin

lemma approx_hnumber: "approx (hnumber ev m x) (hnumber ev' m x)"
  unfolding hnumber_def by (intro approx_intros ev)

lemma approx_loops:
  "approx (hcompare_loop ev c args) (hcompare_loop ev' c args)"
  "approx (hor_loop ev args) (hor_loop ev' args)"
  "approx after after' \<Longrightarrow> approx (hand_loop ev args after) (hand_loop ev' args after')"
proof -
  show "approx (hcompare_loop ev c args) (hcompare_loop ev' c args)"
    by (induction args rule: induct_list012) (auto intro!: approx_intros ev)
  show "approx (hor_loop ev args) (hor_loop ev' args)"
    by (induction args) (auto intro!: approx_intros ev)
  show "approx after after' \<Longrightarrow> approx (hand_loop ev args after) (hand_loop ev' args after')"
    by (induction args) (auto intro!: approx_intros ev)
qed

lemmas rules = approx_intros ev approx_hnumber approx_loops

lemma approx_HIsList: "approx (HIsList ev argument) (HIsList ev' argument)"
  unfolding HIsList_def by (intro rules)

lemma approx_integer:
  "approx (HCompare ev c argument) (HCompare ev' c argument)"
  "approx (HIsNumber ev argument) (HIsNumber ev' argument)"
  "approx (HDirectArithmetic ev f i argument) (HDirectArithmetic ev' f i argument)"
  "approx (HReverseArithmetic ev f i argument) (HReverseArithmetic ev' f i argument)"
  "approx (HExtremum ev g argument) (HExtremum ev' g argument)"
  "approx (HAbs ev argument) (HAbs ev' argument)"
  unfolding HCompare_def HIsNumber_def HDirectArithmetic_def HReverseArithmetic_def HExtremum_def HAbs_def
  by (intro rules)+

lemma approx_boolean:
  "approx (HIsBoolean ev argument) (HIsBoolean ev' argument)"
  "approx (HNot ev argument) (HNot ev' argument)"
  "approx (HAnd ev argument) (HAnd ev' argument)"
  "approx (HOr ev argument) (HOr ev' argument)"
  unfolding HIsBoolean_def HNot_def HAnd_def HOr_def
  by (intro rules)+

lemma approx_list:
  "approx (HIsPair ev argument) (HIsPair ev' argument)"
  "approx (HIsNull ev argument) (HIsNull ev' argument)"
  "approx (HCons ev argument) (HCons ev' argument)"
  "approx (HCar ev argument) (HCar ev' argument)"
  "approx (HCdr ev argument) (HCdr ev' argument)"
  "approx (HListRef ev argument) (HListRef ev' argument)"
  "approx (HListTail ev argument) (HListTail ev' argument)"
  unfolding HIsPair_def HIsNull_def HCons_def HCar_def HCdr_def HListRef_def HListTail_def
  by (intro rules)+

lemma approx_advanced:
  "approx (HIf ev argument) (HIf ev' argument)"
  "approx (HIsSymbol ev argument) (HIsSymbol ev' argument)"
  "approx (HDefine ev argument) (HDefine ev' argument)"
  "approx (HSet ev argument) (HSet ev' argument)"
  "approx (HSetCar ev argument) (HSetCar ev' argument)"
  "approx (HSetCdr ev argument) (HSetCdr ev' argument)"
  "approx (LambdaRun_call ev l argument) (LambdaRun_call ev' l argument)"
  unfolding HIf_def HIsSymbol_def HDefine_def HSet_def HSetCar_def HSetCdr_def LambdaRun_call_def
  by (intro rules)+

lemma approx_hcall: "approx (hcall ev f argument) (hcall ev' f argument)"
proof -
  have "approx (builtin_call ev b argument) (builtin_call ev' b argument)" for b
    by (cases b) (simp_all only: builtin_call.simps approx_integer approx_boolean approx_list
        approx_advanced approx_HIsList approx_refl)
  then show ?thesis by (cases f) (simp_all add: approx_advanced)
qed

end

lemma HCompute_approx: "approx (HCompute n v) (HCompute (n + k) v)"
proof (induction n arbitrary: v)
  case (Suc n)
  have ev: "approx_evaluator (HCompute n) (HCompute (n + k))" by unfold_locales (rule Suc.IH)
  show ?case
    by (cases v) (auto intro!: approx_intros Suc.IH approx_evaluator.approx_hcall [OF ev])
qed simp

interpretation fuel: approx_evaluator "HCompute n" "HCompute (n + k)" for n k
  by unfold_locales (rule HCompute_approx)

lemma HCompute_more: "HCompute n v s = Some r \<Longrightarrow> n \<le> m \<Longrightarrow> HCompute m v s = Some r"
  using HCompute_approx [of n v "m - n"] unfolding approx_def by (metis le_add_diff_inverse)

section \<open>The store refines trees\<close>

text \<open>A value of the store stands for a tree: the structure below it is that of the tree.\<close>

inductive denotes :: "(val \<times> val) list \<Rightarrow> val \<Rightarrow> object \<Rightarrow> bool" for cs where
  denotes_Null: "denotes cs VNull Null"
| denotes_Number: "denotes cs (VNumber v) (Number v)"
| denotes_Symbol: "denotes cs (VSymbol n) (Symbol n)"
| denotes_Cell: "a < length cs \<Longrightarrow> denotes cs (fst (cs ! a)) x \<Longrightarrow> denotes cs (snd (cs ! a)) y \<Longrightarrow>
    denotes cs (VCell a) (Cell x y)"

inductive_simps denotes_simps [simp]: "denotes cs VNull x" "denotes cs (VNumber v) x"
  "denotes cs (VSymbol n) x" "denotes cs (VLambda l) x" "denotes cs (VFunction f) x"
inductive_cases denotes_CellE: "denotes cs (VCell a) x"

lemma denotes_unique: "denotes cs v x \<Longrightarrow> denotes cs v y \<Longrightarrow> x = y"
proof (induction arbitrary: y rule: denotes.induct)
  case (denotes_Cell a x1 x2)
  from denotes_Cell.prems obtain y1 y2 where "y = Cell y1 y2" "denotes cs (fst (cs ! a)) y1"
    "denotes cs (snd (cs ! a)) y2"
    by (rule denotes_CellE)
  then show ?case using denotes_Cell.IH by blast
qed simp_all

text \<open>The longest path of cells below a value passes through different cells.\<close>

fun depth :: "object \<Rightarrow> nat" where
  "depth (Cell x y) = Suc (max (depth x) (depth y))"
| "depth _ = 0"

lemma denotes_path:
  assumes "denotes cs v x"
  shows "\<exists>A \<subseteq> {..<length cs}. card A = depth x \<and> (\<forall>a \<in> A. \<exists>y. denotes cs (VCell a) y \<and> size y \<le> size x)"
  using assms
proof (induction rule: denotes.induct)
  case (denotes_Cell a x y)
  define z where "z = (if depth x \<le> depth y then y else x)"
  have z: "depth (Cell x y) = Suc (depth z)" "size z < size (Cell x y)" by (auto simp: z_def)
  obtain A where A: "A \<subseteq> {..<length cs}" "card A = depth z"
    "\<forall>a \<in> A. \<exists>y. denotes cs (VCell a) y \<and> size y \<le> size z"
    using denotes_Cell.IH by (cases "depth x \<le> depth y") (simp_all add: z_def, blast+)
  have d: "denotes cs (VCell a) (Cell x y)"
    using denotes_Cell.hyps by (rule denotes.denotes_Cell)
  have "a \<notin> A" using A(3) denotes_unique [OF d] z(2) by fastforce
  moreover have "finite A" using A(1) finite_subset by blast
  ultimately have "card (insert a A) = depth (Cell x y)" using A(2) z(1) by simp
  moreover have "insert a A \<subseteq> {..<length cs}" using A(1) denotes_Cell.hyps(1) by simp
  moreover have "\<forall>b \<in> insert a A. \<exists>w. denotes cs (VCell b) w \<and> size w \<le> size (Cell x y)"
    using A(3) z(2) d by fastforce
  ultimately show ?case by blast
qed auto

lemma denotes_depth: "denotes cs v x \<Longrightarrow> depth x \<le> length cs"
  using denotes_path [of cs v x] card_mono [of "{..<length cs}"] by fastforce

lemma IsV_denotes:
  assumes "denotes cs v x"
  shows "IsV_Cell v = Is_Cell x" and "IsV_Null v \<longleftrightarrow> x = Null"
  using assms by (auto elim: denotes.cases)

lemma serialize_denotes:
  "denotes cs v x \<Longrightarrow> depth x < n \<Longrightarrow> serialize n cs v ongoing = Some (Serialize x ongoing)"
proof (induction arbitrary: n ongoing rule: denotes.induct)
  case (denotes_Cell a x y)
  obtain k where n: "n = Suc k" using denotes_Cell.prems by (cases n) auto
  have k: "depth x < k" "depth y < k" using denotes_Cell.prems n by auto
  show ?case
    using denotes_Cell.IH(1) [OF k(1)] denotes_Cell.IH(2) [OF k(2)] IsV_denotes [OF denotes_Cell.hyps(3)]
    by (cases "cs ! a") (auto simp: n Let_def)
qed (auto simp: less_Suc_eq_0_disj gr0_conv_Suc)

lemma as_vector_denotes:
  "denotes cs v x \<Longrightarrow> depth x < n \<Longrightarrow>
     (case AsVector x of
        Inl e \<Rightarrow> as_vector n cs v = Some (Inl e)
      | Inr xs \<Rightarrow> \<exists>vs. as_vector n cs v = Some (Inr vs) \<and> list_all2 (denotes cs) vs xs)"
proof (induction arbitrary: n rule: denotes.induct)
  case (denotes_Cell a x y)
  obtain k where n: "n = Suc k" using denotes_Cell.prems by (cases n) auto
  have "depth y < k" using denotes_Cell.prems n by auto
  from denotes_Cell.IH(2) [OF this] denotes_Cell.hyps(2) show ?case
    by (auto simp: n split: sum.splits)
qed (auto simp: less_Suc_eq_0_disj gr0_conv_Suc)

text \<open>\<open>AsVector\<close> and \<open>Serialize\<close> return on every value that stands for a tree, with the result of the
  tree functions.\<close>

lemma HAsVector_denotes:
  assumes "denotes (cells s) v x"
  shows "(case AsVector x of
        Inl e \<Rightarrow> HAsVector v s = Some (Inl e, s)
      | Inr xs \<Rightarrow> \<exists>vs. HAsVector v s = Some (Inr vs, s) \<and> list_all2 (denotes (cells s)) vs xs)"
  using as_vector_denotes [OF assms, of "Suc (length (cells s))"] denotes_depth [OF assms]
  by (auto simp: HAsVector_def split: sum.splits)

lemma HSerialize_denotes:
  assumes "denotes (cells s) v x"
  shows "HSerialize v s = Some (Inr (Serialize x False), s)"
  using serialize_denotes [OF assms] denotes_depth [OF assms] by (simp add: HSerialize_def)

lemma denotes_append: "denotes cs v x \<Longrightarrow> denotes (cs @ ds) v x"
  by (induction rule: denotes.induct) (auto intro: denotes.intros simp: nth_append)

lemma load_denotes:
  "\<exists>v cs. load x s = Some (Inr v, s\<lparr>cells := cells s @ cs\<rparr>) \<and> denotes (cells s @ cs) v x"
proof (induction x arbitrary: s)
  case (Cell x y)
  obtain v cs where 1: "load x s = Some (Inr v, s\<lparr>cells := cells s @ cs\<rparr>)" "denotes (cells s @ cs) v x"
    using Cell.IH(1) by blast
  obtain w ds where 2: "load y (s\<lparr>cells := cells s @ cs\<rparr>) = Some (Inr w, s\<lparr>cells := (cells s @ cs) @ ds\<rparr>)"
    "denotes ((cells s @ cs) @ ds) w y"
    using Cell.IH(2) [of "s\<lparr>cells := cells s @ cs\<rparr>"] by auto
  let ?cs = "((cells s @ cs) @ ds) @ [(v, w)]"
  have "load (Cell x y) s = Some (Inr (VCell (length ((cells s @ cs) @ ds))), s\<lparr>cells := ?cs\<rparr>)"
    using 1(1) 2(1) by (simp add: sbind_def make_Cell_def sget_def smodify_def sret_def)
  moreover have "denotes ?cs (VCell (length ((cells s @ cs) @ ds))) (Cell x y)"
    using denotes_append [OF 2(2), of "[(v, w)]"] denotes_append [OF denotes_append [OF 1(2)], of ds "[(v, w)]"]
    by (intro denotes.denotes_Cell) (simp_all add: nth_append)
  ultimately show ?case by (metis append.assoc)
qed (auto simp: sret_def intro!: exI [of _ "[]"])

end
