(* ===== verification/AdvancedProps.thy ===== *)
theory AdvancedProps
  imports HeapSpec
begin

text \<open>
  Calls of lambdas, arithmetic with and without variables, and the properties of the interpreter
  with variables.
\<close>

section \<open>Calls\<close>

lemma fold_define_other:
  assumes "mem_ok m" and "n \<notin> set ns"
  shows "GetVariable n (fold (\<lambda>(n, v). DefineVariable n v) (zip ns vs) m) = GetVariable n m \<and>
    mem_ok (fold (\<lambda>(n, v). DefineVariable n v) (zip ns vs) m)"
  using assms
proof (induction ns arbitrary: vs m)
  case (Cons k ns)
  show ?case
  proof (cases vs)
    case (Cons v vs')
    have "mem_ok (DefineVariable k v m)" using Cons.prems(1) by (rule mem_ok_DefineVariable)
    from Cons.IH [OF this] Cons.prems lookup_define(2) [OF Cons.prems(1), of n k v] show ?thesis
      by (simp add: Cons)
  qed (use Cons.prems in simp)
qed simp

lemma fold_define_params:
  assumes "mem_ok m" and "distinct ns" and "length vs = length ns" and "i < length ns"
  shows "GetVariable (ns ! i) (fold (\<lambda>(n, v). DefineVariable n v) (zip ns vs) m) = Inr (vs ! i)"
  using assms
proof (induction ns arbitrary: vs m i)
  case (Cons k ns)
  then obtain v vs' where vs: "vs = v # vs'" by (cases vs) auto
  have ok: "mem_ok (DefineVariable k v m)" using Cons.prems(1) by (rule mem_ok_DefineVariable)
  show ?case
  proof (cases i)
    case 0
    then show ?thesis using fold_define_other [OF ok, of k ns vs'] Cons.prems lookup_define(1) [OF Cons.prems(1)]
      by (simp add: vs)
  next
    case (Suc j)
    then show ?thesis using Cons.IH [OF ok, of vs' j] Cons.prems by (simp add: vs)
  qed
qed simp

lemma bind_params_eq:
  "bind_params (map VSymbol ns) vs s =
     Some (Inr (), s\<lparr>mem := fold (\<lambda>(n, v). DefineVariable n v) (zip ns vs) (mem s)\<rparr>)"
proof -
  have "sfold (\<lambda>_ (p, v). sbind (HGetName p) (\<lambda>name. smem (DefineVariable name v))) () (zip (map VSymbol ns) vs) s =
     Some (Inr (), s\<lparr>mem := fold (\<lambda>(n, v). DefineVariable n v) (zip ns vs) (mem s)\<rparr>)"
  proof (induction ns arbitrary: vs s)
    case (Cons n ns)
    then show ?case
      by (cases vs) (auto simp: sbind_def sret_def smem_def smodify_def)
  qed (simp add: sret_def)
  then show ?thesis by (simp add: bind_params_def)
qed

text \<open>The state in which the body of a lambda starts.\<close>

definition body_state :: "nat \<Rightarrow> string list \<Rightarrow> val list \<Rightarrow> interp \<Rightarrow> interp" where
  "body_state l ns vs s = (call_state l s)\<lparr>mem := fold (\<lambda>(n, v). DefineVariable n v) (zip ns vs) (mem (call_state l s))\<rparr>"

lemma LambdaRun_call_unfold:
  assumes "HAsVector argument s = Some (Inr args, s)" and "lambda_params (lambdas s ! l) = map VSymbol ns"
    and "length args = length ns" and "smap ev args s = Some (Inr vs, s1)"
  shows "LambdaRun_call ev l argument s =
    (case sfold (\<lambda>_ i. ev i) VNull (lambda_instructions (lambdas s ! l)) (body_state l ns vs s1) of
       None \<Rightarrow> None
     | Some (Inl e, s2) \<Rightarrow> Some (Inl e, s2)
     | Some (Inr x, s2) \<Rightarrow> Some (Inr x, s2\<lparr>mem := Pop (mem s2)\<rparr>))"
  using assms
  by (auto simp: LambdaRun_call_def sbind_def sget_def smem_def smodify_def sret_def bind_params_eq
      body_state_def call_state_def split: option.splits sum.splits)

section \<open>Arithmetic, with and without variables\<close>

text \<open>Expressions of numbers and of calls, of any number of arguments and with argument lists of any
  shape, of the operators \<open>ops\<close>.\<close>

inductive arith :: "string set \<Rightarrow> object \<Rightarrow> bool" for ops where
  arith_Number: "arith ops (Number v)"
| arith_call: "op \<in> ops \<Longrightarrow> (\<And>x. x \<in> set (elements argument) \<Longrightarrow> arith ops x) \<Longrightarrow>
    arith ops (Cell (Symbol op) argument)"

text \<open>
  The two interpreters return the same number or throw the same kind of exception, with texts of their
  own. Where \<open>-\<close> occurs, either may overflow on the way to a result that the other returns: one
  adds twice the first argument to the negated sum, the other subtracts from the first argument.
\<close>

definition agree :: "bool \<Rightarrow> ('a \<Rightarrow> 'b \<Rightarrow> bool) \<Rightarrow> scheme_error + 'a \<Rightarrow> scheme_error + 'b \<Rightarrow> bool" where
  "agree sub P r r' \<longleftrightarrow> sub \<and> (r = Inl SignedOverflow \<or> r' = Inl SignedOverflow) \<or>
     (case (r, r') of
        (Inr x, Inr y) \<Rightarrow> P x y
      | (Inl (RuntimeError m), Inl (RuntimeError m')) \<Rightarrow> True
      | (Inl e, Inl e') \<Rightarrow> e = SignedOverflow \<and> e' = SignedOverflow
      | _ \<Rightarrow> False)"

fun same_number :: "object \<Rightarrow> val \<Rightarrow> bool" where
  "same_number (Number k) (VNumber l) \<longleftrightarrow> k = l"
| "same_number _ _ \<longleftrightarrow> False"

lemma agree_simps [simp]:
  "agree sub P (Inl (RuntimeError m)) (Inl (RuntimeError m'))" "agree sub P (Inl SignedOverflow) (Inl SignedOverflow)"
  "P x y \<Longrightarrow> agree sub P (Inr x) (Inr y)" "sub \<Longrightarrow> agree sub P (Inl SignedOverflow) r'"
  "sub \<Longrightarrow> agree sub P r (Inl SignedOverflow)"
  by (simp_all add: agree_def)

lemma agree_cases:
  assumes "agree sub P r r'"
  obtains "sub" "r = Inl SignedOverflow" | "sub" "r' = Inl SignedOverflow"
  | m m' where "r = Inl (RuntimeError m)" "r' = Inl (RuntimeError m')"
  | "r = Inl SignedOverflow" "r' = Inl SignedOverflow" | x y where "r = Inr x" "r' = Inr y" "P x y"
  using assms by (auto simp: agree_def split: sum.splits scheme_error.splits)

lemma agree_RuntimeError: "agree False P (Inl (RuntimeError m)) r \<Longrightarrow> \<exists>m'. r = Inl (RuntimeError m')"
  by (auto simp: agree_def split: sum.splits scheme_error.splits)

text \<open>Actions that leave the state alone, and those that agree with a result.\<close>

definition still :: "interp \<Rightarrow> 'a action \<Rightarrow> bool" where
  "still s m \<longleftrightarrow> (\<exists>r. m s = Some (r, s))"

definition agrees :: "bool \<Rightarrow> ('a \<Rightarrow> 'b \<Rightarrow> bool) \<Rightarrow> interp \<Rightarrow> scheme_error + 'a \<Rightarrow> 'b action \<Rightarrow> bool" where
  "agrees sub P s r m \<longleftrightarrow> (\<exists>r'. m s = Some (r', s) \<and> agree sub P r r')"

lemma agrees_still: "agrees sub P s r m \<Longrightarrow> still s m"
  by (auto simp: agrees_def still_def)

lemma still_simps [simp]:
  "still s (sret x)" "still s (sthrow e)" "still s (slift r)"
  by (simp_all add: still_def sret_def sthrow_def slift_def)

lemma still_GetValue [simp]: "still s (HGetValue v)"
  by (cases v) simp_all

lemma still_bind: "still s m \<Longrightarrow> (\<And>x. still s (f x)) \<Longrightarrow> still s (sbind m f)"
  unfolding still_def sbind_def by (auto split: sum.splits)

lemma still_sfold: "(\<And>a v. v \<in> set vs \<Longrightarrow> still s (f a v)) \<Longrightarrow> still s (sfold f acc vs)"
  by (induction vs arbitrary: acc) (auto intro: still_bind)

lemma still_smap: "(\<And>v. v \<in> set vs \<Longrightarrow> still s (f v)) \<Longrightarrow> still s (smap f vs)"
  by (induction vs) (auto intro!: still_bind)

lemma agrees_sret: "P x y \<Longrightarrow> agrees sub P s (Inr x) (sret y)"
  and agrees_throw: "agrees sub P s (Inl (RuntimeError m)) (sthrow (RuntimeError m'))"
  by (simp_all add: agrees_def sret_def sthrow_def)

lemma agrees_check: "agrees sub (=) s (ll_check v) (slift (ll_check v))"
  by (simp add: agrees_def slift_def ll_check_def)

lemma agrees_overflow: "sub \<Longrightarrow> still s m \<Longrightarrow> agrees sub P s (Inl SignedOverflow) m"
  by (auto simp: agrees_def still_def)

lemma agrees_bind:
  assumes "agrees sub P s r m" and "\<And>y. still s (g y)"
    and "\<And>x y. r = Inr x \<Longrightarrow> m s = Some (Inr y, s) \<Longrightarrow> P x y \<Longrightarrow> agrees sub Q s (f x) (g y)"
  shows "agrees sub Q s (ebind r f) (sbind m g)"
proof -
  obtain r' where m: "m s = Some (r', s)" and a: "agree sub P r r'" using assms(1) by (auto simp: agrees_def)
  show ?thesis
    using a
  proof (cases rule: agree_cases)
    case 1
    have "still s (sbind m g)" using still_bind [OF agrees_still [OF assms(1)] assms(2)] .
    then show ?thesis using 1 by (simp add: agrees_overflow)
  qed (use m assms(3) in \<open>auto simp: agrees_def sbind_def\<close>)
qed

lemma agrees_map:
  assumes "agrees sub P s r m" and "\<And>x y. P x y \<Longrightarrow> Q x (h y)"
  shows "agrees sub Q s r (sbind m (\<lambda>y. sret (h y)))"
  using agrees_bind [OF assms(1), of "\<lambda>y. sret (h y)" Q Inr] assms(2) by (simp add: agrees_sret)

lemma agrees_fold:
  assumes "list_all2 D vs xs" and "P a b"
    and "\<And>a b v x. D v x \<Longrightarrow> P a b \<Longrightarrow> agrees sub P s (f a x) (g b v)"
    and "\<And>b v. v \<in> set vs \<Longrightarrow> still s (g b v)"
  shows "agrees sub P s (efold f a xs) (sfold g b vs)"
  using assms(1,2,4)
proof (induction arbitrary: a b rule: list_all2_induct)
  case (Cons v vs x xs)
  show ?case
    by simp (rule agrees_bind [OF assms(3)], use Cons in \<open>auto intro: still_sfold\<close>)
qed (simp add: agrees_sret)


text \<open>Arguments whose values agree, and the loops over them.\<close>

definition arg_agrees :: "bool \<Rightarrow> interp \<Rightarrow> hevaluator \<Rightarrow> val \<Rightarrow> object \<Rightarrow> bool" where
  "arg_agrees sub s ev v x \<longleftrightarrow> agrees sub same_number s (Compute x) (ev v)"

lemma same_number_iff: "same_number x y \<longleftrightarrow> (\<exists>k. x = Number k \<and> y = VNumber k)"
  by (cases "(x, y)" rule: same_number.cases) auto

lemma number_agrees:
  assumes "arg_agrees sub s ev v x"
  shows "agrees sub (=) s (number_arg Compute m x) (hnumber ev m' v)"
  unfolding number_arg_def hnumber_def
  by (rule agrees_bind [OF assms [unfolded arg_agrees_def]])
    (auto simp: same_number_iff intro: agrees_sret)

lemma number_agrees_twice:
  assumes "arg_agrees sub s ev v x"
    and "\<And>k. Compute x = Inr (Number k) \<Longrightarrow> ev v s = Some (Inr (VNumber k), s) \<Longrightarrow> agrees sub Q s (f (Number k)) (g (VNumber k))"
    and "\<And>y. still s (g y)"
  shows "agrees sub Q s (ebind (Compute x) f) (sbind (ev v) g)"
  by (rule agrees_bind [OF assms(1) [unfolded arg_agrees_def]])
    (use assms(2,3) in \<open>auto simp: same_number_iff\<close>)

lemma first_number_agrees:
  assumes "arg_agrees sub s ev v x" and "\<And>y. still s (g y)"
    and "\<And>k. Compute x = Inr (Number k) \<Longrightarrow> agrees sub Q s (f k) (g k)"
  shows "agrees sub Q s (ebind (Compute x) (\<lambda>x. ebind (GetValue x) f)) (sbind (hnumber ev m v) g)"
proof -
  have "agrees sub (=) s (ebind (Compute x) GetValue) (hnumber ev m v)"
    unfolding hnumber_def
    by (rule agrees_bind [OF assms(1) [unfolded arg_agrees_def]])
      (auto simp: same_number_iff intro: agrees_sret)
  then have "agrees sub Q s (ebind (ebind (Compute x) GetValue) f) (sbind (hnumber ev m v) g)"
    by (rule agrees_bind) (use assms(2,3) in \<open>auto elim!: GetValue.elims\<close>)
  then show ?thesis by (simp add: ebind_assoc)
qed

lemma arg_still: "arg_agrees sub s ev v x \<Longrightarrow> still s (ev v)"
  unfolding arg_agrees_def by (rule agrees_still)

lemma args_still: "list_all2 (arg_agrees sub s ev) vs xs \<Longrightarrow> v \<in> set vs \<Longrightarrow> still s (ev v)"
  by (induction rule: list_all2_induct) (auto dest: arg_still)

lemma hnumber_still: "still s (ev v) \<Longrightarrow> still s (hnumber ev m v)"
  unfolding hnumber_def by (auto intro!: still_bind)

lemma arithmetic_fold:
  assumes "list_all2 (arg_agrees sub s ev) vs xs" and "P a b"
    and "\<And>a b k. P a b \<Longrightarrow> agrees sub P s (f a k) (g b k)" and "\<And>b k. still s (g b k)"
  shows "agrees sub P s (efold (\<lambda>a x. ebind (number_arg Compute m x) (f a)) a xs)
    (sfold (\<lambda>b v. sbind (hnumber ev m' v) (g b)) b vs)"
proof (rule agrees_fold [where P = P, OF assms(1,2)])
  show "agrees sub P s (ebind (number_arg Compute m x) (f a)) (sbind (hnumber ev m' v) (g b))"
    if "arg_agrees sub s ev v x" "P a b" for a b v x
    by (rule agrees_bind [OF number_agrees [OF that(1)]]) (use assms(3,4) that(2) in auto)
  show "still s (sbind (hnumber ev m' v) (g b))" if "v \<in> set vs" for b v
    using args_still [OF assms(1) that] assms(4) by (intro still_bind hnumber_still)
qed

lemma extremum_fold:
  assumes "list_all2 (arg_agrees sub s ev) vs xs"
  shows "agrees sub (\<lambda>a ns. a = foldl g c ns) s
    (efold (\<lambda>a x. ebind (number_arg Compute m x) (\<lambda>k. Inr (g a k))) c xs) (smap (hnumber ev m') vs)"
  using assms
proof (induction arbitrary: c rule: list_all2_induct)
  case (Cons v vs x xs)
  have vs: "still s (smap (hnumber ev m') vs)"
    using args_still [OF Cons(2)] by (intro still_smap hnumber_still)
  show ?case unfolding efold.simps smap.simps ebind_assoc
    by (rule agrees_bind [OF number_agrees [OF Cons(1)]])
      (auto intro!: still_bind agrees_map [OF Cons.IH] vs)
qed (simp add: agrees_sret)

section \<open>The operators\<close>

lemma start:
  "HAsVector argument s = Some (Inr vs, s) \<Longrightarrow> agrees sub P s r (f vs) \<Longrightarrow> agrees sub P s r (sbind (HAsVector argument) f)"
  by (simp add: agrees_def sbind_def)

lemma number: "r = k \<Longrightarrow> agrees sub same_number s (Inr (Number r)) (sret (VNumber k))"
  by (simp add: agrees_sret)

lemma direct_agrees:
  assumes HAs: "HAsVector argument s = Some (Inr vs, s)" and args: "list_all2 (arg_agrees sub s ev) vs xs"
    and "\<And>a k. \<exists>v. op a k = ll_check v"
  shows "agrees sub same_number s
    (ebind (efold (\<lambda>a x. ebind (number_arg Compute m x) (op a)) i xs) (\<lambda>r. Inr (Number r)))
    (HDirectArithmetic ev op i argument)"
  unfolding HDirectArithmetic_def
proof (intro start [OF HAs] agrees_bind [OF arithmetic_fold [OF args, where P = "(=)"]])
  show "a = b \<Longrightarrow> agrees sub (=) s (op a k) (slift (op b k))" for a b k
    using assms(3) [of b k] agrees_check by auto
qed (auto intro: number)

lemma extremum_agrees:
  assumes HAs: "HAsVector argument s = Some (Inr vs, s)" and args: "list_all2 (arg_agrees sub s ev) vs xs"
    and "xs \<noteq> []"
  shows "agrees sub same_number s
    (ebind (Compute (hd xs)) (\<lambda>x.
       if \<not> Is_Number x then Inl e
       else ebind (Compute (hd xs)) (\<lambda>x'. ebind (GetValue x') (\<lambda>first.
            ebind (efold (\<lambda>a x. ebind (number_arg Compute m x) (\<lambda>v. Inr (f a v))) first xs) (\<lambda>r. Inr (Number r))))))
    (HExtremum ev f argument)"
proof -
  obtain x xs' v vs' where c: "xs = x # xs'" "vs = v # vs'" using assms(3) list_all2_lengthD [OF args] by (cases xs; cases vs) auto
  then have v: "arg_agrees sub s ev v x" and vs': "list_all2 (arg_agrees sub s ev) vs' xs'" using args by auto
  show ?thesis unfolding HExtremum_def c
  proof (rule start [OF HAs, unfolded c], simp, rule number_agrees_twice [OF v], goal_cases)
    case (1 k)
    then have k: "number_arg Compute m x = Inr k" by (simp add: number_arg_def)
    have fold: "agrees sub (\<lambda>a ns. a = foldl f (hd ns) ns) s
        (efold (\<lambda>a x. ebind (number_arg Compute m x) (\<lambda>v. Inr (f a v))) k (x # xs'))
        (smap (hnumber ev ''Max/Min argument is not a number'') (v # vs'))"
      unfolding efold.simps smap.simps ebind_assoc
      by (rule agrees_bind [OF number_agrees [OF v]])
        (use vs' k in \<open>auto intro!: still_bind still_smap hnumber_still agrees_map [OF extremum_fold]
          dest: args_still\<close>)
    show ?case
      by (simp add: 1 del: efold.simps smap.simps) (rule agrees_bind [OF fold]; simp add: number)
  next
    case (2 y)
    show ?case using args_still [OF args] c 
      by (auto intro!: still_bind still_smap hnumber_still)
  qed
qed

lemma absolute_agrees:
  assumes HAs: "HAsVector argument s = Some (Inr vs, s)" and args: "list_all2 (arg_agrees sub s ev) vs xs"
  shows
  "agrees sub same_number s
    (if length xs \<noteq> 1 then Inl (RuntimeError m)
     else ebind (Compute (hd xs)) (\<lambda>x.
       if \<not> Is_Number x then Inl (RuntimeError m')
       else ebind (Compute (hd xs)) (\<lambda>x'. ebind (GetValue x') (\<lambda>v. ebind (ll_abs v) (\<lambda>a. Inr (Number a))))))
    (HAbs ev argument)"
  unfolding HAbs_def
proof (rule start [OF HAs], cases "length xs = 1")
  case True
  then obtain x v where c: "xs = [x]" "vs = [v]" using list_all2_lengthD [OF args] by (auto simp: length_Suc_conv)
  then have v: "arg_agrees sub s ev v x" using args by simp
  show "agrees sub same_number s
    (if length xs \<noteq> 1 then Inl (RuntimeError m)
     else ebind (Compute (hd xs)) (\<lambda>x.
       if \<not> Is_Number x then Inl (RuntimeError m')
       else ebind (Compute (hd xs)) (\<lambda>x'. ebind (GetValue x') (\<lambda>v. ebind (ll_abs v) (\<lambda>a. Inr (Number a))))))
    (if length vs \<noteq> 1 then sthrow (RuntimeError ''Not one arguments in abs'')
     else sbind (ev (hd vs)) (\<lambda>x.
         if \<not> IsV_Number x then sthrow (RuntimeError ''Abs argument is not a number'')
         else sbind (ev (hd vs)) (\<lambda>x'.
              sbind (HGetValue x') (\<lambda>v.
              sbind (slift (ll_abs v)) (\<lambda>a. sret (VNumber a))))))"
    unfolding c
    by (simp, rule number_agrees_twice [OF v])
      (use arg_still [OF v] in \<open>auto simp: agrees_def sbind_def sret_def slift_def ll_abs_def ll_check_def intro!: still_bind\<close>)
qed (simp add: list_all2_lengthD [OF args] agrees_throw)

lemma divide_agrees:
  assumes HAs: "HAsVector argument s = Some (Inr vs, s)" and args: "list_all2 (arg_agrees sub s ev) vs xs"
    and "xs \<noteq> []"
  shows "agrees sub same_number s
    (ebind (Compute (hd xs)) (\<lambda>x. ebind (GetValue x) (\<lambda>first.
     ebind (efold (\<lambda>quot arg. ebind (number_arg Compute m arg)
         (\<lambda>v. if v = 0 then Inl (RuntimeError m') else ll_div quot v)) first (tl xs)) (\<lambda>quot. Inr (Number quot)))))
    (HReverseArithmetic ev ll_div 1 argument)"
proof -
  obtain x xs' v vs' where c: "xs = x # xs'" "vs = v # vs'" using assms(3) list_all2_lengthD [OF args] by (cases xs; cases vs) auto
  then have v: "arg_agrees sub s ev v x" and vs': "list_all2 (arg_agrees sub s ev) vs' xs'" using args by auto
  have still: "still s (sbind (sfold (\<lambda>result arg. sbind (hnumber ev ''Sub/Div argument is not a number'' arg)
      (\<lambda>v. if (1::int) = 1 \<and> v = 0 then sthrow (RuntimeError ''Div argument is zero'') else slift (ll_div result v))) y vs')
      (\<lambda>result. sret (VNumber result)))" for y
    using args_still [OF vs'] by (auto intro!: still_bind still_sfold hnumber_still)
  show ?thesis unfolding HReverseArithmetic_def c
    by (rule start [OF HAs, unfolded c], simp only: list.sel list.distinct if_False, rule first_number_agrees [OF v still])
      (auto simp: ll_div_def intro!: agrees_bind [OF arithmetic_fold [OF vs', where P = "(=)"]] agrees_throw agrees_check number)
qed

lemma subtract_agrees:
  assumes HAs: "HAsVector argument s = Some (Inr vs, s)" and args: "list_all2 (arg_agrees sub s ev) vs xs"
    and "xs \<noteq> []" and "sub"
  shows "agrees sub same_number s
    (ebind (efold (\<lambda>sub arg. ebind (number_arg Compute m arg) (\<lambda>v. ll_sub sub v)) 0 xs) (\<lambda>sub.
     ebind (Compute (hd xs)) (\<lambda>x. ebind (GetValue x) (\<lambda>v. ebind (ll_mul 2 v) (\<lambda>w.
     ebind (ll_add sub w) (\<lambda>sub'. Inr (Number sub')))))))
    (HReverseArithmetic ev ll_sub 0 argument)"
proof -
  obtain x xs' v vs' where c: "xs = x # xs'" "vs = v # vs'" using assms(3) list_all2_lengthD [OF args] by (cases xs; cases vs) auto
  then have v: "arg_agrees sub s ev v x" and vs': "list_all2 (arg_agrees sub s ev) vs' xs'" using args by auto
  have still: "still s (sbind (sfold (\<lambda>result arg. sbind (hnumber ev ''Sub/Div argument is not a number'' arg)
      (\<lambda>v. if (0::int) = 1 \<and> v = 0 then sthrow (RuntimeError ''Div argument is zero'') else slift (ll_sub result v))) y vs')
      (\<lambda>result. sret (VNumber result)))" for y
    using args_still [OF vs'] by (auto intro!: still_bind still_sfold hnumber_still)
  have check: "ll_check w = Inr w \<or> ll_check w = Inl SignedOverflow" for w by (simp add: ll_check_def)
  have overflow: "agrees sub Q s (Inl SignedOverflow) m'" if "still s m'" for Q :: "object \<Rightarrow> val \<Rightarrow> bool" and m'
    using agrees_overflow [OF assms(4) that] .
  show ?thesis unfolding HReverseArithmetic_def c efold.simps ebind_assoc
  proof (rule start [OF HAs, unfolded c], simp only: list.sel list.distinct if_False,
      rule agrees_bind [OF number_agrees [OF v] still], goal_cases)
    case (1 k l)
    have k: "Compute x = Inr (Number k)"
      using 1(1) by (auto simp: number_arg_def split: if_splits elim!: Is_Number.elims)
    have fold: "agrees sub (\<lambda>a b. b = a + 2 * k) s
        (efold (\<lambda>sub arg. ebind (number_arg Compute m arg) (\<lambda>v. ll_sub sub v)) (- k) xs')
        (sfold (\<lambda>result arg. sbind (hnumber ev ''Sub/Div argument is not a number'' arg)
          (\<lambda>v. if (0::int) = 1 \<and> v = 0 then sthrow (RuntimeError ''Div argument is zero'') else slift (ll_sub result v))) k vs')"
    proof (rule arithmetic_fold [OF vs', where P = "\<lambda>a b. b = a + 2 * k"])
      show "b = a + 2 * k \<Longrightarrow> agrees sub (\<lambda>a b. b = a + 2 * k) s (ll_sub a v)
          (if (0::int) = 1 \<and> v = 0 then sthrow (RuntimeError ''Div argument is zero'') else slift (ll_sub b v))" for a b v
        using assms(4) by (simp add: ll_sub_def ll_check_def agrees_def slift_def)
    qed simp_all
    have finish: "agrees sub same_number s
        (ebind (Compute x) (\<lambda>x. ebind (GetValue x) (\<lambda>v. ebind (ll_mul 2 v) (\<lambda>w. ebind (ll_add a w) (\<lambda>r. Inr (Number r))))))
        (sret (VNumber b))" if "b = a + 2 * k" for a b
      using that by (cases "ll_ok (2 * k)"; cases "ll_ok (a + 2 * k)")
        (simp_all add: k ll_mul_def ll_add_def ll_check_def overflow number)
    have sub0: "ll_sub 0 k = ll_check (- k)" by (simp add: ll_sub_def)
    from check [of "- k"] show ?case
    proof
      assume neg: "ll_check (- k) = Inr (- k)"
      show ?case unfolding sub0 neg ebind_simps 1(3) [symmetric]
        by (rule agrees_bind [OF fold]) (simp_all add: finish)
    next
      assume "ll_check (- k) = Inl SignedOverflow"
      then show ?case unfolding sub0 using overflow [OF still] by simp
    qed
  qed
qed

definition arithmetic_names :: "string set" where
  "arithmetic_names = {''+'', ''-'', ''*'', ''/'', ''max'', ''min'', ''abs''}"

lemma arithmetic_call_agrees:
  assumes "denotes (cells s) v argument" and "op \<in> arithmetic_names"
    and "functions_list op = Some b" and "GetFunction (Symbol op) = Inr f" and "op = ''-'' \<Longrightarrow> sub"
    and ev: "\<And>v x. x \<in> set (elements argument) \<Longrightarrow> denotes (cells s) v x \<Longrightarrow> arg_agrees sub s ev v x"
  shows "agrees sub same_number s (call Compute f argument) (builtin_call ev b v)"
proof (cases "AsVector argument")
  case (Inl e)
  then obtain m where m: "e = RuntimeError m" using AsVector_error by blast
  have H: "HAsVector v s = Some (Inl e, s)" using HAsVector_denotes [OF assms(1)] Inl by simp
  show ?thesis using assms(2-4) Inl H unfolding m arithmetic_names_def
    by (auto simp: functions_list_def GetFunction_def vector_call_defs HDirectArithmetic_def HReverseArithmetic_def
        HExtremum_def HAbs_def agrees_def sbind_def)
next
  case (Inr xs)
  then obtain vs where vs: "HAsVector v s = Some (Inr vs, s)" "list_all2 (denotes (cells s)) vs xs"
    using HAsVector_denotes [OF assms(1)] by auto
  have "list_all2 (arg_agrees sub s ev) vs xs"
    using vs(2) ev Inr by (auto simp: elements_def list_all2_conv_all_nth)
  note args = vs(1) this
  note find = functions_list_def GetFunction_def vector_call_defs
  show ?thesis
  proof (cases "xs = []")
    case True
    then show ?thesis using assms(2-4) Inr args unfolding arithmetic_names_def
      by (auto simp: find HDirectArithmetic_def HReverseArithmetic_def HExtremum_def HAbs_def agrees_def
          sbind_def sthrow_def sret_def)
  next
    case False
    have direct: "agrees sub same_number s
        (ebind (efold (\<lambda>a x. ebind (number_arg Compute m x) (\<lambda>v. op a v)) i xs) (\<lambda>r. Inr (Number r)))
        (HDirectArithmetic ev op i v)" if "op \<in> {ll_add, ll_mul}" for m op i
      using that by (intro direct_agrees [OF args]) (auto simp: ll_add_def ll_mul_def)
    note rest = extremum_agrees [OF args False] divide_agrees [OF args False] absolute_agrees [OF args]
    from assms(2) consider "op = ''+'' \<or> op = ''*''" | "op = ''-''" | "op = ''/''" | "op = ''max'' \<or> op = ''min''"
      | "op = ''abs''" by (auto simp: arithmetic_names_def)
    then show ?thesis
    proof cases
      case 1
      then show ?thesis using assms(3,4) Inr direct by (auto simp: find)
    next
      case 2
      then show ?thesis using assms(3-5) Inr False subtract_agrees [OF args False] by (auto simp: find)
    qed (use assms(3,4) Inr False rest in \<open>auto simp: find\<close>)
  qed
qed

lemma arith_agrees:
  assumes "arith ops x" and "ops \<subseteq> arithmetic_names" and "denotes (cells s) v x"
    and "\<forall>op \<in> ops. \<not> IsDefined op (mem s)" and "size x < n"
  shows "arg_agrees (''-'' \<in> ops) s (HCompute n) v x"
  using assms(1,3,5)
proof (induction arbitrary: v n rule: arith.induct)
  case (arith_Number k)
  then show ?case by (cases n) (auto elim: denotes.cases simp: arg_agrees_def agrees_sret)
next
  case (arith_call op argument)
  obtain m where n: "n = Suc m" using arith_call.prems(2) by (cases n) auto
  from arith_call.prems(1) obtain a where v: "v = VCell a" by (auto elim: denotes.cases)
  from arith_call.prems(1) have f: "fst (cells s ! a) = VSymbol op"
    and d: "denotes (cells s) (snd (cells s ! a)) argument"
    unfolding v by (auto elim!: denotes_CellE elim: denotes.cases)
  have op: "op \<in> arithmetic_names" using arith_call.hyps(1) assms(2) by blast
  then obtain b g where b: "functions_list op = Some b" and g: "GetFunction (Symbol op) = Inr g"
    unfolding arithmetic_names_def by (fastforce simp: functions_list_def GetFunction_def)
  obtain k where m: "m = Suc k" using arith_call.prems(2) n by (cases m) auto
  have symbol: "HCompute m (VSymbol op) s = Some (Inr (VFunction b), s)"
    using arith_call.hyps(1) assms(4) b op
    by (auto simp: m compute_symbol_def sbind_def sget_def sret_def arithmetic_names_def)
  have "agrees (''-'' \<in> ops) same_number s (call Compute g argument) (builtin_call (HCompute m) b (snd (cells s ! a)))"
  proof (rule arithmetic_call_agrees [OF d op b g])
    show "op = ''-'' \<Longrightarrow> ''-'' \<in> ops" using arith_call.hyps(1) by blast
    show "x \<in> set (elements argument) \<Longrightarrow> denotes (cells s) v x \<Longrightarrow> arg_agrees (''-'' \<in> ops) s (HCompute m) v x" for v x
      using arith_call.IH elements_smaller [of x argument] arith_call.prems(2) n by simp
  qed
  then show ?case using g b
    by (simp add: n v f symbol sbind_def sget_def arg_agrees_def agrees_def)
qed

section \<open>Properties\<close>

text \<open>C1. No evaluation, whether it returns or throws, leaves a dangling reference: from a well-formed
  state it ends in a well-formed state whose stores extend the old ones, and what it returns exists
  there.\<close>

theorem HCompute_no_dangling:
  assumes "wf_interp s" and "wf_val s tree" and "HCompute n tree s = Some (r, s')"
  shows "wf_interp s' \<and> up s s' \<and> (\<forall>v. r = Inr v \<longrightarrow> wf_val s' v)"
  using HCompute_safe [OF assms(2), of n] assms(1,3) by (auto simp: safe_def split: sum.splits)

theorem HCompute_no_dangling_witness:
  "wf_interp interp_new \<and> wf_val interp_new (VFunction BCar)"
proof -
  have "HCompute 1 (VSymbol ''car'') interp_new = Some (Inr (VFunction BCar), interp_new)"
    by (simp add: compute_symbol_def sbind_def sget_def sret_def functions_list_def IsDefined_def
        interp_new_def Memory_new_def)
  from HCompute_no_dangling [OF wf_interp_new _ this] show ?thesis by simp
qed

text \<open>C2. An evaluation that returns leaves the stack of scopes as it was, except that it may have
  added definitions to the innermost scope: every scope a call opens is closed.\<close>

theorem HCompute_scopes:
  assumes "wf_interp s" and "wf_val s tree" and "HCompute n tree s = Some (Inr v, s')"
  shows "tl (scopes (mem s')) = tl (scopes (mem s)) \<and>
    (\<exists>new. hd (scopes (mem s')) = new @ hd (scopes (mem s)))"
  using HCompute_safe [OF assms(2), of n] assms(1,3) by (auto simp: safe_def same_scopes_def)

theorem HCompute_scopes_witness:
  "tl (scopes (mem interp_new)) = tl (scopes (mem interp_new)) \<and>
    (\<exists>new. hd (scopes (mem interp_new)) = new @ hd (scopes (mem interp_new)))"
  by (rule HCompute_scopes [OF wf_interp_new, of "VNumber 3" 1]) (simp_all add: sret_def)

text \<open>Fuel only bounds the depth of the recursion: an evaluation that ends with some fuel ends with
  more of it in the same way, so its outcome does not depend on the fuel.\<close>

lemma HCompute_fuel:
  assumes "HCompute n tree s = Some r" and "HCompute m tree s = Some r'"
  shows "r = r' \<and> (\<forall>k \<ge> n. HCompute k tree s = Some r)"
proof -
  have "HCompute (max n m) tree s = Some r" and "HCompute (max n m) tree s = Some r'"
    by (rule HCompute_more [OF assms(1)], simp, rule HCompute_more [OF assms(2)], simp)
  then have "r = r'" by simp
  then show ?thesis using HCompute_more [OF assms(1)] by blast
qed

text \<open>C6. On a value of the store that stands for a tree, \<open>AsVector\<close> and \<open>Serialize\<close> return, and what
  they return is what the functions on trees return: the fuel of their loops is enough.\<close>

theorem store_refines_trees:
  assumes "denotes (cells s) v x"
  shows "HSerialize v s = Some (Inr (Serialize x False), s) \<and>
    (case AsVector x of
        Inl e \<Rightarrow> HAsVector v s = Some (Inl e, s)
      | Inr xs \<Rightarrow> \<exists>vs. HAsVector v s = Some (Inr vs, s) \<and> list_all2 (denotes (cells s)) vs xs)"
  using HSerialize_denotes [OF assms] HAsVector_denotes [OF assms] by blast

theorem store_refines_trees_witness:
  "HSerialize (VCell 0) (interp_new\<lparr>cells := [(VNumber 1, VNumber 2)]\<rparr>) =
     Some (Inr (Serialize (Cell (Number 1) (Number 2)) False), interp_new\<lparr>cells := [(VNumber 1, VNumber 2)]\<rparr>)"
  using store_refines_trees [of "interp_new\<lparr>cells := [(VNumber 1, VNumber 2)]\<rparr>" "VCell 0" "Cell (Number 1) (Number 2)"]
    denotes_Cell [of 0 "[(VNumber 1, VNumber 2)]" "Number 1" "Number 2"]
  by simp

text \<open>The interpreter with variables prints the quoted text of a printable object as it stands, as
  long as \<open>quote\<close> is not defined as a variable, and its memory does not change.\<close>

lemma HRun_quoted:
  assumes "obj_all int_ok symbol_name t" and "\<not> IsDefined ''quote'' (mem s)" and "2 \<le> n"
  shows "\<exists>cs. HRun n (CHR 0x27 # Serialize t False) s = Some (Inr (Serialize t False), s\<lparr>cells := cs\<rparr>)"
proof -
  obtain tk where r: "Read (Tokenizer_new (CHR 0x27 # Serialize t False)) =
      Inr (Cell (Symbol ''quote'') (Cell t Null), tk)"
    using Read_quoted [OF assms(1), of "[]"] by auto
  obtain v cs where l: "load (Cell (Symbol ''quote'') (Cell t Null)) s = Some (Inr v, s\<lparr>cells := cells s @ cs\<rparr>)"
    and d: "denotes (cells s @ cs) v (Cell (Symbol ''quote'') (Cell t Null))"
    using load_denotes by blast
  let ?s = "s\<lparr>cells := cells s @ cs\<rparr>"
  obtain a where v: "v = VCell a" using d by (auto elim: denotes.cases)
  from d have "fst ((cells s @ cs) ! a) = VSymbol ''quote''"
    and "denotes (cells s @ cs) (snd ((cells s @ cs) ! a)) (Cell t Null)"
    unfolding v by (auto elim!: denotes_CellE elim: denotes.cases)
  then obtain b where f: "fst ((cells s @ cs) ! a) = VSymbol ''quote''" "snd ((cells s @ cs) ! a) = VCell b"
    and t: "denotes (cells s @ cs) (fst ((cells s @ cs) ! b)) t"
    by (auto elim: denotes.cases)
  obtain k where n: "n = Suc (Suc k)" using assms(3) by (cases n rule: nat.exhaust; cases "n - 1") auto
  have q: "HCompute (Suc k) (VSymbol ''quote'') ?s = Some (Inr (VFunction BQuote), ?s)"
    using assms(2) by (simp add: compute_symbol_def sbind_def sget_def sret_def functions_list_def)
  have "HCompute n v ?s = Some (Inr (fst ((cells s @ cs) ! b)), ?s)"
    using q by (simp add: n v f sbind_def sget_def HQuote_def)
  moreover have "HSerialize (fst ((cells s @ cs) ! b)) ?s = Some (Inr (Serialize t False), ?s)"
    by (rule HSerialize_denotes) (simp add: t)
  ultimately show ?thesis using r l by (auto simp: HRun_def sbind_def slift_def)
qed

lemma HRun_quoted_example:
  "\<exists>cs. HRun 2 (CHR 0x27 # Serialize (Cell (Number 1) (Cell Null Null)) False) interp_new =
     Some (Inr (Serialize (Cell (Number 1) (Cell Null Null)) False), interp_new\<lparr>cells := cs\<rparr>)"
  by (rule HRun_quoted) (simp_all add: int_ok_def interp_new_def Memory_new_def IsDefined_def)

text \<open>C5. A call of a lambda with distinct parameters runs its body in a new innermost scope where each
  parameter means its argument; the scope is closed after the body, but only when the body returns:
  an exception of the body leaves it open.\<close>

theorem lambda_call:
  assumes "wf_interp s1" and "l < length (lambdas s1)" and "HAsVector argument s = Some (Inr args, s)"
    and "lambda_params (lambdas s ! l) = map VSymbol ns" and "distinct ns" and "[] \<notin> set ns"
    and "length args = length ns" and "smap (HCompute n) args s = Some (Inr vs, s1)" and "length vs = length ns"
  shows "(\<forall>i < length ns. GetVariable (ns ! i) (mem (body_state l ns vs s1)) = Inr (vs ! i)) \<and>
    tl (scopes (mem (body_state l ns vs s1))) = scopes (mem s1) \<and>
    LambdaRun_call (HCompute n) l argument s =
     (case sfold (\<lambda>_ i. HCompute n i) VNull (lambda_instructions (lambdas s ! l)) (body_state l ns vs s1) of
        None \<Rightarrow> None
      | Some (Inl e, s2) \<Rightarrow> Some (Inl e, s2)
      | Some (Inr x, s2) \<Rightarrow> Some (Inr x, s2\<lparr>mem := Pop (mem s2)\<rparr>))"
proof (intro conjI)
  note c = call_state [OF assms(1,2)]
  have ok: "mem_ok (mem (call_state l s1))" using c(1) by (simp add: wf_interp_def)
  show "\<forall>i < length ns. GetVariable (ns ! i) (mem (body_state l ns vs s1)) = Inr (vs ! i)"
    using fold_define_params [OF ok assms(5,9)] by (simp add: body_state_def)
  have "\<forall>(n, v) \<in> set (zip ns vs). n \<noteq> []" using assms(6) by (auto dest: set_zip_leftD)
  from mem.defs(2) [OF ok this] c(3)
  show "tl (scopes (mem (body_state l ns vs s1))) = scopes (mem s1)" by (simp add: body_state_def)
qed (rule LambdaRun_call_unfold [OF assms(3,4,7,8)])

theorem lambda_call_witness:
  "GetVariable ''x'' (mem (body_state 0 [''x''] [VNumber 5] (interp_new\<lparr>cells := [(VNumber 5, VNull)],
      lambdas := [\<lparr>lambda_params = [VSymbol ''x''], lambda_instructions = [VSymbol ''x''], lambda_context = []\<rparr>]\<rparr>))) =
    Inr (VNumber 5)"
proof -
  let ?l = "\<lparr>lambda_params = [VSymbol ''x''], lambda_instructions = [VSymbol ''x''], lambda_context = []\<rparr>"
  let ?s = "interp_new\<lparr>cells := [(VNumber 5, VNull)], lambdas := [?l]\<rparr>"
  have wf: "wf_interp ?s" using wf_interp_new by (simp add: wf_interp_def wf_lambda_def interp_new_def Memory_new_def)
  show ?thesis
    using lambda_call [OF wf, of 0 "VCell 0" ?s "[VNumber 5]" "[''x'']" 1 "[VNumber 5]"]
    by (simp add: HAsVector_def sbind_def sret_def)
qed

text \<open>The scope an exception leaves open is visible: after a call that threw, the parameter of the
  call is defined at top level.\<close>

lemma leaked_parameter:
  "session 5 [''((lambda (n) (f)) 5)'', ''n''] interp_new =
     Some [Inl (NameError ''Wrong symbol name''), Inr ''5'']"
  by code_simp

text \<open>C7. On arithmetic expressions (numbers and calls of \<open>+\<close>, \<open>-\<close>, \<open>*\<close>, \<open>/\<close>, \<open>max\<close>, \<open>min\<close> and
  \<open>abs\<close>, nested, with any number of arguments and even with improper argument lists) the interpreter with
  variables returns, with fuel of the size of the expression, the number the interpreter without variables
  returns, or throws the same kind of exception, a runtime error or an overflow; the state does not change.
  The operators must not be redefined. With \<open>-\<close> in the expression either of the two may overflow where the
  other does not, because they subtract in different orders; without it they overflow together.\<close>

theorem arithmetic_agrees:
  assumes "arith ops x" and "ops \<subseteq> arithmetic_names" and "denotes (cells s) v x"
    and "\<forall>op \<in> ops. \<not> IsDefined op (mem s)" and "size x < n"
  shows "\<exists>r. HCompute n v s = Some (r, s) \<and> agree (''-'' \<in> ops) same_number (Compute x) r"
  using arith_agrees [OF assms] by (simp add: arg_agrees_def agrees_def)

theorem arithmetic_agrees_witness:
  "\<exists>m. HCompute 12 (VCell 2)
       (interp_new\<lparr>cells := [(VNumber 0, VNull), (VNumber 4, VCell 0), (VSymbol ''/'', VCell 1)]\<rparr>) =
     Some (Inl (RuntimeError m),
       interp_new\<lparr>cells := [(VNumber 0, VNull), (VNumber 4, VCell 0), (VSymbol ''/'', VCell 1)]\<rparr>)"
proof -
  let ?cs = "[(VNumber 0, VNull), (VNumber 4, VCell 0), (VSymbol ''/'', VCell 1)]"
  let ?x = "Cell (Symbol ''/'') (list_of [Number 4, Number 0])"
  have "arith {''/''} ?x" by (rule arith_call) (auto intro: arith_Number simp: elements_def)
  moreover have "denotes ?cs (VCell 2) ?x"
    by (auto intro!: denotes.intros)
  moreover have "Compute ?x = Inl (RuntimeError ''Div argument is zero'')" by code_simp
  ultimately obtain r where "HCompute 12 (VCell 2) (interp_new\<lparr>cells := ?cs\<rparr>) = Some (r, interp_new\<lparr>cells := ?cs\<rparr>)"
    and "agree False same_number (Inl (RuntimeError ''Div argument is zero'')) r"
    using arithmetic_agrees [of "{''/''}" ?x "interp_new\<lparr>cells := ?cs\<rparr>" "VCell 2" 12]
    by (auto simp: interp_new_def Memory_new_def IsDefined_def arithmetic_names_def)
  then show ?thesis using agree_RuntimeError by blast
qed

end
