(* ===== verification/BitReader.thy ===== *)
theory BitReader
  imports Prelude "HOL-Library.Word"
begin

text \<open>
  The bit reader of the JPEG decoder (\<open>tasks/jpeg-decoder/baseline/bit_reader.h\<close> and
  \<open>bit_reader.cpp\<close>; \<open>faster/\<close> carries the same files). The input stream is the list of the bytes
  not yet read and the end-of-file flag that reading past them sets. An exception ends the decoding
  (\<open>Decode\<close> does not catch it), so it carries no state.
\<close>

unbundle bit_operations_syntax

section \<open>State\<close>

text \<open>
  The exceptions of the decoder (\<open>int_thrown\<close> is its \<open>throw 12\<close>, \<open>out_of_range\<close> comes from
  \<open>vector::at\<close>, \<open>length_error\<close> from a vector too long to exist) and, as errors of their own, the
  undefined behaviours: an index outside a vector, a null or disengaged pointee, a division by zero, an
  \<open>int\<close> that overflows.
\<close>

datatype jpeg_error =
    invalid_argument string
  | int_thrown int
  | out_of_range
  | length_error
  | BadIndex
  | NoTree
  | NoValue
  | ZeroDivision
  | IntOverflow

record bit_reader =
  br_stream :: "8 word list"
  br_eof :: bool
  br_buffer :: "8 word"
  br_last :: "8 word"
  br_ptr :: nat

definition BitReader_new :: "8 word list \<Rightarrow> bit_reader" where
  "BitReader_new s = \<lparr>br_stream = s, br_eof = False, br_buffer = 0, br_last = 0, br_ptr = 0\<rparr>"

text \<open>\<open>stream_.get()\<close>: the next byte as an \<open>int\<close>, or \<open>-1\<close> and the end-of-file flag.\<close>

definition istream_get :: "bit_reader \<Rightarrow> int \<times> bit_reader" where
  "istream_get br =
     (case br_stream br of
        [] \<Rightarrow> (-1, br\<lparr>br_eof := True\<rparr>)
      | b # bs \<Rightarrow> (uint b, br\<lparr>br_stream := bs\<rparr>))"

section \<open>Operations\<close>

text \<open>The part of \<open>GetBit\<close> that fetches a byte, skipping the zero stuffed after \<open>0xff\<close>.\<close>

definition fetch :: "bit_reader \<Rightarrow> bit_reader" where
  "fetch br =
     (let (c, br1) = istream_get (br\<lparr>br_last := br_buffer br\<rparr>);
          br2 = br1\<lparr>br_buffer := word_of_int c\<rparr>
      in if br_last br2 = 255 \<and> br_buffer br2 = 0
         then let (c', br3) = istream_get br2 in br3\<lparr>br_buffer := word_of_int c'\<rparr>
         else br2)"

definition GetBit :: "bit_reader \<Rightarrow> jpeg_error + bool \<times> bit_reader" where
  "GetBit br =
     (let br' = (if br_ptr br = 0 then fetch br else br)
      in if br_ptr br = 0 \<and> br_eof br' then Inl (invalid_argument ''no more bits'')
         else Inr (br_buffer br' AND push_bit (7 - br_ptr br') 1 \<noteq> 0,
                   br'\<lparr>br_ptr := (br_ptr br' + 1) mod 8\<rparr>))"

text \<open>The loop of \<open>GetBits\<close>, over the function that gets a bit; \<open>result\<close> is a 16-bit integer that
  loses what is shifted out.\<close>

fun more_bits :: "('s \<Rightarrow> 'e + bool \<times> 's) \<Rightarrow> nat \<Rightarrow> 16 word \<Rightarrow> 's \<Rightarrow> 'e + 16 word \<times> 's" where
  "more_bits get 0 result s = Inr (result, s)"
| "more_bits get (Suc n) result s =
     ebind (get s) (\<lambda>(b, s'). more_bits get n (push_bit 1 result OR of_bool b) s')"

text \<open>The value and \<open>first_bit\<close>.\<close>

definition GetBits :: "nat \<Rightarrow> bit_reader \<Rightarrow> jpeg_error + (16 word \<times> bool) \<times> bit_reader" where
  "GetBits cnt br =
     (if cnt > 16 then Inl (invalid_argument ''wrong cnt'')
      else if cnt = 0 then Inr ((0, True), br)
      else ebind (GetBit br) (\<lambda>(b, br1).
           ebind (more_bits GetBit (cnt - 1) (of_bool b) br1) (\<lambda>(result, br2).
             Inr ((result, b), br2))))"

definition GetHalfByte :: "bit_reader \<Rightarrow> 8 word \<times> bit_reader" where
  "GetHalfByte br =
     (if br_ptr br = 0 then
        let (c, br1) = istream_get br; b = word_of_int c
        in (drop_bit 4 (b AND 0xf0), br1\<lparr>br_buffer := b, br_ptr := 4\<rparr>)
      else (br_buffer br AND 0x0f, br\<lparr>br_ptr := (br_ptr br + 4) mod 8\<rparr>))"

definition GetByte :: "bit_reader \<Rightarrow> 8 word \<times> bit_reader" where
  "GetByte br = (let (c, br') = istream_get br in (word_of_int c, br'))"

text \<open>The operands of \<open>|\<close>, which C++ may evaluate in any order, are evaluated from left to right.\<close>

definition GetHalfWord :: "bit_reader \<Rightarrow> int \<times> bit_reader" where
  "GetHalfWord br =
     (let (hi, br1) = istream_get br; (lo, br2) = istream_get br1
      in (push_bit 8 hi OR lo, br2))"

definition Slice :: "8 word \<Rightarrow> 8 word \<times> 8 word" where
  "Slice input = (drop_bit 4 (input AND 0xf0), input AND 0x0f)"

section \<open>The bits that are left\<close>

text \<open>The bytes that reach the decoder: a zero after \<open>0xff\<close> is dropped, whatever follows it is not
  looked at again.\<close>

fun unstuff :: "8 word \<Rightarrow> 8 word list \<Rightarrow> 8 word list" where
  "unstuff prev [] = []"
| "unstuff prev [b] = (if prev = 255 \<and> b = 0 then [] else [b])"
| "unstuff prev (b # c # bs) =
     (if prev = 255 \<and> b = 0 then c # unstuff c bs else b # unstuff b (c # bs))"

definition byte_bits :: "8 word \<Rightarrow> bool list" where
  "byte_bits b = map (\<lambda>i. bit b (7 - i)) [0..<8]"

definition bits_left :: "bit_reader \<Rightarrow> bool list" where
  "bits_left br =
     (if br_ptr br = 0 then [] else drop (br_ptr br) (byte_bits (br_buffer br))) @
     concat (map byte_bits (unstuff (br_buffer br) (br_stream br)))"

definition reader_ok :: "bit_reader \<Rightarrow> bool" where
  "reader_ok br \<longleftrightarrow> br_ptr br < 8 \<and> (br_eof br \<longrightarrow> br_stream br = [])"

lemma reader_ok_new: "reader_ok (BitReader_new s)"
  by (simp add: reader_ok_def BitReader_new_def)

lemma length_byte_bits [simp]: "length (byte_bits b) = 8"
  by (simp add: byte_bits_def)

lemma nth_byte_bits: "i < 8 \<Longrightarrow> byte_bits b ! i = bit b (7 - i)"
  by (simp add: byte_bits_def)

lemma and_bit: "(b AND push_bit n 1 \<noteq> 0) = bit b n" if "n < 8" for b :: "8 word"
proof -
  have "b AND push_bit n 1 = (if bit b n then push_bit n 1 else 0)"
    by (rule bit_word_eqI) (auto simp: bit_simps that)
  then show ?thesis using that by (simp add: push_bit_eq_0_iff)
qed

lemma istream_get_cases:
  obtains (eof) "br_stream br = []" "istream_get br = (-1, br\<lparr>br_eof := True\<rparr>)"
  | (byte) b bs where "br_stream br = b # bs" "istream_get br = (uint b, br\<lparr>br_stream := bs\<rparr>)"
  by (cases "br_stream br") (auto simp: istream_get_def)

lemma fetch_unstuff:
  assumes "reader_ok br"
  shows "(case unstuff (br_buffer br) (br_stream br) of
      [] \<Rightarrow> br_eof (fetch br)
    | b # bs \<Rightarrow> \<not> br_eof (fetch br) \<and> br_buffer (fetch br) = b \<and> reader_ok (fetch br) \<and>
        unstuff b (br_stream (fetch br)) = bs \<and> br_ptr (fetch br) = br_ptr br)"
proof -
  have eof: "\<not> br_eof br" if "br_stream br \<noteq> []" using assms that by (auto simp: reader_ok_def)
  show ?thesis using assms eof
    by (cases "(br_buffer br, br_stream br)" rule: unstuff.cases)
      (auto simp: fetch_def istream_get_def Let_def reader_ok_def split: list.splits)
qed

text \<open>One call of \<open>GetBit\<close> takes one bit off the bits that are left, and fails when none is.\<close>

lemma GetBit_bits:
  assumes "reader_ok br"
  shows "(case bits_left br of
      [] \<Rightarrow> GetBit br = Inl (invalid_argument ''no more bits'')
    | b # bs \<Rightarrow> \<exists>br'. GetBit br = Inr (b, br') \<and> bits_left br' = bs \<and> reader_ok br')"
proof (cases "br_ptr br = 0")
  case True
  show ?thesis
  proof (cases "unstuff (br_buffer br) (br_stream br)")
    case Nil
    then show ?thesis using True fetch_unstuff [OF assms]
      by (simp add: bits_left_def GetBit_def Let_def)
  next
    case (Cons b bs)
    let ?br = "(fetch br)\<lparr>br_ptr := 1\<rparr>"
    have f: "\<not> br_eof (fetch br)" "br_buffer (fetch br) = b" "reader_ok (fetch br)"
      "unstuff b (br_stream (fetch br)) = bs" "br_ptr (fetch br) = 0"
      using fetch_unstuff [OF assms] Cons True by auto
    have "GetBit br = Inr (bit b 7, ?br)"
      using True f and_bit [of 7 b] by (simp add: GetBit_def Let_def)
    moreover have "bits_left br = bit b 7 # drop 1 (byte_bits b) @ concat (map byte_bits bs)"
      using Cons True by (simp add: bits_left_def byte_bits_def upt_rec)
    moreover have "bits_left ?br = drop 1 (byte_bits b) @ concat (map byte_bits bs)"
      using f by (simp add: bits_left_def)
    moreover have "reader_ok ?br" using f(3) by (simp add: reader_ok_def)
    ultimately show ?thesis by simp
  qed
next
  case False
  have p: "br_ptr br < 8" using assms by (simp add: reader_ok_def)
  let ?br = "br\<lparr>br_ptr := (br_ptr br + 1) mod 8\<rparr>"
  have "GetBit br = Inr (bit (br_buffer br) (7 - br_ptr br), ?br)"
    using False and_bit [of "7 - br_ptr br" "br_buffer br"] by (simp add: GetBit_def Let_def)
  moreover have "drop (br_ptr br) (byte_bits (br_buffer br)) =
      bit (br_buffer br) (7 - br_ptr br) # drop (Suc (br_ptr br)) (byte_bits (br_buffer br))"
    using Cons_nth_drop_Suc [of "br_ptr br" "byte_bits (br_buffer br)"] p nth_byte_bits [OF p] by simp
  moreover have "bits_left ?br = drop (Suc (br_ptr br)) (byte_bits (br_buffer br)) @
      concat (map byte_bits (unstuff (br_buffer br) (br_stream br)))"
    using p by (cases "br_ptr br = 7") (auto simp: bits_left_def)
  moreover have "reader_ok ?br" using assms by (simp add: reader_ok_def)
  ultimately show ?thesis using False by (simp add: bits_left_def)
qed

section \<open>Sources of bits\<close>

text \<open>What the loops that consume bits rely on: each call takes the next bit of those left, and fails
  exactly when none is left.\<close>

locale bit_source =
  fixes get :: "'s \<Rightarrow> 'e + bool \<times> 's" and left :: "'s \<Rightarrow> bool list" and good :: "'s \<Rightarrow> bool"
  assumes get_bit: "good s \<Longrightarrow> left s = b # bs \<Longrightarrow> \<exists>s'. get s = Inr (b, s') \<and> left s' = bs \<and> good s'"
    and get_end: "good s \<Longrightarrow> left s = [] \<Longrightarrow> \<exists>e. get s = Inl e"
begin

lemma more_bits_left:
  assumes "good s" and "n \<le> length (left s)"
  shows "\<exists>s'. more_bits get n r s = Inr (foldl (\<lambda>r b. push_bit 1 r OR of_bool b) r (take n (left s)), s') \<and>
    left s' = drop n (left s) \<and> good s'"
  using assms
proof (induction n arbitrary: r s)
  case (Suc n)
  then obtain b bs where l: "left s = b # bs" by (cases "left s") auto
  obtain s1 where s1: "get s = Inr (b, s1)" "left s1 = bs" "good s1"
    using get_bit [OF Suc.prems(1) l] by blast
  then show ?case using Suc.IH [OF s1(3), of "push_bit 1 r OR of_bool b"] Suc.prems(2) l by simp
qed simp

lemma more_bits_end:
  "good s \<Longrightarrow> length (left s) < n \<Longrightarrow> \<exists>e. more_bits get n r s = Inl e"
proof (induction n arbitrary: r s)
  case (Suc n)
  show ?case
  proof (cases "left s")
    case Nil
    then show ?thesis using get_end [OF Suc.prems(1)] by auto
  next
    case (Cons b bs)
    obtain s1 where "get s = Inr (b, s1)" "left s1 = bs" "good s1"
      using get_bit [OF Suc.prems(1) Cons] by blast
    then show ?thesis using Suc.IH [of s1] Suc.prems(2) Cons by simp
  qed
qed simp

end

lemma GetBit_source:
  "reader_ok br \<Longrightarrow> bits_left br = b # bs \<Longrightarrow> \<exists>br'. GetBit br = Inr (b, br') \<and> bits_left br' = bs \<and> reader_ok br'"
  "reader_ok br \<Longrightarrow> bits_left br = [] \<Longrightarrow> \<exists>e. GetBit br = Inl e"
  using GetBit_bits [of br] by auto

interpretation bits: bit_source GetBit bits_left reader_ok
  by unfold_locales (rule GetBit_source, assumption+)+

definition bits_value :: "bool list \<Rightarrow> int" where
  "bits_value bs = foldl (\<lambda>v b. 2 * v + of_bool b) 0 bs"

lemma bits_value_snoc: "bits_value (bs @ [b]) = 2 * bits_value bs + of_bool b"
  by (simp add: bits_value_def)

lemma bits_value_bounds: "0 \<le> bits_value bs \<and> bits_value bs < 2 ^ length bs"
proof (induction bs rule: rev_induct)
  case (snoc b bs)
  then show ?case by (auto simp: bits_value_snoc)
qed (simp add: bits_value_def)

lemma bits_value_Cons: "bits_value (b # bs) = of_bool b * 2 ^ length bs + bits_value bs"
  by (induction bs rule: rev_induct)
    (simp_all add: bits_value_def bits_value_snoc [unfolded bits_value_def] algebra_simps)

lemma word_bits_value:
  assumes "length bs \<le> 16"
  shows "uint (foldl (\<lambda>r b. push_bit 1 r OR of_bool b) (0 :: 16 word) bs) = bits_value bs"
  using assms
proof (induction bs rule: rev_induct)
  case (snoc b bs)
  let ?r = "foldl (\<lambda>r b. push_bit 1 r OR of_bool b) (0 :: 16 word) bs"
  have v: "uint ?r = bits_value bs" using snoc by simp
  have lt: "bits_value bs < 2 ^ 15"
  proof -
    have "bits_value bs < 2 ^ length bs" using bits_value_bounds by blast
    also have "\<dots> \<le> 2 ^ 15" using snoc.prems by (intro power_increasing) auto
    finally show ?thesis .
  qed
  have "push_bit 1 ?r + of_bool b = push_bit 1 ?r OR of_bool b"
  proof (rule disjunctive_add)
    show "\<not> bit (push_bit 1 ?r) n \<or> \<not> bit (of_bool b :: 16 word) n" for n
      unfolding bit_push_bit_iff bit_of_bool_iff by auto
  qed
  moreover have "push_bit 1 ?r = 2 * ?r" unfolding push_bit_eq_mult by (simp only: power_one_right mult.commute)
  ultimately have "push_bit 1 ?r OR of_bool b = 2 * ?r + of_bool b" by (simp only:)
  moreover have "uint (2 * ?r + of_bool b) = 2 * bits_value bs + of_bool b"
    using v lt bits_value_bounds [of bs] by (auto simp: uint_word_ariths)
  ultimately show ?case by (simp add: bits_value_snoc)
qed (simp add: bits_value_def)

lemma GetBits_bits:
  assumes "reader_ok br"
  shows "if cnt \<le> 16 \<and> cnt \<le> length (bits_left br)
    then \<exists>w br'. GetBits cnt br = Inr ((w, cnt = 0 \<or> hd (bits_left br)), br') \<and>
      uint w = bits_value (take cnt (bits_left br)) \<and> bits_left br' = drop cnt (bits_left br) \<and> reader_ok br'
    else \<exists>e. GetBits cnt br = Inl e"
proof (cases "cnt \<le> 16 \<and> cnt \<noteq> 0")
  case True
  then obtain n where cnt: "cnt = Suc n" by (cases cnt) auto
  show ?thesis
  proof (cases "bits_left br")
    case Nil
    then show ?thesis using GetBit_bits [OF assms] cnt by (simp add: GetBits_def)
  next
    case (Cons b bs)
    obtain br1 where g: "GetBit br = Inr (b, br1)" "bits_left br1 = bs" "reader_ok br1"
      using GetBit_bits [OF assms] Cons by auto
    show ?thesis
    proof (cases "n \<le> length bs")
      case n: True
      obtain br2 where m: "more_bits GetBit n (of_bool b) br1 =
          Inr (foldl (\<lambda>r b. push_bit 1 r OR of_bool b) (of_bool b) (take n bs), br2)"
        "bits_left br2 = drop n bs" "reader_ok br2"
        using bits.more_bits_left [OF g(3), of n "of_bool b"] n g(2) by auto
      have "foldl (\<lambda>r b. push_bit 1 r OR of_bool b) (of_bool b :: 16 word) (take n bs) =
          foldl (\<lambda>r b. push_bit 1 r OR of_bool b) 0 (b # take n bs)"
        by simp
      then have "uint (foldl (\<lambda>r b. push_bit 1 r OR of_bool b) (of_bool b :: 16 word) (take n bs)) =
          bits_value (take cnt (bits_left br))"
        using word_bits_value [of "b # take n bs"] True cnt n Cons by simp
      then show ?thesis using True cnt n Cons g(1) m by (simp add: GetBits_def)
    next
      case n: False
      then obtain e where "more_bits GetBit n (of_bool b) br1 = Inl e"
        using bits.more_bits_end [OF g(3), of n "of_bool b"] g(2) by auto
      then show ?thesis using True cnt n Cons g(1) by (simp add: GetBits_def)
    qed
  qed
qed (use assms in \<open>auto simp: GetBits_def bits_value_def\<close>)

section \<open>Properties\<close>

text \<open>\<open>GetBit\<close> reads the bits of the bytes of the stream, most significant first, leaving out the
  zero byte stuffed after \<open>0xff\<close>: each call returns the next of these bits, and throws exactly when
  none is left.\<close>

theorem GetBit_reads_bits:
  assumes "reader_ok br"
  shows "(case bits_left br of
      [] \<Rightarrow> GetBit br = Inl (invalid_argument ''no more bits'')
    | b # bs \<Rightarrow> \<exists>br'. GetBit br = Inr (b, br') \<and> bits_left br' = bs \<and> reader_ok br')"
  by (rule GetBit_bits [OF assms])

theorem GetBit_reads_bits_witness:
  "\<exists>br'. GetBit (BitReader_new [255, 0, 1]) = Inr (True, br') \<and>
     bits_left br' = replicate 7 True @ replicate 7 False @ [True]"
proof -
  have "bits_left (BitReader_new [255, 0, 1]) = True # replicate 7 True @ replicate 7 False @ [True]"
    by code_simp
  then show ?thesis using GetBit_reads_bits [OF reader_ok_new, of "[255, 0, 1]"] by auto
qed

text \<open>\<open>GetBits\<close> returns the number its bits spell, and its first bit, and throws when more than 16
  bits are asked for or fewer are left: nothing is lost in the 16-bit accumulator.\<close>

theorem GetBits_value:
  assumes "reader_ok br"
  shows "if cnt \<le> 16 \<and> cnt \<le> length (bits_left br)
    then \<exists>w br'. GetBits cnt br = Inr ((w, cnt = 0 \<or> hd (bits_left br)), br') \<and>
      uint w = bits_value (take cnt (bits_left br)) \<and> bits_left br' = drop cnt (bits_left br) \<and> reader_ok br'
    else \<exists>e. GetBits cnt br = Inl e"
  by (rule GetBits_bits [OF assms])

theorem GetBits_value_witness:
  "\<exists>w br'. GetBits 3 (BitReader_new [0b10100000]) = Inr ((w, True), br') \<and> uint w = 5"
proof -
  have "bits_left (BitReader_new [0b10100000]) = [True, False, True] @ replicate 5 False" by code_simp
  then show ?thesis using GetBits_value [OF reader_ok_new, of 3 "[0b10100000]"]
    by (auto simp: bits_value_def numeral_3_eq_3)
qed

end
