(* ===== verification/Huffman.thy ===== *)
theory Huffman
  imports BitReader
begin

text \<open>
  The Huffman tree of the JPEG decoder (\<open>tasks/jpeg-decoder/baseline/huffman.cpp\<close>; \<open>huffman/\<close> and
  \<open>faster/\<close> carry the same file). \<open>NoNode\<close> is the null pointer; the pointer into the tree that
  \<open>Move\<close> advances is the subtree it points to, as the tree does not change while it is used.
\<close>

section \<open>Trees\<close>

datatype Node = NoNode | Node "8 word" Node Node bool

record HuffmanTree =
  ht_tree :: Node
  ht_move :: Node

definition HuffmanTree_new :: HuffmanTree where
  "HuffmanTree_new = \<lparr>ht_tree = NoNode, ht_move = NoNode\<rparr>"

text \<open>\<open>std::make_unique<Node>()\<close> value-initialises the node.\<close>

definition make_Node :: Node where
  "make_Node = Node 0 NoNode NoNode False"

text \<open>
  \<open>Try\<close> returns whether it placed the value, the node it was called on and the counters. Reading
  \<open>cl[depth]\<close> past the end is undefined in C++ and \<open>BadIndex\<close> here.
\<close>

function Try :: "Node \<Rightarrow> 8 word \<Rightarrow> 8 word list \<Rightarrow> 8 word list \<Rightarrow> int \<Rightarrow>
    jpeg_error + bool \<times> Node \<times> 8 word list" where
  "Try NoNode value cl used depth = Inl NoTree"
| "Try (Node v left right leaf) value cl used depth =
     (if leaf then Inr (False, Node v left right leaf, used)
      else if depth \<ge> int (length cl) then Inl BadIndex
      else if depth \<ge> 0 \<and> cl ! nat depth \<noteq> used ! nat depth
      then Inr (True, Node value left right True, used[nat depth := used ! nat depth + 1])
      else ebind (Try (if left = NoNode then make_Node else left) value cl used (depth + 1))
             (\<lambda>(placed, left', used').
           if placed then Inr (True, Node v left' right leaf, used')
           else ebind (Try (if right = NoNode then make_Node else right) value cl used' (depth + 1))
                  (\<lambda>(placed', right', used'').
                Inr (placed', Node v left' right' leaf, used''))))"
  by pat_completeness auto
termination Try
  by (relation "measure (\<lambda>(t, v, cl, used, depth). nat (int (length cl) + 1 - depth))") auto

text \<open>The loop of \<open>Build\<close> over the values.\<close>

fun place_values :: "8 word list \<Rightarrow> 8 word list \<Rightarrow> Node \<Rightarrow> 8 word list \<Rightarrow> jpeg_error + Node \<times> 8 word list" where
  "place_values cl [] tree used = Inr (tree, used)"
| "place_values cl (value # values) tree used =
     ebind (Try tree value cl used (-1)) (\<lambda>(placed, tree', used').
       if \<not> placed then Inl (invalid_argument ''123'')
       else place_values cl values tree' used')"

definition Build :: "8 word list \<Rightarrow> 8 word list \<Rightarrow> jpeg_error + HuffmanTree" where
  "Build code_lengths values =
     (if length code_lengths > 16 then Inl (invalid_argument ''code lengths size is more than 16'')
      else if sum_list (map unat code_lengths) \<noteq> length values
      then Inl (invalid_argument ''incorrect values cnt'')
      else ebind (place_values code_lengths values make_Node (replicate (length code_lengths) 0))
             (\<lambda>(tree, used).
           if list_ex (\<lambda>i. used ! i \<noteq> code_lengths ! i) [0..<length code_lengths] then Inl (invalid_argument ''no'')
           else Inr \<lparr>ht_tree = tree, ht_move = tree\<rparr>))"

text \<open>\<open>Move\<close>: the value reached, if any, and the tree with its pointer advanced.\<close>

definition Move :: "bool \<Rightarrow> HuffmanTree \<Rightarrow> jpeg_error + 8 word option \<times> HuffmanTree" where
  "Move b h =
     (case ht_move h of
        NoNode \<Rightarrow> Inl (invalid_argument '''')
      | Node _ left right _ \<Rightarrow>
          (case (if b then right else left) of
             NoNode \<Rightarrow> Inl (invalid_argument '''')
           | Node v l r leaf \<Rightarrow>
               if leaf then Inr (Some v, h\<lparr>ht_move := ht_tree h\<rparr>)
               else Inr (None, h\<lparr>ht_move := Node v l r leaf\<rparr>)))"

lemma Move_smaller: "Move b h = Inr (None, h') \<Longrightarrow> size (ht_move h') < size (ht_move h)"
  by (auto simp: Move_def split: Node.splits if_splits)

text \<open>\<open>while (!tree.Move(reader.GetBit(), value)) {}\<close>, over the function that gets a bit.\<close>

function decode_value :: "('s \<Rightarrow> jpeg_error + bool \<times> 's) \<Rightarrow> HuffmanTree \<Rightarrow> 's \<Rightarrow>
    jpeg_error + 8 word \<times> HuffmanTree \<times> 's" where
  "decode_value get h s =
     ebind (get s) (\<lambda>(b, s').
     ebind (Move b h) (\<lambda>(result, h').
       case result of
         Some v \<Rightarrow> Inr (v, h', s')
       | None \<Rightarrow> decode_value get h' s'))"
  by pat_completeness auto
termination decode_value
  by (relation "measure (\<lambda>(get, h, s). size (ht_move h))") (auto dest: Move_smaller)

declare decode_value.simps [simp del]

section \<open>Codes\<close>

text \<open>The values of the leaves with the paths that lead to them, from left to right.\<close>

fun leaves :: "Node \<Rightarrow> (bool list \<times> 8 word) list" where
  "leaves NoNode = []"
| "leaves (Node v l r leaf) =
     (if leaf then [([], v)]
      else map (\<lambda>(p, v). (False # p, v)) (leaves l) @ map (\<lambda>(p, v). (True # p, v)) (leaves r))"

fun full :: "Node \<Rightarrow> bool" where
  "full NoNode = False"
| "full (Node v l r leaf) = (leaf \<or> full l \<and> full r)"

text \<open>Filled from the left, with no node below depth \<open>n\<close>.\<close>

fun packed :: "nat \<Rightarrow> Node \<Rightarrow> bool" where
  "packed n NoNode = True"
| "packed 0 (Node v l r leaf) = (l = NoNode \<and> r = NoNode)"
| "packed (Suc n) (Node v l r leaf) =
     (if leaf then l = NoNode \<and> r = NoNode
      else packed n l \<and> packed n r \<and> (r \<noteq> NoNode \<longrightarrow> full l))"

lemma packed_Suc: "packed n t \<Longrightarrow> packed (Suc n) t"
proof (induction n t rule: packed.induct)
  case (3 n v l r leaf)
  then show ?case by (auto split: if_splits)
qed auto

lemma packed_mono: "packed n t \<Longrightarrow> n \<le> m \<Longrightarrow> packed m t"
  by (induction m) (auto simp: le_Suc_eq packed_Suc)

lemma leaves_depth: "packed n t \<Longrightarrow> (p, v) \<in> set (leaves t) \<Longrightarrow> length p \<le> n"
proof (induction n t arbitrary: p rule: packed.induct)
  case (3 n v l r leaf)
  then show ?case by (fastforce split: if_splits)
qed (auto split: if_splits)

lemma full_leaves: "full t \<Longrightarrow> leaves t \<noteq> []"
  by (induction t) auto

text \<open>The path of the last leaf of a full tree is all ones.\<close>

lemma full_last:
  "full t \<Longrightarrow> bits_value (fst (last (leaves t))) + 1 = 2 ^ length (fst (last (leaves t)))"
proof (induction t)
  case (Node v l r leaf)
  show ?case
  proof (cases leaf)
    case False
    then have r: "full r" using Node.prems by simp
    have ne: "leaves r \<noteq> []" by (rule full_leaves [OF r])
    obtain p w where "last (leaves r) = (p, w)" by fastforce
    then show ?thesis using Node.IH(2) [OF r] False ne
      by (simp add: last_map bits_value_Cons)
  qed (simp add: bits_value_def)
qed simp

text \<open>The code that follows a code: the standard adds one and shifts to the new length.\<close>

definition next_code :: "bool list \<Rightarrow> bool list \<Rightarrow> bool" where
  "next_code p q \<longleftrightarrow> length p \<le> length q \<and>
     bits_value q = (bits_value p + 1) * 2 ^ (length q - length p)"

definition follows :: "(bool list \<times> 8 word) list \<Rightarrow> bool list \<Rightarrow> bool" where
  "follows ls q \<longleftrightarrow> (if ls = [] then bits_value q = 0 else next_code (fst (last ls)) q)"

lemma leaves_make_Node [simp]: "leaves make_Node = []" "packed n make_Node" "\<not> full make_Node"
  "make_Node \<noteq> NoNode"
  by (simp_all add: make_Node_def) (cases n, simp_all)


lemma next_code_Cons_same: "next_code p q \<Longrightarrow> next_code (b # p) (b # q)"
proof -
  assume n: "next_code p q"
  then have "(2::int) ^ length q = 2 ^ length p * 2 ^ (length q - length p)"
    by (simp add: next_code_def flip: power_add)
  then show ?thesis using n by (simp add: next_code_def bits_value_Cons algebra_simps)
qed

lemma next_code_left_right:
  assumes "bits_value p + 1 = 2 ^ length p" and "length p \<le> length q" and "bits_value q = 0"
  shows "next_code (False # p) (True # q)"
proof -
  have "(2::int) ^ length q = 2 ^ length p * 2 ^ (length q - length p)"
    using assms(2) by (simp flip: power_add)
  then show ?thesis using assms by (simp add: next_code_def bits_value_Cons)
qed

lemma follows_left: "follows ls p \<Longrightarrow> follows (map (\<lambda>(p, v). (False # p, v)) ls) (False # p)"
  by (auto simp: follows_def last_map next_code_Cons_same bits_value_Cons split: prod.splits if_splits)

lemma follows_right:
  assumes "full l" and "packed n l" and "length p = n" and "follows rs p"
  shows "follows (map (\<lambda>(p, v). (False # p, v)) (leaves l) @ map (\<lambda>(p, v). (True # p, v)) rs) (True # p)"
proof (cases "rs = []")
  case True
  obtain q w where q: "last (leaves l) = (q, w)" by fastforce
  have "(q, w) \<in> set (leaves l)" using last_in_set [OF full_leaves [OF assms(1)]] q by simp
  then have "length q \<le> length p" using leaves_depth [OF assms(2)] assms(3) by auto
  moreover have "bits_value q + 1 = 2 ^ length q" using full_last [OF assms(1)] q by simp
  ultimately show ?thesis using True assms(4) full_leaves [OF assms(1)] q
    by (simp add: follows_def last_map next_code_left_right)
next
  case False
  then show ?thesis using assms(4)
    by (auto simp: follows_def last_map next_code_Cons_same split: prod.splits)
qed

section \<open>Placing one value\<close>

text \<open>\<open>level cl used M\<close>: the codes of fewer than \<open>M\<close> bits are all given out, those of \<open>M\<close> bits are not.\<close>

definition level :: "8 word list \<Rightarrow> 8 word list \<Rightarrow> nat \<Rightarrow> bool" where
  "level cl used M \<longleftrightarrow> 0 < M \<and> M \<le> length cl \<and> cl ! (M - 1) \<noteq> used ! (M - 1) \<and>
     (\<forall>i < M - 1. cl ! i = used ! i)"

definition tried :: "Node \<Rightarrow> 8 word \<Rightarrow> 8 word list \<Rightarrow> nat \<Rightarrow> nat \<Rightarrow> jpeg_error + bool \<times> Node \<times> 8 word list \<Rightarrow> bool" where
  "tried t v used M n result \<longleftrightarrow>
     (if full t then result = Inr (False, t, used)
      else \<exists>t' p. result = Inr (True, t', used[M - 1 := used ! (M - 1) + 1]) \<and> packed n t' \<and> t' \<noteq> NoNode \<and>
        length p = n \<and> follows (leaves t) p \<and> leaves t' = leaves t @ [(p, v)])"

lemma leaves_or_new: "leaves (if t = NoNode then make_Node else t) = leaves t"
  "full (if t = NoNode then make_Node else t) = full t"
  "packed n (if t = NoNode then make_Node else t) = packed n t"
  "(if t = NoNode then make_Node else t) \<noteq> NoNode"
  by auto

lemma full_not_NoNode: "full t \<Longrightarrow> t \<noteq> NoNode"
  by auto

lemma Try_tried:
  assumes "level cl used M" and "k + n = M" and "packed n t" and "t \<noteq> NoNode"
  shows "tried t value used M n (Try t value cl used (int k - 1))"
  using assms
proof (induction n arbitrary: k t)
  case 0
  then obtain v leaf where t: "t = Node v NoNode NoNode leaf" by (cases t) auto
  have M: "0 < k" "k = M" "k \<le> length cl" "cl ! (k - 1) \<noteq> used ! (k - 1)" using 0 by (auto simp: level_def)
  then show ?case
    by (cases leaf) (auto simp: t tried_def follows_def bits_value_def nat_diff_distrib nat_1)
next
  case (Suc n)
  obtain v l r leaf where t: "t = Node v l r leaf" using Suc.prems(4) by (cases t) auto
  show ?case
  proof (cases leaf)
    case True
    then show ?thesis by (simp add: t tried_def)
  next
    case False
    let ?l = "if l = NoNode then make_Node else l" and ?r = "if r = NoNode then make_Node else r"
    have pk: "packed n l" "packed n r" "r \<noteq> NoNode \<Longrightarrow> full l" using Suc.prems(3) False t by auto
    have c: "\<not> int (length cl) \<le> int k - 1"
      "\<not> (0 \<le> int k - 1 \<and> cl ! nat (int k - 1) \<noteq> used ! nat (int k - 1))"
      using Suc.prems(1,2) by (cases k; auto simp: level_def)+
    have l: "tried ?l value used M n (Try ?l value cl used (int k - 1 + 1))"
      using Suc.IH [of "Suc k" ?l] Suc.prems(1,2) pk leaves_or_new by simp
    have r: "tried ?r value used M n (Try ?r value cl used (int k - 1 + 1))"
      using Suc.IH [of "Suc k" ?r] Suc.prems(1,2) pk leaves_or_new by simp
    have step: "Try t value cl used (int k - 1) =
        ebind (Try ?l value cl used (int k - 1 + 1))
             (\<lambda>(placed, left', used').
           if placed then Inr (True, Node v left' r leaf, used')
           else ebind (Try ?r value cl used' (int k - 1 + 1))
                  (\<lambda>(placed', right', used'').
                Inr (placed', Node v left' right' leaf, used'')))"
      unfolding t Try.simps if_not_P [OF False] if_not_P [OF c(1)] if_not_P [OF c(2)] ..
    show ?thesis
    proof (cases "full l")
      case fl: True
      then have "l \<noteq> NoNode" by auto
      then have s: "Try t value cl used (int k - 1) = ebind (Try ?r value cl used (int k - 1 + 1))
          (\<lambda>(placed', right', used''). Inr (placed', Node v l right' leaf, used''))"
        using step l fl by (simp add: tried_def)
      show ?thesis
      proof (cases "full r")
        case fr: True
        then have "r \<noteq> NoNode" by auto
        then show ?thesis using s r fl fr t False by (simp add: tried_def)
      next
        case fr: False
        then obtain r' p where "Try ?r value cl used (int k - 1 + 1) =
            Inr (True, r', used[M - 1 := used ! (M - 1) + 1])" "packed n r'" "r' \<noteq> NoNode" "length p = n"
            "follows (leaves r) p" "leaves r' = leaves r @ [(p, value)]"
          using r by (auto simp: tried_def leaves_or_new)
        then show ?thesis using s fl fr t False pk follows_right [OF fl pk(1), of p "leaves r"]
          by (auto simp: tried_def intro!: exI [of _ "True # p"])
      qed
    next
      case fl: False
      then obtain l' p where "Try ?l value cl used (int k - 1 + 1) =
          Inr (True, l', used[M - 1 := used ! (M - 1) + 1])" "packed n l'" "l' \<noteq> NoNode" "length p = n"
          "follows (leaves l) p" "leaves l' = leaves l @ [(p, value)]"
        using l by (auto simp: tried_def leaves_or_new)
      moreover have "r = NoNode" using pk(3) fl by auto
      ultimately show ?thesis using step fl t False pk follows_left [of "leaves l" p]
        by (auto simp: tried_def intro!: exI [of _ "False # p"])
    qed
  qed
qed


section \<open>Building the tree\<close>

text \<open>The lengths of the codes in the order of their values: \<open>cl ! i\<close> codes of \<open>i + 1\<close> bits.\<close>

definition code_sizes :: "8 word list \<Rightarrow> nat list" where
  "code_sizes cl = concat (map (\<lambda>i. replicate (unat (cl ! i)) (i + 1)) [0..<length cl])"

lemma length_code_sizes: "length (code_sizes cl) = sum_list (map unat cl)"
proof -
  have "length (code_sizes cl) = sum_list (map (\<lambda>i. unat (cl ! i)) [0..<length cl])"
    by (simp add: code_sizes_def length_concat comp_def)
  also have "map (\<lambda>i. unat (cl ! i)) [0..<length cl] = map unat cl"
    by (rule nth_equalityI) simp_all
  finally show ?thesis .
qed

lemma sorted_code_sizes: "sorted (code_sizes cl)"
proof -
  have "sorted (concat (map (\<lambda>i. replicate (f i) (i + 1)) [0..<n]))" for f :: "nat \<Rightarrow> nat" and n
    by (induction n) (auto simp: sorted_append)
  then show ?thesis by (simp add: code_sizes_def)
qed

lemma set_code_sizes: "l \<in> set (code_sizes cl) \<Longrightarrow> 0 < l \<and> l \<le> length cl"
  by (auto simp: code_sizes_def)

lemma count_code_sizes: "i < length cl \<Longrightarrow> count_list (code_sizes cl) (Suc i) = unat (cl ! i)"
proof -
  have c: "count_list (replicate m (x :: nat)) y = (if x = y then m else 0)" for m x y
    by (induction m) auto
  have "count_list (concat (map (\<lambda>i. replicate (f i) (i + 1)) [0..<n])) (Suc i) = (if i < n then f i else 0)"
    for f :: "nat \<Rightarrow> nat" and n
    by (induction n) (auto simp: c)
  then show "i < length cl \<Longrightarrow> ?thesis" by (simp add: code_sizes_def)
qed

text \<open>The share of the codes of 16 bits that the codes of these lengths take (Kraft's sum).\<close>

definition kraft :: "nat list \<Rightarrow> int" where
  "kraft ls = sum_list (map (\<lambda>l. 2 ^ (16 - l)) ls)"

lemma kraft_simps [simp]: "kraft [] = 0" "kraft (ls @ ms) = kraft ls + kraft ms"
  "kraft (l # ls) = 2 ^ (16 - l) + kraft ls"
  by (simp_all add: kraft_def)

lemma kraft_nonneg: "0 \<le> kraft ls"
  by (induction ls) auto

text \<open>The tree after \<open>k\<close> values.\<close>

definition built :: "8 word list \<Rightarrow> 8 word list \<Rightarrow> nat \<Rightarrow> Node \<Rightarrow> 8 word list \<Rightarrow> bool" where
  "built cl vs k t used \<longleftrightarrow>
     t \<noteq> NoNode \<and> length used = length cl \<and>
     (\<forall>i < length cl. unat (used ! i) = count_list (take k (code_sizes cl)) (Suc i)) \<and>
     packed (if k = 0 then 0 else code_sizes cl ! (k - 1)) t \<and>
     map (\<lambda>(p, v). length p) (leaves t) = take k (code_sizes cl) \<and>
     map snd (leaves t) = take k vs \<and>
     (\<forall>i < k. follows (take i (leaves t)) (fst (leaves t ! i)))"

lemma built_lengths:
  assumes "built cl vs k t used" and k: "k \<le> length (code_sizes cl)"
  shows "length (leaves t) = k" and "j < k \<Longrightarrow> length (fst (leaves t ! j)) = code_sizes cl ! j"
proof -
  have l: "map (\<lambda>(p, v). length p) (leaves t) = take k (code_sizes cl)" using assms(1) by (simp only: built_def)
  show len: "length (leaves t) = k" using arg_cong [OF l, of length] k by simp
  show "j < k \<Longrightarrow> length (fst (leaves t ! j)) = code_sizes cl ! j"
    using arg_cong [OF l, of "\<lambda>l. l ! j"] len by (simp split: prod.splits)
qed

lemma level_built:
  assumes "built cl vs k t used" and k: "k < length (code_sizes cl)"
  shows "level cl used (code_sizes cl ! k)"
proof -
  let ?L = "code_sizes cl"
  have M: "0 < ?L ! k" "?L ! k \<le> length cl" using set_code_sizes [OF nth_mem [OF k]] by auto
  have split: "?L = take k ?L @ ?L ! k # drop (Suc k) ?L" using k by (rule id_take_nth_drop)
  have cnt: "count_list ?L x = count_list (take k ?L) x + (if ?L ! k = x then 1 else 0) + count_list (drop (Suc k) ?L) x" for x
    using arg_cong [OF split, of "\<lambda>l. count_list l x"] by simp
  have ge: "?L ! k \<le> x" if "x \<in> set (drop (Suc k) ?L)" for x
    using sorted_code_sizes [of cl] that by (subst (asm) split) (simp add: sorted_append)
  have z: "count_list (drop (Suc k) ?L) x = 0" if "x < ?L ! k" for x
    using ge [of x] that by (auto simp: count_list_0_iff)
  have u: "unat (used ! i) = count_list (take k ?L) (Suc i)" if "i < length cl" for i
    using assms(1) that by (simp add: built_def)
  have "Suc (?L ! k - 1) = ?L ! k" "?L ! k - 1 < length cl" using M by auto
  then have "unat (cl ! (?L ! k - 1)) \<noteq> unat (used ! (?L ! k - 1))"
    using u [of "?L ! k - 1"] count_code_sizes [of "?L ! k - 1" cl] cnt [of "?L ! k"] by simp
  moreover have "unat (cl ! i) = unat (used ! i)" if i: "i < ?L ! k - 1" for i
  proof -
    have "Suc i < ?L ! k" "i < length cl" using i M by auto
    then show ?thesis using u [of i] count_code_sizes [of i cl] cnt [of "Suc i"] z [of "Suc i"] by simp
  qed
  ultimately show ?thesis using M by (auto simp: level_def word_unat_eq_iff)
qed

lemma Try_built:
  assumes b: "built cl vs k t used" and k: "k < length vs" "length vs = length (code_sizes cl)"
  shows "if full t then Try t (vs ! k) cl used (-1) = Inr (False, t, used)
    else \<exists>t' used'. Try t (vs ! k) cl used (-1) = Inr (True, t', used') \<and> built cl vs (Suc k) t' used'"
proof -
  let ?M = "code_sizes cl ! k"
  have lv: "level cl used ?M" using level_built [OF b] k by simp
  have "packed ?M t"
  proof (rule packed_mono)
    show "packed (if k = 0 then 0 else code_sizes cl ! (k - 1)) t" using b by (simp add: built_def)
    show "(if k = 0 then 0 else code_sizes cl ! (k - 1)) \<le> ?M"
      using sorted_nth_mono [OF sorted_code_sizes, of "k - 1" k cl] k by simp
  qed
  then have tr: "tried t (vs ! k) used ?M ?M (Try t (vs ! k) cl used (-1))"
    using Try_tried [OF lv, of 0 ?M t "vs ! k"] b by (simp add: built_def)
  show ?thesis
  proof (cases "full t")
    case True
    then show ?thesis using tr by (simp add: tried_def)
  next
    case False
    let ?used = "used[?M - 1 := used ! (?M - 1) + 1]"
    obtain t' p where t': "Try t (vs ! k) cl used (-1) = Inr (True, t', ?used)"
      "packed ?M t'" "t' \<noteq> NoNode" "length p = ?M" "follows (leaves t) p"
      "leaves t' = leaves t @ [(p, vs ! k)]"
      using tr False by (auto simp: tried_def)
    have len: "length (leaves t) = k" using built_lengths(1) [OF b] k by simp
    have take: "take (Suc k) (code_sizes cl) = take k (code_sizes cl) @ [?M]" using k
      by (simp add: take_Suc_conv_app_nth)
    have M: "?M - 1 < length cl" "0 < ?M" using lv by (auto simp: level_def)
    have "unat (used ! (?M - 1)) < unat (cl ! (?M - 1))"
    proof -
      have "count_list (take k (code_sizes cl) @ ?M # drop (Suc k) (code_sizes cl)) ?M = unat (cl ! (?M - 1))"
        using count_code_sizes [of "?M - 1" cl] M id_take_nth_drop [of k "code_sizes cl"] k by simp
      then show ?thesis using b M by (simp add: built_def)
    qed
    then have inc: "unat (used ! (?M - 1) + 1) = unat (used ! (?M - 1)) + 1"
      using unsigned_less [where w = "cl ! (?M - 1)" and 'a = nat] by (simp add: unat_word_ariths)
    have "built cl vs (Suc k) t' ?used"
      unfolding built_def
    proof (intro conjI allI impI)
      show "unat (?used ! i) = count_list (take (Suc k) (code_sizes cl)) (Suc i)" if "i < length cl" for i
        using b that inc M by (auto simp: take built_def nth_list_update)
      show "follows (take i (leaves t')) (fst (leaves t' ! i))" if "i < Suc k" for i
        using b that t'(5,6) len by (auto simp: built_def nth_append less_Suc_eq)
    qed (use b t' k take in \<open>auto simp: built_def take_Suc_conv_app_nth\<close>)
    then show ?thesis using False t'(1) by auto
  qed
qed


lemma built_code:
  assumes b: "built cl vs k t used" and "length cl \<le> 16" and "i < k" and k: "k \<le> length (code_sizes cl)"
  shows "bits_value (fst (leaves t ! i)) * 2 ^ (16 - code_sizes cl ! i) = kraft (take i (code_sizes cl)) \<and>
    length (fst (leaves t ! i)) = code_sizes cl ! i"
  using \<open>i < k\<close>
proof (induction i)
  case 0
  then show ?case using b k built_lengths [OF b k] by (auto simp: built_def follows_def)
next
  case (Suc i)
  let ?L = "code_sizes cl" and ?c = "\<lambda>i. fst (leaves t ! i)"
  note len = built_lengths(1) [OF b k] and l = built_lengths(2) [OF b k]
  have "follows (take (Suc i) (leaves t)) (?c (Suc i))" using b Suc.prems by (simp add: built_def)
  then have "next_code (?c i) (?c (Suc i))"
    using Suc.prems len by (auto simp: follows_def take_Suc_conv_app_nth)
  then have n: "?L ! i \<le> ?L ! Suc i" "bits_value (?c (Suc i)) = (bits_value (?c i) + 1) * 2 ^ (?L ! Suc i - ?L ! i)"
    using Suc.prems by (auto simp: next_code_def l)
  have "?L ! Suc i \<le> 16"
    using set_code_sizes [of "?L ! Suc i" cl] Suc.prems k assms(2) by (simp add: nth_mem)
  then have "(2 :: int) ^ (16 - ?L ! i) = 2 ^ (?L ! Suc i - ?L ! i) * 2 ^ (16 - ?L ! Suc i)"
    using n(1) by (simp flip: power_add)
  then have "bits_value (?c (Suc i)) * 2 ^ (16 - ?L ! Suc i) =
      (bits_value (?c i) + 1) * 2 ^ (16 - ?L ! i)"
    using n(2) by simp
  also have "\<dots> = kraft (take (Suc i) ?L)"
    using Suc k by (simp add: take_Suc_conv_app_nth algebra_simps)
  finally show ?case using Suc.prems l by simp
qed

lemma kraft_built:
  assumes b: "built cl vs k t used" and "length cl \<le> 16" and k: "k \<le> length (code_sizes cl)"
  shows "kraft (take k (code_sizes cl)) \<le> 2 ^ 16" and "full t \<Longrightarrow> kraft (take k (code_sizes cl)) = 2 ^ 16"
proof -
  let ?L = "code_sizes cl" and ?p = "fst (leaves t ! (k - 1))"
  note len = built_lengths(1) [OF b k]
  have *: "kraft (take k ?L) = (bits_value ?p + 1) * 2 ^ (16 - length ?p) \<and> length ?p \<le> 16" if "0 < k"
  proof -
    have c: "bits_value ?p * 2 ^ (16 - ?L ! (k - 1)) = kraft (take (k - 1) ?L)" "length ?p = ?L ! (k - 1)"
      using built_code [OF b assms(2), of "k - 1"] that k by auto
    have "kraft (take k ?L) = kraft (take (k - 1) ?L) + 2 ^ (16 - ?L ! (k - 1))"
      using take_Suc_conv_app_nth [of "k - 1" ?L] that k by simp
    moreover have "?L ! (k - 1) \<le> 16"
      using set_code_sizes [of "?L ! (k - 1)" cl] that k assms(2) by (simp add: nth_mem)
    ultimately show ?thesis using c by (simp add: algebra_simps)
  qed
  have exp: "(2 :: int) ^ length ?p * 2 ^ (16 - length ?p) = 2 ^ 16" if "length ?p \<le> 16"
    using that by (simp flip: power_add)
  show "kraft (take k ?L) \<le> 2 ^ 16"
  proof (cases "0 < k")
    case True
    have "bits_value ?p + 1 \<le> 2 ^ length ?p" using bits_value_bounds [of ?p] by simp
    then have "(bits_value ?p + 1) * 2 ^ (16 - length ?p) \<le> 2 ^ length ?p * 2 ^ (16 - length ?p)"
      by (rule mult_right_mono) simp
    then show ?thesis using * [OF True] exp by linarith
  qed simp
  assume "full t"
  then have "0 < k" "bits_value ?p + 1 = 2 ^ length ?p"
    using full_last [of t] full_leaves [of t] len by (auto simp: last_conv_nth)
  then show "kraft (take k ?L) = 2 ^ 16" using * exp by simp
qed

lemma place_values_built:
  assumes "built cl vs k t used" and "length cl \<le> 16"
    and "k \<le> length vs" and n: "length vs = length (code_sizes cl)"
  shows "if kraft (code_sizes cl) \<le> 2 ^ 16
    then \<exists>t' used'. place_values cl (drop k vs) t used = Inr (t', used') \<and> built cl vs (length vs) t' used'
    else place_values cl (drop k vs) t used = Inl (invalid_argument ''123'')"
  using assms(1,3)
proof (induction "length vs - k" arbitrary: k t used)
  case 0
  then show ?case using kraft_built(1) [OF 0(2) assms(2)] n by auto
next
  case (Suc m)
  then have k: "k < length vs" by simp
  then have d: "drop k vs = vs ! k # drop (Suc k) vs" by (simp add: Cons_nth_drop_Suc)
  note tr = Try_built [OF Suc.prems(1) k n]
  show ?case
  proof (cases "full t")
    case True
    then have "kraft (take k (code_sizes cl)) = 2 ^ 16" using kraft_built(2) [OF Suc.prems(1) assms(2)] k n by simp
    moreover have "kraft (code_sizes cl) = kraft (take k (code_sizes cl)) + 2 ^ (16 - code_sizes cl ! k) +
        kraft (drop (Suc k) (code_sizes cl))"
      using arg_cong [OF id_take_nth_drop [of k "code_sizes cl"], of kraft] k n by simp
    ultimately have "\<not> kraft (code_sizes cl) \<le> 2 ^ 16"
      using kraft_nonneg [of "drop (Suc k) (code_sizes cl)"] by (simp add: not_le add_pos_nonneg)
    then show ?thesis using True tr d by simp
  next
    case False
    then obtain t' used' where "Try t (vs ! k) cl used (-1) = Inr (True, t', used')"
      "built cl vs (Suc k) t' used'" using tr by auto
    then show ?thesis using Suc.hyps(1) [of "Suc k" t' used'] Suc.hyps(2) k d by simp
  qed
qed

section \<open>Decoding\<close>

lemma leaves_Node: "(p, v) \<in> set (leaves (Node w l r leaf)) \<longleftrightarrow>
    (if leaf then p = [] \<and> v = w
     else \<exists>b q. p = b # q \<and> (q, v) \<in> set (leaves (if b then r else l)))"
  by force

text \<open>The loop that reads a code, over any source of bits that throws the decoder's errors.\<close>

locale code_source = bit_source get left good
  for get :: "'s \<Rightarrow> jpeg_error + bool \<times> 's" and left :: "'s \<Rightarrow> bool list" and good :: "'s \<Rightarrow> bool"
begin

text \<open>Reading the code of a leaf gives its value and rewinds the tree.\<close>

lemma decode_leaf:
  assumes "good s" and "left s = p @ rest" and "p \<noteq> []" and "(p, v) \<in> set (leaves (ht_move h))"
  shows "\<exists>s'. decode_value get h s = Inr (v, h\<lparr>ht_move := ht_tree h\<rparr>, s') \<and> left s' = rest \<and> good s'"
  using assms
proof (induction p arbitrary: h s)
  case (Cons b p)
  obtain s1 where s1: "get s = Inr (b, s1)" "left s1 = p @ rest" "good s1"
    using get_bit [of s b "p @ rest"] Cons.prems(1,2) by auto
  obtain w l r where m: "ht_move h = Node w l r False"
    using Cons.prems(4) by (cases "ht_move h") (auto split: if_splits)
  let ?t = "if b then r else l"
  have p: "(p, v) \<in> set (leaves ?t)" using Cons.prems(4) m by (auto split: if_splits)
  then obtain w' l' r' leaf where t: "?t = Node w' l' r' leaf" by (cases ?t) auto
  show ?case
  proof (cases leaf)
    case True
    then have "p = []" "v = w'" using p t by auto
    then show ?thesis using True s1 m t by (auto simp: decode_value.simps [of get h] Move_def)
  next
    case False
    then have "p \<noteq> []" using p t by (auto simp: leaves_Node)
    let ?h = "h\<lparr>ht_move := Node w' l' r' leaf\<rparr>"
    have "Move b h = Inr (None, ?h)" using m t False by (simp add: Move_def)
    then have "decode_value get h s = decode_value get ?h s1"
      using s1(1) by (simp add: decode_value.simps [of get h s])
    then show ?thesis using Cons.IH [OF s1(3,2) \<open>p \<noteq> []\<close>, of ?h] p t by auto
  qed
qed simp

end

interpretation codes: code_source GetBit bits_left reader_ok
  by unfold_locales

definition codes_of :: "HuffmanTree \<Rightarrow> (bool list \<times> 8 word) list" where
  "codes_of h = leaves (ht_tree h)"

lemma Build_result:
  "(\<exists>h. Build cl vs = Inr h \<and>
      length cl \<le> 16 \<and> sum_list (map unat cl) = length vs \<and> kraft (code_sizes cl) \<le> 2 ^ 16 \<and>
      ht_move h = ht_tree h \<and> map (\<lambda>(p, v). length p) (codes_of h) = code_sizes cl \<and>
      map snd (codes_of h) = vs \<and> (\<forall>i < length vs. follows (take i (codes_of h)) (fst (codes_of h ! i)))) \<or>
   (\<exists>msg. Build cl vs = Inl (invalid_argument msg) \<and>
      (length cl > 16 \<or> sum_list (map unat cl) \<noteq> length vs \<or> kraft (code_sizes cl) > 2 ^ 16))"
proof (cases "length cl \<le> 16 \<and> sum_list (map unat cl) = length vs")
  case True
  then have len: "length vs = length (code_sizes cl)" by (simp add: length_code_sizes)
  have "built cl vs 0 make_Node (replicate (length cl) 0)" by (simp add: built_def)
  note p = place_values_built [OF this _ _ len]
  show ?thesis
  proof (cases "kraft (code_sizes cl) \<le> 2 ^ 16")
    case k: True
    then obtain t used where t: "place_values cl vs make_Node (replicate (length cl) 0) = Inr (t, used)"
      "built cl vs (length vs) t used" using p True by auto
    have "used ! i = cl ! i" if "i < length cl" for i
      using t(2) that count_code_sizes [OF that] len by (simp add: built_def word_unat_eq_iff)
    then have "Build cl vs = Inr \<lparr>ht_tree = t, ht_move = t\<rparr>" using True t(1) by (simp add: Build_def list_ex_iff)
    then show ?thesis using t(2) True k len by (auto simp: built_def codes_of_def)
  next
    case False
    then show ?thesis using p True by (auto simp: Build_def)
  qed
qed (auto simp: Build_def)

section \<open>Properties\<close>

text \<open>C13. \<open>Build\<close> gives the values the canonical Huffman code of the JPEG standard: the \<open>i\<close>-th
  counter's values have codes of \<open>i + 1\<close> bits, in the order of the values; the first code is zero
  and each following one is its predecessor plus one, shifted to its length. It throws exactly when
  there are more than 16 counters, when they do not add up to the number of values, or when no such
  code exists because the Kraft sum of the lengths exceeds one; the counters are never read out of
  range and the check after the loop never fails.\<close>

theorem Build_canonical:
  "(\<exists>h. Build cl vs = Inr h \<and>
      length cl \<le> 16 \<and> sum_list (map unat cl) = length vs \<and> kraft (code_sizes cl) \<le> 2 ^ 16 \<and>
      ht_move h = ht_tree h \<and> map (\<lambda>(p, v). length p) (codes_of h) = code_sizes cl \<and>
      map snd (codes_of h) = vs \<and> (\<forall>i < length vs. follows (take i (codes_of h)) (fst (codes_of h ! i)))) \<or>
   (\<exists>msg. Build cl vs = Inl (invalid_argument msg) \<and>
      (length cl > 16 \<or> sum_list (map unat cl) \<noteq> length vs \<or> kraft (code_sizes cl) > 2 ^ 16))"
  by (rule Build_result)

theorem Build_canonical_witness:
  "(\<exists>h. Build [0, 2, 1] [7, 8, 9] = Inr h \<and> map (\<lambda>(p, v). length p) (codes_of h) = [2, 2, 3] \<and>
      map snd (codes_of h) = [7, 8, 9]) \<and>
   (\<exists>msg. Build [3] [7, 8, 9] = Inl (invalid_argument msg))"
proof -
  have sizes: "code_sizes [0, 2, 1] = [2, 2, 3]" "code_sizes [3] = [1, 1, 1]" by code_simp+
  have "\<not> kraft (code_sizes [0, 2, 1]) > 2 ^ 16" "\<not> kraft (code_sizes [3]) \<le> 2 ^ 16"
    unfolding sizes by simp_all
  moreover have "sum_list (map unat [0, 2, 1 :: 8 word]) = length [7, 8, 9 :: 8 word]" by simp
  ultimately have "\<exists>h. Build [0, 2, 1] [7, 8, 9] = Inr h \<and> map (\<lambda>(p, v). length p) (codes_of h) = code_sizes [0, 2, 1] \<and>
      map snd (codes_of h) = [7, 8, 9]" "\<exists>msg. Build [3] [7, 8, 9] = Inl (invalid_argument msg)"
    using Build_canonical [of "[0, 2, 1]" "[7, 8, 9]"] Build_canonical [of "[3]" "[7, 8, 9]"] by force+
  then show ?thesis unfolding sizes by blast
qed

text \<open>C10. What is decoded is what was encoded: after \<open>Build\<close>, for each value, reading its code off
  the bits of the stream returns this value, leaves the bits that follow the code, and rewinds the
  tree for the next code.\<close>

theorem decode_encoded:
  assumes "Build cl vs = Inr h" and "(p, v) \<in> set (codes_of h)"
    and "reader_ok br" and "bits_left br = p @ rest"
  shows "\<exists>br'. decode_value GetBit h br = Inr (v, h, br') \<and> bits_left br' = rest \<and> reader_ok br'"
proof -
  have h: "ht_move h = ht_tree h" "map (\<lambda>(p, v). length p) (codes_of h) = code_sizes cl"
    using Build_result [of cl vs] assms(1) by auto
  have "length p \<in> set (map (\<lambda>(p, v). length p) (codes_of h))" using assms(2) by force
  then have p: "p \<noteq> []" using h(2) set_code_sizes [of "length p" cl] by auto
  have "h\<lparr>ht_move := ht_tree h\<rparr> = h" using h(1) by (cases h) simp
  note d = codes.decode_leaf [OF assms(3,4) p, of v h, unfolded this]
  show ?thesis by (rule d) (use assms(2) h(1) in \<open>simp add: codes_of_def\<close>)
qed

text \<open>The table of the standard's example: codes \<open>00\<close>, \<open>01\<close>, \<open>100\<close>; the byte
  \<open>0x98\<close> is \<open>100\<close>, \<open>11000\<close>.\<close>

theorem decode_encoded_witness:
  "\<exists>h br'. Build [0, 2, 1] [7, 8, 9] = Inr h \<and>
     decode_value GetBit h (BitReader_new [0x98]) = Inr (9, h, br') \<and>
     bits_left br' = [True, True, False, False, False]"
proof -
  have "(case Build [0, 2, 1] [7, 8, 9] of Inl _ \<Rightarrow> False
      | Inr h \<Rightarrow> codes_of h = [([False, False], 7), ([False, True], 8), ([True, False, False], 9)])"
    by code_simp
  then obtain h where h: "Build [0, 2, 1] [7, 8, 9] = Inr h"
    "codes_of h = [([False, False], 7), ([False, True], 8), ([True, False, False], 9)]"
    by (auto split: sum.splits)
  have "bits_left (BitReader_new [0x98]) = [True, False, False] @ [True, True, False, False, False]"
    by code_simp
  then show ?thesis using decode_encoded [OF h(1), of "[True, False, False]" 9 "BitReader_new [0x98]"] h reader_ok_new
    by auto
qed

end
