(* ===== verification/JpegReader.thy ===== *)
theory JpegReader
  imports Huffman "HOL-Library.Signed_Division" "HOL-Library.Log_Nat"
begin

text \<open>
  The reader of the JPEG decoder (\<open>fields.h\<close>, \<open>fields.cpp\<close>, \<open>reader.h\<close> and \<open>reader.cpp\<close> of
  \<open>tasks/jpeg-decoder/baseline\<close>): the segments up to the start of the scan, and the scan, which
  decodes the coefficients of the blocks and multiplies them with the quantisation tables.

  The channels are 256 optionals, which the code also reads and writes through when they are
  disengaged (those of a grey image); a \<open>slot\<close> therefore is the flag and the storage, and what the
  storage holds at first is a parameter. The tables hold \<open>float\<close>s, all of them integers, and the
  products of a coefficient and an entry are rounded as \<open>float\<close>s are.
\<close>

section \<open>State\<close>

record Channel =
  ch_h :: "8 word"
  ch_v :: "8 word"
  ch_qtable_id :: "8 word"
  ch_dc_id :: "8 word"
  ch_ac_id :: "8 word"
  ch_h_sampling :: "8 word"
  ch_v_sampling :: "8 word"

record slot =
  engaged :: bool
  chan :: Channel

text \<open>The fields of type \<open>size_t\<close> are natural numbers below \<open>2 ^ 64\<close>.\<close>

record Stats =
  st_precision :: "8 word"
  st_width :: "16 word"
  st_height :: "16 word"
  st_h_max :: "16 word"
  st_v_max :: "16 word"
  st_mcu_width :: nat
  st_mcu_height :: nat
  st_img_width_in_mcu :: nat
  st_img_height_in_mcu :: nat
  st_img_mcu_cnt :: nat
  st_mcu_block_cnt :: nat
  st_img_block_cnt :: nat
  st_channel_cnt :: "8 word"
  st_channels :: "slot list"
  st_comment :: "8 word list"

type_synonym QuantTable = "int list"

record jpeg_reader =
  jr_bits :: bit_reader
  jr_qtables :: "QuantTable option list"
  jr_stats :: Stats
  jr_dc :: "HuffmanTree option list"
  jr_ac :: "HuffmanTree option list"

definition Channel_new :: Channel where
  "Channel_new = \<lparr>ch_h = 0, ch_v = 0, ch_qtable_id = 0, ch_dc_id = 0, ch_ac_id = 0,
     ch_h_sampling = 0, ch_v_sampling = 0\<rparr>"

text \<open>The numbers of \<open>Stats\<close> are not initialised by the code; \<open>Read\<close> writes each before it is read.\<close>

definition Stats_new :: "(nat \<Rightarrow> Channel) \<Rightarrow> Stats" where
  "Stats_new raw = \<lparr>st_precision = 0, st_width = 0, st_height = 0, st_h_max = 0, st_v_max = 0,
     st_mcu_width = 0, st_mcu_height = 0, st_img_width_in_mcu = 0, st_img_height_in_mcu = 0,
     st_img_mcu_cnt = 0, st_mcu_block_cnt = 0, st_img_block_cnt = 0, st_channel_cnt = 0,
     st_channels = map (\<lambda>i. \<lparr>engaged = False, chan = raw i\<rparr>) [0..<256], st_comment = []\<rparr>"

definition JpegReader_new :: "(nat \<Rightarrow> Channel) \<Rightarrow> bit_reader \<Rightarrow> jpeg_reader" where
  "JpegReader_new raw br = \<lparr>jr_bits = br, jr_qtables = replicate 16 None, jr_stats = Stats_new raw,
     jr_dc = replicate 16 None, jr_ac = replicate 16 None\<rparr>"

section \<open>Access to the vectors\<close>

definition index_at :: "'a list \<Rightarrow> int \<Rightarrow> jpeg_error + 'a" where
  "index_at xs i = (if 0 \<le> i \<and> i < int (length xs) then Inr (xs ! nat i) else Inl BadIndex)"

definition pointee :: "'a option list \<Rightarrow> int \<Rightarrow> jpeg_error + 'a" where
  "pointee xs i = ebind (index_at xs i) (\<lambda>x. case x of None \<Rightarrow> Inl NoValue | Some y \<Rightarrow> Inr y)"

text \<open>\<open>stats_.channels_[i]->field = value\<close>, and the access that \<open>emplace\<close> makes.\<close>

definition on_stats :: "(Stats \<Rightarrow> Stats) \<Rightarrow> jpeg_reader \<Rightarrow> jpeg_reader" where
  "on_stats f jr = jr\<lparr>jr_stats := f (jr_stats jr)\<rparr>"

definition on_slot :: "nat \<Rightarrow> (slot \<Rightarrow> slot) \<Rightarrow> jpeg_reader \<Rightarrow> jpeg_reader" where
  "on_slot i f = on_stats (\<lambda>st. st\<lparr>st_channels := (st_channels st)[i := f (st_channels st ! i)]\<rparr>)"

definition on_channel :: "nat \<Rightarrow> (Channel \<Rightarrow> Channel) \<Rightarrow> jpeg_reader \<Rightarrow> jpeg_reader" where
  "on_channel i f = on_slot i (\<lambda>s. s\<lparr>chan := f (chan s)\<rparr>)"

definition emplace_channel :: "nat \<Rightarrow> jpeg_reader \<Rightarrow> jpeg_reader" where
  "emplace_channel i = on_slot i (\<lambda>s. \<lparr>engaged = True, chan = Channel_new\<rparr>)"

definition slot_at :: "jpeg_reader \<Rightarrow> nat \<Rightarrow> slot" where
  "slot_at jr i = st_channels (jr_stats jr) ! i"

text \<open>The reads of the bit reader, on the state of the JPEG reader.\<close>

definition byte :: "jpeg_reader \<Rightarrow> 8 word \<times> jpeg_reader" where
  "byte jr = (let (b, br) = GetByte (jr_bits jr) in (b, jr\<lparr>jr_bits := br\<rparr>))"

definition half_byte :: "jpeg_reader \<Rightarrow> 8 word \<times> jpeg_reader" where
  "half_byte jr = (let (b, br) = GetHalfByte (jr_bits jr) in (b, jr\<lparr>jr_bits := br\<rparr>))"

definition half_word :: "jpeg_reader \<Rightarrow> int \<times> jpeg_reader" where
  "half_word jr = (let (n, br) = GetHalfWord (jr_bits jr) in (n, jr\<lparr>jr_bits := br\<rparr>))"

definition get_bit :: "jpeg_reader \<Rightarrow> jpeg_error + bool \<times> jpeg_reader" where
  "get_bit jr = ebind (GetBit (jr_bits jr)) (\<lambda>(b, br). Inr (b, jr\<lparr>jr_bits := br\<rparr>))"

definition get_bits :: "nat \<Rightarrow> jpeg_reader \<Rightarrow> jpeg_error + (16 word \<times> bool) \<times> jpeg_reader" where
  "get_bits n jr = ebind (GetBits n (jr_bits jr)) (\<lambda>(r, br). Inr (r, jr\<lparr>jr_bits := br\<rparr>))"

primrec read_list :: "('s \<Rightarrow> 'a \<times> 's) \<Rightarrow> nat \<Rightarrow> 's \<Rightarrow> 'a list \<times> 's" where
  "read_list get 0 s = ([], s)"
| "read_list get (Suc n) s = (let (x, s1) = get s; (xs, s2) = read_list get n s1 in (x # xs, s2))"

section \<open>Segments\<close>

definition ReadComment :: "16 word \<Rightarrow> jpeg_reader \<Rightarrow> jpeg_reader" where
  "ReadComment sz jr = (let (bytes, jr') = read_list byte (unat sz) jr
     in on_stats (\<lambda>st. st\<lparr>st_comment := bytes\<rparr>) jr')"

definition ReadAPPn :: "16 word \<Rightarrow> jpeg_reader \<Rightarrow> jpeg_reader" where
  "ReadAPPn sz jr = snd (read_list byte (unat sz) jr)"

text \<open>A byte or what \<open>GetHalfWord\<close> returns, as a \<open>float\<close>, is itself.\<close>

definition read_qtable :: "jpeg_reader \<Rightarrow> jpeg_reader" where
  "read_qtable jr =
     (let (value_length, jr1) = half_byte jr; (ident, jr2) = half_byte jr1;
          (data, jr3) = (if value_length = 0
                         then let (bytes, s) = read_list byte 64 jr2 in (map uint bytes, s)
                         else read_list half_word 64 jr2)
      in jr3\<lparr>jr_qtables := (jr_qtables jr3)[unat ident := Some data]\<rparr>)"

function qtables_loop :: "nat \<Rightarrow> nat \<Rightarrow> jpeg_reader \<Rightarrow> nat \<times> jpeg_reader" where
  "qtables_loop sizei sz jr =
     (if sizei < sz then qtables_loop (sizei + (1 + 64)) sz (read_qtable jr) else (sizei, jr))"
  by pat_completeness auto
termination qtables_loop
  by (relation "measure (\<lambda>(sizei, sz, jr). sz - sizei)") auto

declare qtables_loop.simps [simp del]

definition ReadQTable :: "16 word \<Rightarrow> jpeg_reader \<Rightarrow> jpeg_error + jpeg_reader" where
  "ReadQTable sz jr =
     (let (sizei, jr') = qtables_loop 0 (unat sz) jr
      in if sizei \<noteq> unat sz then Inl (invalid_argument ''incorrect size'') else Inr jr')"

definition sz_t :: "int \<Rightarrow> nat" where
  "sz_t x = nat (x mod 2 ^ 64)"

text \<open>The body of the loop over the channels, with \<open>h_max\<close> and \<open>v_max\<close>.\<close>

definition read_channel :: "jpeg_reader \<times> int \<times> int \<Rightarrow> jpeg_error + jpeg_reader \<times> int \<times> int" where
  "read_channel = (\<lambda>(jr, h_max, v_max).
     let (ident, jr1) = byte jr; (h, jr2) = half_byte jr1; (v, jr3) = half_byte jr2;
         jr4 = on_channel (unat ident) (\<lambda>c. c\<lparr>ch_h := h, ch_v := v\<rparr>) (emplace_channel (unat ident) jr3)
     in if (h \<noteq> 1 \<and> h \<noteq> 2) \<or> (v \<noteq> 1 \<and> v \<noteq> 2)
        then Inl (invalid_argument ''h/v sampling factor is incorrect'')
        else let jr5 = on_stats (\<lambda>st. st\<lparr>st_mcu_block_cnt := sz_t (int (st_mcu_block_cnt st) + uint h * uint v)\<rparr>) jr4;
                 (qtable_id, jr6) = byte jr5
             in Inr (on_channel (unat ident) (\<lambda>c. c\<lparr>ch_qtable_id := qtable_id\<rparr>) jr6,
                     if h_max < uint h then uint h else h_max, if v_max < uint v then uint v else v_max))"

definition set_sampling :: "int \<Rightarrow> int \<Rightarrow> jpeg_reader \<Rightarrow> nat \<Rightarrow> jpeg_error + jpeg_reader" where
  "set_sampling h_max v_max jr i =
     (let c = chan (slot_at jr i)
      in if \<not> engaged (slot_at jr i) then Inr (on_channel i (\<lambda>c. c\<lparr>ch_h_sampling := 1, ch_v_sampling := 1\<rparr>) jr)
         else if ch_h c = 0 \<or> ch_v c = 0 then Inl ZeroDivision
         else Inr (on_channel i (\<lambda>c. c\<lparr>ch_h_sampling := word_of_int (h_max sdiv sint (ch_h c)),
                                       ch_v_sampling := word_of_int (v_max sdiv sint (ch_v c))\<rparr>) jr))"

definition div_up :: "nat \<Rightarrow> nat \<Rightarrow> nat" where
  "div_up a b = sz_t (int (a div b + (if a mod b \<noteq> 0 then 1 else 0)))"

definition set_mcus :: "int \<Rightarrow> int \<Rightarrow> Stats \<Rightarrow> Stats" where
  "set_mcus h_max v_max st =
     (let mcu_width = sz_t (h_max * 8); mcu_height = sz_t (v_max * 8);
          in_width = div_up (sz_t (sint (st_width st))) mcu_width;
          in_height = div_up (sz_t (sint (st_height st))) mcu_height;
          mcu_cnt = sz_t (int (in_width * in_height))
      in st\<lparr>st_h_max := word_of_int h_max, st_v_max := word_of_int v_max,
            st_mcu_width := mcu_width, st_mcu_height := mcu_height,
            st_img_width_in_mcu := in_width, st_img_height_in_mcu := in_height,
            st_img_mcu_cnt := mcu_cnt, st_img_block_cnt := sz_t (int (mcu_cnt * st_mcu_block_cnt st))\<rparr>)"

definition ReadStats :: "16 word \<Rightarrow> jpeg_reader \<Rightarrow> jpeg_error + jpeg_reader" where
  "ReadStats sz jr =
     (let (precision, jr1) = byte jr; (height, jr2) = half_word jr1; (width, jr3) = half_word jr2;
          (channel_cnt, jr4) = byte jr3; sz' = sz - 6;
          jr5 = on_stats (\<lambda>st. st\<lparr>st_precision := precision, st_height := word_of_int height,
                                  st_width := word_of_int width, st_channel_cnt := channel_cnt\<rparr>) jr4
      in if 1 > sint channel_cnt \<or> sint channel_cnt > 3 then Inl (invalid_argument ''incorrect channel cnt'')
         else if int (unat sz' div 3) \<noteq> sint channel_cnt then Inl (invalid_argument ''incorrect channel cnt'')
         else ebind (efold (\<lambda>s i. read_channel s) (on_stats (\<lambda>st. st\<lparr>st_mcu_block_cnt := 0\<rparr>) jr5, 1, 1)
                [0..<unat sz' div 3]) (\<lambda>(jr6, h_max, v_max).
              ebind (efold (set_sampling h_max v_max) jr6 [1..<4]) (\<lambda>jr7.
              Inr (on_stats (set_mcus h_max v_max) jr7))))"

definition read_huffman :: "jpeg_reader \<Rightarrow> jpeg_error + nat \<times> jpeg_reader" where
  "read_huffman jr =
     (let (kclass, jr1) = half_byte jr; (ident, jr2) = half_byte jr1;
          (cnt, jr3) = read_list byte 16 jr2; (vals, jr4) = read_list byte (sum_list (map unat cnt)) jr3
      in ebind (Build cnt vals) (\<lambda>tree.
           Inr (1 + 16 + length vals,
                if kclass = 0 then jr4\<lparr>jr_dc := (jr_dc jr4)[unat ident := Some tree]\<rparr>
                else jr4\<lparr>jr_ac := (jr_ac jr4)[unat ident := Some tree]\<rparr>)))"

lemma read_huffman_adds: "read_huffman jr = Inr (n, jr') \<Longrightarrow> 0 < n"
  by (auto simp: read_huffman_def Let_def split: prod.splits)

function huffman_loop :: "nat \<Rightarrow> nat \<Rightarrow> jpeg_reader \<Rightarrow> jpeg_error + nat \<times> jpeg_reader" where
  "huffman_loop sizei sz jr =
     (if sizei < sz
      then ebind (read_huffman jr) (\<lambda>(n, jr'). huffman_loop (sizei + n) sz jr')
      else Inr (sizei, jr))"
  by pat_completeness auto
termination huffman_loop
  by (relation "measure (\<lambda>(sizei, sz, jr). sz - sizei)") (auto dest: read_huffman_adds)

declare huffman_loop.simps [simp del]

definition ReadHuffman :: "16 word \<Rightarrow> jpeg_reader \<Rightarrow> jpeg_error + jpeg_reader" where
  "ReadHuffman sz jr =
     ebind (huffman_loop 0 (unat sz) jr) (\<lambda>(sizei, jr').
       if sizei \<noteq> unat sz then Inl (invalid_argument ''incorrect size'') else Inr jr')"

definition check_channel :: "jpeg_reader \<Rightarrow> nat \<Rightarrow> jpeg_error + jpeg_reader" where
  "check_channel jr i =
     (let c = chan (slot_at jr i)
      in if \<not> engaged (slot_at jr i) then Inr jr
         else ebind (index_at (jr_qtables jr) (sint (ch_qtable_id c))) (\<lambda>qtable.
              if qtable = None then Inl (invalid_argument ''no qtable'')
              else ebind (index_at (jr_dc jr) (sint (ch_dc_id c))) (\<lambda>dc.
              if dc = None then Inl (invalid_argument ''no dc huffman'')
              else ebind (index_at (jr_ac jr) (sint (ch_ac_id c))) (\<lambda>ac.
              if ac = None then Inl (invalid_argument ''no dc huffman'') else Inr jr))))"

definition CheckFields :: "jpeg_reader \<Rightarrow> jpeg_error + jpeg_reader" where
  "CheckFields jr = efold check_channel jr [0..<4]"

definition scan_channel :: "jpeg_reader \<Rightarrow> jpeg_reader" where
  "scan_channel jr =
     (let (ident, jr1) = byte jr; (dc, jr2) = half_byte jr1; (ac, jr3) = half_byte jr2
      in on_channel (unat ident) (\<lambda>c. c\<lparr>ch_dc_id := dc, ch_ac_id := ac\<rparr>) jr3)"

definition ReadStartOfScan :: "16 word \<Rightarrow> jpeg_reader \<Rightarrow> jpeg_error + jpeg_reader" where
  "ReadStartOfScan sz jr =
     (let (channel_cnt, jr1) = byte jr; jr2 = (scan_channel ^^ unat channel_cnt) jr1;
          sz' = sz - 1 - word_of_nat (2 * unat channel_cnt);
          (a, jr3) = byte jr2; (b, jr4) = byte jr3; (c, jr5) = byte jr4
      in if a \<noteq> 0 \<or> b \<noteq> 63 \<or> c \<noteq> 0 then Inl (invalid_argument ''non-baseline coding'')
         else if sz' - 3 \<noteq> 0 then Inl (invalid_argument ''incorrect size'')
         else CheckFields jr5)"

text \<open>What one turn of the loop of \<open>Read\<close> does with the marker it read: whether the scan starts, and
  \<open>was_in_sof\<close>.\<close>

definition with_length :: "jpeg_reader \<Rightarrow> (16 word \<Rightarrow> jpeg_reader \<Rightarrow> 'a) \<Rightarrow> 'a" where
  "with_length jr f = (let (n, jr') = half_word jr in f (word_of_int (n - 2)) jr')"

definition segment :: "16 word \<Rightarrow> bool \<Rightarrow> jpeg_reader \<Rightarrow> jpeg_error + bool \<times> bool \<times> jpeg_reader" where
  "segment fl was_in_sof jr =
     (if fl = 0xffd8 then Inr (False, was_in_sof, jr)
      else if fl = 0xffd9 then Inl (invalid_argument ''END marker was visited to early'')
      else if fl = 0xfffe then Inr (False, was_in_sof, with_length jr ReadComment)
      else if fl = 0xffdb then ebind (with_length jr ReadQTable) (\<lambda>jr'. Inr (False, was_in_sof, jr'))
      else if fl = 0xffc0 then
        if was_in_sof then Inl (invalid_argument ''double sof'')
        else ebind (with_length jr ReadStats) (\<lambda>jr'. Inr (False, True, jr'))
      else if fl = 0xffc4 then ebind (with_length jr ReadHuffman) (\<lambda>jr'. Inr (False, was_in_sof, jr'))
      else if fl = 0xffda then ebind (with_length jr ReadStartOfScan) (\<lambda>jr'.
        if \<not> was_in_sof then Inl (invalid_argument (''wasn'' @ [CHR 0x27] @ ''t in sof'')) else Inr (True, was_in_sof, jr'))
      else if fl AND 0xfff0 = 0xffe0 then Inr (False, was_in_sof, with_length jr ReadAPPn)
      else Inl (invalid_argument ''no flag''))"

text \<open>Every turn consumes at least one byte: at the end of the file the marker read is \<open>0xffff\<close>.\<close>

definition bytes_left :: "jpeg_reader \<Rightarrow> nat" where
  "bytes_left jr = length (br_stream (jr_bits jr))"

lemma bytes_left_update [simp]: "bytes_left (on_stats f jr) = bytes_left jr"
  "bytes_left (on_slot i g jr) = bytes_left jr" "bytes_left (on_channel i k jr) = bytes_left jr"
  "bytes_left (emplace_channel i jr) = bytes_left jr"
  "bytes_left (jr\<lparr>jr_qtables := q\<rparr>) = bytes_left jr" "bytes_left (jr\<lparr>jr_dc := d\<rparr>) = bytes_left jr"
  "bytes_left (jr\<lparr>jr_ac := d\<rparr>) = bytes_left jr"
  by (simp_all add: bytes_left_def on_stats_def on_slot_def on_channel_def emplace_channel_def)

lemma istream_get_left: "istream_get br = (c, br') \<Longrightarrow> length (br_stream br') \<le> length (br_stream br)"
  by (auto simp: istream_get_def split: list.splits)

lemma bytes_left_byte: "byte jr = (b, jr') \<Longrightarrow> bytes_left jr' \<le> bytes_left jr"
  by (auto simp: byte_def GetByte_def bytes_left_def dest: istream_get_left split: prod.splits)

lemma bytes_left_half_byte: "half_byte jr = (b, jr') \<Longrightarrow> bytes_left jr' \<le> bytes_left jr"
  by (auto simp: half_byte_def GetHalfByte_def bytes_left_def Let_def dest!: istream_get_left
      split: prod.splits if_splits)

lemma bytes_left_half_word: "half_word jr = (n, jr') \<Longrightarrow> bytes_left jr' \<le> bytes_left jr"
  by (auto simp: half_word_def GetHalfWord_def bytes_left_def dest!: istream_get_left split: prod.splits)

lemma half_word_less: "half_word jr = (n, jr') \<Longrightarrow> n \<noteq> -1 \<Longrightarrow> bytes_left jr' < bytes_left jr"
  by (auto simp: half_word_def GetHalfWord_def bytes_left_def istream_get_def
      split: prod.splits list.splits)

lemma bytes_left_read_list:
  assumes "\<And>s x s'. get s = (x, s') \<Longrightarrow> bytes_left s' \<le> bytes_left s"
  shows "read_list get n s = (xs, s') \<Longrightarrow> bytes_left s' \<le> bytes_left s"
  by (induction n arbitrary: s xs s')
    (force simp: Let_def split: prod.splits dest: assms intro: le_trans)+

lemma bytes_left_read_lists:
  "read_list byte n jr = (bs, jr') \<Longrightarrow> bytes_left jr' \<le> bytes_left jr"
  "read_list half_word n jr = (ns, jr') \<Longrightarrow> bytes_left jr' \<le> bytes_left jr"
  by (erule bytes_left_read_list [rotated], erule bytes_left_byte bytes_left_half_word)+

lemmas bytes_left_reads = bytes_left_byte bytes_left_half_byte bytes_left_half_word bytes_left_read_lists

lemma bytes_left_ReadComment: "bytes_left (ReadComment sz jr) \<le> bytes_left jr"
  by (auto simp: ReadComment_def dest: bytes_left_reads split: prod.splits)

lemma bytes_left_ReadAPPn: "bytes_left (ReadAPPn sz jr) \<le> bytes_left jr"
  by (auto simp: ReadAPPn_def snd_def dest: bytes_left_reads split: prod.splits)

lemma bytes_left_read_qtable: "bytes_left (read_qtable jr) \<le> bytes_left jr"
  by (auto simp: read_qtable_def Let_def split: prod.splits if_splits dest!: bytes_left_reads)

lemma bytes_left_qtables_loop: "qtables_loop sizei sz jr = (n, jr') \<Longrightarrow> bytes_left jr' \<le> bytes_left jr"
proof (induction sizei sz jr arbitrary: n rule: qtables_loop.induct)
  case (1 sizei sz jr)
  then show ?case
    by (subst (asm) (2) qtables_loop.simps)
      (auto split: if_splits intro: le_trans [OF _ bytes_left_read_qtable])
qed

lemma bytes_left_ReadQTable: "ReadQTable sz jr = Inr jr' \<Longrightarrow> bytes_left jr' \<le> bytes_left jr"
  by (auto simp: ReadQTable_def dest: bytes_left_qtables_loop split: prod.splits if_splits)

lemma bytes_left_read_channel:
  "read_channel (jr, h, v) = Inr (jr', h', v') \<Longrightarrow> bytes_left jr' \<le> bytes_left jr"
  by (auto simp: read_channel_def Let_def split: prod.splits if_splits dest!: bytes_left_reads)

lemma bytes_left_ReadStats:
  assumes "ReadStats sz jr = Inr jr'"
  shows "bytes_left jr' \<le> bytes_left jr"
proof -
  have c: "bytes_left (fst s') \<le> bytes_left (fst s)" if "efold (\<lambda>s i. read_channel s) s xs = Inr s'" for s s' xs
    using that by (rule efold_invariant) (auto dest: bytes_left_read_channel)
  have "bytes_left s' = bytes_left s" if "efold (set_sampling h v) s xs = Inr s'" for s s' xs h v
    using that by (rule efold_invariant) (auto simp: set_sampling_def Let_def split: if_splits)
  then show ?thesis using assms
    by (fastforce simp: ReadStats_def Let_def split: prod.splits if_splits dest!: bytes_left_reads c)
qed

lemma bytes_left_read_huffman: "read_huffman jr = Inr (n, jr') \<Longrightarrow> bytes_left jr' \<le> bytes_left jr"
  by (auto simp: read_huffman_def Let_def split: prod.splits if_splits dest!: bytes_left_reads)

lemma bytes_left_huffman_loop: "huffman_loop sizei sz jr = Inr (n, jr') \<Longrightarrow> bytes_left jr' \<le> bytes_left jr"
proof (induction sizei sz jr arbitrary: n rule: huffman_loop.induct)
  case (1 sizei sz jr)
  then show ?case
    by (subst (asm) (2) huffman_loop.simps)
      (force split: if_splits dest: bytes_left_read_huffman intro: le_trans)
qed

lemma bytes_left_ReadHuffman: "ReadHuffman sz jr = Inr jr' \<Longrightarrow> bytes_left jr' \<le> bytes_left jr"
  by (auto simp: ReadHuffman_def dest: bytes_left_huffman_loop split: prod.splits if_splits)

lemma bytes_left_CheckFields: "CheckFields jr = Inr jr' \<Longrightarrow> jr' = jr"
  unfolding CheckFields_def
  by (erule efold_invariant) (auto simp: check_channel_def Let_def split: if_splits)

lemma bytes_left_ReadStartOfScan:
  assumes "ReadStartOfScan sz jr = Inr jr'"
  shows "bytes_left jr' \<le> bytes_left jr"
proof -
  have s: "bytes_left (scan_channel s) \<le> bytes_left s" for s
    by (auto simp: scan_channel_def Let_def split: prod.splits dest!: bytes_left_reads)
  have "bytes_left ((scan_channel ^^ n) s) \<le> bytes_left s" for n s
    by (induction n) (auto intro: le_trans [OF s])
  then show ?thesis using assms
    by (fastforce simp: ReadStartOfScan_def Let_def split: prod.splits if_splits
        dest!: bytes_left_reads bytes_left_CheckFields intro: le_trans)
qed

lemma bytes_left_segment: "segment fl was jr = Inr (fin, was', jr') \<Longrightarrow> bytes_left jr' \<le> bytes_left jr"
  by (auto simp: segment_def with_length_def split: if_splits prod.splits
      dest!: bytes_left_ReadQTable bytes_left_ReadStats bytes_left_ReadHuffman bytes_left_ReadStartOfScan
        bytes_left_half_word
      intro: le_trans [OF bytes_left_ReadComment] le_trans [OF bytes_left_ReadAPPn])

function Read :: "bool \<Rightarrow> jpeg_reader \<Rightarrow> jpeg_error + jpeg_reader" where
  "Read was_in_sof jr =
     (let (fl, jr1) = half_word jr
      in ebind (segment (word_of_int fl) was_in_sof jr1) (\<lambda>(done', was_in_sof', jr2).
           if done' then Inr jr2 else Read was_in_sof' jr2))"
  by pat_completeness auto
termination Read
proof (relation "measure (\<lambda>(was, jr). bytes_left jr)", goal_cases)
  case (2 was jr r n jr1 r' fin p was' jr2)
  then have h: "half_word jr = (n, jr1)" and s: "segment (word_of_int n) was jr1 = Inr (fin, was', jr2)" by auto
  have "n \<noteq> -1" using s by (auto simp: segment_def)
  then show ?case using half_word_less [OF h] bytes_left_segment [OF s] by simp
qed auto

declare Read.simps [simp del]

section \<open>The scan\<close>

text \<open>
  The conversion of an integer to the nearest \<open>float\<close> (24 significant bits, ties to even), the product
  of an \<open>int\<close> and a \<open>float\<close> that holds an integer, and the result of an operation of type \<open>int\<close>.
\<close>

definition round_float :: "int \<Rightarrow> int" where
  "round_float x =
     (let s = nat (bitlen \<bar>x\<bar>) - 24; q = \<bar>x\<bar> div 2 ^ s; r = \<bar>x\<bar> mod 2 ^ s
      in if s = 0 then x
         else sgn x * ((if 2 * r > 2 ^ s \<or> 2 * r = 2 ^ s \<and> odd q then q + 1 else q) * 2 ^ s))"

definition float_times :: "int \<Rightarrow> int \<Rightarrow> int" where
  "float_times a q = round_float (round_float a * q)"

definition as_int :: "int \<Rightarrow> jpeg_error + int" where
  "as_int x = (if - (2 ^ 31) \<le> x \<and> x < 2 ^ 31 then Inr x else Inl IntOverflow)"

text \<open>\<open>value - (1 << length) + 1\<close> for the numbers that start with a zero.\<close>

definition extend_sign :: "16 word \<times> bool \<Rightarrow> nat \<Rightarrow> int" where
  "extend_sign = (\<lambda>(w, first_bit) n. if first_bit then uint w else uint w - 2 ^ n + 1)"

fun channel_loop :: "slot list \<Rightarrow> nat \<Rightarrow> int \<Rightarrow> jpeg_error + nat" where
  "channel_loop [] ret index = Inl (invalid_argument '''')"
| "channel_loop (s # ss) ret index =
     (let index' = index - sint (ch_h (chan s)) * sint (ch_v (chan s))
      in if index' < 0 then if ret < 1 \<or> ret > 3 then Inl (int_thrown 12) else Inr ret
         else channel_loop ss (ret + 1) index')"

text \<open>The block number becomes an \<open>int\<close>, and \<open>index %= stats_.mcu_block_cnt_\<close> a \<open>size_t\<close> again.\<close>

definition ChannelNum :: "nat \<Rightarrow> jpeg_reader \<Rightarrow> jpeg_error + nat" where
  "ChannelNum j jr =
     (let index = sz_t (sint (word_of_nat j :: 32 word)); cnt = st_mcu_block_cnt (jr_stats jr)
      in if cnt = 0 then Inl ZeroDivision
         else channel_loop (drop 1 (st_channels (jr_stats jr))) 1 (int (index mod cnt)))"

text \<open>The DC coefficient of a block, and the last one of the channel.\<close>

definition scan_dc :: "int \<Rightarrow> int \<Rightarrow> int \<Rightarrow> jpeg_reader \<Rightarrow> jpeg_error + int \<times> int \<times> jpeg_reader" where
  "scan_dc huffman_id qtable_id last_dc jr =
     ebind (pointee (jr_dc jr) huffman_id) (\<lambda>tree.
     ebind (decode_value get_bit tree jr) (\<lambda>(v, tree', jr1).
     let jr2 = jr1\<lparr>jr_dc := (jr_dc jr1)[nat huffman_id := Some tree']\<rparr>
     in if v \<noteq> 0 then
          ebind (get_bits (unat v) jr2) (\<lambda>(bits, jr3).
          ebind (as_int (extend_sign bits (unat v) + last_dc)) (\<lambda>dc.
          ebind (pointee (jr_qtables jr3) qtable_id) (\<lambda>qtable.
          ebind (index_at qtable 0) (\<lambda>q. Inr (float_times dc q, dc, jr3)))))
        else
          ebind (pointee (jr_qtables jr2) qtable_id) (\<lambda>qtable.
          ebind (index_at qtable 0) (\<lambda>q. Inr (float_times last_dc q, last_dc, jr2)))))"

text \<open>The AC coefficients.\<close>

function scan_ac :: "int \<Rightarrow> int \<Rightarrow> nat \<Rightarrow> int list \<Rightarrow> jpeg_reader \<Rightarrow> jpeg_error + int list \<times> jpeg_reader" where
  "scan_ac huffman_id qtable_id i block jr =
     (if 64 \<le> i then Inr (block, jr)
      else ebind (pointee (jr_ac jr) huffman_id) (\<lambda>tree.
           ebind (decode_value get_bit tree jr) (\<lambda>(v, tree', jr1).
           let jr2 = jr1\<lparr>jr_ac := (jr_ac jr1)[nat huffman_id := Some tree']\<rparr>;
               (first_half, second_half) = Slice v; i' = i + unat first_half
           in if v = 0 then Inr (block, jr2)
              else ebind (get_bits (unat second_half) jr2) (\<lambda>(bits, jr3).
                   if i' > 64 then Inl (invalid_argument ''block overflow'')
                   else if i' = 64 then Inr (block, jr3)
                   else ebind (pointee (jr_qtables jr3) qtable_id) (\<lambda>qtable.
                        ebind (index_at qtable (int i')) (\<lambda>q.
                          scan_ac huffman_id qtable_id (i' + 1)
                            (block[i' := float_times (extend_sign bits (unat second_half)) q]) jr3))))))"
  by pat_completeness auto
termination scan_ac
  by (relation "measure (\<lambda>(huffman_id, qtable_id, i, block, jr). 64 - i)") auto

declare scan_ac.simps [simp del]

definition scan_block :: "nat \<Rightarrow> int list \<times> jpeg_reader \<Rightarrow> jpeg_error + int list \<times> int list \<times> jpeg_reader" where
  "scan_block j = (\<lambda>(last_dcs, jr).
     ebind (ChannelNum j jr) (\<lambda>channel_num.
     let c = chan (slot_at jr channel_num)
     in ebind (scan_dc (sint (ch_dc_id c)) (sint (ch_qtable_id c)) (last_dcs ! channel_num) jr) (\<lambda>(coef, dc, jr1).
        ebind (scan_ac (sint (ch_ac_id c)) (sint (ch_qtable_id c)) 1 ((replicate 64 0)[0 := coef]) jr1) (\<lambda>(block, jr2).
          Inr (block, last_dcs[channel_num := dc], jr2)))))"

text \<open>\<open>output.resize\<close> throws for more vectors than fit the address space.\<close>

definition max_blocks :: int where
  "max_blocks = (2 ^ 63 - 1) div 24"

fun scan_blocks :: "nat \<Rightarrow> nat \<Rightarrow> int list \<times> jpeg_reader \<Rightarrow> jpeg_error + int list list \<times> jpeg_reader" where
  "scan_blocks j 0 s = Inr ([], snd s)"
| "scan_blocks j (Suc n) s =
     ebind (scan_block j s) (\<lambda>(block, s').
     ebind (scan_blocks (j + 1) n s') (\<lambda>(blocks, jr'). Inr (block # blocks, jr')))"

definition Scan :: "jpeg_reader \<Rightarrow> jpeg_error + int list list \<times> jpeg_reader" where
  "Scan jr =
     (let n = st_img_block_cnt (jr_stats jr)
      in if int n > max_blocks then Inl length_error else scan_blocks 0 n (replicate 4 0, jr))"

definition CheckEnd :: "jpeg_reader \<Rightarrow> jpeg_error + jpeg_reader" where
  "CheckEnd jr = (let (n, jr') = half_word jr
     in if n \<noteq> 0xffd9 then Inl (invalid_argument ''no end marker'') else Inr jr')"

end
