(* ===== verification/Transforms.thy ===== *)
theory Transforms
  imports JpegReader "HOL-Library.Multiset"
begin

text \<open>
  From the coefficients to the image (\<open>transforms.cpp\<close>, \<open>fft.cpp\<close> and \<open>decoder.cpp\<close> of
  \<open>tasks/jpeg-decoder/baseline\<close>, \<open>utils/image.h\<close>). A \<open>double\<close> is a rational number; \<open>rnd\<close>, a
  parameter, rounds the exact result of an operation to a \<open>double\<close>, and \<open>fftw\<close>, another one, is the
  transform that \<open>fftw_execute\<close> computes.
\<close>

section \<open>Order of the coefficients\<close>

definition convert_i :: "nat list" where
  "convert_i = [0, 0, 1, 2, 1, 0, 0, 1, 2, 3, 4, 3, 2, 1, 0, 0,
                1, 2, 3, 4, 5, 6, 5, 4, 3, 2, 1, 0, 0, 1, 2, 3,
                4, 5, 6, 7, 7, 6, 5, 4, 3, 2, 1, 2, 3, 4, 5, 6,
                7, 7, 6, 5, 4, 3, 4, 5, 6, 7, 7, 6, 5, 6, 7, 7]"

definition convert_j :: "nat list" where
  "convert_j = [0, 1, 0, 0, 1, 2, 3, 2, 1, 0, 0, 1, 2, 3, 4, 5,
                4, 3, 2, 1, 0, 0, 1, 2, 3, 4, 5, 6, 7, 6, 5, 4,
                3, 2, 1, 0, 1, 2, 3, 4, 5, 6, 7, 7, 6, 5, 4, 3,
                2, 3, 4, 5, 6, 7, 7, 6, 5, 4, 5, 6, 7, 7, 6, 7]"

definition convert_block :: "int list \<Rightarrow> int list" where
  "convert_block block =
     fold (\<lambda>index output. output[convert_i ! index * 8 + convert_j ! index := block ! index]) [0..<64] (replicate 64 0)"

definition Convert :: "int list list \<Rightarrow> int list list" where
  "Convert vec = map convert_block vec"

section \<open>The inverse transform\<close>

definition SQRT_2 :: rat where
  "SQRT_2 = 141421356237 / 100000000000"

definition INVERSE_16 :: rat where
  "INVERSE_16 = 625 / 10000"

definition scale_at :: "(rat \<Rightarrow> rat) \<Rightarrow> rat \<Rightarrow> nat \<Rightarrow> rat list \<Rightarrow> rat list" where
  "scale_at rnd c i inp = inp[i := rnd (inp ! i * rnd c)]"

text \<open>\<open>Impl::Run\<close>.\<close>

definition Inverse :: "(rat \<Rightarrow> rat) \<Rightarrow> (rat list \<Rightarrow> rat list) \<Rightarrow> nat \<Rightarrow> rat list \<Rightarrow> rat list" where
  "Inverse rnd fftw width inp =
     (let in1 = fold (scale_at rnd SQRT_2) (map (\<lambda>k. k * width) [0..<width]) inp;
          in2 = fold (scale_at rnd SQRT_2) [0..<width] in1;
          in3 = fold (scale_at rnd INVERSE_16) [0..<width * width] in2
      in fftw in3)"

text \<open>The checks of the constructor of \<open>DctCalculator\<close>.\<close>

definition DctCalculator :: "nat \<Rightarrow> 'a list \<Rightarrow> 'b list \<Rightarrow> jpeg_error + unit" where
  "DctCalculator width inp out =
     (if length inp \<noteq> width * width \<or> length out \<noteq> width * width
      then Inl (invalid_argument ''Incorrect input/output size'')
      else if width < 1 then Inl (invalid_argument ''width is too low'') else Inr ())"

text \<open>\<open>static_cast<int>\<close> of a \<open>double\<close>.\<close>

definition cast_int :: "rat \<Rightarrow> jpeg_error + int" where
  "cast_int x = as_int (if 0 \<le> x then \<lfloor>x\<rfloor> else \<lceil>x\<rceil>)"

definition level_shift :: "rat \<Rightarrow> jpeg_error + int" where
  "level_shift x = ebind (cast_int x) (\<lambda>n.
     let m = n + 128; m' = (if m > 255 then 255 else m) in Inr (if m' < 0 then 0 else m'))"

definition DCTTransform :: "(rat \<Rightarrow> rat) \<Rightarrow> (rat list \<Rightarrow> rat list) \<Rightarrow> int list list \<Rightarrow> jpeg_error + int list list" where
  "DCTTransform rnd fftw vec =
     ebind (DctCalculator 8 (replicate 64 (0 :: rat)) (replicate 64 (0 :: rat))) (\<lambda>_.
       emap (\<lambda>block. emap level_shift (Inverse rnd fftw 8 (map of_int block))) vec)"

section \<open>Images\<close>

record RGB =
  r_of :: int
  g_of :: int
  b_of :: int

record Image =
  im_data :: "RGB list list"
  im_comment :: "8 word list"

definition RGB_zero :: RGB where
  "RGB_zero = \<lparr>r_of = 0, g_of = 0, b_of = 0\<rparr>"

definition Image_new :: "nat \<Rightarrow> nat \<Rightarrow> jpeg_error + Image" where
  "Image_new width height =
     (if int width > (2 ^ 63 - 1) div 12 \<or> int height > (2 ^ 63 - 1) div 24 then Inl length_error
      else Inr \<lparr>im_data = replicate height (replicate width RGB_zero), im_comment = []\<rparr>)"

definition Width :: "Image \<Rightarrow> nat" where
  "Width im = (case im_data im of [] \<Rightarrow> 0 | row # _ \<Rightarrow> length row)"

definition Height :: "Image \<Rightarrow> nat" where
  "Height im = length (im_data im)"

definition SetPixel :: "nat \<Rightarrow> nat \<Rightarrow> RGB \<Rightarrow> Image \<Rightarrow> Image" where
  "SetPixel y x pixel im = im\<lparr>im_data := (im_data im)[y := (im_data im ! y)[x := pixel]]\<rparr>"

definition GetPixel :: "nat \<Rightarrow> nat \<Rightarrow> Image \<Rightarrow> RGB" where
  "GetPixel y x im = im_data im ! y ! x"

definition SetComment :: "8 word list \<Rightarrow> Image \<Rightarrow> Image" where
  "SetComment comment im = im\<lparr>im_comment := comment\<rparr>"

definition clamp :: "int \<Rightarrow> int" where
  "clamp x = (let x' = (if x < 0 then 0 else x) in if x' > 255 then 255 else x')"

definition ToRGB :: "(rat \<Rightarrow> rat) \<Rightarrow> rat \<Rightarrow> rat \<Rightarrow> rat \<Rightarrow> jpeg_error + RGB" where
  "ToRGB rnd y cb cr =
     (let mul = (\<lambda>c x. rnd (rnd c * rnd (x - 128)))
      in ebind (cast_int (rnd (y + mul (1402 / 1000) cr))) (\<lambda>r.
         ebind (cast_int (rnd (rnd (y - mul (34414 / 100000) cb) - mul (71414 / 100000) cr))) (\<lambda>g.
         ebind (cast_int (rnd (y + mul (1772 / 1000) cb))) (\<lambda>b.
           Inr \<lparr>r_of = clamp r, g_of = clamp g, b_of = clamp b\<rparr>))))"

section \<open>Construction of the image\<close>

text \<open>\<open>input.at(b).at(k)\<close>.\<close>

definition sample_at :: "int list list \<Rightarrow> nat \<Rightarrow> nat \<Rightarrow> jpeg_error + int" where
  "sample_at input b k =
     (if b < length input \<and> k < length (input ! b) then Inr (input ! b ! k) else Inl out_of_range)"

definition div_nat :: "nat \<Rightarrow> nat \<Rightarrow> jpeg_error + nat" where
  "div_nat a b = (if b = 0 then Inl ZeroDivision else Inr (a div b))"

definition mod_nat :: "nat \<Rightarrow> nat \<Rightarrow> jpeg_error + nat" where
  "mod_nat a b = (if b = 0 then Inl ZeroDivision else Inr (a mod b))"

text \<open>The components of the pixel in row \<open>i\<close> and column \<open>j\<close>.\<close>

definition pixel_samples :: "int list list \<Rightarrow> Stats \<Rightarrow> nat \<Rightarrow> nat \<Rightarrow> jpeg_error + int \<times> int \<times> int" where
  "pixel_samples input st i j =
     (let c = (\<lambda>k. chan (st_channels st ! k)); present = (\<lambda>k. engaged (st_channels st ! k));
          h = (\<lambda>k. sint (ch_h (c k))); v = (\<lambda>k. sint (ch_v (c k)));
          h_max = sint (st_h_max st); v_max = sint (st_v_max st)
      in ebind (div_nat i (sz_t (v_max * 8))) (\<lambda>mcu_i.
         ebind (div_nat j (sz_t (h_max * 8))) (\<lambda>mcu_j.
         let mcu_index = sz_t (int (mcu_i * st_img_width_in_mcu st + mcu_j));
             block_index = sz_t (int (mcu_index * st_mcu_block_cnt st))
         in ebind (mod_nat (i div 8) (sz_t v_max)) (\<lambda>mcu_inner_i.
            ebind (mod_nat (j div 8) (sz_t h_max)) (\<lambda>mcu_inner_j.
            ebind (div_nat i (sz_t (sint (ch_v_sampling (c 1))))) (\<lambda>i_y.
            ebind (div_nat j (sz_t (sint (ch_h_sampling (c 1))))) (\<lambda>j_y.
            ebind (div_nat i (sz_t (sint (ch_v_sampling (c 2))))) (\<lambda>i_c.
            ebind (div_nat j (sz_t (sint (ch_h_sampling (c 2))))) (\<lambda>j_c.
            let offset_y = sz_t (int mcu_inner_i * h 1 + int mcu_inner_j);
                offset_cb = sz_t (h 1 * v 1);
                offset_cr = sz_t (h 2 * v 2 + h 1 * v 1);
                block = (\<lambda>offset. sz_t (int (block_index + offset)))
            in ebind (if present 1 then sample_at input (block offset_y) (i_y mod 8 * 8 + j_y mod 8) else Inr 0) (\<lambda>y.
               ebind (if present 2 then sample_at input (block offset_cb) (i_c mod 8 * 8 + j_c mod 8) else Inr 128) (\<lambda>cb.
               ebind (if present 3 then sample_at input (block offset_cr) (i_c mod 8 * 8 + j_c mod 8) else Inr 128) (\<lambda>cr.
                 Inr (y, cb, cr)))))))))))))"

definition set_pixel :: "(rat \<Rightarrow> rat) \<Rightarrow> int list list \<Rightarrow> Stats \<Rightarrow> nat \<Rightarrow> Image \<Rightarrow> nat \<Rightarrow> jpeg_error + Image" where
  "set_pixel rnd input st i im j =
     ebind (pixel_samples input st i j) (\<lambda>(y, cb, cr).
     ebind (ToRGB rnd (of_int y) (of_int cb) (of_int cr)) (\<lambda>rgb. Inr (SetPixel i j rgb im)))"

definition ConstructImage :: "(rat \<Rightarrow> rat) \<Rightarrow> int list list \<Rightarrow> Stats \<Rightarrow> Image \<Rightarrow> jpeg_error + Image" where
  "ConstructImage rnd input st im =
     efold (\<lambda>im i. efold (set_pixel rnd input st i) im [0..<Width im]) im [0..<Height im]"

section \<open>The decoder\<close>

definition Decode :: "(nat \<Rightarrow> Channel) \<Rightarrow> (rat \<Rightarrow> rat) \<Rightarrow> (rat list \<Rightarrow> rat list) \<Rightarrow> 8 word list \<Rightarrow> jpeg_error + Image" where
  "Decode raw rnd fftw input =
     ebind (Read False (JpegReader_new raw (BitReader_new input))) (\<lambda>jr1.
     ebind (Scan jr1) (\<lambda>(blocks, jr2).
     ebind (CheckEnd jr2) (\<lambda>jr3.
     ebind (DCTTransform rnd fftw (Convert blocks)) (\<lambda>samples.
     let st = jr_stats jr3
     in ebind (Image_new (sz_t (sint (st_width st))) (sz_t (sint (st_height st)))) (\<lambda>im.
        ConstructImage rnd samples st (SetComment (st_comment st) im))))))"

section \<open>Lemmas\<close>

lemma length_fold_update: "length (fold (\<lambda>k out. out[p k := f k]) ks out) = length out"
  by (induction ks arbitrary: out) simp_all

lemma fold_update_other:
  "q \<notin> p ` set ks \<Longrightarrow> fold (\<lambda>k out. out[p k := f k]) ks out ! q = out ! q"
  by (induction ks arbitrary: out) auto

lemma fold_update_nth:
  assumes "inj_on p (set ks)" and "distinct ks" and "k \<in> set ks" and "p k < length out"
  shows "fold (\<lambda>k out. out[p k := f k]) ks out ! p k = f k"
  using assms
proof (induction ks arbitrary: out)
  case (Cons a ks)
  show ?case
  proof (cases "k = a")
    case True
    then have "p k \<notin> p ` set ks" using Cons.prems by (auto simp: inj_on_def)
    then show ?thesis using True Cons.prems(4) fold_update_other [of "p k" p ks f "out[p a := f a]"] by simp
  qed (use Cons in \<open>auto simp: inj_on_def\<close>)
qed simp

text \<open>The zigzag order: up to the right on the even diagonals, down to the left on the odd ones, one step
  along the border where the block ends.\<close>

definition zigzag_next :: "nat \<times> nat \<Rightarrow> nat \<times> nat" where
  "zigzag_next = (\<lambda>(i, j).
     if even (i + j) then if j = 7 then (i + 1, j) else if i = 0 then (i, j + 1) else (i - 1, j + 1)
     else if i = 7 then (i, j + 1) else if j = 0 then (i + 1, j) else (i + 1, j - 1))"

fun walk :: "nat \<Rightarrow> nat \<times> nat \<Rightarrow> (nat \<times> nat) list" where
  "walk 0 p = []"
| "walk (Suc n) p = p # walk n (zigzag_next p)"

definition position :: "nat \<Rightarrow> nat" where
  "position k = convert_i ! k * 8 + convert_j ! k"

definition zigzag :: "nat list" where
  "zigzag = map (\<lambda>(i, j). i * 8 + j) (walk 64 (0, 0))"

lemma positions: "map position [0..<64] = zigzag" "sort zigzag = [0..<64]"
  by code_simp+

lemma inj_position: "inj_on position {..<64}"
proof -
  have "distinct (sort zigzag)" by (simp add: positions)
  then have "distinct (map position [0..<64])" by (simp only: distinct_sort positions(1))
  then show ?thesis by (simp add: distinct_map atLeast0LessThan)
qed

lemma position_less: "k < 64 \<Longrightarrow> position k < 64"
proof -
  assume "k < 64"
  then have "position k \<in> set (map position [0..<64])" by simp
  then have "position k \<in> set (sort zigzag)" by (simp only: positions(1) set_sort)
  then show ?thesis by (simp add: positions(2))
qed

lemma length_convert_block [simp]: "length (convert_block block) = 64"
  unfolding convert_block_def by (simp add: length_fold_update [of "\<lambda>k. _ k * 8 + _ k"])

lemma convert_block_position: "k < 64 \<Longrightarrow> convert_block block ! position k = block ! k"
  unfolding convert_block_def position_def [symmetric]
  by (rule fold_update_nth) (simp_all add: inj_position atLeast0LessThan position_less)

lemma mset_convert_block: "length block = 64 \<Longrightarrow> mset (convert_block block) = mset block"
proof -
  assume len: "length block = 64"
  have "map (\<lambda>p. convert_block block ! p) (map position [0..<64]) = map (\<lambda>k. block ! k) [0..<64]"
    by (simp add: convert_block_position)
  also have "\<dots> = block" using len by (metis map_nth)
  finally have "mset block = image_mset (\<lambda>p. convert_block block ! p) (mset zigzag)"
    by (metis mset_map positions(1))
  also have "mset zigzag = mset [0..<64]" by (metis mset_sort positions(2))
  also have "image_mset (\<lambda>p. convert_block block ! p) (mset [0..<64]) = mset (convert_block block)"
    using map_nth [of "convert_block block"] by (metis length_convert_block mset_map)
  finally show ?thesis by simp
qed

lemma clamp_range: "0 \<le> clamp x \<and> clamp x \<le> 255"
  by (simp add: clamp_def Let_def)

lemma level_shift_result: "level_shift x = Inr n \<Longrightarrow> 0 \<le> n \<and> n \<le> 255"
  by (auto simp: level_shift_def Let_def split: if_splits)

lemma scale_fold_length: "length (fold (scale_at rnd c) ks inp) = length inp"
  by (induction ks arbitrary: inp) (auto simp: scale_at_def)

lemma DCTTransform_result:
  assumes "DCTTransform rnd fftw vec = Inr vec'" and "\<And>b. length (fftw b) = length b"
    and "\<And>b. b \<in> set vec \<Longrightarrow> length b = 64" and "b' \<in> set vec'"
  shows "length b' = 64 \<and> set b' \<subseteq> {0..255}"
proof -
  have "emap (\<lambda>block. emap level_shift (Inverse rnd fftw 8 (map of_int block))) vec = Inr vec'"
    using assms(1) by (simp add: DCTTransform_def DctCalculator_def)
  then obtain b where b: "b \<in> set vec" and e: "emap level_shift (Inverse rnd fftw 8 (map of_int b)) = Inr b'"
    using emap_set [OF _ assms(4)] by metis
  have "length (Inverse rnd fftw 8 (map of_int b)) = 64"
    using assms(2,3) b by (simp add: Inverse_def Let_def scale_fold_length)
  moreover have "x \<in> {0..255}" if "x \<in> set b'" for x
    using emap_set [OF e that] level_shift_result by (metis atLeastAtMost_iff)
  ultimately show ?thesis using emap_length [OF e] by auto
qed

definition pixel_ok :: "RGB \<Rightarrow> bool" where
  "pixel_ok p \<longleftrightarrow> r_of p \<in> {0..255} \<and> g_of p \<in> {0..255} \<and> b_of p \<in> {0..255}"

lemma ToRGB_range: "ToRGB rnd y cb cr = Inr p \<Longrightarrow> pixel_ok p"
  by (auto simp: ToRGB_def Let_def clamp_range pixel_ok_def)

section \<open>The size of the image\<close>

definition image_ok :: "nat \<Rightarrow> nat \<Rightarrow> Image \<Rightarrow> bool" where
  "image_ok w h im \<longleftrightarrow> length (im_data im) = h \<and> (\<forall>row \<in> set (im_data im). length row = w \<and>
     (\<forall>p \<in> set row. pixel_ok p))"

lemma image_ok_new: "Image_new w h = Inr im \<Longrightarrow> image_ok w h im"
  by (auto simp: Image_new_def image_ok_def RGB_zero_def pixel_ok_def split: if_splits)

lemma image_ok_comment [simp]: "image_ok w h (SetComment c im) = image_ok w h im"
  by (simp add: SetComment_def image_ok_def)

lemma image_ok_SetPixel:
  assumes "image_ok w h im" and "pixel_ok p"
  shows "image_ok w h (SetPixel i j p im)"
proof (cases "i < h")
  case True
  then have row: "im_data im ! i \<in> set (im_data im)" using assms(1) by (simp add: image_ok_def)
  show ?thesis using assms row
    by (auto simp: image_ok_def SetPixel_def dest!: set_update_subset_insert [THEN subsetD])
next
  case False
  then show ?thesis using assms(1) by (simp add: image_ok_def SetPixel_def list_update_beyond)
qed

lemma image_ok_set_pixel:
  "image_ok w h im \<Longrightarrow> set_pixel rnd input st i im j = Inr im' \<Longrightarrow> image_ok w h im'"
  by (auto simp: set_pixel_def intro: image_ok_SetPixel ToRGB_range)

lemma image_ok_ConstructImage:
  assumes "ConstructImage rnd input st im = Inr im'" and "image_ok w h im"
  shows "image_ok w h im'"
  using assms unfolding ConstructImage_def
  by (rule efold_invariant) (erule efold_invariant, assumption, erule image_ok_set_pixel, assumption)

lemma im_comment_ConstructImage:
  assumes "ConstructImage rnd input st im = Inr im'"
  shows "im_comment im' = im_comment im"
proof -
  have "im_comment b = im_comment a" if "efold (set_pixel rnd input st i) a js = Inr b" for a b i js
    using that by (rule efold_invariant) (auto simp: set_pixel_def SetPixel_def)
  note row = this
  show ?thesis using assms unfolding ConstructImage_def
    by (rule efold_invariant) (auto dest: row)
qed

section \<open>Properties\<close>

text \<open>\<open>Convert\<close> undoes the zigzag order: it keeps the number of blocks, and in each block of 64
  coefficients it puts the \<open>k\<close>-th one where the \<open>k\<close>-th step of the walk along the diagonals is,
  so that it permutes the block.\<close>

theorem Convert_zigzag:
  assumes "b < length vec" and "length (vec ! b) = 64"
  shows "length (Convert vec) = length vec \<and> mset (Convert vec ! b) = mset (vec ! b) \<and>
    (\<forall>k < 64. Convert vec ! b ! (zigzag ! k) = vec ! b ! k)"
proof (intro conjI allI impI)
  show "length (Convert vec) = length vec" by (simp add: Convert_def)
  show "mset (Convert vec ! b) = mset (vec ! b)" using assms by (simp add: Convert_def mset_convert_block)
  fix k :: nat assume "k < 64"
  then have "zigzag ! k = position k" using positions(1) by (metis nth_map_upt add_0 diff_zero)
  then show "Convert vec ! b ! (zigzag ! k) = vec ! b ! k"
    using assms(1) \<open>k < 64\<close> by (simp add: Convert_def convert_block_position)
qed

theorem Convert_zigzag_witness:
  "Convert [map int [0..<64]] ! 0 ! 16 = 3 \<and> mset (Convert [map int [0..<64]] ! 0) = mset (map int [0..<64])"
proof -
  have z: "zigzag ! 3 = 16" by code_simp
  have "\<forall>k < 64. Convert [map int [0..<64]] ! 0 ! (zigzag ! k) = int k"
    "mset (Convert [map int [0..<64]] ! 0) = mset (map int [0..<64])"
    using Convert_zigzag [of 0 "[map int [0..<64]]"] by (simp_all del: mset_map)
  moreover have "(3 :: nat) < 64" by simp
  ultimately show ?thesis using z by (metis of_nat_numeral)
qed

end
