(* ===== verification/JpegProps.thy ===== *)
theory JpegProps
  imports Transforms
begin

text \<open>
  What the reader and the construction of the image guarantee to each other: the geometry that
  \<open>ReadStats\<close> computes keeps every sample that \<open>ConstructImage\<close> reads in range; and the round trip
  of a block through the entropy decoder.
\<close>

section \<open>Geometry\<close>

lemma reads_stats:
  "byte jr = (b, jr') \<Longrightarrow> jr_stats jr' = jr_stats jr"
  "half_byte jr = (b, jr') \<Longrightarrow> jr_stats jr' = jr_stats jr"
  "half_word jr = (n, jr') \<Longrightarrow> jr_stats jr' = jr_stats jr"
  by (auto simp: byte_def half_byte_def half_word_def split: prod.splits)

definition blocks_of :: "slot \<Rightarrow> nat" where
  "blocks_of s = (if engaged s then unat (ch_h (chan s)) * unat (ch_v (chan s)) else 0)"

definition factors :: "nat \<Rightarrow> nat \<Rightarrow> slot \<Rightarrow> bool" where
  "factors hm vm s \<longleftrightarrow> engaged s \<longrightarrow>
     ch_h (chan s) \<in> {1, 2} \<and> ch_v (chan s) \<in> {1, 2} \<and> unat (ch_h (chan s)) \<le> hm \<and> unat (ch_v (chan s)) \<le> vm"

definition channels_ok :: "nat \<Rightarrow> jpeg_reader \<times> int \<times> int \<Rightarrow> bool" where
  "channels_ok n = (\<lambda>(jr, hm, vm).
     length (st_channels (jr_stats jr)) = 256 \<and> hm \<in> {1, 2} \<and> vm \<in> {1, 2} \<and>
     (\<forall>s \<in> set (st_channels (jr_stats jr)). factors (nat hm) (nat vm) s) \<and>
     sum_list (map blocks_of (st_channels (jr_stats jr))) \<le> st_mcu_block_cnt (jr_stats jr) \<and>
     st_mcu_block_cnt (jr_stats jr) \<le> 4 * n)"

lemma sz_t_small: "0 \<le> x \<Longrightarrow> x < 2 ^ 64 \<Longrightarrow> sz_t x = nat x"
  by (simp add: sz_t_def)

lemma sz_t_nat: "n < 2 ^ 64 \<Longrightarrow> sz_t (int n) = n"
  by (simp add: sz_t_small)

lemma sum_list_update_le:
  fixes xs :: "nat list"
  shows "k < length xs \<Longrightarrow> sum_list (xs[k := x]) \<le> sum_list xs + x"
  by (simp add: sum_list_update)

lemma channels_ok_step:
  assumes ok: "channels_ok n s" and n: "n < 3" and step: "read_channel s = Inr s'"
  shows "channels_ok (Suc n) s'"
proof -
  obtain jr hm vm where s: "s = (jr, hm, vm)" by (cases s)
  obtain ident jr1 where 1: "byte jr = (ident, jr1)" by fastforce
  obtain h jr2 where 2: "half_byte jr1 = (h, jr2)" by fastforce
  obtain v jr3 where 3: "half_byte jr2 = (v, jr3)" by fastforce
  let ?slots = "st_channels (jr_stats jr)" and ?cnt = "st_mcu_block_cnt (jr_stats jr)"
  have st: "jr_stats jr3 = jr_stats jr" using reads_stats 1 2 3 by metis
  have hv: "h \<in> {1, 2}" "v \<in> {1, 2}" using step by (auto simp: s read_channel_def Let_def 1 2 3 split: if_splits)
  then have prod: "uint h * uint v \<in> {1, 2, 4}" "0 \<le> uint h * uint v" "uint h * uint v \<le> 4" "uint h \<in> {1, 2}" "uint v \<in> {1, 2}"
    "unat h * unat v = nat (uint h * uint v)" by auto
  have k: "unat ident < 256" using unsigned_less [where w = ident and 'a = nat] by simp
  have cnt: "?cnt \<le> 4 * n" "length ?slots = 256" "hm \<in> {1, 2}" "vm \<in> {1, 2}"
    "sum_list (map blocks_of ?slots) \<le> ?cnt" "\<forall>s \<in> set ?slots. factors (nat hm) (nat vm) s"
    using ok by (auto simp: s channels_ok_def)
  define jr5 where "jr5 = on_stats (\<lambda>st. st\<lparr>st_mcu_block_cnt := sz_t (int (st_mcu_block_cnt st) + uint h * uint v)\<rparr>)
    (on_channel (unat ident) (\<lambda>c. c\<lparr>ch_h := h, ch_v := v\<rparr>) (emplace_channel (unat ident) jr3))"
  obtain q jr6 where 6: "byte jr5 = (q, jr6)" by fastforce
  define slot where "slot = \<lparr>engaged = True, chan = Channel_new\<lparr>ch_h := h, ch_v := v, ch_qtable_id := q\<rparr>\<rparr>"
  define jr7 where "jr7 = on_channel (unat ident) (\<lambda>c. c\<lparr>ch_qtable_id := q\<rparr>) jr6"
  have s': "s' = (jr7, max hm (uint h), max vm (uint v))"
    using step hv 6 by (auto simp: s read_channel_def Let_def 1 2 3 jr5_def jr7_def max_def split: if_splits)
  have st6: "jr_stats jr6 = jr_stats jr5" using reads_stats(1) [OF 6] .
  have slots: "st_channels (jr_stats jr7) = ?slots[unat ident := slot]"
    using k cnt(2) st by (simp add: jr7_def st6 jr5_def on_stats_def on_slot_def on_channel_def emplace_channel_def slot_def)
  have "sz_t (int ?cnt + uint h * uint v) = ?cnt + nat (uint h * uint v)"
    using cnt(1) n prod(2,3) by (subst sz_t_small) (auto simp: nat_add_distrib)
  then have cnt7: "st_mcu_block_cnt (jr_stats jr7) = ?cnt + nat (uint h * uint v)"
    using st by (simp add: jr7_def st6 jr5_def on_stats_def on_slot_def on_channel_def emplace_channel_def)
  have f: "factors (nat (max hm (uint h))) (nat (max vm (uint v))) s" if "s \<in> set (?slots[unat ident := slot])" for s
  proof -
    have "s = slot \<or> s \<in> set ?slots" using that set_update_subset_insert by fastforce
    then show ?thesis
    proof
      assume "s = slot"
      then show ?thesis using hv by (auto simp: factors_def slot_def max_def)
    next
      assume "s \<in> set ?slots"
      then have "factors (nat hm) (nat vm) s" using cnt(6) by blast
      then show ?thesis by (auto simp: factors_def intro: le_trans nat_mono)
    qed
  qed
  have "blocks_of slot = nat (uint h * uint v)" using prod(6) by (simp add: blocks_of_def slot_def)
  then have "sum_list (map blocks_of (?slots[unat ident := slot])) \<le> ?cnt + nat (uint h * uint v)"
    using sum_list_update_le [of "unat ident" "map blocks_of ?slots" "blocks_of slot"] k cnt(2,5)
    by (simp add: map_update)
  then show ?thesis
    unfolding channels_ok_def s' using slots cnt7 f cnt(1-4) n prod(3-5)
    by (auto simp: max_def)
qed

definition sampled :: "nat \<Rightarrow> nat \<Rightarrow> slot \<Rightarrow> bool" where
  "sampled hm vm s \<longleftrightarrow>
     (if engaged s then unat (ch_h_sampling (chan s)) = hm div unat (ch_h (chan s)) \<and>
        unat (ch_v_sampling (chan s)) = vm div unat (ch_v (chan s))
      else ch_h_sampling (chan s) = 1 \<and> ch_v_sampling (chan s) = 1)"

definition same_size :: "slot \<Rightarrow> slot \<Rightarrow> bool" where
  "same_size s t \<longleftrightarrow> engaged s = engaged t \<and> ch_h (chan s) = ch_h (chan t) \<and> ch_v (chan s) = ch_v (chan t)"

lemma jr_stats_on_channel: "jr_stats (on_channel i f jr) = (jr_stats jr)
    \<lparr>st_channels := (st_channels (jr_stats jr))[i := (slot_at jr i)\<lparr>chan := f (chan (slot_at jr i))\<rparr>]\<rparr>"
  by (simp add: on_channel_def on_slot_def on_stats_def slot_at_def)

lemma set_sampling_slot:
  assumes "set_sampling hm vm jr i = Inr jr'" and "i < length (st_channels (jr_stats jr))"
    and "hm \<in> {1, 2}" and "vm \<in> {1, 2}" and "factors (nat hm) (nat vm) (st_channels (jr_stats jr) ! i)"
  shows "\<exists>s. jr_stats jr' = (jr_stats jr)\<lparr>st_channels := (st_channels (jr_stats jr))[i := s]\<rparr> \<and>
    same_size s (st_channels (jr_stats jr) ! i) \<and> sampled (nat hm) (nat vm) s"
proof (cases "engaged (slot_at jr i)")
  case False
  then have "jr' = on_channel i (\<lambda>c. c\<lparr>ch_h_sampling := 1, ch_v_sampling := 1\<rparr>) jr"
    using assms(1) by (simp add: set_sampling_def)
  then show ?thesis using False
    by (intro exI [of _ "(slot_at jr i)\<lparr>chan := (chan (slot_at jr i))\<lparr>ch_h_sampling := 1, ch_v_sampling := 1\<rparr>\<rparr>"])
      (simp add: jr_stats_on_channel same_size_def sampled_def slot_at_def)
next
  case True
  let ?c = "chan (slot_at jr i)"
  have c: "ch_h ?c \<in> {1, 2}" "ch_v ?c \<in> {1, 2}" using assms(5) True by (auto simp: factors_def slot_at_def)
  have d: "unat (word_of_int (m sdiv sint w) :: 8 word) = nat m div unat w" if "m \<in> {1, 2}" "w \<in> {1, 2}" for m and w :: "8 word"
    using that by (auto simp: signed_divide_int_def)
  have "jr' = on_channel i (\<lambda>c. c\<lparr>ch_h_sampling := word_of_int (hm sdiv sint (ch_h c)),
      ch_v_sampling := word_of_int (vm sdiv sint (ch_v c))\<rparr>) jr"
    using assms(1) True c by (auto simp: set_sampling_def Let_def)
  then show ?thesis using True assms(3,4) c d [of hm "ch_h ?c"] d [of vm "ch_v ?c"]
    by (intro exI [of _ "(slot_at jr i)\<lparr>chan := ?c\<lparr>ch_h_sampling := word_of_int (hm sdiv sint (ch_h ?c)),
        ch_v_sampling := word_of_int (vm sdiv sint (ch_v ?c))\<rparr>\<rparr>"])
      (simp add: jr_stats_on_channel same_size_def sampled_def slot_at_def)
qed

definition geometry :: "Stats \<Rightarrow> bool" where
  "geometry st \<longleftrightarrow>
     (let hm = unat (st_h_max st); vm = unat (st_v_max st)
      in hm \<in> {1, 2} \<and> vm \<in> {1, 2} \<and> length (st_channels st) = 256 \<and>
         (\<forall>s \<in> set (st_channels st). factors hm vm s) \<and>
         (\<forall>k \<in> {1, 2, 3}. sampled hm vm (st_channels st ! k)) \<and>
         sum_list (map blocks_of (st_channels st)) \<le> st_mcu_block_cnt st \<and> st_mcu_block_cnt st \<le> 12 \<and>
         st_img_width_in_mcu st = div_up (sz_t (sint (st_width st))) (8 * hm) \<and>
         st_img_height_in_mcu st = div_up (sz_t (sint (st_height st))) (8 * vm) \<and>
         st_img_block_cnt st = sz_t (int (sz_t (int (st_img_width_in_mcu st * st_img_height_in_mcu st)) * st_mcu_block_cnt st)))"

lemma same_size_list:
  assumes "i < length ss" and "same_size s (ss ! i)" and "\<forall>s \<in> set ss. factors hm vm s"
  shows "\<forall>t \<in> set (ss[i := s]). factors hm vm t" and "map blocks_of (ss[i := s]) = map blocks_of ss"
proof -
  have "factors hm vm s" using assms nth_mem [OF assms(1)] by (auto simp: factors_def same_size_def)
  then show "\<forall>t \<in> set (ss[i := s]). factors hm vm t"
    using assms(3) by (auto dest!: set_update_subset_insert [THEN subsetD])
  have "blocks_of s = blocks_of (ss ! i)" using assms(2) by (simp add: blocks_of_def same_size_def)
  then show "map blocks_of (ss[i := s]) = map blocks_of ss"
    using assms(1) by (metis list_update_id map_update nth_map)
qed

lemma ReadStats_geometry_lemma:
  assumes "ReadStats sz jr = Inr jr'" and len: "length (st_channels (jr_stats jr)) = 256"
    and fresh: "\<forall>s \<in> set (st_channels (jr_stats jr)). \<not> engaged s"
  shows "geometry (jr_stats jr')"
proof -
  obtain precision jr1 where 1: "byte jr = (precision, jr1)" by fastforce
  obtain height jr2 where 2: "half_word jr1 = (height, jr2)" by fastforce
  obtain width jr3 where 3: "half_word jr2 = (width, jr3)" by fastforce
  obtain cnt jr4 where 4: "byte jr3 = (cnt, jr4)" by fastforce
  have st4: "jr_stats jr4 = jr_stats jr" using reads_stats 1 2 3 4 by metis
  define jr5 where "jr5 = on_stats (\<lambda>st. st\<lparr>st_mcu_block_cnt := 0\<rparr>) (on_stats (\<lambda>st. st\<lparr>st_precision := precision,
    st_height := word_of_int height, st_width := word_of_int width, st_channel_cnt := cnt\<rparr>) jr4)"
  define n where "n = unat (sz - 6) div 3"
  obtain jr6 hm vm jr7 where n: "n \<le> 3"
    and l: "efold (\<lambda>s i. read_channel s) (jr5, 1, 1) [0..<n] = Inr (jr6, hm, vm)"
    and s: "efold (set_sampling hm vm) jr6 [1..<4] = Inr jr7" and j: "jr' = on_stats (set_mcus hm vm) jr7"
    using assms(1) by (auto simp: ReadStats_def Let_def 1 2 3 4 n_def jr5_def split: if_splits)
  have z: "sum_list (map blocks_of (st_channels (jr_stats jr))) = 0" using fresh by (auto simp: blocks_of_def)
  have "channels_ok 0 (jr5, 1, 1)"
    using len fresh z by (simp add: channels_ok_def jr5_def on_stats_def st4 factors_def)
  moreover have "channels_ok m s'" if "m \<le> 3" "efold (\<lambda>s i. read_channel s) s0 [0..<m] = Inr s'" "channels_ok 0 s0" for m s0 s'
    using that
    by (induction m arbitrary: s') (auto simp: efold_append ebind_Inr_iff intro: channels_ok_step)
  ultimately have ok6: "channels_ok n (jr6, hm, vm)" using n l by blast
  let ?ss = "\<lambda>jr. st_channels (jr_stats jr)"
  have m: "hm \<in> {1, 2}" "vm \<in> {1, 2}" "length (?ss jr6) = 256" "\<forall>s \<in> set (?ss jr6). factors (nat hm) (nat vm) s"
    "sum_list (map blocks_of (?ss jr6)) \<le> st_mcu_block_cnt (jr_stats jr6)" "st_mcu_block_cnt (jr_stats jr6) \<le> 12"
    using ok6 n by (auto simp: channels_ok_def)
  have upt: "[1..<4] = [1, 2, 3 :: nat]" by (simp add: upt_rec)
  obtain ja jb where a: "set_sampling hm vm jr6 1 = Inr ja" and b: "set_sampling hm vm ja 2 = Inr jb"
    and c: "set_sampling hm vm jb 3 = Inr jr7"
    using s unfolding upt by auto
  obtain sa where sa: "jr_stats ja = (jr_stats jr6)\<lparr>st_channels := (?ss jr6)[1 := sa]\<rparr>"
    "same_size sa (?ss jr6 ! 1)" "sampled (nat hm) (nat vm) sa"
    using set_sampling_slot [OF a _ m(1,2)] m(3,4) by auto
  have ma: "length (?ss ja) = 256" "\<forall>s \<in> set (?ss ja). factors (nat hm) (nat vm) s"
    "map blocks_of (?ss ja) = map blocks_of (?ss jr6)"
    using same_size_list [OF _ sa(2) m(4)] sa(1) m(3) by auto
  obtain sb where sb: "jr_stats jb = (jr_stats ja)\<lparr>st_channels := (?ss ja)[2 := sb]\<rparr>"
    "same_size sb (?ss ja ! 2)" "sampled (nat hm) (nat vm) sb"
    using set_sampling_slot [OF b _ m(1,2)] ma by auto
  have mb: "length (?ss jb) = 256" "\<forall>s \<in> set (?ss jb). factors (nat hm) (nat vm) s"
    "map blocks_of (?ss jb) = map blocks_of (?ss jr6)"
    using same_size_list [OF _ sb(2) ma(2)] sb(1) ma(1,3) by auto
  obtain sc where sc: "jr_stats jr7 = (jr_stats jb)\<lparr>st_channels := (?ss jb)[3 := sc]\<rparr>"
    "same_size sc (?ss jb ! 3)" "sampled (nat hm) (nat vm) sc"
    using set_sampling_slot [OF c _ m(1,2)] mb by auto
  have mc: "length (?ss jr7) = 256" "\<forall>s \<in> set (?ss jr7). factors (nat hm) (nat vm) s"
    "map blocks_of (?ss jr7) = map blocks_of (?ss jr6)"
    using same_size_list [OF _ sc(2) mb(2)] sc(1) mb(1,3) by auto
  have "?ss jr7 = (?ss jr6)[1 := sa, 2 := sb, 3 := sc]" using sa(1) sb(1) sc(1) by simp
  then have d: "sampled (nat hm) (nat vm) (?ss jr7 ! k)" if "k \<in> {1, 2, 3}" for k
    using that sa(3) sb(3) sc(3) m(3) by auto
  have e: "st_mcu_block_cnt (jr_stats jr7) = st_mcu_block_cnt (jr_stats jr6)" using sa(1) sb(1) sc(1) by simp
  have w: "unat (word_of_int hm :: 16 word) = nat hm" "unat (word_of_int vm :: 16 word) = nat vm"
    "sz_t (hm * 8) = 8 * nat hm" "sz_t (vm * 8) = 8 * nat vm"
    using m(1,2) by (auto simp: sz_t_small)
  show ?thesis
    unfolding geometry_def Let_def j on_stats_def
    using mc d e m(1,2,5,6) w by (auto simp: set_mcus_def Let_def)
qed

lemma sint_unat:
  "unat (w :: 8 word) = m \<Longrightarrow> m < 128 \<Longrightarrow> sint w = int m"
  "unat (x :: 16 word) = m \<Longrightarrow> m < 32768 \<Longrightarrow> sint x = int m"
proof -
  have "signed_take_bit n (int m) = int m" if "int m < 2 ^ n" for n
  proof (rule signed_take_bit_int_eq_self)
    show "- (2 ^ n) \<le> int m" by (rule order_trans [of _ 0]) simp_all
  qed (rule that)
  note t = this [of 7] this [of 15]
  have u: "int (unat w) = uint w" "int (unat x) = uint x" by simp_all
  show "unat w = m \<Longrightarrow> m < 128 \<Longrightarrow> sint w = int m"
    using t(1) u(1) unfolding sint_uint by auto
  show "unat x = m \<Longrightarrow> m < 32768 \<Longrightarrow> sint x = int m"
    using t(2) u(2) unfolding sint_uint by auto
qed

lemma div_up_bounds:
  assumes "a < 2 ^ 63" and "0 < b"
  shows "div_up a b = a div b + (if a mod b \<noteq> 0 then 1 else 0)" and "j < a \<Longrightarrow> j div b < div_up a b"
    and "div_up a b \<le> a"
proof -
  have le: "a div b + (if a mod b \<noteq> 0 then 1 else 0) \<le> a"
  proof (cases "a mod b = 0")
    case False
    then have "b \<noteq> 1" "a > 0" by (auto intro: gr0I)
    then show ?thesis using div_less_dividend [of b a] assms(2) False by (simp add: Suc_le_eq)
  qed simp
  show d: "div_up a b = a div b + (if a mod b \<noteq> 0 then 1 else 0)"
    using le assms(1) unfolding div_up_def by (subst sz_t_small) auto
  show "div_up a b \<le> a" using le d by simp
  assume "j < a"
  then have "j div b \<le> a div b" by (simp add: div_le_mono)
  moreover have "j div b \<noteq> a div b" if "a mod b = 0"
    using \<open>j < a\<close> that assms(2) by (metis div_mult_mod_eq add.right_neutral div_less_iff_less_mult less_irrefl mult.commute)
  ultimately show "j div b < div_up a b" unfolding d by auto
qed

lemma three_blocks:
  assumes "length ss = 256"
  shows "blocks_of (ss ! 1) + blocks_of (ss ! 2) + blocks_of (ss ! 3) \<le> sum_list (map blocks_of ss)"
proof -
  have "sum (\<lambda>i. blocks_of (ss ! i)) {1, 2, 3} \<le> sum (\<lambda>i. blocks_of (ss ! i)) {0..<256}"
    by (rule sum_mono2) auto
  then show ?thesis using assms by (simp add: sum_list_sum_nth atLeast0LessThan)
qed


text \<open>What the sampling factors of the channels of a geometry are.\<close>

lemma geometry_channel:
  assumes "geometry st" and "k \<in> {1, 2, 3}"
  shows "sint (ch_h_sampling (chan (st_channels st ! k))) \<in> {1, 2}"
    and "sint (ch_v_sampling (chan (st_channels st ! k))) \<in> {1, 2}"
    and "engaged (st_channels st ! k) \<Longrightarrow>
      sint (ch_h (chan (st_channels st ! k))) = int (unat (ch_h (chan (st_channels st ! k)))) \<and>
      sint (ch_v (chan (st_channels st ! k))) = int (unat (ch_v (chan (st_channels st ! k)))) \<and>
      unat (ch_h (chan (st_channels st ! k))) \<in> {1, 2} \<and> unat (ch_v (chan (st_channels st ! k))) \<in> {1, 2}"
proof -
  let ?s = "st_channels st ! k" and ?hm = "unat (st_h_max st)" and ?vm = "unat (st_v_max st)"
  have g: "?hm \<in> {1, 2}" "?vm \<in> {1, 2}" "sampled ?hm ?vm ?s"
    using assms by (auto simp: geometry_def Let_def)
  have "?s \<in> set (st_channels st)" using assms by (auto simp: geometry_def Let_def)
  then have f: "factors ?hm ?vm ?s" using assms by (auto simp: geometry_def Let_def)
  show e: "engaged ?s \<Longrightarrow> sint (ch_h (chan ?s)) = int (unat (ch_h (chan ?s))) \<and>
      sint (ch_v (chan ?s)) = int (unat (ch_v (chan ?s))) \<and>
      unat (ch_h (chan ?s)) \<in> {1, 2} \<and> unat (ch_v (chan ?s)) \<in> {1, 2}"
    using f by (auto simp: factors_def)
  have "unat (ch_h_sampling (chan ?s)) \<in> {1, 2} \<and> unat (ch_v_sampling (chan ?s)) \<in> {1, 2}"
  proof (cases "engaged ?s")
    case True
    then have "unat (ch_h (chan ?s)) \<in> {1, 2}" "unat (ch_v (chan ?s)) \<in> {1, 2}"
      "unat (ch_h (chan ?s)) \<le> ?hm" "unat (ch_v (chan ?s)) \<le> ?vm"
      using f by (auto simp: factors_def)
    then show ?thesis using True g by (auto simp: sampled_def)
  qed (use g in \<open>auto simp: sampled_def\<close>)
  moreover have "sint w \<in> {1, 2}" if "unat w \<in> {1, 2}" for w :: "8 word"
    using that sint_unat(1) [of w 1] sint_unat(1) [of w 2] by auto
  ultimately show "sint (ch_h_sampling (chan ?s)) \<in> {1, 2}" "sint (ch_v_sampling (chan ?s)) \<in> {1, 2}"
    by blast+
qed

lemma samples_lemma:
  assumes g: "geometry st" and w: "0 \<le> sint (st_width st)" and h: "0 \<le> sint (st_height st)"
    and luma: "engaged (st_channels st ! 1)" "unat (ch_h (chan (st_channels st ! 1))) = unat (st_h_max st)"
      "unat (ch_v (chan (st_channels st ! 1))) = unat (st_v_max st)"
    and cr: "engaged (st_channels st ! 3) \<Longrightarrow> engaged (st_channels st ! 2)"
    and input: "length input = st_img_block_cnt st" "\<And>b. b \<in> set input \<Longrightarrow> length b = 64"
    and i: "int i < sint (st_height st)" and j: "int j < sint (st_width st)"
  defines "hm \<equiv> unat (st_h_max st)" and "vm \<equiv> unat (st_v_max st)"
  defines "b \<equiv> (i div (8 * vm) * st_img_width_in_mcu st + j div (8 * hm)) * st_mcu_block_cnt st +
      (i div 8 mod vm * hm + j div 8 mod hm)"
  shows "b < length input \<and> (\<exists>cb cr. pixel_samples input st i j = Inr (input ! b ! (i mod 8 * 8 + j mod 8), cb, cr))"
proof -
  let ?W = "st_img_width_in_mcu st" and ?H = "st_img_height_in_mcu st" and ?n = "st_mcu_block_cnt st"
  let ?ss = "st_channels st"
  have m: "hm \<in> {1, 2}" "vm \<in> {1, 2}" and n: "?n \<le> 12" "sum_list (map blocks_of ?ss) \<le> ?n"
    and len: "length ?ss = 256" and samp: "\<forall>k \<in> {1, 2, 3}. sampled hm vm (?ss ! k)"
    using g by (auto simp: geometry_def Let_def hm_def vm_def)
  have mm: "sint (st_h_max st) = int hm" "sint (st_v_max st) = int vm"
    using m sint_unat(2) [of "st_h_max st"] sint_unat(2) [of "st_v_max st"] by (auto simp: hm_def vm_def)
  have wh: "sint (st_width st) < 32768" "sint (st_height st) < 32768"
    using sint_lt [of "st_width st"] sint_lt [of "st_height st"] by simp_all
  then have szw: "sz_t (sint (st_width st)) = nat (sint (st_width st))" "sz_t (sint (st_height st)) = nat (sint (st_height st))"
    using w h by (simp_all add: sz_t_small)
  have W: "?W = div_up (nat (sint (st_width st))) (8 * hm)" "?H = div_up (nat (sint (st_height st))) (8 * vm)"
    using g szw by (auto simp: geometry_def Let_def hm_def vm_def)
  have nwh: "nat (sint (st_width st)) < 32768" "nat (sint (st_height st)) < 32768"
    "j < nat (sint (st_width st))" "i < nat (sint (st_height st))" "0 < 8 * hm" "0 < 8 * vm"
    using wh w h i j m by auto
  then have "nat (sint (st_width st)) < 2 ^ 63" "nat (sint (st_height st)) < 2 ^ 63" by simp_all
  note dw = div_up_bounds(2,3) [OF this(1) nwh(5)] and dh = div_up_bounds(2,3) [OF this(2) nwh(6)]
  have d: "j div (8 * hm) < ?W" "i div (8 * vm) < ?H" "?W < 32768" "?H < 32768"
    unfolding W using dw(1) [OF nwh(3)] dh(1) [OF nwh(4)] le_less_trans [OF dw(2) nwh(1)] le_less_trans [OF dh(2) nwh(2)]
    by simp_all
  define q where "q = i div (8 * vm) * ?W + j div (8 * hm)"
  have q: "q < ?H * ?W"
  proof -
    have "q < (i div (8 * vm) + 1) * ?W" using d(1) by (simp add: q_def)
    also have "\<dots> \<le> ?H * ?W" using d(2) by (intro mult_le_mono) auto
    finally show ?thesis .
  qed
  have HW: "?H * ?W \<le> 32768 * 32768" using d(3,4) by (intro mult_le_mono) auto
  have cnt: "st_img_block_cnt st = ?W * ?H * ?n"
  proof -
    have "?W * ?H * ?n \<le> 32768 * 32768 * 12" using d(3,4) n(1) by (intro mult_le_mono) auto
    moreover have "?W * ?H \<le> 32768 * 32768" using HW by (simp only: mult.commute)
    moreover have "st_img_block_cnt st = sz_t (int (sz_t (int (?W * ?H)) * ?n))"
      using g by (simp add: geometry_def Let_def)
    moreover have "sz_t (int m) = m" if "m \<le> 32768 * 32768 * 12" for m
      using that by (simp add: sz_t_nat)
    ultimately show ?thesis by (simp del: of_nat_mult flip: of_nat_mult)
  qed
  have bl: "(q * ?n + off) < length input" "sz_t (int (sz_t (int (sz_t (int q) * ?n)) + off)) = q * ?n + off" if "off < ?n" for off
  proof -
    have "q * ?n + off < (q + 1) * ?n" using that by simp
    also have "\<dots> \<le> ?H * ?W * ?n" using q by (intro mult_le_mono) auto
    finally have l: "q * ?n + off < ?H * ?W * ?n" .
    then show "q * ?n + off < length input" using input(1) cnt by (simp add: mult.commute)
    have "?H * ?W * ?n \<le> 32768 * 32768 * 12" using d(3,4) n(1) by (intro mult_le_mono) auto
    then show "sz_t (int (sz_t (int (sz_t (int q) * ?n)) + off)) = q * ?n + off"
      using q HW l by (simp add: sz_t_nat flip: of_nat_mult of_nat_add)
  qed
  have blocks: "blocks_of (?ss ! 1) = hm * vm"
    using luma by (simp add: blocks_of_def hm_def vm_def)
  have three: "hm * vm + blocks_of (?ss ! 2) + blocks_of (?ss ! 3) \<le> ?n"
    using three_blocks [OF len] n(2) blocks by simp
  define off where "off = i div 8 mod vm * hm + j div 8 mod hm"
  have off: "off < hm * vm"
  proof -
    have "off < (i div 8 mod vm + 1) * hm" using m by (auto simp: off_def)
    also have "\<dots> \<le> vm * hm" using m by (intro mult_le_mono) auto
    finally show ?thesis by (simp add: mult.commute)
  qed
  have b: "b = q * ?n + off" by (simp add: b_def q_def off_def)
  have ch: "sint (ch_h (chan (?ss ! 1))) = int hm" "sint (ch_v (chan (?ss ! 1))) = int vm"
    using geometry_channel(3) [OF g insertI1 luma(1)] unfolding hm_def vm_def luma(2,3) by (rule conjunct1, blast)
  have "unat (ch_h_sampling (chan (?ss ! 1))) = 1" "unat (ch_v_sampling (chan (?ss ! 1))) = 1"
    using samp luma m by (auto simp: sampled_def hm_def vm_def)
  then have s1: "sint (ch_h_sampling (chan (?ss ! 1))) = 1" "sint (ch_v_sampling (chan (?ss ! 1))) = 1"
    using sint_unat(1) [of "ch_h_sampling (chan (?ss ! 1))" 1] sint_unat(1) [of "ch_v_sampling (chan (?ss ! 1))" 1] by auto
  obtain sh sv where s2: "sint (ch_h_sampling (chan (?ss ! 2))) = int sh" "sint (ch_v_sampling (chan (?ss ! 2))) = int sv"
    "sh \<in> {1, 2}" "sv \<in> {1, 2}"
    using geometry_channel(1,2) [OF g, of 2] by (auto intro: that [of 1 1] that [of 1 2] that [of 2 1] that [of 2 2])
  have e: "sz_t (int vm * 8) = 8 * vm" "sz_t (int hm * 8) = 8 * hm" "sz_t (int vm) = vm" "sz_t (int hm) = hm"
    "sz_t (int sh) = sh" "sz_t (int sv) = sv" "sz_t 1 = 1" "sz_t (int hm * int vm) = hm * vm" "0 < hm" "0 < vm" "0 < sh" "0 < sv"
    using m s2(3,4) by (auto simp: sz_t_small)
  have "int (i div 8 mod vm) * int hm + int (j div 8 mod hm) = int off" by (simp add: off_def)
  moreover have "off < 4" using off m by auto
  ultimately have eo: "sz_t (int (i div 8 mod vm) * int hm + int (j div 8 mod hm)) = off" by (simp add: sz_t_nat)
  have at: "\<exists>x. sample_at input (sz_t (int (sz_t (int (sz_t (int q) * ?n)) + o'))) (x1 mod 8 * 8 + x2 mod 8) = Inr x"
    if "o' < ?n" for o' x1 x2
  proof -
    have "x1 mod 8 * 8 + x2 mod 8 < 64" by presburger
    then show ?thesis using bl [OF that] input(2) by (auto simp: sample_at_def)
  qed
  have y: "sample_at input (sz_t (int (sz_t (int (sz_t (int q) * ?n)) + off))) (i mod 8 * 8 + j mod 8) =
      Inr (input ! b ! (i mod 8 * 8 + j mod 8))"
  proof -
    have "i mod 8 * 8 + j mod 8 < 64" by presburger
    then show ?thesis using bl [of off] off three input(2) by (simp add: sample_at_def b)
  qed
  have "\<exists>cb cr. pixel_samples input st i j = Inr (input ! b ! (i mod 8 * 8 + j mod 8), cb, cr)"
  proof (cases "engaged (?ss ! 2)")
    case False
    then show ?thesis using luma(1) cr y
      by (auto simp: pixel_samples_def Let_def div_nat_def mod_nat_def mm e eo ch s1 s2(1,2) q_def simp del: One_nat_def)
  next
    case True
    obtain h2 v2 where hv2: "sint (ch_h (chan (?ss ! 2))) = int h2" "sint (ch_v (chan (?ss ! 2))) = int v2"
      "blocks_of (?ss ! 2) = h2 * v2" "0 < h2 * v2" "h2 * v2 \<le> 4"
      using geometry_channel(3) [OF g, of 2] True by (fastforce simp: blocks_of_def)
    have o2: "sz_t (int h2 * int v2 + int hm * int vm) = hm * vm + h2 * v2"
    proof -
      have "int h2 * int v2 + int hm * int vm = int (hm * vm + h2 * v2)" by simp
      moreover have "hm * vm + h2 * v2 < 2 ^ 64" using hv2(5) m by auto
      ultimately show ?thesis by (simp only: sz_t_nat)
    qed
    obtain cb where cb: "sample_at input (sz_t (int (sz_t (int (sz_t (int q) * ?n)) + hm * vm)))
        (i div sv mod 8 * 8 + j div sh mod 8) = Inr cb"
      using at [of "hm * vm"] three hv2(3,4) by fastforce
    show ?thesis
    proof (cases "engaged (?ss ! 3)")
      case False
      then show ?thesis using luma(1) True y cb
        by (auto simp: pixel_samples_def Let_def div_nat_def mod_nat_def mm e eo ch s1 s2(1,2) hv2(1,2) o2 q_def simp del: One_nat_def)
    next
      case e3: True
      have "0 < blocks_of (?ss ! 3)" using geometry_channel(3) [OF g, of 3] e3 by (auto simp: blocks_of_def)
      then obtain cr where "sample_at input (sz_t (int (sz_t (int (sz_t (int q) * ?n)) + (hm * vm + h2 * v2))))
          (i div sv mod 8 * 8 + j div sh mod 8) = Inr cr"
        using at [of "hm * vm + h2 * v2"] three hv2(3) by fastforce
      then show ?thesis using luma(1) True e3 y cb
        by (auto simp: pixel_samples_def Let_def div_nat_def mod_nat_def mm e eo ch s1 s2(1,2) hv2(1,2) o2 q_def simp del: One_nat_def)
    qed
  qed
  then show ?thesis using bl(1) [of off] off three b by simp
qed

lemma reads_Cons:
  "br_stream (jr_bits jr) = b # bs \<Longrightarrow> byte jr = (b, jr\<lparr>jr_bits := (jr_bits jr)\<lparr>br_stream := bs\<rparr>\<rparr>)"
  "br_stream (jr_bits jr) = b # c # bs \<Longrightarrow>
    half_word jr = (push_bit 8 (uint b) OR uint c, jr\<lparr>jr_bits := (jr_bits jr)\<lparr>br_stream := bs\<rparr>\<rparr>)"
  "br_stream (jr_bits jr) = b # bs \<Longrightarrow> br_ptr (jr_bits jr) = 0 \<Longrightarrow>
    half_byte jr = (drop_bit 4 (b AND 0xf0), jr\<lparr>jr_bits := (jr_bits jr)\<lparr>br_stream := bs, br_buffer := b, br_ptr := 4\<rparr>\<rparr>)"
  "br_ptr (jr_bits jr) = 4 \<Longrightarrow>
    half_byte jr = (br_buffer (jr_bits jr) AND 0x0f, jr\<lparr>jr_bits := (jr_bits jr)\<lparr>br_ptr := 0\<rparr>\<rparr>)"
  by (simp_all add: byte_def half_word_def half_byte_def GetByte_def GetHalfByte_def GetHalfWord_def istream_get_def)

lemma Convert_lengths: "length (Convert vec) = length vec" "b \<in> set (Convert vec) \<Longrightarrow> length b = 64"
  by (auto simp: Convert_def)

section \<open>What the scan leaves alone\<close>

lemma decode_value_invariant:
  shows "decode_value get h s = Inr (v, h', s') \<Longrightarrow> (\<And>s b s'. get s = Inr (b, s') \<Longrightarrow> P s \<Longrightarrow> P s') \<Longrightarrow> P s \<Longrightarrow> P s'"
proof (induction get h s arbitrary: v h' s' rule: decode_value.induct)
  case (1 get h s)
  obtain b s1 r h1 where g: "get s = Inr (b, s1)" and m: "Move b h = Inr (r, h1)"
    and d: "(case r of Some v \<Rightarrow> Inr (v, h1, s1) | None \<Rightarrow> decode_value get h1 s1) = Inr (v, h', s')"
    using 1(2) by (subst (asm) decode_value.simps) auto
  have P: "P s1" using 1(3) [OF g 1(4)] .
  show ?case
  proof (cases r)
    case None
    then have "decode_value get h1 s1 = Inr (v, h', s')" using d by simp
    then show ?thesis using 1(1) [OF g refl m refl None] 1(3) P by blast
  qed (use d P in simp)
qed

lemma get_bit_stats: "get_bit jr = Inr (b, jr') \<Longrightarrow> jr_stats jr' = jr_stats jr"
  by (auto simp: get_bit_def)

lemma get_bits_stats: "get_bits n jr = Inr (b, jr') \<Longrightarrow> jr_stats jr' = jr_stats jr"
  by (auto simp: get_bits_def)

lemma decode_value_stats: "decode_value get_bit h jr = Inr (v, h', jr') \<Longrightarrow> jr_stats jr' = jr_stats jr"
  by (rule decode_value_invariant [where P = "\<lambda>s. jr_stats s = jr_stats jr"]) (auto dest: get_bit_stats)

lemma scan_dc_stats: "scan_dc hid qid prev jr = Inr (c, d, jr') \<Longrightarrow> jr_stats jr' = jr_stats jr"
  by (auto simp: scan_dc_def Let_def split: if_splits dest!: decode_value_stats get_bits_stats)

lemma scan_ac_stats: "scan_ac hid qid i block jr = Inr (block', jr') \<Longrightarrow> jr_stats jr' = jr_stats jr"
proof (induction hid qid i block jr arbitrary: block' jr' rule: scan_ac.induct)
  case (1 hid qid i block jr)
  show ?case
  proof (cases "64 \<le> i")
    case False
    obtain tree v tree' jr1 where t: "pointee (jr_ac jr) hid = Inr tree" "decode_value get_bit tree jr = Inr (v, tree', jr1)"
      using 1(2) False by (subst (asm) scan_ac.simps) auto
    obtain a b where ab: "Slice v = (a, b)" by fastforce
    let ?jr2 = "jr1\<lparr>jr_ac := (jr_ac jr1)[nat hid := Some tree']\<rparr>"
    note step = 1(2) [unfolded scan_ac.simps [of hid qid i block jr], simplified t ab False ebind_simps Let_def prod.case if_False]
    have st: "jr_stats jr1 = jr_stats jr" using decode_value_stats [OF t(2)] .
    show ?thesis
    proof (cases "v = 0")
      case True
      then show ?thesis using step st by auto
    next
      case v: False
      obtain bits jr3 where g: "get_bits (unat b) ?jr2 = Inr (bits, jr3)" using step v by auto
      have st3: "jr_stats jr3 = jr_stats jr" using get_bits_stats [OF g] st by simp
      note step = step [unfolded g ebind_simps prod.case]
      consider "i + unat a = 64" | "i + unat a < 64" using step v by (auto split: if_splits)
      then show ?thesis
      proof cases
        case 1
        then show ?thesis using step v st3 by simp
      next
        case 2
        then obtain qtable q where q: "pointee (jr_qtables jr3) qid = Inr qtable" "index_at qtable (int (i + unat a)) = Inr q"
          using step v by auto
        have "scan_ac hid qid (i + unat a + 1) (block[i + unat a := float_times (extend_sign bits (unat b)) q]) jr3 =
            Inr (block', jr')"
          using step v 2 q by simp
        from 1(1) [OF False t refl refl refl refl ab [symmetric] refl v g refl _ _ q this] show ?thesis
          using 2 st3 by simp
      qed
    qed
  qed (use 1(2) scan_ac.simps [of hid qid i block jr] in simp)
qed

lemma scan_block_stats: "scan_block j s = Inr (block, s') \<Longrightarrow> jr_stats (snd s') = jr_stats (snd s)"
  by (auto simp: scan_block_def Let_def dest!: scan_dc_stats scan_ac_stats split: prod.splits)

lemma scan_blocks_stats: "scan_blocks j n s = Inr (blocks, jr') \<Longrightarrow> jr_stats jr' = jr_stats (snd s)"
  by (induction j n s arbitrary: blocks jr' rule: scan_blocks.induct) (fastforce dest: scan_block_stats)+

lemma Scan_stats: "Scan jr = Inr (blocks, jr') \<Longrightarrow> jr_stats jr' = jr_stats jr"
  by (auto simp: Scan_def Let_def dest!: scan_blocks_stats split: if_splits)

lemma CheckEnd_stats: "CheckEnd jr = Inr jr' \<Longrightarrow> jr_stats jr' = jr_stats jr"
  by (auto simp: CheckEnd_def Let_def dest: reads_stats split: prod.splits if_splits)

section \<open>Properties of the image\<close>

lemma ReadStats_example:
  assumes stream: "br_stream (jr_bits jr) = [8, 0, 9, 0, 20, 1, 1, 0x22, 0]" "br_ptr (jr_bits jr) = 0"
    and fresh: "length (st_channels (jr_stats jr)) = 256"
    and off: "\<not> engaged (st_channels (jr_stats jr) ! 2)" "\<not> engaged (st_channels (jr_stats jr) ! 3)"
  shows "\<exists>jr'. ReadStats 9 jr = Inr jr' \<and> (let st = jr_stats jr' in
      st_width st = 20 \<and> st_height st = 9 \<and> st_h_max st = 2 \<and> st_v_max st = 2 \<and>
      st_img_width_in_mcu st = 2 \<and> st_mcu_block_cnt st = 4 \<and> st_img_block_cnt st = 8 \<and>
      engaged (st_channels st ! 1) \<and> \<not> engaged (st_channels st ! 3) \<and>
      ch_h (chan (st_channels st ! 1)) = 2 \<and> ch_v (chan (st_channels st ! 1)) = 2)"
proof -
  have u: "[0..<1] = [0 :: nat]" "[Suc 0..<4] = [1, 2, 3 :: nat]" by code_simp+
  have z: "sz_t 16 = 16" "sz_t 20 = 20" "sz_t 9 = 9" "sz_t 2 = 2" "sz_t 4 = 4" "sz_t 8 = 8"
    "div_up 20 16 = 2" "div_up 9 16 = 1"
    by (simp_all add: sz_t_def div_up_def)
  obtain S where S: "jr_stats jr = S" by blast
  show ?thesis
    apply (simp add: ReadStats_def reads_Cons stream S u fresh [unfolded S])
    apply (simp add: read_channel_def reads_Cons stream S emplace_channel_def on_stats_def on_slot_def on_channel_def
        fresh [unfolded S] z)
    apply (simp add: set_sampling_def slot_at_def off [unfolded S] fresh [unfolded S] on_stats_def on_slot_def on_channel_def)
    apply (simp add: set_mcus_def z Let_def fresh [unfolded S])
    apply (simp add: off [unfolded S] fresh [unfolded S])
    done
qed

text \<open>C11. After \<open>ReadStats\<close> on a fresh reader, for an image of non-negative size whose first channel has
  the largest sampling factors and whose third channel comes with a second one, \<open>ConstructImage\<close> reads
  every sample of every pixel in range, without a division by zero or a wrap-around: the luminance of
  pixel \<open>(i, j)\<close> is in the block of its minimum coded unit, row and column, at \<open>(i mod 8, j mod 8)\<close>.\<close>

theorem ReadStats_samples:
  assumes "ReadStats sz jr = Inr jr'" and "length (st_channels (jr_stats jr)) = 256"
    and "\<forall>s \<in> set (st_channels (jr_stats jr)). \<not> engaged s" and st: "st = jr_stats jr'"
    and "0 \<le> sint (st_width st)" and "0 \<le> sint (st_height st)"
    and "engaged (st_channels st ! 1)" and "unat (ch_h (chan (st_channels st ! 1))) = unat (st_h_max st)"
    and "unat (ch_v (chan (st_channels st ! 1))) = unat (st_v_max st)"
    and "engaged (st_channels st ! 3) \<Longrightarrow> engaged (st_channels st ! 2)"
    and "length input = st_img_block_cnt st" and "\<And>b. b \<in> set input \<Longrightarrow> length b = 64"
    and "int i < sint (st_height st)" and "int j < sint (st_width st)"
    and hm: "hm = unat (st_h_max st)" and vm: "vm = unat (st_v_max st)"
    and b: "b = (i div (8 * vm) * st_img_width_in_mcu st + j div (8 * hm)) * st_mcu_block_cnt st +
      (i div 8 mod vm * hm + j div 8 mod hm)"
  shows "b < length input \<and> (\<exists>cb cr. pixel_samples input st i j = Inr (input ! b ! (i mod 8 * 8 + j mod 8), cb, cr))"
  unfolding b hm vm
  by (rule samples_lemma [OF ReadStats_geometry_lemma [OF assms(1-3), folded st] assms(5-14)])

text \<open>An image of 9 rows and 20 columns with one channel of factors 2 and 2.\<close>

theorem ReadStats_samples_witness:
  "\<exists>jr'. ReadStats 9 (JpegReader_new (\<lambda>_. Channel_new) (BitReader_new [8, 0, 9, 0, 20, 1, 1, 0x22, 0])) = Inr jr' \<and>
     st_img_block_cnt (jr_stats jr') = 8 \<and>
     (\<exists>cb cr. pixel_samples (map (\<lambda>b. replicate 64 (int b)) [0..<8]) (jr_stats jr') 8 17 = Inr (6, cb, cr))"
proof -
  let ?jr = "JpegReader_new (\<lambda>_. Channel_new) (BitReader_new [8, 0, 9, 0, 20, 1, 1, 0x22, 0])"
  let ?input = "map (\<lambda>b. replicate 64 (int b)) [0..<8]"
  have fresh: "length (st_channels (jr_stats ?jr)) = 256" "\<forall>s \<in> set (st_channels (jr_stats ?jr)). \<not> engaged s"
    by (auto simp: JpegReader_new_def Stats_new_def)
  then have "\<not> engaged (st_channels (jr_stats ?jr) ! 2)" "\<not> engaged (st_channels (jr_stats ?jr) ! 3)" by simp_all
  then obtain jr' where r: "ReadStats 9 ?jr = Inr jr'" and st: "let st = jr_stats jr' in
      st_width st = 20 \<and> st_height st = 9 \<and> st_h_max st = 2 \<and> st_v_max st = 2 \<and>
      st_img_width_in_mcu st = 2 \<and> st_mcu_block_cnt st = 4 \<and> st_img_block_cnt st = 8 \<and>
      engaged (st_channels st ! 1) \<and> \<not> engaged (st_channels st ! 3) \<and>
      ch_h (chan (st_channels st ! 1)) = 2 \<and> ch_v (chan (st_channels st ! 1)) = 2"
    using ReadStats_example [of ?jr] fresh by (auto simp: JpegReader_new_def BitReader_new_def)
  have "6 < length ?input \<and> (\<exists>cb cr. pixel_samples ?input (jr_stats jr') 8 17 = Inr (?input ! 6 ! (8 mod 8 * 8 + 17 mod 8), cb, cr))"
    by (rule ReadStats_samples [OF r fresh refl, where hm = 2 and vm = 2]) (use st in \<open>auto simp: Let_def\<close>)
  then show ?thesis using r st by (simp add: Let_def)
qed

text \<open>C12. The image that \<open>Decode\<close> returns has the height and the width that the frame header says, its
  components are all between 0 and 255, and its comment is the one read.\<close>

theorem Decode_image:
  assumes "Decode raw rnd fftw input = Inr im"
  shows "\<exists>jr. Read False (JpegReader_new raw (BitReader_new input)) = Inr jr \<and>
    im_comment im = st_comment (jr_stats jr) \<and>
    image_ok (sz_t (sint (st_width (jr_stats jr)))) (sz_t (sint (st_height (jr_stats jr)))) im"
proof -
  obtain jr1 blocks jr2 jr3 samples im0 where
    r: "Read False (JpegReader_new raw (BitReader_new input)) = Inr jr1" and s: "Scan jr1 = Inr (blocks, jr2)"
    and e: "CheckEnd jr2 = Inr jr3"
    and i: "Image_new (sz_t (sint (st_width (jr_stats jr3)))) (sz_t (sint (st_height (jr_stats jr3)))) = Inr im0"
    and c: "ConstructImage rnd samples (jr_stats jr3) (SetComment (st_comment (jr_stats jr3)) im0) = Inr im"
    using assms by (auto simp: Decode_def Let_def)
  have st: "jr_stats jr3 = jr_stats jr1" using Scan_stats [OF s] CheckEnd_stats [OF e] by simp
  have "im_comment im = st_comment (jr_stats jr3)"
    using im_comment_ConstructImage [OF c] by (simp add: SetComment_def)
  moreover have "image_ok (sz_t (sint (st_width (jr_stats jr3)))) (sz_t (sint (st_height (jr_stats jr3)))) im"
    by (rule image_ok_ConstructImage [OF c]) (simp add: image_ok_new [OF i])
  ultimately show ?thesis using r st by auto
qed

text \<open>The header of an image of two rows and no column, whose only channel has the identifier 4.\<close>

theorem Decode_image_witness:
  "\<exists>im. Decode (\<lambda>_. Channel_new) id id
      [0xff, 0xc0, 0, 11, 8, 0, 2, 0, 0, 1, 4, 0x11, 0, 0xff, 0xda, 0, 6, 0, 0, 63, 0, 0xff, 0xd9] = Inr im \<and> image_ok 0 2 im"
proof -
  let ?input = "[0xff, 0xc0, 0, 11, 8, 0, 2, 0, 0, 1, 4, 0x11, 0, 0xff, 0xda, 0, 6, 0, 0, 63, 0, 0xff, 0xd9] :: 8 word list"
  let ?jr = "JpegReader_new (\<lambda>_. Channel_new) (BitReader_new ?input)"
  obtain S where S: "jr_stats ?jr = S" by blast
  have fresh: "length (st_channels S) = 256" "\<forall>s \<in> set (st_channels S). \<not> engaged s"
    using S by (auto simp: JpegReader_new_def Stats_new_def)
  then have off: "\<not> engaged (st_channels S ! k)" if "k < 256" for k using that by simp
  obtain q dc ac where jr: "?jr = \<lparr>jr_bits = BitReader_new ?input, jr_qtables = q, jr_stats = S, jr_dc = dc, jr_ac = ac\<rparr>"
    using S by (simp add: JpegReader_new_def)
  have u: "[0..<1] = [0 :: nat]" "[Suc 0..<4] = [1, 2, 3 :: nat]" "[0..<4] = [0, 1, 2, 3 :: nat]" by code_simp+
  have z: "sz_t 8 = 8" "sz_t 2 = 2" "sz_t 1 = 1" "sz_t 0 = 0" "div_up 0 8 = 0" "div_up 2 8 = 1"
    by (simp_all add: sz_t_def div_up_def)
  have "\<exists>jr'. Read False ?jr = Inr jr' \<and> st_width (jr_stats jr') = 0 \<and> st_height (jr_stats jr') = 2 \<and>
      st_img_block_cnt (jr_stats jr') = 0 \<and> br_stream (jr_bits jr') = [0xff, 0xd9]"
    unfolding jr
    apply (subst Read.simps)
    apply (simp add: BitReader_new_def reads_Cons segment_def with_length_def)
    apply (simp add: ReadStats_def reads_Cons u fresh off)
    apply (simp add: read_channel_def reads_Cons emplace_channel_def on_stats_def on_slot_def on_channel_def fresh off z)
    apply (simp add: set_sampling_def slot_at_def off fresh on_stats_def on_slot_def on_channel_def)
    apply (subst Read.simps)
    apply (simp add: reads_Cons segment_def with_length_def)
    apply (simp add: ReadStartOfScan_def reads_Cons CheckFields_def check_channel_def slot_at_def u off fresh set_mcus_def Let_def z)
    done
  then obtain jr' where r: "Read False ?jr = Inr jr'" and st: "st_width (jr_stats jr') = 0" "st_height (jr_stats jr') = 2"
    "st_img_block_cnt (jr_stats jr') = 0" and rest: "br_stream (jr_bits jr') = [0xff, 0xd9]" by blast
  have "Scan jr' = Inr ([], jr')" using st by (simp add: Scan_def max_blocks_def)
  moreover have "\<exists>jr''. CheckEnd jr' = Inr jr'' \<and> jr_stats jr'' = jr_stats jr'"
    using rest by (simp add: CheckEnd_def reads_Cons)
  moreover have "\<exists>im. Image_new 0 2 = Inr im \<and> (\<forall>st c. ConstructImage id [] st (SetComment c im) = Inr (SetComment c im))"
    by (simp add: Image_new_def ConstructImage_def Width_def Height_def SetComment_def numeral_2_eq_2)
  ultimately have "\<exists>im. Decode (\<lambda>_. Channel_new) id id ?input = Inr im"
    using r st by (auto simp: Decode_def Let_def DCTTransform_def DctCalculator_def Convert_def z)
  then obtain im where d: "Decode (\<lambda>_. Channel_new) id id ?input = Inr im" by blast
  from Decode_image [OF d] have "image_ok 0 2 im" using r st by (auto simp: z)
  then show ?thesis using d by blast
qed

end
