(* ===== verification/BlockCode.thy ===== *)
theory BlockCode
  imports JpegProps
begin

text \<open>
  The entropy coding of a block: what the standard's encoder emits for the coefficients of a block,
  with the codes that \<open>Build\<close> gives to the symbols, is what \<open>scan_dc\<close> and \<open>scan_ac\<close> read back.
\<close>

section \<open>Amplitudes\<close>

definition category :: "int \<Rightarrow> nat" where
  "category v = nat (bitlen \<bar>v\<bar>)"

text \<open>The bits of a number, most significant first.\<close>

fun number_bits :: "nat \<Rightarrow> int \<Rightarrow> bool list" where
  "number_bits 0 v = []"
| "number_bits (Suc n) v = number_bits n (v div 2) @ [odd v]"

definition amplitude_bits :: "int \<Rightarrow> bool list" where
  "amplitude_bits v = number_bits (category v) (if v < 0 then v + 2 ^ category v - 1 else v)"

lemma length_number_bits [simp]: "length (number_bits n v) = n"
  by (induction n arbitrary: v) simp_all

lemma bits_value_number_bits: "0 \<le> v \<Longrightarrow> v < 2 ^ n \<Longrightarrow> bits_value (number_bits n v) = v"
proof (induction n arbitrary: v)
  case (Suc n)
  then have "bits_value (number_bits n (v div 2)) = v div 2" by simp
  moreover have "2 * (v div 2) + of_bool (odd v) = v" by (cases "odd v") (auto elim: evenE oddE)
  ultimately show ?case by (simp add: bits_value_snoc)
qed (simp add: bits_value_def)

lemma hd_number_bits: "0 \<le> v \<Longrightarrow> v < 2 ^ n \<Longrightarrow> 0 < n \<Longrightarrow> hd (number_bits n v) \<longleftrightarrow> 2 ^ (n - 1) \<le> v"
proof (induction n arbitrary: v)
  case (Suc n)
  show ?case
  proof (cases n)
    case 0
    moreover have "v = 0 \<or> v = 1" using 0 Suc.prems by auto
    ultimately show ?thesis by auto
  next
    case n: (Suc m)
    have "hd (number_bits n (v div 2)) \<longleftrightarrow> 2 ^ (n - 1) \<le> v div 2" using Suc n by simp
    moreover have "number_bits n (v div 2) \<noteq> []" using n by (metis length_number_bits length_0_conv nat.distinct(1))
    then have "hd (number_bits (Suc n) v) = hd (number_bits n (v div 2))" by (simp add: hd_append)
    moreover have "2 ^ m \<le> v div 2 \<longleftrightarrow> 2 ^ n \<le> v" using n by auto
    ultimately show ?thesis using n by (simp del: number_bits.simps)
  qed
qed simp

lemma category_bounds:
  assumes "v \<noteq> 0"
  shows "0 < category v" and "2 ^ (category v - 1) \<le> \<bar>v\<bar>" and "\<bar>v\<bar> < 2 ^ category v"
proof -
  have b: "\<bar>v\<bar> < 2 ^ nat (bitlen \<bar>v\<bar>)" "2 ^ nat (bitlen \<bar>v\<bar> - 1) \<le> \<bar>v\<bar>" using assms bitlen_bounds [of "\<bar>v\<bar>"] by auto
  then show "\<bar>v\<bar> < 2 ^ category v" by (simp add: category_def)
  have "nat (bitlen \<bar>v\<bar>) \<noteq> 0" using b(1) assms by (cases "nat (bitlen \<bar>v\<bar>)") auto
  then have "0 < bitlen \<bar>v\<bar>" by simp
  then show "0 < category v" "2 ^ (category v - 1) \<le> \<bar>v\<bar>"
    using b(2) by (simp_all add: category_def nat_diff_distrib)
qed

lemma category_0 [simp]: "category 0 = 0"
  by (simp add: category_def bitlen_def floorlog_def)

text \<open>Reading the amplitude bits and extending them gives the number.\<close>

lemma amplitude_value:
  assumes "v \<noteq> 0" and w: "uint w = bits_value (amplitude_bits v)"
  shows "extend_sign (w, hd (amplitude_bits v)) (category v) = v"
proof -
  let ?n = "category v" and ?m = "if v < 0 then v + 2 ^ category v - 1 else v"
  note b = category_bounds [OF assms(1)]
  have "(2 :: int) ^ ?n = 2 * 2 ^ (?n - 1)" using b(1) by (cases ?n) simp_all
  then have m: "0 \<le> ?m" "?m < 2 ^ ?n" "2 ^ (?n - 1) \<le> ?m \<longleftrightarrow> \<not> v < 0" using b(2,3) by auto
  have "uint w = ?m" using w bits_value_number_bits [OF m(1,2)] by (simp add: amplitude_bits_def)
  moreover have "hd (amplitude_bits v) \<longleftrightarrow> \<not> v < 0"
    using hd_number_bits [OF m(1,2) b(1)] m(3) by (simp add: amplitude_bits_def)
  ultimately show ?thesis by (auto simp: extend_sign_def)
qed

lemma category_le: "\<bar>v\<bar> < 2 ^ n \<Longrightarrow> category v \<le> n"
proof (cases "v = 0")
  case False
  assume "\<bar>v\<bar> < 2 ^ n"
  then have "(2 :: int) ^ (category v - 1) < 2 ^ n" using category_bounds(2) [OF False] by linarith
  then have "category v - 1 < n" by (simp add: power_strict_increasing_iff)
  then show ?thesis by simp
qed simp

section \<open>Sources of bits\<close>

text \<open>The JPEG reader as a source of bits: reading changes nothing but the bit reader.\<close>

definition only_bits :: "jpeg_reader \<Rightarrow> jpeg_reader \<Rightarrow> bool" where
  "only_bits base jr \<longleftrightarrow> reader_ok (jr_bits jr) \<and> (\<exists>br. jr = base\<lparr>jr_bits := br\<rparr>)"

lemma only_bits_update: "reader_ok br \<Longrightarrow> only_bits base jr \<Longrightarrow> only_bits base (jr\<lparr>jr_bits := br\<rparr>)"
  by (auto simp: only_bits_def)

lemma get_bit_source:
  assumes "only_bits base jr"
  shows "bits_left (jr_bits jr) = b # bs \<Longrightarrow>
      \<exists>jr'. get_bit jr = Inr (b, jr') \<and> bits_left (jr_bits jr') = bs \<and> only_bits base jr'"
    and "bits_left (jr_bits jr) = [] \<Longrightarrow> \<exists>e. get_bit jr = Inl e"
proof -
  have ok: "reader_ok (jr_bits jr)" using assms by (simp add: only_bits_def)
  show "\<exists>e. get_bit jr = Inl e" if "bits_left (jr_bits jr) = []"
    using GetBit_source(2) [OF ok that] by (auto simp: get_bit_def)
  assume "bits_left (jr_bits jr) = b # bs"
  then obtain br where "GetBit (jr_bits jr) = Inr (b, br)" "bits_left br = bs" "reader_ok br"
    using GetBit_source(1) [OF ok] by blast
  then show "\<exists>jr'. get_bit jr = Inr (b, jr') \<and> bits_left (jr_bits jr') = bs \<and> only_bits base jr'"
    using only_bits_update [OF _ assms] by (simp add: get_bit_def)
qed

interpretation jpeg: code_source get_bit "\<lambda>jr. bits_left (jr_bits jr)" "only_bits base" for base
  by unfold_locales (rule get_bit_source, assumption+)+

lemma decode_code:
  assumes "reader_ok (jr_bits jr)" and "bits_left (jr_bits jr) = p @ rest" and "p \<noteq> []"
    and "(p, v) \<in> set (codes_of h)" and h: "ht_move h = ht_tree h"
  shows "\<exists>br. decode_value get_bit h jr = Inr (v, h, jr\<lparr>jr_bits := br\<rparr>) \<and> bits_left br = rest \<and> reader_ok br"
proof -
  have "only_bits jr jr" using assms(1) by (auto simp: only_bits_def intro: exI [of _ "jr_bits jr"])
  moreover have "h\<lparr>ht_move := ht_tree h\<rparr> = h" using h by (cases h) simp
  moreover have "(p, v) \<in> set (leaves (ht_move h))" using assms(4) h by (simp add: codes_of_def)
  ultimately obtain jr' where d: "decode_value get_bit h jr = Inr (v, h, jr')" "bits_left (jr_bits jr') = rest" "only_bits jr jr'"
    using jpeg.decode_leaf [of jr jr p rest v h] assms(2,3) by (metis (no_types, lifting))
  then show ?thesis by (auto simp: only_bits_def)
qed

lemma get_bits_amplitude:
  assumes "reader_ok (jr_bits jr)" and "bits_left (jr_bits jr) = amplitude_bits v @ rest" and "category v \<le> 16"
  shows "\<exists>bits br. get_bits (category v) jr = Inr (bits, jr\<lparr>jr_bits := br\<rparr>) \<and> extend_sign bits (category v) = v \<and>
    bits_left br = rest \<and> reader_ok br"
proof -
  have len: "length (amplitude_bits v) = category v" by (simp add: amplitude_bits_def)
  then obtain w br where g: "GetBits (category v) (jr_bits jr) =
      Inr ((w, category v = 0 \<or> hd (amplitude_bits v @ rest)), br)"
    "uint w = bits_value (amplitude_bits v)" "bits_left br = rest" "reader_ok br"
    using GetBits_bits [OF assms(1), of "category v"] assms(2,3) by auto
  have "extend_sign (w, category v = 0 \<or> hd (amplitude_bits v @ rest)) (category v) = v"
  proof (cases "v = 0")
    case True
    then show ?thesis using g(2) by (simp add: extend_sign_def amplitude_bits_def bits_value_def)
  next
    case False
    then have "amplitude_bits v \<noteq> []" "category v \<noteq> 0" using len category_bounds(1) [OF False] by auto
    then show ?thesis using amplitude_value [OF False g(2)] by simp
  qed
  then show ?thesis using g by (auto simp: get_bits_def)
qed

section \<open>Products\<close>

lemma round_float_exact: "\<bar>x\<bar> < 2 ^ 24 \<Longrightarrow> round_float x = x"
proof -
  assume "\<bar>x\<bar> < 2 ^ 24"
  then have "nat (bitlen \<bar>x\<bar>) \<le> 24" using category_le [of x 24] by (simp add: category_def)
  then show ?thesis by (simp add: round_float_def Let_def)
qed

lemma float_times_exact:
  assumes "\<bar>a\<bar> < 2 ^ 15" and "0 \<le> q" and "q \<le> 255"
  shows "float_times a q = a * q"
proof -
  have "\<bar>a * q\<bar> \<le> 2 ^ 15 * 255" unfolding abs_mult using assms by (intro mult_mono) auto
  then show ?thesis using assms by (simp add: float_times_def round_float_exact)
qed

section \<open>The encoder\<close>

text \<open>The symbols of the AC coefficients with the coefficient each of them carries: a run of zeros and a
  category, the 16 zeros of \<open>0xf0\<close>, and the end of the block.\<close>

fun ac_symbols :: "nat \<Rightarrow> int list \<Rightarrow> (8 word \<times> int) list" where
  "ac_symbols run [] = []"
| "ac_symbols run (c # cs) =
     (if c = 0 \<and> (\<forall>d \<in> set cs. d = 0) then [(0, 0)]
      else if c = 0 then if run = 15 then (0xf0, 0) # ac_symbols 0 cs else ac_symbols (run + 1) cs
      else (word_of_nat (run * 16 + category c), c) # ac_symbols 0 cs)"

definition encode :: "(8 word \<Rightarrow> bool list) \<Rightarrow> (8 word \<times> int) list \<Rightarrow> bool list" where
  "encode code syms = concat (map (\<lambda>(s, v). code s @ amplitude_bits v) syms)"

lemma encode_simps [simp]: "encode code [] = []"
  "encode code ((s, v) # syms) = code s @ amplitude_bits v @ encode code syms"
  by (simp_all add: encode_def)

definition has_codes :: "HuffmanTree \<Rightarrow> (8 word \<Rightarrow> bool list) \<Rightarrow> 8 word set \<Rightarrow> bool" where
  "has_codes h code S \<longleftrightarrow> ht_move h = ht_tree h \<and> (\<forall>s \<in> S. code s \<noteq> [] \<and> (code s, s) \<in> set (codes_of h))"

lemma amplitude_bits_0 [simp]: "amplitude_bits 0 = []"
  by (simp add: amplitude_bits_def)

lemma Slice_symbol:
  assumes "run < 16" and "n < 16"
  shows "Slice (word_of_nat (run * 16 + n)) = (word_of_nat run, word_of_nat n)"
proof -
  have "\<forall>run \<in> set [0..<16]. \<forall>n \<in> set [0..<16].
      Slice (word_of_nat (run * 16 + n)) = (word_of_nat run, word_of_nat n)"
    by (simp add: upt_rec Slice_def)
  then show ?thesis using assms by simp
qed

lemma pointee_same: "pointee xs i = Inr x \<Longrightarrow> xs[nat i := Some x] = xs"
proof -
  assume "pointee xs i = Inr x"
  then have "xs ! nat i = Some x" by (auto simp: pointee_def index_at_def split: option.splits if_splits)
  then show ?thesis by (metis list_update_id)
qed

lemma unat_byte: "m < 256 \<Longrightarrow> unat (word_of_nat m :: 8 word) = m"
  by (simp add: unat_of_nat)

text \<open>One turn of the loop of \<open>scan_ac\<close> over an encoded symbol.\<close>

lemma scan_ac_turn:
  assumes "i < 64" and tree: "pointee (jr_ac jr) hid = Inr h" and "ht_move h = ht_tree h"
    and "reader_ok (jr_bits jr)" and "bits_left (jr_bits jr) = p @ amplitude_bits v @ rest" and "p \<noteq> []"
    and code: "(p, word_of_nat (run * 16 + category v)) \<in> set (codes_of h)" and "run < 16" and "category v < 16"
    and "run * 16 + category v \<noteq> 0" and "i + run < 64"
    and table: "pointee (jr_qtables jr) qid = Inr qtable" and "length qtable = 64"
  shows "\<exists>br. scan_ac hid qid i block jr =
      scan_ac hid qid (i + run + 1) (block[i + run := float_times v (qtable ! (i + run))]) (jr\<lparr>jr_bits := br\<rparr>) \<and>
      bits_left br = rest \<and> reader_ok br"
proof -
  let ?s = "word_of_nat (run * 16 + category v) :: 8 word"
  obtain br where d: "decode_value get_bit h jr = Inr (?s, h, jr\<lparr>jr_bits := br\<rparr>)"
    "bits_left br = amplitude_bits v @ rest" "reader_ok br"
    using decode_code [OF assms(4,5,6) code assms(3)] by blast
  obtain bits br' where g: "get_bits (category v) (jr\<lparr>jr_bits := br\<rparr>) = Inr (bits, jr\<lparr>jr_bits := br'\<rparr>)"
    "extend_sign bits (category v) = v" "bits_left br' = rest" "reader_ok br'"
    using get_bits_amplitude [of "jr\<lparr>jr_bits := br\<rparr>" v rest] d(2,3) assms(9) by auto
  have jr: "jr\<lparr>jr_bits := br, jr_ac := (jr_ac jr)[nat hid := Some h]\<rparr> = jr\<lparr>jr_bits := br\<rparr>"
    using pointee_same [OF tree] by (cases jr) simp
  have u: "unat (word_of_nat run :: 8 word) = run" "unat (word_of_nat (category v) :: 8 word) = category v"
    using assms(8,9) by (simp_all add: unat_of_nat)
  have "unat ?s = run * 16 + category v" using assms(8,9) by (intro unat_byte) simp
  then have "?s \<noteq> 0" using assms(10) by (metis unat_0)
  moreover have "index_at qtable (int (i + run)) = Inr (qtable ! (i + run))"
    using assms(11,13) unfolding index_at_def by (simp del: of_nat_add)
  ultimately show ?thesis using assms(1,11) d g jr u tree table Slice_symbol [OF assms(8,9)]
    by (subst scan_ac.simps) (auto simp: Let_def)
qed


text \<open>The loop reads back the coefficients, multiplied with the entries of the table.\<close>

definition scaled :: "int list \<Rightarrow> int list \<Rightarrow> int list" where
  "scaled cs qtable = map2 (*) cs qtable"

lemma scaled_zero: "\<forall>c \<in> set cs. c = 0 \<Longrightarrow> length cs = length qs \<Longrightarrow> scaled cs qs = replicate (length cs) 0"
  unfolding scaled_def by (induction cs qs rule: list_induct2') auto

lemma scaled_Cons: "scaled (c # cs) (q # qs) = c * q # scaled cs qs"
  by (simp add: scaled_def)

lemma scaled_step:
  assumes "k < 64" and "length block = 64" and "length qtable = 64"
  shows "take (Suc k) (block[k := c * qtable ! k]) @ scaled cs (drop (Suc k) qtable) =
    take k block @ scaled (c # cs) (drop k qtable)"
  using assms by (simp add: take_Suc_conv_app_nth scaled_Cons flip: Cons_nth_drop_Suc)

lemma has_codes_Cons: "has_codes h code (fst ` set ((s, v) # syms)) \<longleftrightarrow>
    has_codes h code (fst ` set syms) \<and> code s \<noteq> [] \<and> (code s, s) \<in> set (codes_of h)"
  by (auto simp: has_codes_def)

lemma scan_ac_reads:
  assumes "run + length cs \<le> 63" and "length block = 64" and "drop (64 - length cs) block = replicate (length cs) 0"
    and "run < 16" and "run > 0 \<Longrightarrow> cs \<noteq> [] \<and> (\<exists>c \<in> set cs. c \<noteq> 0)"
    and tree: "pointee (jr_ac jr) hid = Inr h" and "has_codes h code (fst ` set (ac_symbols run cs))"
    and "reader_ok (jr_bits jr)" and "bits_left (jr_bits jr) = encode code (ac_symbols run cs) @ rest"
    and "pointee (jr_qtables jr) qid = Inr qtable" and "length qtable = 64" and "set qtable \<subseteq> {0..255}"
    and "\<forall>c \<in> set cs. \<bar>c\<bar> < 2 ^ 15"
  shows "\<exists>br. scan_ac hid qid (64 - run - length cs) block jr =
      Inr (take (64 - length cs) block @ scaled cs (drop (64 - length cs) qtable), jr\<lparr>jr_bits := br\<rparr>) \<and>
      bits_left br = rest \<and> reader_ok br"
  using assms
proof (induction run cs arbitrary: block jr rule: ac_symbols.induct)
  case (1 run)
  moreover have "run = 0" using 1(5) by auto
  ultimately show ?case by (auto simp: scan_ac.simps scaled_def intro: exI [of _ "jr_bits jr"])
next
  case (2 run c cs)
  define k where "k = 63 - length cs"
  have k: "k < 64" "64 - length (c # cs) = k" "64 - length cs = Suc k" "run \<le> k" "0 < k - run"
    "64 - run - length (c # cs) = k - run" "length cs \<le> 62" "64 - 0 - length cs = Suc k" "64 - (run + 1) - length cs = k - run"
    using 2(4) by (auto simp: k_def)
  have h: "ht_move h = ht_tree h" using 2(10) by (simp add: has_codes_def)
  have zeros: "drop k block = 0 # replicate (length cs) 0" using 2(6) k by simp
  then have bk: "block ! k = 0" "drop (Suc k) block = replicate (length cs) 0"
    using k(1) 2(5) by (metis Cons_nth_drop_Suc list.inject)+
  have cs: "\<forall>c \<in> set cs. \<bar>c\<bar> < 2 ^ 15" "\<bar>c\<bar> < 2 ^ 15" using 2(16) by auto
  consider (zero) "c = 0 \<and> (\<forall>d \<in> set cs. d = 0)" | (long) "c = 0" "\<not> (\<forall>d \<in> set cs. d = 0)" "run = 15"
    | (short) "c = 0" "\<not> (\<forall>d \<in> set cs. d = 0)" "run < 15" | (coef) "c \<noteq> 0"
    using 2(7) by fastforce
  then show ?case
  proof cases
    case zero
    have syms: "ac_symbols run (c # cs) = [(0, 0)]" using zero by simp
    note c = 2(10) [unfolded syms has_codes_Cons] 2(12) [unfolded syms encode_simps amplitude_bits_0]
    obtain br where d: "decode_value get_bit h jr = Inr (0, h, jr\<lparr>jr_bits := br\<rparr>)" "bits_left br = rest" "reader_ok br"
      using decode_code [OF 2(11), of "code 0" rest 0 h] c h by auto
    have jr: "jr\<lparr>jr_bits := br, jr_ac := (jr_ac jr)[nat hid := Some h]\<rparr> = jr\<lparr>jr_bits := br\<rparr>"
      using pointee_same [OF 2(9)] by (cases jr) simp
    have "scan_ac hid qid (k - run) block jr = Inr (block, jr\<lparr>jr_bits := br\<rparr>)"
      using k d jr 2(9) by (subst scan_ac.simps) (simp add: Slice_def)
    moreover have "length (c # cs) = length (drop k qtable)" using 2(14) k by simp
    then have "scaled (c # cs) (drop k qtable) = replicate (length (c # cs)) 0"
      using zero by (intro scaled_zero) auto
    then have "scaled (c # cs) (drop k qtable) = drop k block" using zeros by simp
    then have "take k block @ scaled (c # cs) (drop k qtable) = block" by simp
    ultimately show ?thesis using d k by auto
  next
    case long
    have syms: "ac_symbols run (c # cs) = (0xf0, 0) # ac_symbols 0 cs" using long by simp
    note c = 2(10) [unfolded syms has_codes_Cons] 2(12) [unfolded syms encode_simps amplitude_bits_0]
    obtain br where t: "scan_ac hid qid (k - 15) block jr =
        scan_ac hid qid (k - 15 + 15 + 1) (block[k - 15 + 15 := float_times 0 (qtable ! (k - 15 + 15))]) (jr\<lparr>jr_bits := br\<rparr>)"
      "bits_left br = encode code (ac_symbols 0 cs) @ rest" "reader_ok br"
      using scan_ac_turn [of "k - 15" jr hid h "code 0xf0" 0 "encode code (ac_symbols 0 cs) @ rest" 15 qid qtable block]
        2(9,11,13,14) c h k long by auto
    have b: "block[k := 0 * qtable ! k] = block" using bk(1) by (metis list_update_id mult_zero_left)
    have "\<exists>br'. scan_ac hid qid (64 - 0 - length cs) block (jr\<lparr>jr_bits := br\<rparr>) =
        Inr (take (64 - length cs) block @ scaled cs (drop (64 - length cs) qtable), jr\<lparr>jr_bits := br'\<rparr>) \<and>
        bits_left br' = rest \<and> reader_ok br'"
      using 2(1) [OF _ long(1,3), of block "jr\<lparr>jr_bits := br\<rparr>"] long 2(5,9,13-15) c t(2,3) k bk cs by simp
    then show ?thesis
      using t(1) scaled_step [OF k(1) 2(5,14), of c cs] b long k by (auto simp: float_times_def round_float_exact)
  next
    case short
    have syms: "ac_symbols run (c # cs) = ac_symbols (run + 1) cs" using short by auto
    note c = 2(10) [unfolded syms has_codes_Cons] 2(12) [unfolded syms encode_simps amplitude_bits_0]
    have b: "block[k := 0 * qtable ! k] = block" using bk(1) by (metis list_update_id mult_zero_left)
    have ne: "cs \<noteq> []" using short by auto
    have "\<exists>br'. scan_ac hid qid (64 - (run + 1) - length cs) block jr =
        Inr (take (64 - length cs) block @ scaled cs (drop (64 - length cs) qtable), jr\<lparr>jr_bits := br'\<rparr>) \<and>
        bits_left br' = rest \<and> reader_ok br'"
      using 2(2) [of block jr] short 2(4,5,7,9,11,13-15) c k bk cs ne by simp
    then show ?thesis using scaled_step [OF k(1) 2(5,14), of c cs] b short k by auto
  next
    case coef
    have syms: "ac_symbols run (c # cs) = (word_of_nat (run * 16 + category c), c) # ac_symbols 0 cs" using coef by simp
    note c = 2(10) [unfolded syms has_codes_Cons] 2(12) [unfolded syms encode_simps amplitude_bits_0]
    have cat: "0 < category c" "category c < 16"
      using category_bounds(1) [OF coef] category_le [OF cs(2)] by auto
    obtain br where t: "scan_ac hid qid (k - run) block jr =
        scan_ac hid qid (k - run + run + 1) (block[k - run + run := float_times c (qtable ! (k - run + run))]) (jr\<lparr>jr_bits := br\<rparr>)"
      "bits_left br = encode code (ac_symbols 0 cs) @ rest" "reader_ok br"
      using scan_ac_turn [of "k - run" jr hid h "code (word_of_nat (run * 16 + category c))" c
          "encode code (ac_symbols 0 cs) @ rest" run qid qtable block]
        2(7,9,11,13,14) c h k cat by auto
    have "qtable ! k \<in> set qtable" using k 2(14) by simp
    then have f: "float_times c (qtable ! k) = c * qtable ! k" using 2(15) cs(2) by (intro float_times_exact) auto
    have "\<exists>br'. scan_ac hid qid (64 - 0 - length cs) (block[k := c * qtable ! k]) (jr\<lparr>jr_bits := br\<rparr>) =
        Inr (take (64 - length cs) (block[k := c * qtable ! k]) @ scaled cs (drop (64 - length cs) qtable), jr\<lparr>jr_bits := br'\<rparr>) \<and>
        bits_left br' = rest \<and> reader_ok br'"
      using 2(3) [of "block[k := c * qtable ! k]" "jr\<lparr>jr_bits := br\<rparr>"] coef 2(5,9,13-15) c t(2,3) k bk cs by simp
    then show ?thesis using t(1) scaled_step [OF k(1) 2(5,14), of c cs] f k by auto
  qed
qed


section \<open>Round trip of a block\<close>

lemma scan_dc_reads:
  assumes tree: "pointee (jr_dc jr) hid = Inr h" and codes: "has_codes h code {word_of_nat (category d)}"
    and "reader_ok (jr_bits jr)" and "bits_left (jr_bits jr) = code (word_of_nat (category d)) @ amplitude_bits d @ rest"
    and d: "\<bar>d\<bar> < 2 ^ 16" and sum: "\<bar>d + prev\<bar> < 2 ^ 15"
    and table: "pointee (jr_qtables jr) qid = Inr qtable" "length qtable = 64" "set qtable \<subseteq> {0..255}"
  shows "\<exists>br. scan_dc hid qid prev jr = Inr ((d + prev) * qtable ! 0, d + prev, jr\<lparr>jr_bits := br\<rparr>) \<and>
    bits_left br = rest \<and> reader_ok br"
proof -
  let ?s = "word_of_nat (category d) :: 8 word"
  have c: "code ?s \<noteq> []" "(code ?s, ?s) \<in> set (codes_of h)" "ht_move h = ht_tree h" using codes by (auto simp: has_codes_def)
  obtain br where v: "decode_value get_bit h jr = Inr (?s, h, jr\<lparr>jr_bits := br\<rparr>)"
    "bits_left br = amplitude_bits d @ rest" "reader_ok br"
    using decode_code [OF assms(3,4) c] by blast
  have cat: "category d \<le> 16" using category_le [OF d] .
  then have u: "unat ?s = category d" by (intro unat_byte) simp
  obtain bits br' where g: "get_bits (category d) (jr\<lparr>jr_bits := br\<rparr>) = Inr (bits, jr\<lparr>jr_bits := br'\<rparr>)"
    "extend_sign bits (category d) = d" "bits_left br' = rest" "reader_ok br'"
    using get_bits_amplitude [of "jr\<lparr>jr_bits := br\<rparr>" d rest] v(2,3) cat by auto
  have jr: "jr\<lparr>jr_bits := br, jr_dc := (jr_dc jr)[nat hid := Some h]\<rparr> = jr\<lparr>jr_bits := br\<rparr>"
    using pointee_same [OF tree] by (cases jr) simp
  have q: "index_at qtable 0 = Inr (qtable ! 0)" using table(2) by (simp add: index_at_def)
  have "qtable ! 0 \<in> set qtable" using table(2) by simp
  then have f: "float_times (d + prev) (qtable ! 0) = (d + prev) * qtable ! 0"
    using table(3) sum by (intro float_times_exact) auto
  show ?thesis
  proof (cases "d = 0")
    case True
    then show ?thesis using v tree jr q table f u
      by (intro exI [of _ br]) (simp add: scan_dc_def Let_def)
  next
    case False
    then have "?s \<noteq> 0" using u category_bounds(1) [OF False] by (metis unat_0 less_irrefl)
    moreover have "as_int (d + prev) = Inr (d + prev)" using sum unfolding as_int_def by (auto simp: abs_less_iff)
    ultimately show ?thesis using v g tree jr q table f u
      by (intro exI [of _ br']) (simp add: scan_dc_def Let_def)
  qed
qed

text \<open>C4. Round trip of a block. A block whose DC difference and AC coefficients are encoded as the
  standard says, with codes that \<open>Build\<close> made, is read back by \<open>scan_block\<close>: the result is each
  coefficient times its entry of the quantisation table, without rounding, the DC coefficient is
  kept for the next block of the channel, and nothing but the position in the bit stream changes.\<close>

theorem block_round_trip:
  assumes channel: "ChannelNum j jr = Inr n" "n < length last_dcs" and c: "c = chan (slot_at jr n)"
    and dc: "pointee (jr_dc jr) (sint (ch_dc_id c)) = Inr tdc" "has_codes tdc code_dc {word_of_nat (category (d - last_dcs ! n))}"
    and ac: "pointee (jr_ac jr) (sint (ch_ac_id c)) = Inr tac" "has_codes tac code_ac (fst ` set (ac_symbols 0 cs))"
    and table: "pointee (jr_qtables jr) (sint (ch_qtable_id c)) = Inr qtable" "length qtable = 64" "set qtable \<subseteq> {0..255}"
    and size: "length cs = 63" "\<forall>v \<in> set (d # last_dcs ! n # cs). \<bar>v\<bar> < 2 ^ 15"
    and "reader_ok (jr_bits jr)"
    and "bits_left (jr_bits jr) = code_dc (word_of_nat (category (d - last_dcs ! n))) @ amplitude_bits (d - last_dcs ! n) @
      encode code_ac (ac_symbols 0 cs) @ rest"
  shows "\<exists>br. scan_block j (last_dcs, jr) = Inr (map2 (*) (d # cs) qtable, last_dcs[n := d], jr\<lparr>jr_bits := br\<rparr>) \<and>
    bits_left br = rest \<and> reader_ok br"
proof -
  have "\<bar>d - last_dcs ! n\<bar> < 2 ^ 16" using size(2) by auto
  then obtain br where r: "scan_dc (sint (ch_dc_id c)) (sint (ch_qtable_id c)) (last_dcs ! n) jr =
      Inr (d * qtable ! 0, d, jr\<lparr>jr_bits := br\<rparr>)" "bits_left br = encode code_ac (ac_symbols 0 cs) @ rest" "reader_ok br"
    using scan_dc_reads [OF dc assms(13,14) _ _ table, where prev = "last_dcs ! n"] size(2) by auto
  let ?block = "(replicate 64 0)[0 := d * qtable ! 0]"
  have b: "length ?block = 64" "drop (64 - length cs) ?block = replicate (length cs) 0" "take 1 ?block = [d * qtable ! 0]"
    "64 - length cs = 1"
    using size(1) by (simp_all add: take_Suc_conv_app_nth)
  obtain br' where s: "scan_ac (sint (ch_ac_id c)) (sint (ch_qtable_id c)) 1 ?block (jr\<lparr>jr_bits := br\<rparr>) =
      Inr (take 1 ?block @ scaled cs (drop 1 qtable), jr\<lparr>jr_bits := br'\<rparr>)" "bits_left br' = rest" "reader_ok br'"
    using scan_ac_reads [of 0 cs ?block "jr\<lparr>jr_bits := br\<rparr>" "sint (ch_ac_id c)" tac code_ac rest "sint (ch_qtable_id c)" qtable]
      b ac table size r(2,3) by auto
  have "take 1 ?block @ scaled cs (drop 1 qtable) = scaled (d # cs) qtable"
    using table(2) b(3) by (cases qtable) (auto simp: scaled_Cons)
  then show ?thesis using channel c r(1) s by (intro exI [of _ br']) (simp add: scan_block_def scaled_def Let_def)
qed


text \<open>A grey image, the codes \<open>0\<close> and \<open>1\<close> for the symbols 0 and 1, the block of the coefficients
  \<open>1, -1, 0, ...\<close> after the DC coefficient 0: the bits \<open>11\<close>, \<open>10\<close>, \<open>0\<close> and what follows.\<close>

theorem block_round_trip_witness:
  "\<exists>h jr jr'. Build [2] [0, 1] = Inr h \<and> jr_dc jr = [Some h] \<and> jr_bits jr = BitReader_new [0b11100111] \<and>
     scan_block 0 ([0, 0], jr) = Inr ([2, -3] @ replicate 62 0, [0, 1], jr') \<and> bits_left (jr_bits jr') = [True, True, True]"
proof -
  have "(case Build [2] [0, 1] of Inl _ \<Rightarrow> False | Inr h \<Rightarrow> ht_move h = ht_tree h \<and> codes_of h = [([False], 0), ([True], 1)])"
    by code_simp
  then obtain h where h: "Build [2] [0, 1] = Inr h" "ht_move h = ht_tree h" "codes_of h = [([False], 0), ([True], 1)]"
    by (auto split: sum.splits)
  let ?slot = "\<lparr>engaged = True, chan = Channel_new\<lparr>ch_h := 1, ch_v := 1\<rparr>\<rparr>"
  let ?q = "[2, 3] @ replicate 62 1" and ?cs = "-1 # replicate 62 0" and ?code = "\<lambda>s :: 8 word. [s = 1]"
  let ?jr = "\<lparr>jr_bits = BitReader_new [0b11100111], jr_qtables = [Some ?q],
    jr_stats = (Stats_new (\<lambda>_. Channel_new))\<lparr>st_mcu_block_cnt := 1, st_channels := [?slot, ?slot]\<rparr>,
    jr_dc = [Some h], jr_ac = [Some h]\<rparr>"
  have bits: "bits_left (BitReader_new [0b11100111]) = [True, True, True, False, False] @ [True, True, True]" by code_simp
  have cat: "category 1 = 1" "category (-1) = 1" "amplitude_bits 1 = [True]" "amplitude_bits (-1) = [False]" by code_simp+
  have syms: "ac_symbols 0 (replicate 62 0) = [(0, 0)]" by (simp add: numeral_eq_Suc)
  have n: "ChannelNum 0 ?jr = Inr 1" by (simp add: ChannelNum_def sz_t_def Channel_new_def)
  have "\<exists>br. scan_block 0 ([0, 0], ?jr) = Inr (map2 (*) (1 # ?cs) ?q, [0, 0][1 := 1], ?jr\<lparr>jr_bits := br\<rparr>) \<and>
      bits_left br = [True, True, True] \<and> reader_ok br"
    by (rule block_round_trip [where tdc = h and tac = h and code_dc = ?code and code_ac = ?code, OF n _ refl])
      (auto simp: slot_at_def Channel_new_def pointee_def index_at_def has_codes_def h cat syms bits reader_ok_new)
  moreover have "map2 (*) (1 # ?cs) ?q = [2, -3] @ replicate 62 (0 :: int)"
    by (simp add: numeral_eq_Suc)
  ultimately obtain br where "scan_block 0 ([0, 0], ?jr) = Inr ([2, -3] @ replicate 62 0, [0, 1], ?jr\<lparr>jr_bits := br\<rparr>)"
    "bits_left br = [True, True, True]" by auto
  then show ?thesis using h(1) by (intro exI [of _ h] exI [of _ ?jr] exI [of _ "?jr\<lparr>jr_bits := br\<rparr>"]) simp
qed

end
