(* ===== verification/MetaEval.thy ===== *)
theory MetaEval
  imports Prelude "HOL-Library.Word" "HOL-Library.Signed_Division"
begin

text \<open>
  The compile-time computations (\<open>tasks/meta/compile-eval\<close>). The compiler rejects a constant expression
  whose arithmetic overflows, divides by zero or never ends; these are the errors of the model. The
  limits that a compiler sets to the depth and the length of an evaluation are not modelled.
\<close>

section \<open>Arithmetic of constant expressions\<close>

datatype compile_error = Overflow | DivisionByZero | Endless | NoReturn

definition int_range :: "int \<Rightarrow> compile_error + int" where
  "int_range v = (if - (2 ^ 31) \<le> v \<and> v < 2 ^ 31 then Inr v else Inl Overflow)"

definition llong_range :: "int \<Rightarrow> compile_error + int" where
  "llong_range v = (if - (2 ^ 63) \<le> v \<and> v < 2 ^ 63 then Inr v else Inl Overflow)"

lemma llong_range_ok: "0 \<le> v \<Longrightarrow> v < 2 ^ 63 \<Longrightarrow> llong_range v = Inr v"
  by (simp add: llong_range_def)

definition remainder :: "int \<Rightarrow> int \<Rightarrow> compile_error + int" where
  "remainder a b = (if b = 0 then Inl DivisionByZero else Inr (a smod b))"

lemma remainder_pos: "0 \<le> a \<Longrightarrow> 0 < b \<Longrightarrow> remainder a b = Inr (a mod b)"
  by (cases "a = 0") (simp_all add: remainder_def signed_modulo_int_def)

section \<open>Powers\<close>

text \<open>The template \<open>Pow\<close> on unsigned numbers, which wrap.\<close>

fun Pow :: "32 word \<Rightarrow> nat \<Rightarrow> 32 word" where
  "Pow a 0 = 1"
| "Pow a (Suc b) = Pow a b * a"

text \<open>A negative exponent is decremented for ever.\<close>

function pow_int :: "int \<Rightarrow> int \<Rightarrow> compile_error + int" where
  "pow_int a b =
     (if b < 0 then Inl Endless
      else if b = 0 then Inr 1 else ebind (pow_int a (b - 1)) (\<lambda>v. int_range (v * a)))"
  by pat_completeness auto
termination pow_int
  by (relation "measure (\<lambda>(a, b). nat b)") auto

declare pow_int.simps [simp del]

function mod_pow :: "int \<Rightarrow> int \<Rightarrow> int \<Rightarrow> compile_error + int" where
  "mod_pow a b m =
     (if b < 0 then Inl Endless
      else if b = 0 then Inr 1
      else ebind (mod_pow a (b - 1) m) (\<lambda>v. ebind (llong_range (v * a)) (\<lambda>w. remainder w m)))"
  by pat_completeness auto
termination mod_pow
  by (relation "measure (\<lambda>(a, b, m). nat b)") auto

declare mod_pow.simps [simp del]

section \<open>The polynomial hash\<close>

text \<open>The characters before the terminating zero; \<open>char\<close> is a signed byte.\<close>

function hashi :: "8 word list \<Rightarrow> int \<Rightarrow> int \<Rightarrow> nat \<Rightarrow> compile_error + int" where
  "hashi s p m i =
     (if length s \<le> i then Inr 0
      else ebind (hashi s p m (i + 1)) (\<lambda>h.
           ebind (mod_pow p (int i) m) (\<lambda>w.
           ebind (remainder w m) (\<lambda>w'.
           ebind (llong_range (sint (s ! i) * w')) (\<lambda>t.
           ebind (llong_range (h + t)) (\<lambda>v. remainder v m))))))"
  by pat_completeness auto
termination hashi
  by (relation "measure (\<lambda>(s, p, m, i). length s - i)") auto

declare hashi.simps [simp del]

definition hash :: "8 word list \<Rightarrow> int \<Rightarrow> int \<Rightarrow> compile_error + int" where
  "hash s p m = hashi s p m 0"

section \<open>Primes\<close>

definition is_prime :: "int \<Rightarrow> bool" where
  "is_prime x \<longleftrightarrow> x \<noteq> 1 \<and> \<not> list_ex (\<lambda>i. int i \<noteq> x \<and> x smod int i = 0) [2..<35000]"

function next_prime :: "int \<Rightarrow> compile_error + int" where
  "next_prime x =
     (if x \<ge> 2 ^ 31 then Inl Overflow else if is_prime x then Inr x else next_prime (x + 1))"
  by pat_completeness auto
termination next_prime
  by (relation "measure (\<lambda>x. nat (2 ^ 31 - x))") auto

declare next_prime.simps [simp del]

section \<open>Square root\<close>

text \<open>The template \<open>Sqrt<N, l, r>\<close>: only the selected argument of \<open>Conditional\<close> is instantiated. An
  instance that needs itself, or infinitely many others, has no value: \<open>None\<close>.\<close>

definition Conditional :: "bool \<Rightarrow> 'a \<Rightarrow> 'a \<Rightarrow> 'a" where
  "Conditional c F S = (if c then F else S)"

partial_function (option) Sqrt :: "int \<Rightarrow> int \<Rightarrow> int \<Rightarrow> (compile_error + int) option" where
  "Sqrt N l r =
     (case llong_range (l + r) of
        Inl e \<Rightarrow> Some (Inl e)
      | Inr s \<Rightarrow>
          (let mid = s sdiv 2
           in if l = r \<and> mid = r then Some (Inr r)
              else (case llong_range (mid * mid) of
                      Inl e \<Rightarrow> Some (Inl e)
                    | Inr q \<Rightarrow>
                        (let (l', r') = Conditional (q \<ge> N) (l, mid) (mid + 1, r)
                         in Sqrt N l' r'))))"

section \<open>Determinant\<close>

type_synonym Arr = "nat \<Rightarrow> bool"

definition Arr_new :: Arr where
  "Arr_new = (\<lambda>i. False)"

definition Arr_with :: "Arr \<Rightarrow> nat \<Rightarrow> Arr" where
  "Arr_with rhs pos = rhs(pos := True)"

text \<open>The next summand of the expansion along a line; \<open>minor\<close> is the determinant of the rest.\<close>

definition add_cofactor :: "int \<Rightarrow> (compile_error + int) \<Rightarrow> int \<times> nat \<Rightarrow> compile_error + int \<times> nat" where
  "add_cofactor entry minor = (\<lambda>(det, cnt).
     ebind minor (\<lambda>d. ebind (int_range (entry * d)) (\<lambda>p.
     ebind (int_range (if even cnt then det + p else det - p)) (\<lambda>det'. Inr (det', cnt + 1)))))"

function forbidden_determinant :: "nat \<Rightarrow> (nat \<Rightarrow> nat \<Rightarrow> int) \<Rightarrow> Arr \<Rightarrow> Arr \<Rightarrow> nat \<Rightarrow> compile_error + int" where
  "forbidden_determinant N a forbidden_lines forbidden_columns forbidden_cnt =
     (case (if int N - int forbidden_cnt = 1
            then find (\<lambda>(i, j). \<not> forbidden_lines i \<and> \<not> forbidden_columns j) (List.product [0..<N] [0..<N])
            else None) of
        Some (i, j) \<Rightarrow> Inr (a i j)
      | None \<Rightarrow>
          (case find (\<lambda>i. \<not> forbidden_lines i) [0..<N] of
             None \<Rightarrow> Inr 0
           | Some i \<Rightarrow>
               ebind (efold (\<lambda>acc j.
                   if forbidden_columns j then Inr acc
                   else add_cofactor (a i j) (forbidden_determinant N a (Arr_with forbidden_lines i)
                     (Arr_with forbidden_columns j) (forbidden_cnt + 1)) acc) (0, 0) [0..<N])
                 (\<lambda>(det, cnt). Inr det)))"
  by pat_completeness auto
termination forbidden_determinant
proof (relation "measure (\<lambda>(N, a, l, c, k). card {i \<in> {0..<N}. \<not> l i})", goal_cases)
  case (2 N a l c k i j)
  have "i < N" "\<not> l i" using 2 by (auto simp: find_Some_iff)
  then have "{x \<in> {0..<N}. \<not> Arr_with l i x} \<subset> {x \<in> {0..<N}. \<not> l x}" by (auto simp: Arr_with_def)
  then show ?case by (simp add: psubset_card_mono)
qed auto

declare forbidden_determinant.simps [simp del]

definition determinant :: "nat \<Rightarrow> (nat \<Rightarrow> nat \<Rightarrow> int) \<Rightarrow> compile_error + int" where
  "determinant N a = forbidden_determinant N a Arr_new Arr_new 0"

section \<open>What the functions compute\<close>

lemma Pow_power: "Pow a b = a ^ b"
  by (induction b) (simp_all add: mult.commute)

lemma mod_pow_value:
  assumes "0 \<le> a" and "0 < m" and "m * a < 2 ^ 63" and "1 < m"
  shows "mod_pow a (int b) m = Inr (a ^ b mod m)"
proof (induction b)
  case 0
  then show ?case using assms(4) by (simp add: mod_pow.simps)
next
  case (Suc b)
  have v: "0 \<le> a ^ b mod m" "a ^ b mod m < m" using assms by simp_all
  have "a ^ b mod m * a \<le> m * a" using v assms(1) by (intro mult_right_mono) auto
  then have "llong_range (a ^ b mod m * a) = Inr (a ^ b mod m * a)" "0 \<le> a ^ b mod m * a"
    using assms(1,3) v(1) by (simp_all add: llong_range_ok)
  then show ?case using Suc assms(2)
    by (subst mod_pow.simps) (simp add: remainder_pos mod_mult_right_eq mult.commute)
qed

lemma hashi_value:
  assumes "0 \<le> p" and "1 < m" and "m * max p 128 + m < 2 ^ 63" and ascii: "\<And>c. c \<in> set s \<Longrightarrow> 0 \<le> sint c"
  shows "i \<le> length s \<Longrightarrow> hashi s p m i = Inr ((\<Sum>k = i..<length s. sint (s ! k) * p ^ k) mod m)"
proof (induction "length s - i" arbitrary: i)
  case 0
  then show ?case by (simp add: hashi.simps)
next
  case (Suc n)
  let ?h = "(\<Sum>k = i + 1..<length s. sint (s ! k) * p ^ k) mod m" and ?w = "p ^ i mod m" and ?c = "sint (s ! i)"
  have i: "i < length s" using Suc.hyps(2) by simp
  have "m * p \<le> m * max p 128" using assms(2) by (intro mult_left_mono) auto
  then have "m * p < 2 ^ 63" using assms(2,3) by linarith
  then have w: "mod_pow p (int i) m = Inr ?w" using assms(1,2) by (intro mod_pow_value) auto
  have c: "0 \<le> ?c" "?c < 128" using ascii [of "s ! i"] i sint_lt [of "s ! i"] by simp_all
  have b: "0 \<le> ?h" "?h < m" "0 \<le> ?w" "?w < m" using assms(2) by simp_all
  have "?c * ?w \<le> 128 * m" using b c by (intro mult_mono) auto
  also have "\<dots> \<le> m * max p 128" using assms(2) by (simp add: mult.commute [of 128] mult_left_mono)
  finally have t: "0 \<le> ?c * ?w" "?c * ?w \<le> m * max p 128" using b c by simp_all
  moreover have "?h + ?c * ?w < 2 ^ 63" using t(2) b(2) assms(3) by linarith
  ultimately have r: "llong_range (?c * ?w) = Inr (?c * ?w)" "llong_range (?h + ?c * ?w) = Inr (?h + ?c * ?w)"
    using assms(2,3) b by (simp_all add: llong_range_ok)
  have sum: "(\<Sum>k = i..<length s. sint (s ! k) * p ^ k) = ?c * p ^ i + (\<Sum>k = i + 1..<length s. sint (s ! k) * p ^ k)"
    using i by (simp add: sum.atLeast_Suc_lessThan)
  have "hashi s p m i = Inr ((?h + ?c * ?w) mod m)"
    using Suc.hyps(1) [of "i + 1"] Suc.hyps(2) i w r b t assms(2)
    by (subst hashi.simps) (simp add: remainder_pos)
  also have "(?h + ?c * ?w) mod m = (\<Sum>k = i..<length s. sint (s ! k) * p ^ k) mod m"
  proof -
    have "(S mod m + c * (P mod m)) mod m = (c * P + S) mod m" for S c P :: int
    proof -
      have "(S mod m + c * (P mod m)) mod m = (S + (c * (P mod m)) mod m) mod m"
        by (simp only: mod_add_left_eq mod_add_right_eq)
      also have "\<dots> = (c * P + S) mod m" by (simp only: mod_mult_right_eq mod_add_right_eq add.commute)
      finally show ?thesis .
    qed
    then show ?thesis unfolding sum .
  qed
  finally show ?case .
qed

definition prime_number :: "int \<Rightarrow> bool" where
  "prime_number x \<longleftrightarrow> 1 < x \<and> (\<forall>d. 1 < d \<and> d < x \<longrightarrow> \<not> d dvd x)"

lemma is_prime_iff: "is_prime x \<longleftrightarrow> x \<noteq> 1 \<and> (\<forall>i. 2 \<le> i \<and> i < 35000 \<longrightarrow> int i = x \<or> x smod int i \<noteq> 0)"
  unfolding is_prime_def list_ex_iff set_upt by auto

lemma is_prime_number:
  assumes "0 \<le> x" and "x < 35000 ^ 2"
  shows "is_prime x \<longleftrightarrow> prime_number x"
proof (cases "x \<le> 1")
  case True
  then have "x = 0 \<or> x = 1" using assms(1) by auto
  moreover have "0 smod int 2 = 0" by simp
  ultimately show ?thesis unfolding is_prime_iff prime_number_def by force
next
  case False
  have smod: "x smod int i = x mod int i" for i
    using False by (cases "x mod int i = 0") (simp_all add: signed_modulo_int_def sgn_if)
  have "is_prime x \<longleftrightarrow> (\<forall>i. 2 \<le> i \<and> i < 35000 \<longrightarrow> int i = x \<or> \<not> int i dvd x)"
    using False unfolding is_prime_iff smod dvd_eq_mod_eq_0 by auto
  also have "\<dots> \<longleftrightarrow> prime_number x"
  proof
    assume *: "\<forall>i. 2 \<le> i \<and> i < 35000 \<longrightarrow> int i = x \<or> \<not> int i dvd x"
    have "\<not> d dvd x" if d: "1 < d" "d < x" for d
    proof
      assume "d dvd x"
      then obtain e where e: "x = d * e" by (rule dvdE)
      have "0 < e" using e d False by (simp add: zero_less_mult_iff)
      moreover have "e \<noteq> 1" using e d by auto
      ultimately have "1 < e" by simp
      have "d < 35000 \<or> e < 35000"
      proof (rule ccontr)
        assume "\<not> ?thesis"
        then have "35000 * 35000 \<le> d * e" using d by (intro mult_mono) auto
        then show False using assms(2) e by (simp add: power2_eq_square)
      qed
      then obtain f where f: "f dvd x" "1 < f" "f < 35000" "f < x"
      proof
        assume "d < 35000"
        then show thesis using that [of d] d \<open>d dvd x\<close> by blast
      next
        assume "e < 35000"
        moreover have "e * 1 < e * d" using d \<open>1 < e\<close> by (intro mult_strict_left_mono) auto
        ultimately show thesis using that [of e] e \<open>1 < e\<close> by (simp add: mult.commute)
      qed
      then have "2 \<le> nat f \<and> nat f < 35000" "int (nat f) = f" by linarith+
      note h = this
      show False using * [rule_format, OF h(1)] h(2) f by auto
    qed
    then show "prime_number x" using False by (simp add: prime_number_def)
  next
    assume p: "prime_number x"
    show "\<forall>i. 2 \<le> i \<and> i < 35000 \<longrightarrow> int i = x \<or> \<not> int i dvd x"
    proof (intro allI impI)
      fix i :: nat assume i: "2 \<le> i \<and> i < 35000"
      show "int i = x \<or> \<not> int i dvd x"
      proof (cases "int i < x")
        case True
        then show ?thesis using p i by (simp add: prime_number_def)
      next
        case ge: False
        then show ?thesis using False zdvd_imp_le [of "int i" x] by auto
      qed
    qed
  qed
  finally show ?thesis .
qed

lemma next_prime_search:
  assumes "prime_number q" and "q < 35000 ^ 2" and "0 \<le> x" and "x \<le> q"
  shows "\<exists>p. next_prime x = Inr p \<and> prime_number p \<and> x \<le> p \<and> p \<le> q \<and> (\<forall>y. x \<le> y \<and> y < p \<longrightarrow> \<not> prime_number y)"
  using assms(3,4)
proof (induction "nat (q - x)" arbitrary: x rule: less_induct)
  case less
  have x: "x < 35000 ^ 2" "x < 2 ^ 31" using less.prems assms(2) by simp_all
  show ?case
  proof (cases "prime_number x")
    case True
    then have "next_prime x = Inr x" using less.prems x by (subst next_prime.simps) (simp add: is_prime_number)
    then show ?thesis using True less.prems by (intro exI [of _ x]) auto
  next
    case False
    then have "x < q" using less.prems assms(1) by (metis order_le_less)
    then obtain p where p: "next_prime (x + 1) = Inr p" "prime_number p" "x + 1 \<le> p" "p \<le> q"
      "\<forall>y. x + 1 \<le> y \<and> y < p \<longrightarrow> \<not> prime_number y"
      using less.hyps [of "x + 1"] less.prems by auto
    moreover have "next_prime x = next_prime (x + 1)"
      using False less.prems x by (subst next_prime.simps) (simp add: is_prime_number)
    moreover have "\<not> prime_number y" if "x \<le> y" "y < p" for y
      using that False calculation(5) by (cases "y = x") auto
    ultimately show ?thesis by (intro exI [of _ p]) auto
  qed
qed

lemma Sqrt_search:
  assumes "1 \<le> l" and "l \<le> r" and "r \<le> N" and "(l - 1) ^ 2 < N" and "N \<le> r ^ 2" and N: "N \<le> 6 * 10 ^ 9"
  shows "\<exists>x. Sqrt N l r = Some (Inr x) \<and> 1 \<le> x \<and> (x - 1) ^ 2 < N \<and> N \<le> x ^ 2"
  using assms(1-5)
proof (induction "nat (r - l)" arbitrary: l r rule: less_induct)
  case less
  let ?mid = "(l + r) sdiv 2"
  have mid: "?mid = (l + r) div 2" using less.prems by (simp add: signed_divide_int_def sgn_if)
  have "l - 1 < 77460"
  proof (rule ccontr)
    assume "\<not> l - 1 < 77460"
    then have "77460 ^ 2 \<le> (l - 1) ^ 2" by (intro power_mono) auto
    then show False using less.prems(4) N by simp
  qed
  then have le: "?mid \<le> 3000038731" using less.prems(3) N unfolding mid by simp
  have ge: "0 \<le> ?mid" using less.prems mid by simp
  have "?mid * ?mid \<le> 3000038731 * 3000038731" using le ge by (intro mult_mono) auto
  then have sq: "llong_range (?mid * ?mid) = Inr (?mid * ?mid)" using ge by (intro llong_range_ok) simp_all
  have sum: "llong_range (l + r) = Inr (l + r)" using less.prems N by (simp add: llong_range_def)
  show ?case
  proof (cases "l = r")
    case True
    then show ?thesis using less.prems sum mid by (subst Sqrt.simps) (simp add: Conditional_def)
  next
    case False
    then have lt: "l < r" using less.prems by simp
    then have m: "l \<le> ?mid" "?mid < r" unfolding mid by auto
    show ?thesis
    proof (cases "N \<le> ?mid * ?mid")
      case True
      have "Sqrt N l r = Sqrt N l ?mid" using lt m True sum sq by (subst Sqrt.simps) (simp add: Conditional_def)
      moreover have "\<exists>x. Sqrt N l ?mid = Some (Inr x) \<and> 1 \<le> x \<and> (x - 1) ^ 2 < N \<and> N \<le> x ^ 2"
        by (rule less.hyps) (use lt m True less.prems in \<open>auto simp: power2_eq_square\<close>)
      ultimately show ?thesis by simp
    next
      case False
      have "Sqrt N l r = Sqrt N (?mid + 1) r" using lt m False sum sq by (subst Sqrt.simps) (simp add: Conditional_def)
      moreover have "\<exists>x. Sqrt N (?mid + 1) r = Some (Inr x) \<and> 1 \<le> x \<and> (x - 1) ^ 2 < N \<and> N \<le> x ^ 2"
        by (rule less.hyps) (use lt m False less.prems in \<open>auto simp: power2_eq_square\<close>)
      ultimately show ?thesis by simp
    qed
  qed
qed


text \<open>The hash is the polynomial of the specification.\<close>

lemma hash_value:
  assumes "0 \<le> p" and "1 < m" and "m * max p 128 + m < 2 ^ 63" and "\<And>c. c \<in> set s \<Longrightarrow> 0 \<le> sint c"
  shows "hash s p m = Inr ((\<Sum>k = 0..<length s. sint (s ! k) * p ^ k) mod m)"
  using hashi_value [OF assms, where i = 0] by (simp add: hash_def)

section \<open>Properties\<close>

text \<open>\<open>next_prime\<close> finds the least prime from \<open>x\<close> on, whenever there is one below
  \<open>35000 ^ 2\<close>: it terminates, and trial division up to 35000 decides primality there.\<close>

theorem next_prime_least:
  assumes "prime_number q" and "q < 35000 ^ 2" and "0 \<le> x" and "x \<le> q"
  shows "\<exists>p. next_prime x = Inr p \<and> prime_number p \<and> x \<le> p \<and> p \<le> q \<and> (\<forall>y. x \<le> y \<and> y < p \<longrightarrow> \<not> prime_number y)"
  by (rule next_prime_search [OF assms])

theorem next_prime_least_witness: "next_prime 4 = Inr 5"
proof -
  have five: "prime_number 5"
  proof -
    have "d = 2 \<or> d = 3 \<or> d = 4" if "1 < d" "d < 5" for d :: int using that by auto
    then show ?thesis unfolding prime_number_def by fastforce
  qed
  have "\<not> prime_number 4" unfolding prime_number_def by (auto intro: exI [of _ 2])
  moreover obtain p where p: "next_prime 4 = Inr p" "prime_number p" "4 \<le> p" "p \<le> 5"
    using next_prime_least [of 5 4, OF five] by auto
  ultimately have "p \<noteq> 4" by auto
  then show ?thesis using p by auto
qed

text \<open>\<open>Sqrt<N>\<close> is the least number whose square is at least \<open>N\<close>, for \<open>N\<close> from 1 to
  \<open>6 * 10 ^ 9\<close>: the binary search ends and the squares it computes do not overflow.\<close>

theorem Sqrt_least:
  assumes "1 \<le> N" and "N \<le> 6 * 10 ^ 9"
  shows "\<exists>x. Sqrt N 1 N = Some (Inr x) \<and> 1 \<le> x \<and> N \<le> x ^ 2 \<and> (\<forall>y. 0 \<le> y \<and> N \<le> y ^ 2 \<longrightarrow> x \<le> y)"
proof -
  have "N \<le> N ^ 2" using assms(1) by (simp add: power2_eq_square)
  then obtain x where x: "Sqrt N 1 N = Some (Inr x)" "1 \<le> x" "(x - 1) ^ 2 < N" "N \<le> x ^ 2"
    using Sqrt_search [of 1 N N] assms by auto
  have "x \<le> y" if "0 \<le> y" "N \<le> y ^ 2" for y
  proof (rule ccontr)
    assume "\<not> x \<le> y"
    then have "y ^ 2 \<le> (x - 1) ^ 2" using that(1) by (intro power_mono) auto
    then show False using x(3) that(2) by simp
  qed
  then show ?thesis using x by blast
qed

theorem Sqrt_least_witness: "\<exists>x. Sqrt 143 1 143 = Some (Inr x) \<and> 143 \<le> x ^ 2 \<and> x \<le> 12"
proof -
  obtain x where "Sqrt 143 1 143 = Some (Inr x)" "143 \<le> x ^ 2" "\<forall>y. 0 \<le> y \<and> 143 \<le> y ^ 2 \<longrightarrow> x \<le> y"
    using Sqrt_least [of 143] by auto
  then show ?thesis by (intro exI [of _ x]) auto
qed

end
