(* ===== verification/ConstexprMap.thy ===== *)
theory ConstexprMap
  imports Prelude "HOL-Library.Word" "HOL-Library.Multiset"
begin

text \<open>
  The map and the string of constant expressions (\<open>tasks/meta/constexpr-map\<close>). The map is an array of
  \<open>MaxSize\<close> pairs of which the first \<open>next_free\<close> are in use; a lookup compares with all of them. An
  access outside the array, and the function that returns nothing, are errors of the constant expression.
\<close>

section \<open>The map\<close>

datatype constexpr_error = OutOfBounds | NoReturn

record ('k, 'v) constexpr_map =
  data :: "('k \<times> 'v) list"
  next_free :: nat

text \<open>A fresh map, and the pairs \<open>K()\<close>, \<open>V()\<close> it starts with.\<close>

definition ConstexprMap_new :: "nat \<Rightarrow> 'k \<Rightarrow> 'v \<Rightarrow> ('k, 'v) constexpr_map" where
  "ConstexprMap_new MaxSize k0 v0 = \<lparr>data = replicate MaxSize (k0, v0), next_free = 0\<rparr>"

fun position :: "'k \<Rightarrow> ('k \<times> 'v) list \<Rightarrow> nat option" where
  "position key [] = None"
| "position key (pr # prs) = (if fst pr = key then Some 0 else map_option Suc (position key prs))"

text \<open>\<open>operator[]\<close> returns a reference: the index of the slot, and the map, which it may have extended.\<close>

definition subscript :: "'v \<Rightarrow> 'k \<Rightarrow> ('k, 'v) constexpr_map \<Rightarrow> constexpr_error + nat \<times> ('k, 'v) constexpr_map" where
  "subscript v0 key mp =
     (case position key (data mp) of
        Some i \<Rightarrow> Inr (i, mp)
      | None \<Rightarrow>
          if length (data mp) \<le> next_free mp then Inl OutOfBounds
          else Inr (next_free mp, \<lparr>data = (data mp)[next_free mp := (key, v0)], next_free = next_free mp + 1\<rparr>))"

definition subscript_const :: "'k \<Rightarrow> ('k, 'v) constexpr_map \<Rightarrow> constexpr_error + 'v" where
  "subscript_const key mp =
     (case position key (data mp) of Some i \<Rightarrow> Inr (snd (data mp ! i)) | None \<Rightarrow> Inl NoReturn)"

text \<open>The loop of \<open>Erase\<close> that moves the pairs after \<open>i\<close> one slot down.\<close>

definition shift_down :: "nat \<Rightarrow> nat \<Rightarrow> ('k \<times> 'v) list \<Rightarrow> ('k \<times> 'v) list" where
  "shift_down i n prs = fold (\<lambda>j prs. prs[j - 1 := prs ! j]) [i + 1..<n] prs"

definition Erase :: "'k \<Rightarrow> ('k, 'v) constexpr_map \<Rightarrow> bool \<times> ('k, 'v) constexpr_map" where
  "Erase key mp =
     (case position key (take (next_free mp) (data mp)) of
        Some i \<Rightarrow> (True, \<lparr>data = shift_down i (next_free mp) (data mp), next_free = next_free mp - 1\<rparr>)
      | None \<Rightarrow> (False, mp))"

definition Find :: "'k \<Rightarrow> ('k, 'v) constexpr_map \<Rightarrow> bool" where
  "Find key mp \<longleftrightarrow> list_ex (\<lambda>pr. fst pr = key) (data mp)"

definition Size :: "('k, 'v) constexpr_map \<Rightarrow> nat" where
  "Size mp = next_free mp"

definition GetByIndex :: "nat \<Rightarrow> ('k, 'v) constexpr_map \<Rightarrow> constexpr_error + 'k \<times> 'v" where
  "GetByIndex pos mp = (if pos < length (data mp) then Inr (data mp ! pos) else Inl OutOfBounds)"

text \<open>The statement \<open>map[key] = value\<close> of a client.\<close>

definition assign :: "'v \<Rightarrow> 'k \<Rightarrow> 'v \<Rightarrow> ('k, 'v) constexpr_map \<Rightarrow> constexpr_error + ('k, 'v) constexpr_map" where
  "assign v0 key v mp =
     ebind (subscript v0 key mp) (\<lambda>(i, mp'). Inr (mp'\<lparr>data := (data mp')[i := (fst (data mp' ! i), v)]\<rparr>))"

section \<open>Sorting\<close>

text \<open>One step of the bubble sort at \<open>j\<close>, the inner and the outer loop, over the pairs in use.\<close>

definition bubble :: "('k \<Rightarrow> 'k \<Rightarrow> bool) \<Rightarrow> nat \<Rightarrow> ('k \<times> 'v) list \<Rightarrow> ('k \<times> 'v) list" where
  "bubble before j prs =
     (if before (fst (prs ! (j + 1))) (fst (prs ! j)) then prs[j := prs ! (j + 1), j + 1 := prs ! j] else prs)"

definition bubble_pass :: "('k \<Rightarrow> 'k \<Rightarrow> bool) \<Rightarrow> nat \<Rightarrow> ('k \<times> 'v) list \<Rightarrow> ('k \<times> 'v) list" where
  "bubble_pass before m prs = fold (bubble before) [0..<m] prs"

text \<open>The comparison of \<open>Sort\<close>, from the \<open>operator<\<close> of the keys: keys of an integral type come in
  descending order, others in ascending order.\<close>

definition sorts_before :: "bool \<Rightarrow> ('k \<Rightarrow> 'k \<Rightarrow> bool) \<Rightarrow> 'k \<Rightarrow> 'k \<Rightarrow> bool" where
  "sorts_before integral lt a b = (if integral then lt b a else lt a b)"

definition Sort :: "bool \<Rightarrow> ('k \<Rightarrow> 'k \<Rightarrow> bool) \<Rightarrow> ('k, 'v) constexpr_map \<Rightarrow> ('k, 'v) constexpr_map" where
  "Sort integral lt mp =
     mp\<lparr>data := fold (\<lambda>i prs. bubble_pass (sorts_before integral lt) (Size mp - i - 1) prs) [0..<Size mp] (data mp)\<rparr>"

section \<open>Strings\<close>

text \<open>The characters of a literal without the zero at its end; \<open>char\<close> is a signed byte.\<close>

datatype ConstexprString = ConstexprString (chars: "8 word list")

text \<open>The loop of \<open>Compare\<close> over the common length, and the comparison of the lengths after it.\<close>

fun compare_from :: "8 word list \<Rightarrow> 8 word list \<Rightarrow> int" where
  "compare_from [] [] = 0"
| "compare_from [] (d # ds) = - 1"
| "compare_from (c # cs) [] = 1"
| "compare_from (c # cs) (d # ds) =
     (if sint c < sint d then - 1 else if sint c > sint d then 1 else compare_from cs ds)"

definition Compare :: "ConstexprString \<Rightarrow> ConstexprString \<Rightarrow> int" where
  "Compare s t = compare_from (chars s) (chars t)"

definition string_size :: "ConstexprString \<Rightarrow> nat" where
  "string_size s = length (chars s)"

definition string_eq :: "ConstexprString \<Rightarrow> ConstexprString \<Rightarrow> bool" where
  "string_eq s t \<longleftrightarrow> Compare s t = 0"

definition string_less :: "ConstexprString \<Rightarrow> ConstexprString \<Rightarrow> bool" where
  "string_less s t \<longleftrightarrow> Compare s t < 0"

section \<open>Keys that can be sorted\<close>

lemma mset_take_drop: "mset (take k xs) = mset xs - mset (drop k xs)"
  by (metis add_diff_cancel_right' append_take_drop_id mset_append)

lemma nth_eq_drop:
  assumes "drop k xs = drop k ys" and "length xs = length ys" and "k \<le> b" and "b < length ys"
  shows "xs ! b = ys ! b"
proof -
  have "xs ! b = drop k xs ! (b - k)" "ys ! b = drop k ys ! (b - k)" using assms(2-4) by simp_all
  then show ?thesis using assms(1) by simp
qed

locale key_order =
  fixes before :: "'k \<Rightarrow> 'k \<Rightarrow> bool"
  assumes before_irrefl: "\<not> before a a"
    and before_trans: "before a b \<Longrightarrow> before b c \<Longrightarrow> before a c"
    and before_total: "before a b \<or> a = b \<or> before b a"
begin

lemma not_before_trans: "\<not> before b a \<Longrightarrow> \<not> before c b \<Longrightarrow> \<not> before c a"
  using before_total before_trans by metis

lemma before_asym: "before a b \<Longrightarrow> \<not> before b a"
  using before_irrefl before_trans by blast

lemma flip: "key_order (\<lambda>a b. before b a)"
  by unfold_locales (use before_irrefl before_trans before_total in \<open>blast+\<close>)

lemma bubble_pass_last:
  assumes "m < length prs"
  shows "length (bubble_pass before m prs) = length prs \<and> mset (bubble_pass before m prs) = mset prs
    \<and> drop (m + 1) (bubble_pass before m prs) = drop (m + 1) prs
    \<and> (\<forall>k \<le> m. \<not> before (fst (bubble_pass before m prs ! m)) (fst (bubble_pass before m prs ! k)))"
  using assms
proof (induction m)
  case 0
  then show ?case by (simp add: bubble_pass_def before_irrefl)
next
  case (Suc m)
  let ?r = "bubble_pass before m prs"
  have IH: "length ?r = length prs" "mset ?r = mset prs" "drop (m + 1) ?r = drop (m + 1) prs"
    "\<And>k. k \<le> m \<Longrightarrow> \<not> before (fst (?r ! m)) (fst (?r ! k))"
    using Suc by auto
  have step: "bubble_pass before (Suc m) prs = bubble before m ?r"
    by (simp add: bubble_pass_def)
  have "drop (Suc m + 1) ?r = drop (Suc m + 1) prs"
    using arg_cong [OF IH(3), of "drop 1"] by simp
  then have d: "drop (Suc m + 1) (bubble before m ?r) = drop (Suc m + 1) prs"
    by (simp add: bubble_def)
  have ms: "mset (bubble before m ?r) = mset prs"
    using IH(1,2) Suc.prems by (simp add: bubble_def mset_swap)
  have "\<not> before (fst (bubble before m ?r ! Suc m)) (fst (bubble before m ?r ! k))" if "k \<le> Suc m" for k
  proof (cases "before (fst (?r ! (m + 1))) (fst (?r ! m))")
    case True
    then show ?thesis using that IH(1,4) Suc.prems before_asym [OF True] before_irrefl
      by (auto simp: bubble_def nth_list_update le_Suc_eq)
  next
    case False
    have "\<not> before (fst (?r ! Suc m)) (fst (?r ! k))"
    proof (cases "k = Suc m")
      case True
      then show ?thesis by (simp add: before_irrefl)
    next
      case neq: False
      then show ?thesis using that False IH(4) [of k] not_before_trans [of "fst (?r ! m)" "fst (?r ! k)"] by simp
    qed
    then show ?thesis using False by (simp add: bubble_def)
  qed
  then show ?case using step ms d IH(1) by (simp add: bubble_def)
qed

lemma bubble_passes_sort:
  assumes "n \<le> length prs" and "i \<le> n"
  defines "r \<equiv> fold (\<lambda>i prs. bubble_pass before (n - i - 1) prs) [0..<i] prs"
  shows "length r = length prs \<and> mset r = mset prs \<and> drop n r = drop n prs
    \<and> (\<forall>a b. a < b \<and> b < n \<and> n - i \<le> b \<longrightarrow> \<not> before (fst (r ! b)) (fst (r ! a)))"
  using assms(2) unfolding r_def
proof (induction i)
  case 0
  show ?case by auto
next
  case (Suc i)
  let ?q = "fold (\<lambda>i prs. bubble_pass before (n - i - 1) prs) [0..<i] prs" and ?m = "n - i - 1"
  let ?r = "bubble_pass before ?m ?q"
  have IH: "length ?q = length prs" "mset ?q = mset prs" "drop n ?q = drop n prs"
    "\<And>a b. a < b \<Longrightarrow> b < n \<Longrightarrow> n - i \<le> b \<Longrightarrow> \<not> before (fst (?q ! b)) (fst (?q ! a))"
    using Suc by auto
  have m: "?m < length ?q" using Suc.prems assms(1) IH(1) by simp
  note P = bubble_pass_last [OF m]
  have dn: "drop n ?r = drop n prs"
    using arg_cong [OF conjunct1 [OF conjunct2 [OF conjunct2 [OF P]]], of "drop (n - (?m + 1))"] IH(3) Suc.prems
    by simp
  have take_set: "set (take (?m + 1) ?r) = set (take (?m + 1) ?q)"
    using P IH(2) mset_take_drop [of "?m + 1" ?r] mset_take_drop [of "?m + 1" ?q] by (intro mset_eq_setD) simp
  have high: "?r ! b = ?q ! b" if "?m < b" "b < n" for b
    by (rule nth_eq_drop [of "?m + 1"]) (use P that IH(1) assms(1) in simp_all)
  have "\<not> before (fst (?r ! b)) (fst (?r ! a))" if ab: "a < b" "b < n" "n - Suc i \<le> b" for a b
  proof (cases "b = ?m")
    case True
    then show ?thesis using P ab(1) by simp
  next
    case False
    then have b: "?m < b" "n - i \<le> b" using ab Suc.prems by auto
    show ?thesis
    proof (cases "?m < a")
      case True
      then show ?thesis using IH(4) [OF ab(1,2) b(2)] high [of a] high [of b] b ab by simp
    next
      case a: False
      then have "?r ! a \<in> set (take (?m + 1) ?r)" using P m by (auto simp: in_set_conv_nth intro!: exI [of _ a])
      then have "?r ! a \<in> set (take (?m + 1) ?q)" using take_set by simp
      then obtain a' where "a' < length (take (?m + 1) ?q)" "take (?m + 1) ?q ! a' = ?r ! a"
        unfolding in_set_conv_nth by blast
      then have "a' < ?m + 1" "?r ! a = ?q ! a'" by simp_all
      then show ?thesis using IH(4) [of a' b] ab b high [of b] by simp
    qed
  qed
  then show ?case using P IH(1,2) dn by simp
qed

end

section \<open>Strings are such keys\<close>

lemma compare_refl: "compare_from s s = 0"
  by (induction s) simp_all

lemma compare_swap: "compare_from t s = - compare_from s t"
  by (induction s t rule: compare_from.induct) auto

lemma compare_eq_0: "compare_from s t = 0 \<longleftrightarrow> s = t"
  by (induction s t rule: compare_from.induct) (auto intro: signed_word_eqI)

lemma compare_trans: "compare_from s t < 0 \<Longrightarrow> compare_from t u < 0 \<Longrightarrow> compare_from s u < 0"
proof (induction s t arbitrary: u rule: compare_from.induct)
  case (2 d ds)
  then show ?case by (cases u) simp_all
next
  case (4 c cs d ds)
  then obtain e es where u: "u = e # es" by (cases u) simp_all
  show ?case
  proof (cases "sint c = sint d \<and> sint d = sint e")
    case True
    then show ?thesis using 4 u by simp
  next
    case False
    then have "sint c < sint e" using 4(2,3) u by (simp split: if_split_asm)
    then show ?thesis using u by simp
  qed
qed simp_all

text \<open>\<open>operator<\<close> makes the strings a linear order of the library.\<close>

instantiation ConstexprString :: linorder
begin

definition less_ConstexprString :: "ConstexprString \<Rightarrow> ConstexprString \<Rightarrow> bool" where
  "s < t \<longleftrightarrow> string_less s t"

definition less_eq_ConstexprString :: "ConstexprString \<Rightarrow> ConstexprString \<Rightarrow> bool" where
  "s \<le> t \<longleftrightarrow> \<not> string_less t s"

instance
proof
  fix s t u :: ConstexprString
  note defs = less_ConstexprString_def less_eq_ConstexprString_def string_less_def Compare_def
  have swap: "compare_from (chars t) (chars s) = - compare_from (chars s) (chars t)" for s t :: ConstexprString
    by (rule compare_swap)
  show "s < t \<longleftrightarrow> s \<le> t \<and> \<not> t \<le> s" using swap [of s t] by (auto simp: defs)
  show "s \<le> s" by (simp add: defs compare_refl)
  show "s \<le> t \<or> t \<le> s" using swap [of s t] by (auto simp: defs)
  show "s = t" if "s \<le> t" "t \<le> s"
    using that swap [of s t] compare_eq_0 [of "chars s" "chars t"] by (simp add: defs ConstexprString.expand)
  show "s \<le> u" if "s \<le> t" "t \<le> u"
  proof (rule ccontr)
    assume "\<not> s \<le> u"
    then have us: "compare_from (chars u) (chars s) < 0" by (simp add: defs)
    have "compare_from (chars t) (chars s) \<ge> 0" "compare_from (chars u) (chars t) \<ge> 0"
      using that by (simp_all add: defs)
    then show False
      using us compare_trans [of "chars u" "chars s" "chars t"] swap [of t s] swap [of t u] compare_eq_0 [of "chars s" "chars t"]
      by (cases "compare_from (chars s) (chars t) = 0") auto
  qed
qed

end

interpretation strings: key_order string_less
  by unfold_locales (auto simp flip: less_ConstexprString_def)

lemma string_eq_iff: "string_eq s t \<longleftrightarrow> s = t"
  by (cases s; cases t) (simp add: string_eq_def Compare_def compare_eq_0)

section \<open>Assignments fill a map\<close>

lemma position_None: "position key prs = None \<longleftrightarrow> key \<notin> fst ` set prs"
  by (induction prs) auto

lemma position_Some: "position key prs = Some i \<Longrightarrow> i < length prs \<and> fst (prs ! i) = key \<and> key \<notin> fst ` set (take i prs)"
  by (induction prs arbitrary: i) (force split: if_splits)+

lemma position_append:
  "position key (xs @ ys) = (case position key xs of Some i \<Rightarrow> Some i | None \<Rightarrow> map_option ((+) (length xs)) (position key ys))"
  by (cases "position key ys"; induction xs) (auto split: option.splits)

text \<open>The pairs in use are those of a map without the default key, which the other slots hold.\<close>

definition fresh :: "nat \<Rightarrow> 'k \<Rightarrow> ('k, 'v) constexpr_map \<Rightarrow> ('k \<times> 'v) list \<Rightarrow> bool" where
  "fresh MaxSize k0 mp used \<longleftrightarrow> length (data mp) = MaxSize \<and> next_free mp = length used \<and> length used \<le> MaxSize
     \<and> take (length used) (data mp) = used \<and> distinct (map fst used) \<and> k0 \<notin> fst ` set used
     \<and> (\<forall>pr \<in> set (drop (length used) (data mp)). fst pr = k0)"

lemma freshE:
  assumes "fresh n k0 mp used"
  obtains rest where "data mp = used @ rest" "next_free mp = length used" "length used + length rest = n"
    "distinct (map fst used)" "k0 \<notin> fst ` set used" "\<And>pr. pr \<in> set rest \<Longrightarrow> fst pr = k0"
proof -
  let ?r = "drop (length used) (data mp)"
  have "data mp = used @ ?r" using assms append_take_drop_id [of "length used" "data mp"] by (simp add: fresh_def)
  then show thesis using assms by (intro that [of ?r]) (auto simp: fresh_def)
qed

lemma position_fresh: "fresh n k0 mp used \<Longrightarrow> key \<noteq> k0 \<Longrightarrow> position key (data mp) = position key used"
proof (elim freshE)
  fix rest assume "key \<noteq> k0" "data mp = used @ rest" "\<And>pr. pr \<in> set rest \<Longrightarrow> fst pr = k0"
  moreover then have "position key rest = None" by (force simp: position_None)
  ultimately show ?thesis by (auto simp: position_append split: option.splits)
qed

lemma map_of_update:
  "position key used = Some i \<Longrightarrow> map_of (used[i := (key, v)]) = (map_of used)(key \<mapsto> v)"
  by (induction used arbitrary: i) (auto split: if_splits simp: fun_upd_twist)

lemma keys_update: "position key used = Some i \<Longrightarrow> map fst (used[i := (key, v)]) = map fst used"
  using position_Some [of key used i] by (simp add: map_update list_update_same_conv)

lemma assign_used:
  assumes "fresh n k0 mp used" and "key \<noteq> k0" and "key \<in> fst ` set used"
  shows "\<exists>mp' used'. assign v0 key v mp = Inr mp' \<and> fresh n k0 mp' used'
    \<and> map_of used' = (map_of used)(key \<mapsto> v) \<and> map fst used' = map fst used"
proof -
  obtain i where i: "position key used = Some i" using assms(3) position_None [of key used] by auto
  obtain rest where r: "data mp = used @ rest" "next_free mp = length used" "length used + length rest = n"
    "distinct (map fst used)" "k0 \<notin> fst ` set used" "\<And>pr. pr \<in> set rest \<Longrightarrow> fst pr = k0"
    using assms(1) by (rule freshE) blast
  let ?used = "used[i := (key, v)]"
  have "assign v0 key v mp = Inr (mp\<lparr>data := ?used @ rest\<rparr>)"
    using i r(1) position_Some [OF i] position_fresh [OF assms(1,2)]
    by (simp add: assign_def subscript_def list_update_append nth_append)
  moreover have "fst ` set ?used = fst ` set used" using keys_update [OF i, of v] by (metis list.set_map)
  then have "fresh n k0 (mp\<lparr>data := ?used @ rest\<rparr>) ?used"
    using r keys_update [OF i, of v] by (auto simp: fresh_def)
  ultimately show ?thesis using map_of_update [OF i] keys_update [OF i] by blast
qed

lemma assign_new:
  assumes "fresh n k0 mp used" and "key \<noteq> k0" and "key \<notin> fst ` set used"
  shows "length used < n \<Longrightarrow> \<exists>mp'. assign v0 key v mp = Inr mp' \<and> fresh n k0 mp' (used @ [(key, v)])"
    and "length used = n \<Longrightarrow> assign v0 key v mp = Inl OutOfBounds"
proof -
  obtain rest where r: "data mp = used @ rest" "next_free mp = length used" "length used + length rest = n"
    "distinct (map fst used)" "k0 \<notin> fst ` set used" "\<And>pr. pr \<in> set rest \<Longrightarrow> fst pr = k0"
    using assms(1) by (rule freshE) blast
  have p: "position key (data mp) = None"
    using position_fresh [OF assms(1,2)] assms(3) by (simp add: position_None)
  show "\<exists>mp'. assign v0 key v mp = Inr mp' \<and> fresh n k0 mp' (used @ [(key, v)])" if n: "length used < n"
  proof -
    obtain x xs where x: "rest = x # xs" using n r(3) by (cases rest) auto
    have "assign v0 key v mp = Inr \<lparr>data = used @ (key, v) # xs, next_free = length used + 1\<rparr>"
      using p r x by (simp add: assign_def subscript_def list_update_append nth_append)
    moreover have "fresh n k0 \<lparr>data = used @ (key, v) # xs, next_free = length used + 1\<rparr> (used @ [(key, v)])"
      using r x assms by (auto simp: fresh_def)
    ultimately show ?thesis by blast
  qed
  show "assign v0 key v mp = Inl OutOfBounds" if "length used = n"
    using p r that by (simp add: assign_def subscript_def)
qed

lemma assigns_fresh:
  assumes "fresh n k0 mp used" and "k0 \<notin> fst ` set kvs" and "card (fst ` set used \<union> fst ` set kvs) \<le> n"
  shows "\<exists>mp' used'. efold (\<lambda>mp (k, v). assign v0 k v mp) mp kvs = Inr mp' \<and> fresh n k0 mp' used'
    \<and> map_of used' = map_of used ++ map_of (rev kvs) \<and> fst ` set used' = fst ` set used \<union> fst ` set kvs"
  using assms
proof (induction kvs arbitrary: mp used)
  case Nil
  then show ?case by auto
next
  case (Cons kv kvs)
  obtain k v where kv: "kv = (k, v)" by force
  have k: "k \<noteq> k0" using Cons.prems(2) kv by auto
  have "\<exists>mp1 used1. assign v0 k v mp = Inr mp1 \<and> fresh n k0 mp1 used1
    \<and> map_of used1 = (map_of used)(k \<mapsto> v) \<and> fst ` set used1 = insert k (fst ` set used)"
  proof (cases "k \<in> fst ` set used")
    case True
    then show ?thesis using assign_used [OF Cons.prems(1) k True, of v0 v]
      by (metis insert_absorb list.set_map)
  next
    case False
    have "length used = card (fst ` set used)"
      using Cons.prems(1) by (metis distinct_card fresh_def length_map list.set_map)
    also have "\<dots> < card (fst ` set used \<union> fst ` set (kv # kvs))"
      using False kv by (intro psubset_card_mono) auto
    finally have "length used < n" using Cons.prems(3) by simp
    moreover have "map_of used k = None" using False by (simp add: map_of_eq_None_iff)
    then have "map_of (used @ [(k, v)]) = (map_of used)(k \<mapsto> v)"
      by (auto simp: map_add_def fun_eq_iff split: option.splits)
    moreover have "fst ` set (used @ [(k, v)]) = insert k (fst ` set used)" by simp
    ultimately show ?thesis using assign_new(1) [OF Cons.prems(1) k False, of v0 v] by blast
  qed
  then obtain mp1 used1 where s: "assign v0 k v mp = Inr mp1" "fresh n k0 mp1 used1"
    "map_of used1 = (map_of used)(k \<mapsto> v)" "fst ` set used1 = insert k (fst ` set used)" by blast
  have "\<exists>mp' used'. efold (\<lambda>mp (k, v). assign v0 k v mp) mp1 kvs = Inr mp' \<and> fresh n k0 mp' used'
    \<and> map_of used' = map_of used1 ++ map_of (rev kvs) \<and> fst ` set used' = fst ` set used1 \<union> fst ` set kvs"
    using Cons.IH [OF s(2)] Cons.prems(2,3) s(4) kv by auto
  then show ?case using s kv by (auto simp: map_add_assoc [symmetric])
qed

lemma assigns_full:
  assumes "fresh n k0 mp used" and "k0 \<notin> fst ` set kvs" and "n < card (fst ` set used \<union> fst ` set kvs)"
  shows "efold (\<lambda>mp (k, v). assign v0 k v mp) mp kvs = Inl OutOfBounds"
  using assms
proof (induction kvs arbitrary: mp used)
  case Nil
  then have "card (fst ` set used) \<le> n" by (metis card_image_le card_length fresh_def le_trans list.set_map List.finite_set length_map)
  then show ?case using Nil by simp
next
  case (Cons kv kvs)
  obtain k v where kv: "kv = (k, v)" by force
  have k: "k \<noteq> k0" using Cons.prems(2) kv by auto
  have keys: "n < card (insert k (fst ` set used) \<union> fst ` set kvs)" using Cons.prems(3) kv by simp
  consider (used) "k \<in> fst ` set used" | (room) "k \<notin> fst ` set used" "length used < n"
    | (full) "k \<notin> fst ` set used" "length used = n"
    using Cons.prems(1) by (fastforce simp: fresh_def)
  then show ?case
  proof cases
    case used
    obtain mp1 used1 where s: "assign v0 k v mp = Inr mp1" "fresh n k0 mp1 used1" "map fst used1 = map fst used"
      using assign_used [OF Cons.prems(1) k used] by blast
    then have "fst ` set used1 = insert k (fst ` set used)" using used by (metis insert_absorb list.set_map)
    then show ?thesis using Cons.IH [OF s(2)] Cons.prems(2) keys s(1) kv by simp
  next
    case room
    obtain mp1 where s: "assign v0 k v mp = Inr mp1" "fresh n k0 mp1 (used @ [(k, v)])"
      using assign_new(1) [OF Cons.prems(1) k room] by blast
    then show ?thesis using Cons.IH [OF s(2)] Cons.prems(2) keys kv by simp
  next
    case full
    then show ?thesis using assign_new(2) [OF Cons.prems(1) k full(1)] kv by simp
  qed
qed

lemma fresh_new: "fresh n k0 (ConstexprMap_new n k0 v0) []"
  by (auto simp: fresh_def ConstexprMap_new_def)

lemma fresh_reads:
  assumes "fresh n k0 mp used" and "key \<noteq> k0"
  shows "Find key mp \<longleftrightarrow> map_of used key \<noteq> None"
    and "map_of used key = Some v \<Longrightarrow> subscript_const key mp = Inr v"
proof -
  obtain rest where r: "data mp = used @ rest" "distinct (map fst used)" "\<And>pr. pr \<in> set rest \<Longrightarrow> fst pr = k0"
    using assms(1) by (rule freshE) blast
  show "Find key mp \<longleftrightarrow> map_of used key \<noteq> None"
    using r assms(2) by (auto simp: Find_def list_ex_iff map_of_eq_None_iff image_iff dest: map_of_SomeD)
  assume v: "map_of used key = Some v"
  then obtain i where i: "position key used = Some i"
    using position_None [of key used] by (metis domI dom_map_of_conv_image_fst not_None_eq)
  then have "i < length used" "used ! i \<in> set used" "fst (used ! i) = key" using position_Some [OF i] by auto
  then have "map_of used key = Some (snd (used ! i))"
    using r(2) by (metis map_of_eq_Some_iff prod.collapse)
  then show "subscript_const key mp = Inr v"
    using i v r(1) \<open>i < length used\<close> position_fresh [OF assms] by (simp add: subscript_const_def nth_append)
qed

section \<open>Erasing\<close>

lemma shift_down_step: "i + 1 \<le> n \<Longrightarrow> shift_down i (Suc n) prs = (shift_down i n prs)[n - 1 := shift_down i n prs ! n]"
  by (simp add: shift_down_def)

lemma shift_down_used:
  assumes "i < n" and "n \<le> length prs"
  shows "length (shift_down i n prs) = length prs \<and> take (n - 1) (shift_down i n prs) = take i prs @ drop (i + 1) (take n prs)
    \<and> drop (n - 1) (shift_down i n prs) = drop (n - 1) prs"
  using assms
proof (induction n)
  case (Suc n)
  show ?case
  proof (cases "i = n")
    case True
    then show ?thesis using Suc.prems by (simp add: shift_down_def)
  next
    case False
    then have n: "i < n" "n < length prs" using Suc.prems by auto
    let ?s = "shift_down i n prs"
    have IH: "length ?s = length prs" "take (n - 1) ?s = take i prs @ drop (i + 1) (take n prs)" "drop (n - 1) ?s = drop (n - 1) prs"
      using Suc.IH n by auto
    have at_n: "?s ! n = prs ! n" by (rule nth_eq_drop [of "n - 1"]) (use IH n in simp_all)
    have "take n (?s[n - 1 := prs ! n]) = take (n - 1) ?s @ [prs ! n]"
      using n IH(1) by (cases n) (simp_all add: take_Suc_conv_app_nth)
    moreover have "take (Suc n) prs = take n prs @ [prs ! n]" using n by (simp add: take_Suc_conv_app_nth)
    moreover have "drop n (?s[n - 1 := prs ! n]) = drop n prs"
      using n arg_cong [OF IH(3), of "drop 1"] by simp
    ultimately show ?thesis using n IH(1,2) shift_down_step [of i n prs] at_n by simp
  qed
qed simp

lemma Erase_used:
  assumes "next_free mp \<le> length (data mp)" and "distinct (map fst (take (next_free mp) (data mp)))"
    and "key \<in> fst ` set (take (next_free mp) (data mp))"
  shows "\<exists>mp'. Erase key mp = (True, mp') \<and> Size mp' = Size mp - 1 \<and> length (data mp') = length (data mp)
    \<and> take (Size mp') (data mp') = filter (\<lambda>pr. fst pr \<noteq> key) (take (Size mp) (data mp))
    \<and> drop (Size mp') (data mp') = drop (Size mp') (data mp)"
proof -
  let ?n = "next_free mp"
  obtain i where i: "position key (take ?n (data mp)) = Some i"
    using assms(3) position_None [of key "take ?n (data mp)"] by auto
  then have n: "i < ?n" and key: "fst (data mp ! i) = key" using position_Some [OF i] assms(1) by auto
  have split: "take ?n (data mp) = take i (data mp) @ data mp ! i # drop (i + 1) (take ?n (data mp))"
    using n assms(1) id_take_nth_drop [of i "take ?n (data mp)"] by (simp add: min_def)
  have "distinct (map fst (take i (data mp) @ data mp ! i # drop (i + 1) (take ?n (data mp))))"
    using assms(2) split by metis
  then have notin: "key \<notin> fst ` set (take i (data mp))" "key \<notin> fst ` set (drop (i + 1) (take ?n (data mp)))"
    using key by auto
  have "filter (\<lambda>pr. fst pr \<noteq> key) xs = xs" if "key \<notin> fst ` set xs" for xs :: "('a \<times> 'b) list"
    using that by (auto simp: filter_id_conv)
  then have "filter (\<lambda>pr. fst pr \<noteq> key) (take ?n (data mp)) = take i (data mp) @ drop (i + 1) (take ?n (data mp))"
    using notin key by (subst split) simp
  then show ?thesis using i n assms(1) shift_down_used [OF n assms(1)] by (simp add: Erase_def Size_def)
qed

section \<open>Properties\<close>

text \<open>C39. A sequence of assignments \<open>map[key] = value\<close> to keys other than the default key behaves like
  updates of a finite map: when at most \<open>MaxSize\<close> keys occur it succeeds, the size is the number of
  keys, \<open>Find\<close> is membership, and the constant \<open>operator[]\<close> returns the value assigned last; when more
  occur, the evaluation leaves the array.\<close>

theorem assigns_refine_map:
  assumes "k0 \<notin> fst ` set kvs"
  shows "if card (fst ` set kvs) \<le> MaxSize
    then \<exists>mp. efold (\<lambda>mp (k, v). assign v0 k v mp) (ConstexprMap_new MaxSize k0 v0) kvs = Inr mp
      \<and> Size mp = card (fst ` set kvs)
      \<and> (\<forall>k. k \<noteq> k0 \<longrightarrow> Find k mp = (k \<in> fst ` set kvs)
          \<and> (\<forall>v. map_of (rev kvs) k = Some v \<longrightarrow> subscript_const k mp = Inr v))
    else efold (\<lambda>mp (k, v). assign v0 k v mp) (ConstexprMap_new MaxSize k0 v0) kvs = Inl OutOfBounds"
proof (cases "card (fst ` set kvs) \<le> MaxSize")
  case True
  then obtain mp used where r: "efold (\<lambda>mp (k, v). assign v0 k v mp) (ConstexprMap_new MaxSize k0 v0) kvs = Inr mp"
    "fresh MaxSize k0 mp used" "map_of used = map_of (rev kvs)" "fst ` set used = fst ` set kvs"
    using assigns_fresh [OF fresh_new assms, of MaxSize v0 v0] by auto
  have "Size mp = length (map fst used)" "distinct (map fst used)" using r(2) by (simp_all add: fresh_def Size_def)
  then have "Size mp = card (fst ` set kvs)" using r(4) distinct_card [of "map fst used"] by simp
  moreover have "map_of (rev kvs) k = None \<longleftrightarrow> k \<notin> fst ` set kvs" for k by (simp add: map_of_eq_None_iff)
  ultimately show ?thesis using True r fresh_reads [OF r(2)] by auto
next
  case False
  then show ?thesis using assigns_full [OF fresh_new assms] by simp
qed

theorem assigns_refine_map_witness:
  "\<exists>mp. efold (\<lambda>mp (k, v). assign 0 k v mp) (ConstexprMap_new 2 0 0) [(1::int, 5::int), (2, 6), (1, 7)] = Inr mp
    \<and> Size mp = 2 \<and> subscript_const 1 mp = Inr 7 \<and> \<not> Find 3 mp"
  using assigns_refine_map [of "0::int" "[(1, 5::int), (2, 6), (1, 7)]" 2 0] by (auto simp: card_insert_if)

text \<open>\<open>Erase\<close> of a key in use removes exactly its pair from the pairs in use and keeps their order;
  but the slot that becomes free keeps its pair, so \<open>Find\<close> still finds the key of the pair that was last.\<close>

theorem Erase_leaves_last:
  assumes "next_free mp \<le> length (data mp)" and "distinct (map fst (take (next_free mp) (data mp)))"
    and "key \<in> fst ` set (take (next_free mp) (data mp))"
  shows "\<exists>mp'. Erase key mp = (True, mp') \<and> Size mp' = Size mp - 1
    \<and> take (Size mp') (data mp') = filter (\<lambda>pr. fst pr \<noteq> key) (take (Size mp) (data mp))
    \<and> Find (fst (data mp ! (Size mp - 1))) mp'"
proof -
  obtain mp' where r: "Erase key mp = (True, mp')" "Size mp' = Size mp - 1" "length (data mp') = length (data mp)"
    "take (Size mp') (data mp') = filter (\<lambda>pr. fst pr \<noteq> key) (take (Size mp) (data mp))"
    "drop (Size mp') (data mp') = drop (Size mp') (data mp)"
    using Erase_used [OF assms] by blast
  have "0 < next_free mp" using assms(3) by (cases "next_free mp") auto
  then have n: "Size mp - 1 < length (data mp)" using assms(1) by (simp add: Size_def)
  have "data mp' ! (Size mp - 1) = data mp ! (Size mp - 1)"
    by (rule nth_eq_drop [OF r(5,3)]) (use r(2) n in simp_all)
  then have "data mp ! (Size mp - 1) \<in> set (data mp')" using n r(3) by (metis nth_mem)
  then show ?thesis using r by (auto simp: Find_def list_ex_iff)
qed

theorem Erase_leaves_last_witness:
  "\<exists>mp'. Erase (1::int) \<lparr>data = [(1, 5::int), (0, 0)], next_free = 1\<rparr> = (True, mp') \<and> Size mp' = 0 \<and> Find 1 mp'"
  using Erase_leaves_last [of "\<lparr>data = [(1::int, 5::int), (0, 0)], next_free = 1\<rparr>" 1] by (auto simp: Size_def)

text \<open>C40. \<open>Sort\<close> permutes the pairs in use, leaves the others and the size alone, and puts the keys in
  order: descending when the keys are of an integral type, ascending otherwise.\<close>

theorem Sort_sorts:
  assumes "key_order lt" and "next_free mp \<le> length (data mp)"
  shows "Size (Sort integral lt mp) = Size mp
    \<and> drop (Size mp) (data (Sort integral lt mp)) = drop (Size mp) (data mp)
    \<and> mset (take (Size mp) (data (Sort integral lt mp))) = mset (take (Size mp) (data mp))
    \<and> sorted_wrt (\<lambda>a b. if integral then \<not> lt a b else \<not> lt b a)
        (map fst (take (Size mp) (data (Sort integral lt mp))))"
proof -
  let ?n = "next_free mp" and ?before = "sorts_before integral lt"
  have "key_order ?before"
  proof (cases integral)
    case True
    then have "?before = (\<lambda>a b. lt b a)" by (simp add: sorts_before_def fun_eq_iff)
    then show ?thesis using key_order.flip [OF assms(1)] by simp
  next
    case False
    then have "?before = lt" by (simp add: sorts_before_def fun_eq_iff)
    then show ?thesis using assms(1) by simp
  qed
  note S = key_order.bubble_passes_sort [OF this assms(2) order_refl]
  let ?r = "data (Sort integral lt mp)"
  have r: "length ?r = length (data mp)" "mset ?r = mset (data mp)" "drop ?n ?r = drop ?n (data mp)"
    "\<And>a b. a < b \<Longrightarrow> b < ?n \<Longrightarrow> \<not> ?before (fst (?r ! b)) (fst (?r ! a))"
    using S by (auto simp: Sort_def Size_def)
  have "mset (take ?n ?r) = mset (take ?n (data mp))" using r by (simp add: mset_take_drop)
  moreover have "sorted_wrt (\<lambda>a b. \<not> ?before b a) (map fst (take ?n ?r))"
    using r assms(2) by (auto simp: sorted_wrt_iff_nth_less)
  moreover have "(\<lambda>a b. \<not> ?before b a) = (\<lambda>a b. if integral then \<not> lt a b else \<not> lt b a)"
    by (simp add: sorts_before_def fun_eq_iff)
  moreover have "Size (Sort integral lt mp) = Size mp" by (simp add: Size_def Sort_def)
  ultimately show ?thesis using r(3) by (simp add: Size_def)
qed

theorem Sort_sorts_witness:
  "sorted_wrt (\<lambda>a b. \<not> string_less b a)
     (map fst (take 2 (data (Sort False string_less \<lparr>data = [(ConstexprString [98], 1::int), (ConstexprString [97], 2), (ConstexprString [], 0)], next_free = 2\<rparr>))))"
  using Sort_sorts [OF strings.key_order_axioms, of "\<lparr>data = [(ConstexprString [98], 1::int), (ConstexprString [97], 2), (ConstexprString [], 0)], next_free = 2\<rparr>" False]
  by (simp add: Size_def)

end
