(* ===== verification/Editor.thy ===== *)
theory Editor
  imports Prelude "HOL-Library.Word"
begin

text \<open>
  The text editor with undo (\<open>tasks/patterns/editor\<close>): commands that change a buffer and a cursor, and
  two stacks of them. The cursor is a \<open>size_t\<close> and wraps. \<open>OutOfRange\<close> is the exception of the string
  operations; \<open>Undefined\<close> marks behaviour that C++ leaves undefined.
\<close>

section \<open>Commands\<close>

datatype editor_error = OutOfRange | Undefined

type_synonym view = "string \<times> 64 word"

datatype command =
    TypeCommand char
  | BackspaceCommand "char option"
  | ShiftCommand char

text \<open>\<open>std::string::insert\<close> of one character and \<open>std::string::erase\<close> of one character.\<close>

definition insert_at :: "64 word \<Rightarrow> char \<Rightarrow> string \<Rightarrow> editor_error + string" where
  "insert_at pos c buffer =
     (if length buffer < unat pos then Inl OutOfRange
      else Inr (take (unat pos) buffer @ c # drop (unat pos) buffer))"

definition erase_at :: "64 word \<Rightarrow> string \<Rightarrow> editor_error + string" where
  "erase_at pos buffer =
     (if length buffer < unat pos then Inl OutOfRange
      else Inr (take (unat pos) buffer @ drop (unat pos + 1) buffer))"

text \<open>\<open>buffer_[pos]\<close>: the element after the last one is the zero character.\<close>

definition char_at :: "64 word \<Rightarrow> string \<Rightarrow> editor_error + char" where
  "char_at pos buffer =
     (if unat pos < length buffer then Inr (buffer ! unat pos)
      else if unat pos = length buffer then Inr CHR 0x00 else Inl Undefined)"

text \<open>\<open>Do\<close> and \<open>Undo\<close> of the three classes; \<open>Do\<close> returns the command too, since the one that erases
  remembers the character.\<close>

definition Do_Type :: "char \<Rightarrow> view \<Rightarrow> editor_error + command \<times> view" where [simp]:
  "Do_Type c = (\<lambda>(buffer, pos). ebind (insert_at pos c buffer) (\<lambda>b. Inr (TypeCommand c, b, pos + 1)))"

definition Undo_Type :: "view \<Rightarrow> editor_error + view" where [simp]:
  "Undo_Type = (\<lambda>(buffer, pos). ebind (erase_at (pos - 1) buffer) (\<lambda>b. Inr (b, pos - 1)))"

definition Do_Backspace :: "char option \<Rightarrow> view \<Rightarrow> editor_error + command \<times> view" where [simp]:
  "Do_Backspace c = (\<lambda>(buffer, pos).
     if pos > 0
     then ebind (char_at (pos - 1) buffer) (\<lambda>c'.
          ebind (erase_at (pos - 1) buffer) (\<lambda>b. Inr (BackspaceCommand (Some c'), b, pos - 1)))
     else Inr (BackspaceCommand c, buffer, pos))"

definition Undo_Backspace :: "char option \<Rightarrow> view \<Rightarrow> editor_error + view" where [simp]:
  "Undo_Backspace c = (\<lambda>(buffer, pos).
     case c of None \<Rightarrow> Inl Undefined | Some c' \<Rightarrow> ebind (insert_at pos c' buffer) (\<lambda>b. Inr (b, pos + 1)))"

definition Do_Shift :: "char \<Rightarrow> view \<Rightarrow> editor_error + command \<times> view" where [simp]:
  "Do_Shift d = (\<lambda>(buffer, pos).
     Inr (ShiftCommand d, buffer,
       if d = CHR ''<'' then if pos \<noteq> 0 then pos - 1 else pos
       else if pos \<noteq> word_of_nat (length buffer) then pos + 1 else pos))"

definition Undo_Shift :: "char \<Rightarrow> view \<Rightarrow> editor_error + view" where [simp]:
  "Undo_Shift d = (\<lambda>(buffer, pos). Inr (buffer, if d = CHR ''<'' then pos + 1 else pos - 1))"

primrec Do :: "command \<Rightarrow> view \<Rightarrow> editor_error + command \<times> view" where
  "Do (TypeCommand c) = Do_Type c"
| "Do (BackspaceCommand c) = Do_Backspace c"
| "Do (ShiftCommand d) = Do_Shift d"

primrec Undo_command :: "command \<Rightarrow> view \<Rightarrow> editor_error + view" where
  "Undo_command (TypeCommand c) = Undo_Type"
| "Undo_command (BackspaceCommand c) = Undo_Backspace c"
| "Undo_command (ShiftCommand d) = Undo_Shift d"

section \<open>The editor\<close>

record editor =
  content :: view
  log :: "command list"
  relog :: "command list"

definition Editor_new :: editor where
  "Editor_new = \<lparr>content = ('''', 0), log = [], relog = []\<rparr>"

definition GetText :: "editor \<Rightarrow> string" where
  "GetText e = fst (content e)"

text \<open>What the four actions share: the command is logged, then done. An exception leaves it in the log.\<close>

definition perform :: "command \<Rightarrow> editor \<Rightarrow> editor_error option \<times> editor" where
  "perform c e =
     (case Do c (content e) of
        Inl x \<Rightarrow> (Some x, e\<lparr>relog := [], log := log e @ [c]\<rparr>)
      | Inr (c', t) \<Rightarrow> (None, \<lparr>content = t, log = log e @ [c'], relog = []\<rparr>))"

definition Type :: "char \<Rightarrow> editor \<Rightarrow> editor_error option \<times> editor" where
  "Type c e = perform (TypeCommand c) e"

definition ShiftLeft :: "editor \<Rightarrow> editor_error option \<times> editor" where
  "ShiftLeft e = (if snd (content e) \<noteq> 0 then perform (ShiftCommand CHR ''<'') e else (None, e))"

definition ShiftRight :: "editor \<Rightarrow> editor_error option \<times> editor" where
  "ShiftRight e =
     (if snd (content e) \<noteq> word_of_nat (length (GetText e)) then perform (ShiftCommand CHR ''>'') e else (None, e))"

definition Backspace :: "editor \<Rightarrow> editor_error option \<times> editor" where
  "Backspace e = (if snd (content e) \<noteq> 0 then perform (BackspaceCommand None) e else (None, e))"

definition Undo :: "editor \<Rightarrow> editor_error option \<times> editor" where
  "Undo e =
     (if log e = [] then (None, e)
      else case Undo_command (last (log e)) (content e) of
             Inl x \<Rightarrow> (Some x, e)
           | Inr t \<Rightarrow> (None, \<lparr>content = t, log = butlast (log e), relog = relog e @ [last (log e)]\<rparr>))"

definition Redo :: "editor \<Rightarrow> editor_error option \<times> editor" where
  "Redo e =
     (if relog e = [] then (None, e)
      else case Do (last (relog e)) (content e) of
             Inl x \<Rightarrow> (Some x, e)
           | Inr (c, t) \<Rightarrow> (None, \<lparr>content = t, log = log e, relog = butlast (relog e)\<rparr>))"

text \<open>A session: the operations in order, until one of them throws.\<close>

datatype operation = OpType char | OpShiftLeft | OpShiftRight | OpBackspace | OpUndo | OpRedo

fun operate :: "operation \<Rightarrow> editor \<Rightarrow> editor_error option \<times> editor" where
  "operate (OpType c) e = Type c e"
| "operate OpShiftLeft e = ShiftLeft e"
| "operate OpShiftRight e = ShiftRight e"
| "operate OpBackspace e = Backspace e"
| "operate OpUndo e = Undo e"
| "operate OpRedo e = Redo e"

primrec session :: "operation list \<Rightarrow> editor \<Rightarrow> editor_error option \<times> editor" where
  "session [] e = (None, e)"
| "session (x # xs) e = (case operate x e of (None, e') \<Rightarrow> session xs e' | (Some err, e') \<Rightarrow> (Some err, e'))"

section \<open>An editor with undo, abstractly\<close>

text \<open>The characters before the cursor, in reverse, and after it; the states undo and redo return to.\<close>

type_synonym zipper = "string \<times> string"

record spec =
  now :: zipper
  past :: "zipper list"
  future :: "zipper list"

definition act :: "zipper \<Rightarrow> spec \<Rightarrow> spec" where
  "act z s = \<lparr>now = z, past = now s # past s, future = []\<rparr>"

fun spec_operate :: "operation \<Rightarrow> spec \<Rightarrow> spec" where
  "spec_operate (OpType c) s = act (c # fst (now s), snd (now s)) s"
| "spec_operate OpShiftLeft s = (case now s of (l # ls, rs) \<Rightarrow> act (ls, l # rs) s | _ \<Rightarrow> s)"
| "spec_operate OpShiftRight s = (case now s of (ls, r # rs) \<Rightarrow> act (r # ls, rs) s | _ \<Rightarrow> s)"
| "spec_operate OpBackspace s = (case now s of (l # ls, rs) \<Rightarrow> act (ls, rs) s | _ \<Rightarrow> s)"
| "spec_operate OpUndo s = (case past s of z # zs \<Rightarrow> \<lparr>now = z, past = zs, future = now s # future s\<rparr> | [] \<Rightarrow> s)"
| "spec_operate OpRedo s = (case future s of z # zs \<Rightarrow> \<lparr>now = z, past = now s # past s, future = zs\<rparr> | [] \<Rightarrow> s)"

definition spec_new :: spec where
  "spec_new = \<lparr>now = ([], []), past = [], future = []\<rparr>"

definition spec_text :: "spec \<Rightarrow> string" where
  "spec_text s = rev (fst (now s)) @ snd (now s)"

section \<open>The contract of a command\<close>

locale abstract_command =
  fixes Do :: "'c \<Rightarrow> 's \<Rightarrow> 'e + 'c \<times> 's"
    and Undo :: "'c \<Rightarrow> 's \<Rightarrow> 'e + 's"
    and applicable :: "'c \<Rightarrow> 's \<Rightarrow> bool"
  assumes Do_Undo: "applicable c s \<Longrightarrow> \<exists>c' t. Do c s = Inr (c', t) \<and> Do c' s = Inr (c', t) \<and> Undo c' t = Inr s"
begin

definition linked :: "'c \<Rightarrow> 's \<Rightarrow> 's \<Rightarrow> bool" where
  "linked c s t \<longleftrightarrow> Do c s = Inr (c, t) \<and> Undo c t = Inr s"

lemma Do_linked:
  assumes "applicable c s"
  obtains c' t where "Do c s = Inr (c', t)" and "linked c' s t"
  using Do_Undo [OF assms] by (auto simp: linked_def)

text \<open>The commands lead back through the states, and forth through them.\<close>

fun backward :: "'c list \<Rightarrow> 's list \<Rightarrow> 's \<Rightarrow> bool" where
  "backward (c # cs) (p # ps) s \<longleftrightarrow> linked c p s \<and> backward cs ps p"
| "backward cs ps s \<longleftrightarrow> cs = [] \<and> ps = []"

fun forward :: "'c list \<Rightarrow> 's list \<Rightarrow> 's \<Rightarrow> bool" where
  "forward (c # cs) (f # fs) s \<longleftrightarrow> linked c s f \<and> forward cs fs f"
| "forward cs fs s \<longleftrightarrow> cs = [] \<and> fs = []"

lemma backward_Nil [simp]: "backward [] ps s \<longleftrightarrow> ps = []" and backward_Cons_right: "backward cs (p # ps) s \<Longrightarrow> \<exists>c cs'. cs = c # cs' \<and> linked c p s \<and> backward cs' ps p"
  by (cases ps; simp) (cases cs; simp)

lemma forward_Nil [simp]: "forward [] fs s \<longleftrightarrow> fs = []" and forward_Cons_right: "forward cs (f # fs) s \<Longrightarrow> \<exists>c cs'. cs = c # cs' \<and> linked c s f \<and> forward cs' fs f"
  by (cases fs; simp) (cases cs; simp)

lemma backward_Nil_right: "backward cs [] s \<Longrightarrow> cs = []" and forward_Nil_right: "forward cs [] s \<Longrightarrow> cs = []"
  by (cases cs; simp)+

end

lemma unat_word_of_nat: "n < 2 ^ 64 \<Longrightarrow> unat (word_of_nat n :: 64 word) = n"
  by (simp add: unat_of_nat take_bit_nat_eq_self)

definition view_of :: "zipper \<Rightarrow> view" where
  "view_of z = (rev (fst z) @ snd z, word_of_nat (length (fst z)))"

text \<open>Between two characters of a buffer whose length is not the greatest \<open>size_t\<close>, a command applies
  that changes something.\<close>

fun applicable :: "command \<Rightarrow> view \<Rightarrow> bool" where
  "applicable c (buffer, pos) \<longleftrightarrow> unat pos \<le> length buffer \<and> length buffer < 2 ^ 64 - 1
     \<and> (case c of TypeCommand _ \<Rightarrow> True | BackspaceCommand _ \<Rightarrow> pos \<noteq> 0
         | ShiftCommand d \<Rightarrow> if d = CHR ''<'' then pos \<noteq> 0 else unat pos < length buffer)"

lemma Do_zipper:
  assumes "length ls + length rs < 2 ^ 64 - 1"
  shows "Do (TypeCommand c) (view_of (ls, rs)) = Inr (TypeCommand c, view_of (c # ls, rs))"
    and "Undo_command (TypeCommand c) (view_of (c # ls, rs)) = Inr (view_of (ls, rs))"
proof -
  have u: "unat (word_of_nat (length ls) :: 64 word) = length ls" using assms by (intro unat_word_of_nat) simp
  show "Do (TypeCommand c) (view_of (ls, rs)) = Inr (TypeCommand c, view_of (c # ls, rs))"
    by (simp add: view_of_def insert_at_def u add.commute)
  show "Undo_command (TypeCommand c) (view_of (c # ls, rs)) = Inr (view_of (ls, rs))"
    by (simp add: view_of_def erase_at_def u)
qed

lemma Do_zipper_left:
  assumes "length ls + length rs < 2 ^ 64 - 1"
  shows "Do (ShiftCommand CHR ''<'') (view_of (l # ls, rs)) = Inr (ShiftCommand CHR ''<'', view_of (ls, l # rs))"
    and "Do (BackspaceCommand x) (view_of (l # ls, rs)) = Inr (BackspaceCommand (Some l), view_of (ls, rs))"
    and "Undo_command (BackspaceCommand (Some l)) (view_of (ls, rs)) = Inr (view_of (l # ls, rs))"
proof -
  have u: "unat (word_of_nat (length ls) :: 64 word) = length ls" using assms by (intro unat_word_of_nat) simp
  have "unat (word_of_nat (Suc (length ls)) :: 64 word) = Suc (length ls)" using assms by (intro unat_word_of_nat) simp
  then have nz: "(1 + word_of_nat (length ls) :: 64 word) \<noteq> 0" by (metis of_nat_Suc nat.distinct(1) unat_0)
  show "Do (ShiftCommand CHR ''<'') (view_of (l # ls, rs)) = Inr (ShiftCommand CHR ''<'', view_of (ls, l # rs))"
    using nz by (simp add: view_of_def)
  show "Do (BackspaceCommand x) (view_of (l # ls, rs)) = Inr (BackspaceCommand (Some l), view_of (ls, rs))"
    using nz by (simp add: view_of_def char_at_def erase_at_def u nth_append word_neq_0_conv)
  show "Undo_command (BackspaceCommand (Some l)) (view_of (ls, rs)) = Inr (view_of (l # ls, rs))"
    by (simp add: view_of_def insert_at_def u add.commute)
qed

lemma Do_zipper_right:
  assumes "length ls + length rs < 2 ^ 64 - 1"
  shows "Do (ShiftCommand CHR ''>'') (view_of (ls, r # rs)) = Inr (ShiftCommand CHR ''>'', view_of (r # ls, rs))"
proof -
  have "unat (word_of_nat (length ls) :: 64 word) = length ls" using assms by (intro unat_word_of_nat) simp
  moreover have "unat (word_of_nat (length ls + Suc (length rs)) :: 64 word) = length ls + Suc (length rs)"
    using assms by (intro unat_word_of_nat) simp
  ultimately have "(word_of_nat (length ls) :: 64 word) \<noteq> word_of_nat (length ls + Suc (length rs))"
    by (metis add_cancel_right_right nat.distinct(1))
  then show ?thesis by (simp add: view_of_def add.commute)
qed

lemma view_zipper:
  assumes "unat pos \<le> length buffer"
  obtains ls rs where "(buffer, pos) = view_of (ls, rs)" and "length ls = unat pos" and "length ls + length rs = length buffer"
proof
  show "(buffer, pos) = view_of (rev (take (unat pos) buffer), drop (unat pos) buffer)"
    using assms by (simp add: view_of_def min_def)
qed (use assms in simp_all)

interpretation commands: abstract_command Do Undo_command applicable
proof
  fix c and s :: view
  assume a: "applicable c s"
  obtain buffer pos where s: "s = (buffer, pos)" by force
  have p: "unat pos \<le> length buffer" and "length buffer < 2 ^ 64 - 1" using a s by simp_all
  then obtain ls rs where z: "s = view_of (ls, rs)" "length ls = unat pos" "length ls + length rs < 2 ^ 64 - 1"
    using s by (metis view_zipper [OF p])
  show "\<exists>c' t. Do c s = Inr (c', t) \<and> Do c' s = Inr (c', t) \<and> Undo_command c' t = Inr s"
  proof (cases c)
    case (TypeCommand ch)
    then show ?thesis using z Do_zipper [OF z(3)] by auto
  next
    case (BackspaceCommand x)
    then obtain l ls' where "ls = l # ls'" using a s z by (cases ls) (auto simp: unat_eq_0)
    then show ?thesis using z Do_zipper_left [of ls' rs] BackspaceCommand by auto
  next
    case (ShiftCommand d)
    show ?thesis
    proof (cases "d = CHR ''<''")
      case True
      then show ?thesis using a s ShiftCommand by auto
    next
      case False
      then have "unat pos < length buffer" using a s ShiftCommand by simp
      moreover have "unat (word_of_nat (length buffer) :: 64 word) = length buffer"
        using a s by (intro unat_word_of_nat) simp
      ultimately have "pos \<noteq> word_of_nat (length buffer)" by auto
      then show ?thesis using s ShiftCommand False by auto
    qed
  qed
qed

section \<open>The editor refines the specification\<close>

text \<open>Before the first \<open>Redo\<close> the undo stack leads back through the past states; the redo stack leads
  forth through the future ones as long as there is no undo after a redo.\<close>

definition simulates :: "bool \<Rightarrow> editor \<Rightarrow> spec \<Rightarrow> bool" where
  "simulates undoable e s \<longleftrightarrow> content e = view_of (now s)
     \<and> (undoable \<longrightarrow> commands.backward (rev (log e)) (map view_of (past s)) (view_of (now s)))
     \<and> commands.forward (rev (relog e)) (map view_of (future s)) (view_of (now s))"

definition bounded :: "nat \<Rightarrow> spec \<Rightarrow> bool" where
  "bounded n s \<longleftrightarrow> (\<forall>z \<in> set (now s # past s @ future s). length (fst z) + length (snd z) \<le> n)"

lemma bounded_step: "bounded n s \<Longrightarrow> bounded (Suc n) (spec_operate x s)"
  by (cases x) (auto simp: bounded_def act_def le_SucI split: prod.splits list.splits)

lemma perform_simulates:
  assumes "simulates b e s" and "Do c (view_of (now s)) = Inr (c', view_of z)"
    and "commands.linked c' (view_of (now s)) (view_of z)"
  shows "\<exists>e'. perform c e = (None, e') \<and> simulates b e' (act z s)"
  using assms by (auto simp: perform_def simulates_def act_def)

lemma position_zipper:
  assumes "length ls + length rs < 2 ^ 64 - 1"
  shows "snd (view_of (ls, rs)) = 0 \<longleftrightarrow> ls = []"
    and "snd (view_of (ls, rs)) = word_of_nat (length (fst (view_of (ls, rs)))) \<longleftrightarrow> rs = []"
proof -
  have "unat (word_of_nat (length ls) :: 64 word) = length ls"
    "unat (word_of_nat (length ls + length rs) :: 64 word) = length ls + length rs"
    using assms by (intro unat_word_of_nat; simp)+
  then show "snd (view_of (ls, rs)) = 0 \<longleftrightarrow> ls = []"
    and "snd (view_of (ls, rs)) = word_of_nat (length (fst (view_of (ls, rs)))) \<longleftrightarrow> rs = []"
    by (simp_all add: view_of_def word_unat_eq_iff del: of_nat_add)
qed

lemma operate_simulates:
  assumes "simulates b e s" and "bounded n s" and "n < 2 ^ 64 - 1" and "b' \<longrightarrow> b"
    and "x = OpUndo \<longrightarrow> b" and "x = OpRedo \<longrightarrow> \<not> b'"
  shows "\<exists>e'. operate x e = (None, e') \<and> simulates b' e' (spec_operate x s)"
proof -
  obtain ls rs where z: "now s = (ls, rs)" by force
  have len: "length ls + length rs < 2 ^ 64 - 1" using assms(2,3) z by (simp add: bounded_def)
  have e: "content e = view_of (ls, rs)" and b': "simulates b' e s" using assms(1,4) z by (auto simp: simulates_def)
  have act: "\<exists>e'. perform c e = (None, e') \<and> simulates b' e' (act z' s)"
    if "Do c (view_of (ls, rs)) = Inr (c', view_of z')" "Do c' (view_of (ls, rs)) = Inr (c', view_of z')"
      "Undo_command c' (view_of z') = Inr (view_of (ls, rs))" for c c' z'
    using perform_simulates [OF b'] that z by (simp add: commands.linked_def)
  note moves = e position_zipper [OF len] z GetText_def
  show ?thesis
  proof (cases x)
    case (OpType c)
    then show ?thesis using act Do_zipper [OF len] z by (simp add: Type_def)
  next
    case OpShiftLeft
    show ?thesis
    proof (cases ls)
      case Nil
      then show ?thesis using OpShiftLeft moves b' by (simp add: ShiftLeft_def)
    next
      case (Cons l ls')
      have "Undo_command (ShiftCommand CHR ''<'') (view_of (ls', l # rs)) = Inr (view_of (ls, rs))"
        using Cons by (simp add: view_of_def)
      then show ?thesis using Cons OpShiftLeft moves act Do_zipper_left(1) [of ls' rs l] len by (simp add: ShiftLeft_def)
    qed
  next
    case OpShiftRight
    show ?thesis
    proof (cases rs)
      case Nil
      then show ?thesis using OpShiftRight moves b' by (simp add: ShiftRight_def)
    next
      case (Cons r rs')
      have "Undo_command (ShiftCommand CHR ''>'') (view_of (r # ls, rs')) = Inr (view_of (ls, rs))"
        using Cons by (simp add: view_of_def)
      then show ?thesis using Cons OpShiftRight moves act Do_zipper_right [of ls rs' r] len by (simp add: ShiftRight_def)
    qed
  next
    case OpBackspace
    show ?thesis
    proof (cases ls)
      case Nil
      then show ?thesis using OpBackspace moves b' by (simp add: Backspace_def)
    next
      case (Cons l ls')
      then show ?thesis using OpBackspace moves act Do_zipper_left(2,3) [of ls' rs] len by (simp add: Backspace_def)
    qed
  next
    case OpUndo
    show ?thesis
    proof (cases "past s")
      case Nil
      then have "log e = []" using OpUndo assms(1,5) commands.backward_Nil_right by (fastforce simp: simulates_def)
      then show ?thesis using Nil OpUndo b' by (simp add: Undo_def)
    next
      case (Cons p ps)
      obtain c cs where l: "rev (log e) = c # cs" "commands.linked c (view_of p) (view_of (now s))"
        "commands.backward cs (map view_of ps) (view_of p)"
      proof -
        have "commands.backward (rev (log e)) (view_of p # map view_of ps) (view_of (now s))"
          using assms(1,5) OpUndo Cons by (simp add: simulates_def)
        then show thesis using that commands.backward_Cons_right by blast
      qed
      then have "log e = rev cs @ [c]" by (simp add: rev_eq_Cons_iff)
      then show ?thesis using l assms(1) Cons OpUndo
        by (auto simp: Undo_def simulates_def commands.linked_def)
    qed
  next
    case OpRedo
    show ?thesis
    proof (cases "future s")
      case Nil
      then have "relog e = []" using b' commands.forward_Nil_right by (fastforce simp: simulates_def)
      then show ?thesis using Nil OpRedo b' by (simp add: Redo_def)
    next
      case (Cons f fs)
      obtain c cs where l: "rev (relog e) = c # cs" "commands.linked c (view_of (now s)) (view_of f)"
        "commands.forward cs (map view_of fs) (view_of f)"
      proof -
        have "commands.forward (rev (relog e)) (view_of f # map view_of fs) (view_of (now s))"
          using assms(1) Cons by (simp add: simulates_def)
        then show thesis using that commands.forward_Cons_right by blast
      qed
      then have "relog e = rev cs @ [c]" by (simp add: rev_eq_Cons_iff)
      then show ?thesis using l assms(1,6) Cons OpRedo
        by (auto simp: Redo_def simulates_def commands.linked_def)
    qed
  qed
qed

lemma session_append:
  "session (xs @ ys) e = (case session xs e of (None, e') \<Rightarrow> session ys e' | (Some err, e') \<Rightarrow> (Some err, e'))"
  by (induction xs arbitrary: e) (auto split: prod.splits option.splits)

lemma session_simulates:
  assumes "simulates b e s" and "bounded n s" and "n + length xs < 2 ^ 64"
    and "if b then OpRedo \<notin> set xs else OpUndo \<notin> set xs"
  shows "\<exists>e'. session xs e = (None, e') \<and> simulates b e' (fold spec_operate xs s) \<and> bounded (n + length xs) (fold spec_operate xs s)"
  using assms
proof (induction xs arbitrary: e s n)
  case Nil
  then show ?case by simp
next
  case (Cons x xs)
  obtain e' where e': "operate x e = (None, e')" "simulates b e' (spec_operate x s)"
    using operate_simulates [of b e s n b x] Cons.prems by (auto split: if_splits)
  have "\<exists>e''. session xs e' = (None, e'') \<and> simulates b e'' (fold spec_operate xs (spec_operate x s))
    \<and> bounded (Suc n + length xs) (fold spec_operate xs (spec_operate x s))"
    using Cons.prems by (intro Cons.IH e'(2) bounded_step) (auto split: if_splits)
  then show ?case using e' by simp
qed

lemma simulates_new: "simulates True Editor_new spec_new" and bounded_new: "bounded 0 spec_new"
  by (simp_all add: simulates_def Editor_new_def spec_new_def view_of_def bounded_def)

text \<open>\<open>Redo\<close> does not log the command again, so an \<open>Undo\<close> after it undoes the one before, elsewhere.\<close>

lemma undo_after_redo:
  "fst (session [OpType CHR ''a'', OpShiftLeft, OpUndo, OpRedo, OpUndo] Editor_new) = Some OutOfRange"
  "GetText (snd (session [OpType CHR ''a'', OpType CHR ''b'', OpShiftLeft, OpUndo, OpRedo, OpUndo] Editor_new)) = ''b''"
  by (simp_all add: Editor_new_def Type_def ShiftLeft_def Undo_def Redo_def GetText_def perform_def insert_at_def erase_at_def unsigned_minus_1_eq_mask mask_eq_exp_minus_1)

section \<open>Properties\<close>

text \<open>C29. As long as no undo comes after a redo, the editor behaves like the textbook one: no operation
  throws, and the text and the cursor are those of the specification, in which undo returns to the state
  before the last action and redo to the state before the last undo.\<close>

theorem session_refines:
  assumes "OpRedo \<notin> set us" and "OpUndo \<notin> set vs" and "length us + length vs < 2 ^ 64"
  shows "\<exists>e. session (us @ vs) Editor_new = (None, e)
    \<and> GetText e = spec_text (fold spec_operate (us @ vs) spec_new)
    \<and> snd (content e) = word_of_nat (length (fst (now (fold spec_operate (us @ vs) spec_new))))"
proof -
  obtain e1 where e1: "session us Editor_new = (None, e1)" "simulates True e1 (fold spec_operate us spec_new)"
    "bounded (length us) (fold spec_operate us spec_new)"
    using session_simulates [OF simulates_new bounded_new, of us] assms by auto
  have "simulates False e1 (fold spec_operate us spec_new)" using e1(2) by (simp add: simulates_def)
  then obtain e2 where e2: "session vs e1 = (None, e2)" "simulates False e2 (fold spec_operate vs (fold spec_operate us spec_new))"
    using session_simulates [of False e1 _ "length us" vs] e1(3) assms by auto
  then show ?thesis using e1(1)
    by (auto simp: session_append simulates_def GetText_def spec_text_def view_of_def)
qed

theorem session_refines_witness:
  "\<exists>e. session [OpType CHR ''a'', OpType CHR ''b'', OpShiftLeft, OpBackspace, OpUndo, OpUndo, OpUndo, OpRedo, OpRedo] Editor_new = (None, e)
    \<and> GetText e = ''ab'' \<and> snd (content e) = 1"
  using session_refines [of "[OpType CHR ''a'', OpType CHR ''b'', OpShiftLeft, OpBackspace, OpUndo, OpUndo, OpUndo]" "[OpRedo, OpRedo]"]
  by (simp add: spec_new_def act_def spec_text_def)

end
