(* ===== verification/Refinement.thy ===== *)
theory Refinement
  imports Prelude
begin

text \<open>
  Components that serve requests: a client's requests in order, against the code's operations and
  against an abstract specification, and the contract under which both give the same replies.
\<close>

primrec run_all :: "('r \<Rightarrow> 's \<Rightarrow> 'e + 'o \<times> 's) \<Rightarrow> 'r list \<Rightarrow> 's \<Rightarrow> 'e + 'o list \<times> 's" where
  "run_all serve [] s = Inr ([], s)"
| "run_all serve (r # rs) s =
     ebind (serve r s) (\<lambda>(reply, s'). ebind (run_all serve rs s') (\<lambda>(replies, s''). Inr (reply # replies, s'')))"

primrec spec_all :: "('r \<Rightarrow> 'a \<Rightarrow> 'o \<times> 'a) \<Rightarrow> 'r list \<Rightarrow> 'a \<Rightarrow> 'o list \<times> 'a" where
  "spec_all spec [] a = ([], a)"
| "spec_all spec (r # rs) a =
     (let (reply, a') = spec r a; (replies, a'') = spec_all spec rs a' in (reply # replies, a''))"

text \<open>The contract, for the requests in \<open>allowed\<close>: a relation between the states that every request keeps
  and under which it gives the same reply.\<close>

locale simulates_for =
  fixes serve :: "'r \<Rightarrow> 's \<Rightarrow> 'e + 'o \<times> 's"
    and spec :: "'r \<Rightarrow> 'a \<Rightarrow> 'o \<times> 'a"
    and rel :: "'s \<Rightarrow> 'a \<Rightarrow> bool"
    and allowed :: "'r \<Rightarrow> bool"
  assumes allowed_simulates:
    "allowed r \<Longrightarrow> rel s a \<Longrightarrow> \<exists>s'. serve r s = Inr (fst (spec r a), s') \<and> rel s' (snd (spec r a))"
begin

lemma run_allowed_simulates:
  "list_all allowed rs \<Longrightarrow> rel s a \<Longrightarrow>
   \<exists>s'. run_all serve rs s = Inr (fst (spec_all spec rs a), s') \<and> rel s' (snd (spec_all spec rs a))"
proof (induction rs arbitrary: s a)
  case (Cons r rs)
  obtain s' where s': "serve r s = Inr (fst (spec r a), s')" "rel s' (snd (spec r a))"
    using allowed_simulates Cons.prems by (metis list.pred_inject(2))
  obtain s'' where "run_all serve rs s' = Inr (fst (spec_all spec rs (snd (spec r a))), s'')"
    "rel s'' (snd (spec_all spec rs (snd (spec r a))))"
    using Cons s'(2) by fastforce
  then show ?case using s' by (auto simp: split_def Let_def)
qed simp

end

text \<open>The contract by an abstraction function: for the requests in \<open>allowed\<close> only, and for all requests.\<close>

locale refines_for =
  fixes serve :: "'r \<Rightarrow> 's \<Rightarrow> 'e + 'o \<times> 's"
    and spec :: "'r \<Rightarrow> 'a \<Rightarrow> 'o \<times> 'a"
    and inv :: "'s \<Rightarrow> bool"
    and abs :: "'s \<Rightarrow> 'a"
    and allowed :: "'r \<Rightarrow> bool"
  assumes allowed_refines:
    "allowed r \<Longrightarrow> inv s \<Longrightarrow> \<exists>s'. serve r s = Inr (fst (spec r (abs s)), s') \<and> inv s' \<and> abs s' = snd (spec r (abs s))"

sublocale refines_for \<subseteq> simulation: simulates_for serve spec "\<lambda>s a. inv s \<and> abs s = a" allowed
  by unfold_locales (use allowed_refines in blast)

context refines_for
begin

lemma run_allowed_refines:
  "list_all allowed rs \<Longrightarrow> inv s \<Longrightarrow>
   \<exists>s'. run_all serve rs s = Inr (fst (spec_all spec rs (abs s)), s') \<and> inv s' \<and> abs s' = snd (spec_all spec rs (abs s))"
  using simulation.run_allowed_simulates by simp

end

locale refines =
  fixes serve :: "'r \<Rightarrow> 's \<Rightarrow> 'e + 'o \<times> 's"
    and spec :: "'r \<Rightarrow> 'a \<Rightarrow> 'o \<times> 'a"
    and inv :: "'s \<Rightarrow> bool"
    and abs :: "'s \<Rightarrow> 'a"
  assumes serve_refines: "inv s \<Longrightarrow> \<exists>s'. serve r s = Inr (fst (spec r (abs s)), s') \<and> inv s' \<and> abs s' = snd (spec r (abs s))"

sublocale refines \<subseteq> every: refines_for serve spec inv abs "\<lambda>_. True"
  by unfold_locales (rule serve_refines)

context refines
begin

lemma run_refines:
  "inv s \<Longrightarrow> \<exists>s'. run_all serve rs s = Inr (fst (spec_all spec rs (abs s)), s') \<and> inv s' \<and> abs s' = snd (spec_all spec rs (abs s))"
  by (rule every.run_allowed_refines) (simp_all add: list_all_iff)

end

end
