(* ===== verification/HashMap.thy ===== *)
theory HashMap
  imports Refinement "HOL-Library.Word" "HOL-Library.Multiset"
begin

text \<open>
  The concurrent hash map (\<open>tasks/baby-threads/hash-table\<close>): buckets of pairs, an array of mutexes that
  each guard the buckets with the same remainder, and a table that triples when it is full. The hash
  function is a parameter. The counters are numbers: a table with \<open>2 ^ 64\<close> pairs does not fit a memory.
\<close>

section \<open>The operations, one at a time\<close>

datatype map_error = LengthError | DivisionByZero | KeyOutOfRange

record ('k, 'v) hash_map =
  table :: "('k \<times> 'v) list list"
  locks :: nat
  size_cnt :: nat
  bucket_cnt :: nat

definition ConcurrentHashMap_new :: "int \<Rightarrow> int \<Rightarrow> map_error + ('k, 'v) hash_map" where
  "ConcurrentHashMap_new expected_size expected_threads_count =
     (let n = max expected_size expected_threads_count
      in if n < 0 then Inl LengthError
         else Inr \<lparr>table = replicate (nat n) [], locks = nat n, size_cnt = 0, bucket_cnt = nat n\<rparr>)"

text \<open>\<open>hasher_(key) % n\<close>.\<close>

definition hash_mod :: "('k \<Rightarrow> 64 word) \<Rightarrow> 'k \<Rightarrow> nat \<Rightarrow> map_error + nat" where
  "hash_mod hasher key n = (if n = 0 then Inl DivisionByZero else Inr (unat (hasher key) mod n))"

text \<open>The index of the mutex that is locked, then the index of the bucket.\<close>

definition locked_bucket :: "('k \<Rightarrow> 64 word) \<Rightarrow> 'k \<Rightarrow> ('k, 'v) hash_map \<Rightarrow> map_error + nat" where
  "locked_bucket hasher key mp = ebind (hash_mod hasher key (locks mp)) (\<lambda>_. hash_mod hasher key (bucket_cnt mp))"

definition Find :: "('k \<Rightarrow> 64 word) \<Rightarrow> 'v \<Rightarrow> 'k \<Rightarrow> ('k, 'v) hash_map \<Rightarrow> map_error + bool \<times> 'v" where
  "Find hasher v0 key mp =
     ebind (locked_bucket hasher key mp) (\<lambda>index.
       Inr (case find (\<lambda>element. fst element = key) (table mp ! index) of
              Some element \<Rightarrow> (True, snd element)
            | None \<Rightarrow> (False, v0)))"

definition At :: "('k \<Rightarrow> 64 word) \<Rightarrow> 'v \<Rightarrow> 'k \<Rightarrow> ('k, 'v) hash_map \<Rightarrow> map_error + 'v" where
  "At hasher v0 key mp =
     ebind (Find hasher v0 key mp) (\<lambda>(found, v). if found then Inr v else Inl KeyOutOfRange)"

definition Size :: "('k, 'v) hash_map \<Rightarrow> nat" where
  "Size mp = size_cnt mp"

definition Clear :: "('k, 'v) hash_map \<Rightarrow> ('k, 'v) hash_map" where
  "Clear mp = mp\<lparr>size_cnt := 0, table := map (\<lambda>_. []) (table mp)\<rparr>"

definition place :: "('k \<Rightarrow> 64 word) \<Rightarrow> nat \<Rightarrow> 'k \<times> 'v \<Rightarrow> ('k \<times> 'v) list list \<Rightarrow> ('k \<times> 'v) list list" where
  "place hasher n element tbl =
     (let i = unat (hasher (fst element)) mod n in tbl[i := tbl ! i @ [element]])"

text \<open>\<open>bucket_cnt\<close> is not zero here, since the size exceeds three times it only after an insertion.\<close>

definition Rehash :: "('k \<Rightarrow> 64 word) \<Rightarrow> ('k, 'v) hash_map \<Rightarrow> ('k, 'v) hash_map" where
  "Rehash hasher mp =
     (let new_bucket_cnt = bucket_cnt mp * 3;
          new_table = fold (\<lambda>index tbl. fold (place hasher new_bucket_cnt) (table mp ! index) tbl)
                        [0..<bucket_cnt mp] (replicate new_bucket_cnt [])
      in mp\<lparr>bucket_cnt := new_bucket_cnt, table := new_table\<rparr>)"

text \<open>The critical section of \<open>Insert\<close>, and the test that follows it.\<close>

definition append_element :: "('k \<Rightarrow> 64 word) \<Rightarrow> 'k \<Rightarrow> 'v \<Rightarrow> ('k, 'v) hash_map \<Rightarrow> map_error + ('k, 'v) hash_map" where
  "append_element hasher key v mp =
     ebind (locked_bucket hasher key mp) (\<lambda>index.
       Inr (mp\<lparr>table := (table mp)[index := table mp ! index @ [(key, v)]], size_cnt := size_cnt mp + 1\<rparr>))"

definition overfull :: "('k, 'v) hash_map \<Rightarrow> bool" where
  "overfull mp \<longleftrightarrow> size_cnt mp > 3 * bucket_cnt mp"

definition Insert :: "('k \<Rightarrow> 64 word) \<Rightarrow> 'v \<Rightarrow> 'k \<Rightarrow> 'v \<Rightarrow> ('k, 'v) hash_map \<Rightarrow> map_error + bool \<times> ('k, 'v) hash_map" where
  "Insert hasher v0 key v mp =
     ebind (Find hasher v0 key mp) (\<lambda>(found, _).
       if found then Inr (False, mp)
       else ebind (append_element hasher key v mp) (\<lambda>mp'.
              Inr (True, if overfull mp' then Rehash hasher mp' else mp')))"

fun erase_first :: "'k \<Rightarrow> ('k \<times> 'v) list \<Rightarrow> ('k \<times> 'v) list option" where
  "erase_first key [] = None"
| "erase_first key (element # rest) =
     (if fst element = key then Some rest else map_option ((#) element) (erase_first key rest))"

definition Erase :: "('k \<Rightarrow> 64 word) \<Rightarrow> 'k \<Rightarrow> ('k, 'v) hash_map \<Rightarrow> map_error + bool \<times> ('k, 'v) hash_map" where
  "Erase hasher key mp =
     ebind (locked_bucket hasher key mp) (\<lambda>index.
       Inr (case erase_first key (table mp ! index) of
              Some rest \<Rightarrow> (True, mp\<lparr>table := (table mp)[index := rest], size_cnt := size_cnt mp - 1\<rparr>)
            | None \<Rightarrow> (False, mp)))"

section \<open>Threads\<close>

text \<open>
  Every critical section runs under the mutex of its key, or under all of them, so it is one step.
  Between the critical sections of an \<open>Insert\<close> other threads run: \<open>Inserting\<close> is after the lookup that
  found nothing, \<open>Checking\<close> after the insertion, \<open>Comparing\<close> after the load of the size, \<open>Growing\<close> after the
  load of the number of buckets and the test that asks for a bigger table.
\<close>

datatype ('k, 'v) phase = Idle | Inserting 'k 'v | Checking | Comparing nat | Growing

type_synonym ('k, 'v) threads = "('k, 'v) hash_map \<times> (nat \<Rightarrow> ('k, 'v) phase)"

inductive step :: "('k \<Rightarrow> 64 word) \<Rightarrow> 'v \<Rightarrow> ('k, 'v) threads \<Rightarrow> ('k, 'v) threads \<Rightarrow> bool" for hasher v0 where
  miss: "ph t = Idle \<Longrightarrow> Find hasher v0 key mp = Inr (False, v0') \<Longrightarrow> step hasher v0 (mp, ph) (mp, ph(t := Inserting key v))"
| append: "ph t = Inserting key v \<Longrightarrow> append_element hasher key v mp = Inr mp' \<Longrightarrow> step hasher v0 (mp, ph) (mp', ph(t := Checking))"
| load: "ph t = Checking \<Longrightarrow> step hasher v0 (mp, ph) (mp, ph(t := Comparing (size_cnt mp)))"
| fits: "ph t = Comparing n \<Longrightarrow> n \<le> 3 * bucket_cnt mp \<Longrightarrow> step hasher v0 (mp, ph) (mp, ph(t := Idle))"
| full: "ph t = Comparing n \<Longrightarrow> n > 3 * bucket_cnt mp \<Longrightarrow> step hasher v0 (mp, ph) (mp, ph(t := Growing))"
| grow: "ph t = Growing \<Longrightarrow> step hasher v0 (mp, ph) (Rehash hasher mp, ph(t := Idle))"
| erase: "ph t = Idle \<Longrightarrow> Erase hasher key mp = Inr (r, mp') \<Longrightarrow> step hasher v0 (mp, ph) (mp', ph)"
| clear: "ph t = Idle \<Longrightarrow> step hasher v0 (mp, ph) (Clear mp, ph)"

inductive_cases stepE: "step hasher v0 (mp, ph) s"

section \<open>The structural invariant\<close>

definition placed :: "('k \<Rightarrow> 64 word) \<Rightarrow> ('k \<times> 'v) list list \<Rightarrow> bool" where
  "placed hasher tbl \<longleftrightarrow> (\<forall>i < length tbl. \<forall>element \<in> set (tbl ! i). unat (hasher (fst element)) mod length tbl = i)"

definition wf :: "('k \<Rightarrow> 64 word) \<Rightarrow> ('k, 'v) hash_map \<Rightarrow> bool" where
  "wf hasher mp \<longleftrightarrow> 0 < locks mp \<and> 0 < bucket_cnt mp \<and> locks mp dvd bucket_cnt mp
     \<and> length (table mp) = bucket_cnt mp \<and> placed hasher (table mp) \<and> size_cnt mp = length (concat (table mp))"

definition lookup :: "('k \<Rightarrow> 64 word) \<Rightarrow> ('k, 'v) hash_map \<Rightarrow> 'k \<rightharpoonup> 'v" where
  "lookup hasher mp key = map_of (table mp ! (unat (hasher key) mod bucket_cnt mp)) key"

definition unique :: "('k, 'v) hash_map \<Rightarrow> bool" where
  "unique mp \<longleftrightarrow> (\<forall>i < length (table mp). distinct (map fst (table mp ! i)))"

section \<open>Buckets\<close>

lemma placedD:
  "placed hasher t \<Longrightarrow> i < length t \<Longrightarrow> e \<in> set (t ! i) \<Longrightarrow> unat (hasher (fst e)) mod length t = i"
  by (auto simp: placed_def)

lemma placed_update:
  assumes "placed hasher t" and "\<And>e. e \<in> set ys \<Longrightarrow> e \<in> set (t ! i) \<or> unat (hasher (fst e)) mod length t = i"
  shows "placed hasher (t[i := ys])"
  unfolding placed_def
proof (intro allI impI ballI)
  fix j e assume "j < length (t[i := ys])" "e \<in> set (t[i := ys] ! j)"
  then show "unat (hasher (fst e)) mod length (t[i := ys]) = j"
    using assms(2) [of e] placedD [OF assms(1), of j e] by (cases "j = i") auto
qed

lemma length_concat_update:
  "i < length t \<Longrightarrow> length (concat (t[i := ys])) + length (t ! i) = length (concat t) + length ys"
  by (induction t arbitrary: i) (auto split: nat.splits)

lemma in_concatE:
  assumes "e \<in> set (concat t)"
  obtains i where "i < length t" and "e \<in> set (t ! i)"
proof -
  obtain xs where "xs \<in> set t" "e \<in> set xs" using assms by auto
  then show thesis using that by (metis in_set_conv_nth)
qed

lemma map_of_concat:
  "i < length t \<Longrightarrow> (\<And>j. j < length t \<Longrightarrow> j \<noteq> i \<Longrightarrow> key \<notin> fst ` set (t ! j)) \<Longrightarrow> map_of (concat t) key = map_of (t ! i) key"
proof (induction t arbitrary: i)
  case (Cons xs t)
  show ?case
  proof (cases i)
    case 0
    have "key \<notin> fst ` set (concat t)"
    proof
      assume "key \<in> fst ` set (concat t)"
      then obtain e where "e \<in> set (concat t)" "fst e = key" by blast
      then obtain j where "j < length t" "key \<in> fst ` set (t ! j)" by (metis in_concatE imageI)
      then show False using Cons.prems(2) [of "Suc j"] 0 by simp
    qed
    then have "map_of (concat t) key = None" by (simp add: map_of_eq_None_iff)
    then show ?thesis using 0 by (simp add: map_add_def split: option.splits)
  next
    case (Suc i')
    then have "map_of xs key = None" using Cons.prems(2) [of 0] by (simp add: map_of_eq_None_iff)
    moreover have "map_of (concat t) key = map_of (t ! i') key"
      using Cons.prems(1) Cons.prems(2) [of "Suc j" for j] Suc by (intro Cons.IH) auto
    ultimately show ?thesis using Suc by (simp add: map_add_def split: option.splits)
  qed
qed simp

lemma map_of_filter_key: "(\<And>e. fst e = key \<Longrightarrow> P e) \<Longrightarrow> map_of (filter P xs) key = map_of xs key"
  by (induction xs) auto

lemma distinct_concat_index:
  "(\<And>i e. i < length t \<Longrightarrow> e \<in> set (t ! i) \<Longrightarrow> g (fst e) = i + d) \<Longrightarrow> (\<And>xs. xs \<in> set t \<Longrightarrow> distinct (map fst xs))
   \<Longrightarrow> distinct (map fst (concat t))"
proof (induction t arbitrary: d)
  case (Cons xs t)
  have "distinct (map fst (concat t))"
    by (rule Cons.IH [of "Suc d"]) (use Cons.prems(1) [of "Suc i" for i] Cons.prems(2) in auto)
  moreover have "fst ` set xs \<inter> fst ` set (concat t) = {}"
  proof -
    have low: "g (fst e) = d" if "e \<in> set xs" for e using Cons.prems(1) [of 0 e] that by simp
    have high: "d < g (fst e)" if e: "e \<in> set (concat t)" for e
    proof -
      obtain i where "i < length t" "e \<in> set (t ! i)" using in_concatE [OF e] by blast
      then show ?thesis using Cons.prems(1) [of "Suc i" e] by simp
    qed
    show ?thesis
    proof (rule equals0I)
      fix key assume "key \<in> fst ` set xs \<inter> fst ` set (concat t)"
      then obtain e e' where "e \<in> set xs" "e' \<in> set (concat t)" "fst e = fst e'" by blast
      then show False using low [of e] high [of e'] by simp
    qed
  qed
  ultimately show ?case using Cons.prems(2) by simp
qed simp

lemma erase_first_None: "erase_first key xs = None \<longleftrightarrow> map_of xs key = None"
  by (induction xs) auto

lemma erase_first_Some:
  assumes "erase_first key xs = Some ys" and "distinct (map fst xs)"
  shows "map_of ys = (map_of xs)(key := None) \<and> distinct (map fst ys) \<and> set ys \<subseteq> set xs \<and> length xs = Suc (length ys)"
  using assms
proof (induction xs arbitrary: ys)
  case (Cons x xs)
  show ?case
  proof (cases "fst x = key")
    case True
    then have "map_of xs key = None" using Cons.prems(2) by (simp add: map_of_eq_None_iff)
    then show ?thesis using True Cons.prems by (cases x) auto
  next
    case False
    then obtain zs where "erase_first key xs = Some zs" "ys = x # zs" using Cons.prems(1) by auto
    then show ?thesis using Cons.IH [of zs] Cons.prems(2) False by (cases x) (auto simp: fun_upd_twist)
  qed
qed simp

lemma erase_first_any:
  "erase_first key xs = Some ys \<Longrightarrow> set ys \<subseteq> set xs \<and> length xs = Suc (length ys)"
  by (induction xs arbitrary: ys) (auto split: if_splits)

lemma find_map_of: "(case find (\<lambda>e. fst e = key) xs of Some e \<Rightarrow> Some (snd e) | None \<Rightarrow> None) = map_of xs key"
  by (induction xs) auto

text \<open>Moving the pairs to a new table.\<close>

lemma fold_buckets: "fold (\<lambda>index tbl. fold f (t ! index) tbl) [0..<length t] a = fold f (concat t) a"
proof -
  have "fold (\<lambda>index tbl. fold f (t ! index) tbl) [0..<length t] a = fold (fold f) (map ((!) t) [0..<length t]) a"
    by (simp add: fold_map comp_def)
  also have "\<dots> = fold (fold f) t a" by (simp add: map_nth)
  also have "\<dots> = fold f (concat t) a" by (induction t arbitrary: a) simp_all
  finally show ?thesis .
qed

lemma fold_place:
  assumes "length tbl = n" and "0 < n"
  shows "length (fold (place hasher n) xs tbl) = n
    \<and> (\<forall>i < n. fold (place hasher n) xs tbl ! i = tbl ! i @ filter (\<lambda>e. unat (hasher (fst e)) mod n = i) xs)
    \<and> length (concat (fold (place hasher n) xs tbl)) = length (concat tbl) + length xs"
  using assms(1)
proof (induction xs arbitrary: tbl)
  case (Cons x xs)
  let ?i = "unat (hasher (fst x)) mod n"
  let ?tbl = "tbl[?i := tbl ! ?i @ [x]]"
  have "?i < length tbl" using assms(2) Cons.prems by simp
  then have "length (concat ?tbl) = Suc (length (concat tbl))" using length_concat_update [of ?i tbl "tbl ! ?i @ [x]"] by simp
  moreover have "place hasher n x tbl = ?tbl" by (simp add: place_def Let_def)
  ultimately show ?case using Cons.IH [of ?tbl] Cons.prems by (auto simp: nth_list_update)
qed simp

section \<open>The operations keep the invariant\<close>

lemma wf_bucket:
  assumes "wf hasher mp"
  shows "locked_bucket hasher key mp = Inr (unat (hasher key) mod bucket_cnt mp)"
    and "unat (hasher key) mod bucket_cnt mp < length (table mp)"
  using assms by (simp_all add: locked_bucket_def hash_mod_def wf_def)

lemma lookup_concat:
  assumes "wf hasher mp"
  shows "lookup hasher mp key = map_of (concat (table mp)) key"
proof -
  let ?i = "unat (hasher key) mod bucket_cnt mp"
  have "map_of (concat (table mp)) key = map_of (table mp ! ?i) key"
    using assms wf_bucket(2) [OF assms, of key] placedD [of hasher "table mp"]
    by (intro map_of_concat) (fastforce simp: wf_def)+
  then show ?thesis by (simp add: lookup_def)
qed

lemma unique_concat:
  assumes "wf hasher mp" and "unique mp"
  shows "distinct (map fst (concat (table mp)))"
proof (rule distinct_concat_index)
  fix i e assume "i < length (table mp)" "e \<in> set (table mp ! i)"
  then show "unat (hasher (fst e)) mod bucket_cnt mp = i + 0" using assms(1) placedD [of hasher "table mp" i e] by (simp add: wf_def)
next
  fix xs assume "xs \<in> set (table mp)"
  then show "distinct (map fst xs)" using assms(2) by (auto simp: unique_def in_set_conv_nth)
qed

lemma size_card:
  assumes "wf hasher mp" and "unique mp"
  shows "size_cnt mp = card (dom (lookup hasher mp))"
proof -
  have "lookup hasher mp = map_of (concat (table mp))" using lookup_concat [OF assms(1)] by (rule ext)
  then have "dom (lookup hasher mp) = set (map fst (concat (table mp)))" by (simp add: dom_map_of_conv_image_fst)
  then show ?thesis using unique_concat [OF assms] assms(1) by (metis distinct_card length_map wf_def)
qed

lemma append_element_wf:
  assumes "wf hasher mp" and "append_element hasher key v mp = Inr mp'"
  shows "wf hasher mp'"
proof -
  let ?i = "unat (hasher key) mod bucket_cnt mp"
  have mp': "mp' = mp\<lparr>table := (table mp)[?i := table mp ! ?i @ [(key, v)]], size_cnt := size_cnt mp + 1\<rparr>"
    using assms wf_bucket [OF assms(1)] by (auto simp: append_element_def)
  have "length (concat ((table mp)[?i := table mp ! ?i @ [(key, v)]])) = Suc (length (concat (table mp)))"
    using length_concat_update [OF wf_bucket(2) [OF assms(1), of key], of "table mp ! ?i @ [(key, v)]"] by simp
  moreover have "placed hasher ((table mp)[?i := table mp ! ?i @ [(key, v)]])"
    using assms(1) by (intro placed_update) (auto simp: wf_def)
  ultimately show ?thesis using assms(1) mp' by (simp add: wf_def)
qed

lemma append_element_lookup:
  assumes "wf hasher mp" and "lookup hasher mp key = None"
  shows "\<exists>mp'. append_element hasher key v mp = Inr mp' \<and> lookup hasher mp' = (lookup hasher mp)(key \<mapsto> v)
    \<and> (unique mp \<longrightarrow> unique mp')"
proof -
  let ?i = "unat (hasher key) mod bucket_cnt mp"
  let ?mp = "mp\<lparr>table := (table mp)[?i := table mp ! ?i @ [(key, v)]], size_cnt := size_cnt mp + 1\<rparr>"
  have i: "?i < length (table mp)" by (rule wf_bucket(2) [OF assms(1)])
  have "map_of (table mp ! ?i) key = None" using assms(2) by (simp add: lookup_def)
  then have "lookup hasher ?mp = (lookup hasher mp)(key \<mapsto> v)"
    using i by (auto simp: fun_eq_iff lookup_def nth_list_update map_add_def split: option.splits)
  moreover have "unique mp \<longrightarrow> unique ?mp"
    using \<open>map_of (table mp ! ?i) key = None\<close> i by (auto simp: unique_def nth_list_update map_of_eq_None_iff)
  ultimately show ?thesis using wf_bucket(1) [OF assms(1), of key] by (auto simp: append_element_def)
qed

lemma Rehash_table:
  assumes "wf hasher mp"
  shows "length (table (Rehash hasher mp)) = bucket_cnt mp * 3"
    and "i < bucket_cnt mp * 3 \<Longrightarrow>
      table (Rehash hasher mp) ! i = filter (\<lambda>e. unat (hasher (fst e)) mod (bucket_cnt mp * 3) = i) (concat (table mp))"
    and "length (concat (table (Rehash hasher mp))) = length (concat (table mp))"
    and "bucket_cnt (Rehash hasher mp) = bucket_cnt mp * 3" and "locks (Rehash hasher mp) = locks mp"
    and "size_cnt (Rehash hasher mp) = size_cnt mp"
proof -
  let ?n = "bucket_cnt mp * 3"
  have "table (Rehash hasher mp) = fold (place hasher ?n) (concat (table mp)) (replicate ?n [])"
    using assms fold_buckets [of "place hasher ?n" "table mp"] by (simp add: Rehash_def Let_def wf_def)
  moreover have "0 < ?n" using assms by (simp add: wf_def)
  ultimately show "length (table (Rehash hasher mp)) = ?n"
    and "i < ?n \<Longrightarrow> table (Rehash hasher mp) ! i = filter (\<lambda>e. unat (hasher (fst e)) mod ?n = i) (concat (table mp))"
    and "length (concat (table (Rehash hasher mp))) = length (concat (table mp))"
    using fold_place [of "replicate ?n []" ?n hasher "concat (table mp)"] by simp_all
qed (simp_all add: Rehash_def Let_def)

lemma Rehash_wf: "wf hasher mp \<Longrightarrow> wf hasher (Rehash hasher mp)"
  using Rehash_table [of hasher mp] by (auto simp: wf_def placed_def)

lemma Rehash_lookup:
  assumes "wf hasher mp"
  shows "lookup hasher (Rehash hasher mp) = lookup hasher mp"
proof
  fix key
  let ?n = "bucket_cnt mp * 3"
  have "?n > 0" using assms by (simp add: wf_def)
  then have "lookup hasher (Rehash hasher mp) key
    = map_of (filter (\<lambda>e. unat (hasher (fst e)) mod ?n = unat (hasher key) mod ?n) (concat (table mp))) key"
    using Rehash_table [OF assms] by (simp add: lookup_def)
  also have "\<dots> = map_of (concat (table mp)) key"
    by (rule map_of_filter_key) simp
  finally show "lookup hasher (Rehash hasher mp) key = lookup hasher mp key" by (simp add: lookup_concat [OF assms])
qed

lemma Rehash_unique:
  assumes "wf hasher mp" and "unique mp"
  shows "unique (Rehash hasher mp)"
  using Rehash_table [OF assms(1)] unique_concat [OF assms] by (simp add: unique_def distinct_map_filter)

lemma Erase_wf:
  assumes "wf hasher mp" and "Erase hasher key mp = Inr (r, mp')"
  shows "wf hasher mp'"
proof (cases "erase_first key (table mp ! (unat (hasher key) mod bucket_cnt mp))")
  case None
  then show ?thesis using assms wf_bucket [OF assms(1)] by (simp add: Erase_def)
next
  case (Some rest)
  let ?i = "unat (hasher key) mod bucket_cnt mp"
  have i: "?i < length (table mp)" by (rule wf_bucket(2) [OF assms(1)])
  have mp': "mp' = mp\<lparr>table := (table mp)[?i := rest], size_cnt := size_cnt mp - 1\<rparr>"
    using assms wf_bucket [OF assms(1)] Some by (auto simp: Erase_def)
  have "length (concat ((table mp)[?i := rest])) = length (concat (table mp)) - 1"
    using length_concat_update [OF i, of rest] erase_first_any [OF Some] by simp
  moreover have "placed hasher ((table mp)[?i := rest])"
    using assms(1) erase_first_any [OF Some] by (intro placed_update) (auto simp: wf_def)
  ultimately show ?thesis using assms(1) mp' by (simp add: wf_def)
qed

lemma Erase_lookup:
  assumes "wf hasher mp" and "unique mp"
  shows "\<exists>mp'. Erase hasher key mp = Inr (lookup hasher mp key \<noteq> None, mp') \<and> lookup hasher mp' = (lookup hasher mp)(key := None) \<and> unique mp'"
proof -
  let ?i = "unat (hasher key) mod bucket_cnt mp"
  have i: "?i < length (table mp)" by (rule wf_bucket(2) [OF assms(1)])
  show ?thesis
  proof (cases "erase_first key (table mp ! ?i)")
    case None
    then have "lookup hasher mp key = None" by (simp add: erase_first_None lookup_def)
    then show ?thesis using None assms wf_bucket(1) [OF assms(1)] by (auto simp: Erase_def fun_upd_idem)
  next
    case (Some rest)
    have d: "distinct (map fst (table mp ! ?i))" using assms(2) i by (simp add: unique_def)
    note E = erase_first_Some [OF Some d]
    have "lookup hasher mp key \<noteq> None" using Some erase_first_None [of key "table mp ! ?i"] by (auto simp: lookup_def)
    moreover have "lookup hasher (mp\<lparr>table := (table mp)[?i := rest], size_cnt := size_cnt mp - 1\<rparr>) = (lookup hasher mp)(key := None)"
      using E i by (auto simp: fun_eq_iff lookup_def nth_list_update)
    moreover have "unique (mp\<lparr>table := (table mp)[?i := rest], size_cnt := size_cnt mp - 1\<rparr>)"
      using E assms(2) i by (auto simp: unique_def nth_list_update)
    ultimately show ?thesis using Some wf_bucket(1) [OF assms(1), of key] by (auto simp: Erase_def)
  qed
qed

lemma Clear_wf: "wf hasher mp \<Longrightarrow> wf hasher (Clear mp)"
  by (auto simp: wf_def placed_def Clear_def)

lemma Clear_lookup: "wf hasher mp \<Longrightarrow> lookup hasher (Clear mp) = Map.empty" and Clear_unique: "unique (Clear mp)"
  by (auto simp: wf_def lookup_def Clear_def unique_def)

lemma Find_lookup:
  assumes "wf hasher mp"
  shows "Find hasher v0 key mp = Inr (case lookup hasher mp key of Some v \<Rightarrow> (True, v) | None \<Rightarrow> (False, v0))"
  using wf_bucket(1) [OF assms, of key]
  by (auto simp: Find_def lookup_def simp flip: find_map_of split: option.splits)

section \<open>One client: the map refines a finite map\<close>

datatype ('k, 'v) request = RInsert 'k 'v | RErase 'k | RFind 'k | RSize | RClear

datatype 'v reply = Flag bool | Found "bool \<times> 'v" | Count nat | Done

fun serve :: "('k \<Rightarrow> 64 word) \<Rightarrow> 'v \<Rightarrow> ('k, 'v) request \<Rightarrow> ('k, 'v) hash_map \<Rightarrow> map_error + 'v reply \<times> ('k, 'v) hash_map" where
  "serve hasher v0 (RInsert key v) mp = ebind (Insert hasher v0 key v mp) (\<lambda>(b, mp'). Inr (Flag b, mp'))"
| "serve hasher v0 (RErase key) mp = ebind (Erase hasher key mp) (\<lambda>(b, mp'). Inr (Flag b, mp'))"
| "serve hasher v0 (RFind key) mp = ebind (Find hasher v0 key mp) (\<lambda>r. Inr (Found r, mp))"
| "serve hasher v0 RSize mp = Inr (Count (Size mp), mp)"
| "serve hasher v0 RClear mp = Inr (Done, Clear mp)"

fun spec_serve :: "'v \<Rightarrow> ('k, 'v) request \<Rightarrow> ('k \<rightharpoonup> 'v) \<Rightarrow> 'v reply \<times> ('k \<rightharpoonup> 'v)" where
  "spec_serve v0 (RInsert key v) mp = (if mp key = None then (Flag True, mp(key \<mapsto> v)) else (Flag False, mp))"
| "spec_serve v0 (RErase key) mp = (Flag (mp key \<noteq> None), mp(key := None))"
| "spec_serve v0 (RFind key) mp = (Found (case mp key of Some v \<Rightarrow> (True, v) | None \<Rightarrow> (False, v0)), mp)"
| "spec_serve v0 RSize mp = (Count (card (dom mp)), mp)"
| "spec_serve v0 RClear mp = (Done, Map.empty)"

interpretation hash_table: refines "serve hasher v0" "spec_serve v0" "\<lambda>mp. wf hasher mp \<and> unique mp" "lookup hasher"
  for hasher :: "'k \<Rightarrow> 64 word" and v0 :: 'v
proof
  fix s :: "('k, 'v) hash_map" and r :: "('k, 'v) request"
  assume inv: "wf hasher s \<and> unique s"
  then have wf: "wf hasher s" and u: "unique s" by simp_all
  show "\<exists>s'. serve hasher v0 r s = Inr (fst (spec_serve v0 r (lookup hasher s)), s') \<and> (wf hasher s' \<and> unique s')
    \<and> lookup hasher s' = snd (spec_serve v0 r (lookup hasher s))"
  proof (cases r)
    case (RInsert key v)
    show ?thesis
    proof (cases "lookup hasher s key")
      case None
      obtain mp' where mp': "append_element hasher key v s = Inr mp'" "lookup hasher mp' = (lookup hasher s)(key \<mapsto> v)" "unique mp'"
        using append_element_lookup [OF wf None] u by blast
      have w: "wf hasher mp'" by (rule append_element_wf [OF wf mp'(1)])
      show ?thesis using RInsert None mp' w Rehash_wf [OF w] Rehash_lookup [OF w] Rehash_unique [OF w mp'(3)]
        by (simp add: Insert_def Find_lookup [OF wf])
    next
      case (Some w)
      then show ?thesis using RInsert inv by (simp add: Insert_def Find_lookup [OF wf])
    qed
  next
    case (RErase key)
    then show ?thesis using Erase_lookup [OF wf u, of key] Erase_wf [OF wf] by auto
  next
    case (RFind key)
    then show ?thesis using inv by (simp add: Find_lookup [OF wf])
  next
    case RSize
    then show ?thesis using inv size_card [OF wf u] by (simp add: Size_def)
  next
    case RClear
    then show ?thesis using Clear_wf [OF wf] Clear_lookup [OF wf] Clear_unique by simp
  qed
qed

lemma new_map:
  assumes "0 < max expected_size expected_threads_count"
  shows "\<exists>mp. ConcurrentHashMap_new expected_size expected_threads_count = Inr mp \<and> wf hasher mp \<and> unique mp \<and> lookup hasher mp = Map.empty"
  using assms
  by (auto simp: ConcurrentHashMap_new_def Let_def wf_def placed_def unique_def lookup_def fun_eq_iff)

section \<open>Many threads: what every interleaving keeps\<close>

inductive reachable :: "('k \<Rightarrow> 64 word) \<Rightarrow> 'v \<Rightarrow> ('k, 'v) hash_map \<Rightarrow> ('k, 'v) threads \<Rightarrow> bool" for hasher v0 mp0 where
  start: "reachable hasher v0 mp0 (mp0, \<lambda>_. Idle)"
| run: "reachable hasher v0 mp0 s \<Longrightarrow> step hasher v0 s s' \<Longrightarrow> reachable hasher v0 mp0 s'"

lemma step_wf: "step hasher v0 s s' \<Longrightarrow> wf hasher (fst s) \<Longrightarrow> wf hasher (fst s')"
  by (induction rule: step.induct) (auto intro: append_element_wf Rehash_wf Erase_wf Clear_wf)

lemma reachable_wf: "reachable hasher v0 mp0 s \<Longrightarrow> wf hasher mp0 \<Longrightarrow> wf hasher (fst s)"
  by (induction rule: reachable.induct) (auto intro: step_wf)

text \<open>The lookup and the insertion of \<open>Insert\<close> are separate critical sections, so two threads may insert
  the same key.\<close>

lemma duplicate_reachable:
  "reachable word_of_nat 0 \<lparr>table = [[]], locks = 1, size_cnt = 0, bucket_cnt = 1\<rparr>
     (\<lparr>table = [[(3, 1), (3, 2)]], locks = 1, size_cnt = 2, bucket_cnt = 1\<rparr>, (\<lambda>_. Idle)(0 := Checking, 1 := Checking))"
    (is "reachable ?h ?v0 ?m0 (?m2, ?ph)")
proof -
  let ?m1 = "\<lparr>table = [[(3, 1)]], locks = 1, size_cnt = 1, bucket_cnt = 1\<rparr>"
  let ?ph1 = "(\<lambda>_. Idle)(0 := Inserting 3 1)" let ?ph2 = "?ph1(1 := Inserting 3 2)" let ?ph3 = "?ph2(0 := Checking)"
  have "reachable ?h ?v0 ?m0 (?m0, ?ph1)"
    by (rule reachable.run [OF reachable.start]) (rule step.miss; simp add: Find_def locked_bucket_def hash_mod_def)
  then have "reachable ?h ?v0 ?m0 (?m0, ?ph2)"
    by (rule reachable.run) (rule step.miss; simp add: Find_def locked_bucket_def hash_mod_def)
  then have "reachable ?h ?v0 ?m0 (?m1, ?ph3)"
    by (rule reachable.run) (rule step.append; simp add: append_element_def locked_bucket_def hash_mod_def)
  then have "reachable ?h ?v0 ?m0 (?m2, ?ph3(1 := Checking))"
    by (rule reachable.run) (rule step.append; simp add: append_element_def locked_bucket_def hash_mod_def)
  moreover have "?ph3(1 := Checking) = ?ph" by (auto simp: fun_eq_iff)
  ultimately show ?thesis by (simp only:)
qed

section \<open>Properties\<close>

text \<open>C30. Seen by one client, the hash map gives every sequence of requests the replies of a finite map:
  \<open>Insert\<close> adds a key that is absent and says so, \<open>Erase\<close> and \<open>Find\<close> as well, \<open>Size\<close> counts the keys, and
  growing the table changes nothing.\<close>

theorem requests_refine_map:
  fixes hasher :: "'k \<Rightarrow> 64 word" and v0 :: 'v
  assumes "0 < max expected_size expected_threads_count"
  shows "\<exists>mp mp'. ConcurrentHashMap_new expected_size expected_threads_count = Inr mp
    \<and> run_all (serve hasher v0) requests mp = Inr (fst (spec_all (spec_serve v0) requests Map.empty), mp')"
proof -
  obtain mp :: "('k, 'v) hash_map" where mp: "ConcurrentHashMap_new expected_size expected_threads_count = Inr mp" "wf hasher mp" "unique mp"
    "lookup hasher mp = Map.empty"
    using new_map [OF assms] by blast
  then show ?thesis using hash_table.run_refines [where s = mp and hasher = hasher and rs = requests and ?v0.0 = v0] by auto
qed

theorem requests_refine_map_witness:
  "\<exists>mp mp'. ConcurrentHashMap_new 0 1 = Inr mp
    \<and> run_all (serve word_of_nat 0) [RInsert 3 (7::int), RInsert 3 8, RFind 3, RErase 3, RFind 3, RSize] mp
      = Inr ([Flag True, Flag False, Found (True, 7), Flag True, Found (False, 0), Count 0], mp')"
  using requests_refine_map [of 0 1 word_of_nat 0 "[RInsert 3 (7::int), RInsert 3 8, RFind 3, RErase 3, RFind 3, RSize]"]
  by simp

text \<open>C31. Whatever the threads do and however their critical sections interleave, the table stays well
  formed: the pairs are in the buckets of their keys, the size is their number, and two keys that share a
  bucket share the mutex that guards it, so no two threads are in the same bucket.\<close>

theorem threads_keep_table:
  fixes hasher :: "'k \<Rightarrow> 64 word" and v0 :: 'v
  assumes "0 < max expected_size expected_threads_count"
    and "ConcurrentHashMap_new expected_size expected_threads_count = Inr mp0"
    and "reachable hasher v0 mp0 (mp, phases)"
  shows "size_cnt mp = length (concat (table mp))
    \<and> (\<forall>i < length (table mp). \<forall>element \<in> set (table mp ! i). hash_mod hasher (fst element) (bucket_cnt mp) = Inr i)
    \<and> (\<forall>key key'. hash_mod hasher key (bucket_cnt mp) = hash_mod hasher key' (bucket_cnt mp)
         \<longrightarrow> hash_mod hasher key (locks mp) = hash_mod hasher key' (locks mp))"
proof -
  obtain m :: "('k, 'v) hash_map" where "ConcurrentHashMap_new expected_size expected_threads_count = Inr m" "wf hasher m"
    using new_map [OF assms(1)] by blast
  then have "wf hasher mp0" using assms(2) by simp
  then have wf: "wf hasher mp" using reachable_wf [OF assms(3)] by simp
  have share: "a mod locks mp = b mod locks mp" if "a mod bucket_cnt mp = b mod bucket_cnt mp" for a b
  proof -
    have dvd: "locks mp dvd bucket_cnt mp" using wf by (simp add: wf_def)
    have "a mod locks mp = a mod bucket_cnt mp mod locks mp" by (simp add: mod_mod_cancel [OF dvd])
    also have "\<dots> = b mod locks mp" by (simp only: that mod_mod_cancel [OF dvd])
    finally show ?thesis .
  qed
  have index: "hash_mod hasher key (bucket_cnt mp) = Inr (unat (hasher key) mod bucket_cnt mp)"
    "hash_mod hasher key (locks mp) = Inr (unat (hasher key) mod locks mp)" for key
    using wf by (simp_all add: wf_def hash_mod_def)
  have home: "unat (hasher (fst e)) mod bucket_cnt mp = i" if "i < length (table mp)" "e \<in> set (table mp ! i)" for i e
    using wf placedD [of hasher "table mp" i e] that by (simp add: wf_def)
  show ?thesis
  proof (intro conjI allI impI ballI)
    show "size_cnt mp = length (concat (table mp))" using wf by (simp add: wf_def)
  next
    fix i e assume "i < length (table mp)" "e \<in> set (table mp ! i)"
    then show "hash_mod hasher (fst e) (bucket_cnt mp) = Inr i" by (simp add: index home)
  next
    fix key key' assume "hash_mod hasher key (bucket_cnt mp) = hash_mod hasher key' (bucket_cnt mp)"
    then show "hash_mod hasher key (locks mp) = hash_mod hasher key' (locks mp)"
      unfolding index by (intro arg_cong [where f = Inr] share) simp
  qed
qed

theorem threads_keep_table_witness:
  "size_cnt \<lparr>table = [[(3::nat, 1::int), (3, 2)]], locks = 1, size_cnt = 2, bucket_cnt = 1\<rparr> = length (concat [[(3::nat, 1::int), (3, 2)]])
    \<and> hash_mod (word_of_nat :: nat \<Rightarrow> 64 word) 3 1 = Inr 0"
proof -
  have new: "ConcurrentHashMap_new 0 1 = Inr (\<lparr>table = [[]], locks = 1, size_cnt = 0, bucket_cnt = 1\<rparr> :: (nat, int) hash_map)"
    by (simp add: ConcurrentHashMap_new_def)
  have "0 < max 0 (1 :: int)" by simp
  from threads_keep_table [OF this new duplicate_reachable] show ?thesis by simp
qed

end
