(* ===== verification/Locks.thy ===== *)
theory Locks
  imports Prelude "HOL-Library.Word"
begin

unbundle bit_operations_syntax

text \<open>
  Locks as state machines: the spinning reader-writer lock (\<open>lock-free/rw-spinlock\<close>), the reader-writer
  lock with a condition variable (\<open>condvars/rw-lock\<close>) and the fair semaphore (\<open>condvars/semaphore\<close>).
  A step is one atomic access, or one critical section of a mutex: between waiting and waking up
  again, or between two waits. A thread that waits may wake up at any time, notified or not, as the
  C++ standard allows. Threads are numbers below a bound.
\<close>

section \<open>Invariants of a step relation\<close>

locale invariant =
  fixes step :: "'s \<Rightarrow> 's \<Rightarrow> bool" and inv :: "'s \<Rightarrow> bool"
  assumes step_inv: "step s s' \<Longrightarrow> inv s \<Longrightarrow> inv s'"
begin

lemma steps_inv: "step\<^sup>*\<^sup>* s s' \<Longrightarrow> inv s \<Longrightarrow> inv s'"
  by (induction rule: rtranclp_induct) (auto intro: step_inv)

end

lemma two_steps: "r a b \<Longrightarrow> r b c \<Longrightarrow> r\<^sup>*\<^sup>* a c"
  by (rule rtranclp.rtrancl_into_rtrancl [OF r_into_rtranclp])

lemma three_steps: "r a b \<Longrightarrow> r b c \<Longrightarrow> r c d \<Longrightarrow> r\<^sup>*\<^sup>* a d"
  by (rule rtranclp.rtrancl_into_rtrancl [OF two_steps])

section \<open>The spinning reader-writer lock\<close>

definition LAST_BIT :: "64 word" where
  "LAST_BIT = 0x8000000000000000"

text \<open>What a thread does: outside; about to load the value in \<open>LockRead\<close>; about to compare and exchange
  with the value \<open>expected\<close>; holding the lock as a reader; in the loop of \<open>LockWrite\<close>; holding the lock
  as the writer.\<close>

datatype spin_phase = Outside | LoadRead | CasRead "64 word" | Reading | CasWrite | Writing

record spinlock =
  spin_val :: "64 word"
  spin_phase_of :: "nat \<Rightarrow> spin_phase"

definition RWSpinLock_new :: spinlock where
  "RWSpinLock_new = \<lparr>spin_val = 0, spin_phase_of = (\<lambda>t. Outside)\<rparr>"

definition spin_goto :: "nat \<Rightarrow> spin_phase \<Rightarrow> spinlock \<Rightarrow> spinlock" where
  "spin_goto t p s = s\<lparr>spin_phase_of := (spin_phase_of s)(t := p)\<rparr>"

fun LockRead :: "nat \<Rightarrow> spinlock \<Rightarrow> spinlock option" where
  "LockRead t s =
     (case spin_phase_of s t of
        Outside \<Rightarrow> Some (spin_goto t LoadRead s)
      | LoadRead \<Rightarrow> Some (spin_goto t (CasRead (spin_val s AND NOT LAST_BIT)) s)
      | CasRead expected \<Rightarrow>
          if spin_val s = expected then Some (spin_goto t Reading (s\<lparr>spin_val := expected + 1\<rparr>))
          else Some (spin_goto t LoadRead s)
      | _ \<Rightarrow> None)"

fun UnlockRead :: "nat \<Rightarrow> spinlock \<Rightarrow> spinlock option" where
  "UnlockRead t s =
     (if spin_phase_of s t = Reading then Some (spin_goto t Outside (s\<lparr>spin_val := spin_val s - 1\<rparr>)) else None)"

fun LockWrite :: "nat \<Rightarrow> spinlock \<Rightarrow> spinlock option" where
  "LockWrite t s =
     (case spin_phase_of s t of
        Outside \<Rightarrow> Some (spin_goto t CasWrite s)
      | CasWrite \<Rightarrow>
          if spin_val s = 0 then Some (spin_goto t Writing (s\<lparr>spin_val := LAST_BIT\<rparr>)) else Some s
      | _ \<Rightarrow> None)"

fun UnlockWrite :: "nat \<Rightarrow> spinlock \<Rightarrow> spinlock option" where
  "UnlockWrite t s =
     (if spin_phase_of s t = Writing then Some (spin_goto t Outside (s\<lparr>spin_val := 0\<rparr>)) else None)"

text \<open>The threads are \<open>0, \<dots>, n - 1\<close>.\<close>

inductive spin_step :: "nat \<Rightarrow> spinlock \<Rightarrow> spinlock \<Rightarrow> bool" for n where
  "t < n \<Longrightarrow> LockRead t s = Some s' \<Longrightarrow> spin_step n s s'"
| "t < n \<Longrightarrow> UnlockRead t s = Some s' \<Longrightarrow> spin_step n s s'"
| "t < n \<Longrightarrow> LockWrite t s = Some s' \<Longrightarrow> spin_step n s s'"
| "t < n \<Longrightarrow> UnlockWrite t s = Some s' \<Longrightarrow> spin_step n s s'"

inductive_cases spin_stepE: "spin_step n s s'"

definition holders :: "nat \<Rightarrow> 'p \<Rightarrow> (nat \<Rightarrow> 'p) \<Rightarrow> nat" where
  "holders n p phase = card {t. t < n \<and> phase t = p}"

lemma holders_update:
  assumes "t < n"
  shows "holders n p (phase(t := q)) =
    (if q = p then if phase t = p then holders n p phase else Suc (holders n p phase)
     else if phase t = p then holders n p phase - 1 else holders n p phase)"
proof -
  let ?R = "{t. t < n \<and> phase t = p}"
  have fin: "finite ?R" by simp
  have "{u. u < n \<and> (phase(t := q)) u = p} = (if q = p then insert t ?R else ?R - {t})" using assms by auto
  then show ?thesis using assms fin by (auto simp: holders_def card_insert_if simp del: fun_upd_apply)
qed

lemma holders_le: "holders n p phase \<le> n"
proof -
  have "card {t. t < n \<and> phase t = p} \<le> card {..<n}" by (intro card_mono) auto
  then show ?thesis by (simp add: holders_def)
qed

lemma holders_pos: "t < n \<Longrightarrow> phase t = p \<Longrightarrow> 0 < holders n p phase"
  by (auto simp: holders_def card_gt_0_iff)

text \<open>The value is the top bit when a thread writes, and the number of readers otherwise; what a reader
  compares with has no top bit.\<close>

definition spin_inv :: "nat \<Rightarrow> spinlock \<Rightarrow> bool" where
  "spin_inv n s \<longleftrightarrow>
     (\<forall>t e. spin_phase_of s t = CasRead e \<longrightarrow> \<not> bit e 63)
   \<and> (\<forall>t. spin_phase_of s t \<noteq> Outside \<longrightarrow> t < n)
   \<and> (if \<exists>t. spin_phase_of s t = Writing
      then spin_val s = LAST_BIT \<and> (\<forall>t. spin_phase_of s t \<noteq> Reading)
        \<and> (\<forall>t u. spin_phase_of s t = Writing \<and> spin_phase_of s u = Writing \<longrightarrow> t = u)
      else spin_val s = word_of_nat (holders n Reading (spin_phase_of s)))"

lemma bit_LAST_BIT: "bit LAST_BIT i \<longleftrightarrow> i = 63"
proof -
  have "LAST_BIT = 2 ^ 63" by (simp add: LAST_BIT_def)
  moreover have "bit (2 ^ 63 :: 64 word) i \<longleftrightarrow> i = 63" by (auto simp only: bit_exp_iff possible_bit_word) simp
  ultimately show ?thesis by (simp only:)
qed

lemma small_no_top_bit: "k < 2 ^ 63 \<Longrightarrow> \<not> bit (word_of_nat k :: 64 word) 63"
  unfolding bit_of_nat_iff by (simp only: bit_iff_odd div_less) simp

lemma word_of_nat_inject: "j < 2 ^ 64 \<Longrightarrow> k < 2 ^ 64 \<Longrightarrow> (word_of_nat j :: 64 word) = word_of_nat k \<Longrightarrow> j = k"
  by (simp add: word_of_nat_eq_iff take_bit_nat_eq_self)

lemma phase_goto [simp]: "spin_phase_of (spin_goto t p s) = (spin_phase_of s)(t := p)"
  and val_goto [simp]: "spin_val (spin_goto t p s) = spin_val s"
  by (simp_all add: spin_goto_def)

abbreviation spin_readers :: "nat \<Rightarrow> spinlock \<Rightarrow> nat" where
  "spin_readers n s \<equiv> holders n Reading (spin_phase_of s)"

text \<open>A thread moves between phases in which it does not hold the lock.\<close>

lemma spin_goto_idle:
  assumes "spin_inv n s" and "t < n" and "spin_phase_of s t \<noteq> Reading" and "spin_phase_of s t \<noteq> Writing"
    and "p \<noteq> Reading" and "p \<noteq> Writing" and "\<And>e. p = CasRead e \<Longrightarrow> \<not> bit e 63"
  shows "spin_inv n (spin_goto t p s)"
proof -
  have w: "(\<exists>u. spin_phase_of (spin_goto t p s) u = Writing) \<longleftrightarrow> (\<exists>u. spin_phase_of s u = Writing)"
    using assms(4,6) by auto
  show ?thesis
  proof (cases "\<exists>u. spin_phase_of s u = Writing")
    case True
    then show ?thesis using assms w unfolding spin_inv_def by (auto split: if_splits)
  next
    case False
    then show ?thesis using assms w holders_update [OF assms(2), of Reading "spin_phase_of s" p] unfolding spin_inv_def by (auto split: if_splits)
  qed
qed

lemma spin_writerD:
  assumes "spin_inv n s" and "spin_phase_of s w = Writing"
  shows "spin_val s = LAST_BIT" and "spin_phase_of s t \<noteq> Reading" and "spin_phase_of s u = Writing \<Longrightarrow> u = w"
proof -
  have "\<exists>t. spin_phase_of s t = Writing" using assms(2) by blast
  then show "spin_val s = LAST_BIT" and "spin_phase_of s t \<noteq> Reading" and "spin_phase_of s u = Writing \<Longrightarrow> u = w"
    using assms unfolding spin_inv_def by (metis (no_types, lifting))+
qed

lemma spin_reader_enters:
  assumes "spin_inv n s" and "n < 2 ^ 63" and "t < n" and "spin_phase_of s t = CasRead (spin_val s)"
  shows "spin_inv n (spin_goto t Reading (s\<lparr>spin_val := spin_val s + 1\<rparr>))"
proof -
  have "\<not> bit (spin_val s) 63" using assms(1,4) by (auto simp: spin_inv_def)
  then have nw: "\<not> (\<exists>u. spin_phase_of s u = Writing)" using spin_writerD(1) [OF assms(1)] bit_LAST_BIT by metis
  then have "spin_val s = word_of_nat (spin_readers n s)" using assms(1) by (simp add: spin_inv_def)
  moreover have "spin_readers n (spin_goto t Reading (s\<lparr>spin_val := spin_val s + 1\<rparr>)) = Suc (spin_readers n s)"
    using holders_update [OF assms(3), of Reading "spin_phase_of s" Reading] assms(4) by simp
  ultimately show ?thesis using assms(1,3) nw by (auto simp: spin_inv_def add.commute split: if_splits)
qed

lemma spin_reader_leaves:
  assumes "spin_inv n s" and "t < n" and "spin_phase_of s t = Reading"
  shows "spin_inv n (spin_goto t Outside (s\<lparr>spin_val := spin_val s - 1\<rparr>))"
proof -
  have nw: "\<not> (\<exists>u. spin_phase_of s u = Writing)" using spin_writerD(2) [OF assms(1)] assms(3) by blast
  then have "spin_val s = word_of_nat (spin_readers n s)" using assms(1) by (simp add: spin_inv_def)
  moreover have "0 < spin_readers n s" by (rule holders_pos) (use assms in auto)
  moreover have "spin_readers n (spin_goto t Outside (s\<lparr>spin_val := spin_val s - 1\<rparr>)) = spin_readers n s - 1"
    using holders_update [OF assms(2), of Reading "spin_phase_of s" Outside] assms(3) by simp
  ultimately show ?thesis using assms(1,2) nw by (auto simp: spin_inv_def of_nat_diff split: if_splits)
qed

lemma spin_writer_enters:
  assumes "spin_inv n s" and "n < 2 ^ 63" and "t < n" and "spin_val s = 0" and "spin_phase_of s t = CasWrite"
  shows "spin_inv n (spin_goto t Writing (s\<lparr>spin_val := LAST_BIT\<rparr>))"
proof -
  have "spin_val s \<noteq> LAST_BIT" using assms(4) bit_LAST_BIT by (metis bit_0_eq bot_apply bot_bool_def)
  then have nw: "\<not> (\<exists>u. spin_phase_of s u = Writing)" using spin_writerD(1) [OF assms(1)] by metis
  then have "word_of_nat (spin_readers n s) = (word_of_nat 0 :: 64 word)" using assms(1,4) by (simp add: spin_inv_def)
  then have "spin_readers n s = 0"
    using holders_le [of n Reading "spin_phase_of s"] assms(2) by (intro word_of_nat_inject) simp_all
  then have "spin_phase_of s u \<noteq> Reading" for u
    using holders_pos [of u n "spin_phase_of s" Reading] assms(1) by (auto simp: spin_inv_def)
  then show ?thesis using assms(1,3) nw by (auto simp: spin_inv_def split: if_splits)
qed

lemma spin_writer_leaves:
  assumes "spin_inv n s" and "spin_phase_of s t = Writing"
  shows "spin_inv n (spin_goto t Outside (s\<lparr>spin_val := 0\<rparr>))"
proof -
  have w: "spin_phase_of s u \<noteq> Reading" "spin_phase_of s u = Writing \<Longrightarrow> u = t" for u
    using spin_writerD [OF assms] by blast+
  let ?s = "spin_goto t Outside (s\<lparr>spin_val := 0\<rparr>)"
  have "spin_readers n ?s = 0" using w(1) by (simp add: holders_def)
  moreover have "\<not> (\<exists>u. spin_phase_of ?s u = Writing)" using w(2) by auto
  moreover have "\<forall>u e. spin_phase_of ?s u = CasRead e \<longrightarrow> \<not> bit e 63" "\<forall>u. spin_phase_of ?s u \<noteq> Outside \<longrightarrow> u < n"
    using assms(1) by (auto simp: spin_inv_def split: if_splits)
  ultimately show ?thesis by (simp only: spin_inv_def val_goto) simp
qed

lemma spin_step_inv:
  assumes "n < 2 ^ 63" and "spin_step n s s'" and "spin_inv n s"
  shows "spin_inv n s'"
  using assms(2)
proof (cases rule: spin_step.cases)
  case (1 t)
  have "\<not> bit (spin_val s AND NOT LAST_BIT) 63" by (simp add: bit_and_iff bit_not_iff bit_LAST_BIT)
  then have "spin_phase_of s t = LoadRead \<Longrightarrow> spin_inv n (spin_goto t (CasRead (spin_val s AND NOT LAST_BIT)) s)"
    using spin_goto_idle [OF assms(3) 1(1), of "CasRead (spin_val s AND NOT LAST_BIT)"] by simp
  then show ?thesis using 1 assms(1,3) spin_reader_enters [of n s t] spin_goto_idle [OF assms(3) 1(1)]
    by (cases "spin_phase_of s t") (auto split: if_splits)
next
  case (2 t)
  then show ?thesis using assms(3) spin_reader_leaves by (auto split: if_splits)
next
  case (3 t)
  then show ?thesis using assms(1,3) spin_writer_enters [of n s t] spin_goto_idle [OF assms(3) 3(1)]
    by (cases "spin_phase_of s t") (auto split: if_splits)
next
  case (4 t)
  then show ?thesis using assms(3) spin_writer_leaves by (auto split: if_splits)
qed

interpretation spin: invariant "spin_step n" "\<lambda>s. n < 2 ^ 63 \<and> spin_inv n s" for n
  by unfold_locales (auto intro: spin_step_inv)

lemma spin_inv_new: "spin_inv n RWSpinLock_new"
  by (auto simp: spin_inv_def RWSpinLock_new_def holders_def)

section \<open>The reader-writer lock with a condition variable\<close>

text \<open>The mutex \<open>read_\<close> is held by the thread that writes, during its whole function, and otherwise only
  inside one step. \<open>RwWaiting\<close> is the wait of \<open>Write\<close>, \<open>RwAwake\<close> after it woke up, before it has the mutex.
  A function that throws ends the reading or the writing in the same way.\<close>

datatype rw_phase = RwOutside | RwReading | RwWaiting | RwAwake | RwWriting

record rw_lock =
  blocked_readers :: int
  rw_phase_of :: "nat \<Rightarrow> rw_phase"

definition RWLock_new :: rw_lock where
  "RWLock_new = \<lparr>blocked_readers = 0, rw_phase_of = (\<lambda>t. RwOutside)\<rparr>"

definition rw_goto :: "nat \<Rightarrow> rw_phase \<Rightarrow> rw_lock \<Rightarrow> rw_lock" where
  "rw_goto t p s = s\<lparr>rw_phase_of := (rw_phase_of s)(t := p)\<rparr>"

definition mutex_free :: "nat \<Rightarrow> rw_lock \<Rightarrow> bool" where
  "mutex_free n s \<longleftrightarrow> list_all (\<lambda>t. rw_phase_of s t \<noteq> RwWriting) [0..<n]"

definition BeginRead :: "nat \<Rightarrow> nat \<Rightarrow> rw_lock \<Rightarrow> rw_lock option" where
  "BeginRead n t s =
     (if rw_phase_of s t = RwOutside \<and> mutex_free n s
      then Some (rw_goto t RwReading (s\<lparr>blocked_readers := blocked_readers s + 1\<rparr>)) else None)"

definition EndRead :: "nat \<Rightarrow> nat \<Rightarrow> rw_lock \<Rightarrow> rw_lock option" where
  "EndRead n t s =
     (if rw_phase_of s t = RwReading \<and> mutex_free n s
      then Some (rw_goto t RwOutside (s\<lparr>blocked_readers := blocked_readers s - 1\<rparr>)) else None)"

text \<open>The loop of \<open>Write\<close>, entered or resumed: with the mutex, the thread writes or waits.\<close>

definition TryWrite :: "nat \<Rightarrow> nat \<Rightarrow> rw_lock \<Rightarrow> rw_lock option" where
  "TryWrite n t s =
     (if (rw_phase_of s t = RwOutside \<or> rw_phase_of s t = RwAwake) \<and> mutex_free n s
      then Some (rw_goto t (if blocked_readers s \<noteq> 0 then RwWaiting else RwWriting) s) else None)"

definition EndWrite :: "nat \<Rightarrow> rw_lock \<Rightarrow> rw_lock option" where
  "EndWrite t s = (if rw_phase_of s t = RwWriting then Some (rw_goto t RwOutside s) else None)"

definition WakeWriter :: "nat \<Rightarrow> rw_lock \<Rightarrow> rw_lock option" where
  "WakeWriter t s = (if rw_phase_of s t = RwWaiting then Some (rw_goto t RwAwake s) else None)"

inductive rw_step :: "nat \<Rightarrow> rw_lock \<Rightarrow> rw_lock \<Rightarrow> bool" for n where
  "t < n \<Longrightarrow> BeginRead n t s = Some s' \<Longrightarrow> rw_step n s s'"
| "t < n \<Longrightarrow> EndRead n t s = Some s' \<Longrightarrow> rw_step n s s'"
| "t < n \<Longrightarrow> TryWrite n t s = Some s' \<Longrightarrow> rw_step n s s'"
| "t < n \<Longrightarrow> EndWrite t s = Some s' \<Longrightarrow> rw_step n s s'"
| "t < n \<Longrightarrow> WakeWriter t s = Some s' \<Longrightarrow> rw_step n s s'"

definition rw_inv :: "nat \<Rightarrow> rw_lock \<Rightarrow> bool" where
  "rw_inv n s \<longleftrightarrow> blocked_readers s = int (holders n RwReading (rw_phase_of s))
     \<and> (\<forall>t. rw_phase_of s t = RwWriting \<longrightarrow> t < n \<and> blocked_readers s = 0 \<and> (\<forall>u. rw_phase_of s u = RwWriting \<longrightarrow> u = t))"

lemma rw_goto_simps [simp]:
  "rw_phase_of (rw_goto t p s) = (rw_phase_of s)(t := p)"
  "blocked_readers (rw_goto t p s) = blocked_readers s"
  by (simp_all add: rw_goto_def)

lemma mutex_free_writer: "rw_inv n s \<Longrightarrow> mutex_free n s \<Longrightarrow> rw_phase_of s t \<noteq> RwWriting"
proof
  assume "rw_inv n s" and free: "mutex_free n s" and "rw_phase_of s t = RwWriting"
  then have "t \<in> set [0..<n]" unfolding rw_inv_def by simp
  then show False using free \<open>rw_phase_of s t = RwWriting\<close> unfolding mutex_free_def list_all_iff by blast
qed

lemma rw_inv_goto:
  assumes "rw_inv n s" and "t < n" and "p = RwWriting \<Longrightarrow> mutex_free n s \<and> blocked_readers s' = 0"
    and "blocked_readers s' - blocked_readers s
      = (if p = RwReading then 1 else 0) - (if rw_phase_of s t = RwReading then 1 else 0)"
    and "blocked_readers s' \<noteq> blocked_readers s \<Longrightarrow> mutex_free n s" and "rw_phase_of s' = rw_phase_of s"
  shows "rw_inv n (rw_goto t p s')"
proof -
  have count: "blocked_readers s = int (holders n RwReading (rw_phase_of s))" using assms(1) by (simp add: rw_inv_def)
  have "blocked_readers s' = int (holders n RwReading ((rw_phase_of s)(t := p)))"
    using assms(4) count holders_update [OF assms(2), of RwReading "rw_phase_of s" p] holders_pos [OF assms(2), of "rw_phase_of s" RwReading]
    by (auto simp: of_nat_diff split: if_splits)
  moreover have "u < n \<and> blocked_readers s' = 0 \<and> (\<forall>v. ((rw_phase_of s)(t := p)) v = RwWriting \<longrightarrow> v = u)"
    if "((rw_phase_of s)(t := p)) u = RwWriting" for u
  proof (cases "mutex_free n s")
    case True
    then have none: "rw_phase_of s v \<noteq> RwWriting" for v using mutex_free_writer [OF assms(1)] by blast
    then have "u = t" "p = RwWriting" using that by (auto split: if_splits)
    then show ?thesis using none assms(2,3) by auto
  next
    case False
    then have "p \<noteq> RwWriting" "blocked_readers s' = blocked_readers s" using assms(3,5) by auto
    moreover have "rw_phase_of s u = RwWriting" using that calculation(1) by (auto split: if_splits)
    ultimately show ?thesis using assms(1) unfolding rw_inv_def fun_upd_apply by metis
  qed
  ultimately show ?thesis using assms(6) by (simp add: rw_inv_def)
qed

lemma rw_step_inv: "rw_step n s s' \<Longrightarrow> rw_inv n s \<Longrightarrow> rw_inv n s'"
proof (induction rule: rw_step.induct)
  case (1 t s s')
  then show ?case by (auto simp: BeginRead_def split: if_split_asm intro!: rw_inv_goto [of n s])
next
  case (2 t s s')
  then show ?case by (auto simp: EndRead_def split: if_split_asm intro!: rw_inv_goto [of n s])
next
  case (3 t s s')
  then show ?case by (auto simp: TryWrite_def split: if_split_asm intro!: rw_inv_goto [of n s])
next
  case (4 t s s')
  then show ?case by (auto simp: EndWrite_def split: if_split_asm intro!: rw_inv_goto [of n s])
next
  case (5 t s s')
  then show ?case by (auto simp: WakeWriter_def split: if_split_asm intro!: rw_inv_goto [of n s])
qed

interpretation rw: invariant "rw_step n" "rw_inv n" for n
  by unfold_locales (rule rw_step_inv)

lemma rw_inv_new: "rw_inv n RWLock_new"
  by (simp add: rw_inv_def RWLock_new_def holders_def)

section \<open>The fair semaphore\<close>

text \<open>A waiting thread knows the signature it was given; \<open>SemAwake\<close> woke up and needs the mutex. The lists
  \<open>arrived\<close> and \<open>admitted\<close> record which threads took the mutex in \<open>Enter\<close> and which passed it, and
  \<open>leaves\<close> counts the calls of \<open>Leave\<close>; the code does not keep them. The members \<open>count_\<close> and
  \<open>signature_gen_\<close> and the signatures are \<open>int\<close>s of the code: without a bound here, so the runs are those
  in which none of them overflows, which would be undefined.\<close>

datatype sem_phase = SemOutside | SemWaiting int | SemAwake int

record semaphore =
  sem_count :: int
  signature_gen :: int
  waiting_threads :: "int list"
  sem_phase_of :: "nat \<Rightarrow> sem_phase"
  arrived :: "nat list"
  admitted :: "nat list"
  leaves :: nat

definition Semaphore_new :: "int \<Rightarrow> semaphore" where
  "Semaphore_new count = \<lparr>sem_count = count, signature_gen = 0, waiting_threads = [],
     sem_phase_of = (\<lambda>t. SemOutside), arrived = [], admitted = [], leaves = 0\<rparr>"

definition GetSignature :: "semaphore \<Rightarrow> int \<times> semaphore" where
  "GetSignature s = (let g = signature_gen s + 1 in (g, s\<lparr>signature_gen := g\<rparr>))"

text \<open>\<open>DefaultCallback\<close>, applied to the counter when a thread is admitted.\<close>

definition default_callback :: "int \<Rightarrow> int" where
  "default_callback value = value - 1"

definition admit :: "(int \<Rightarrow> int) \<Rightarrow> nat \<Rightarrow> semaphore \<Rightarrow> semaphore" where
  "admit callback t s =
     s\<lparr>sem_count := callback (sem_count s), sem_phase_of := (sem_phase_of s)(t := SemOutside), admitted := admitted s @ [t]\<rparr>"

definition Leave :: "semaphore \<Rightarrow> semaphore" where
  "Leave s = s\<lparr>sem_count := sem_count s + 1, leaves := leaves s + 1\<rparr>"

text \<open>\<open>Enter\<close> until it waits or is done, and after it woke up. \<open>front\<close> of an empty queue is undefined.\<close>

definition EnterFirst :: "(int \<Rightarrow> int) \<Rightarrow> nat \<Rightarrow> semaphore \<Rightarrow> semaphore option" where
  "EnterFirst callback t s =
     (if sem_phase_of s t \<noteq> SemOutside then None
      else let s = s\<lparr>arrived := arrived s @ [t]\<rparr>
           in if sem_count s = 0 \<or> waiting_threads s \<noteq> []
              then let (my_signature, s) = GetSignature s
                   in Some (s\<lparr>waiting_threads := waiting_threads s @ [my_signature],
                              sem_phase_of := (sem_phase_of s)(t := SemWaiting my_signature)\<rparr>)
              else Some (admit callback t s))"

definition EnterAgain :: "(int \<Rightarrow> int) \<Rightarrow> nat \<Rightarrow> semaphore \<Rightarrow> semaphore option" where
  "EnterAgain callback t s =
     (case sem_phase_of s t of
        SemAwake my_signature \<Rightarrow>
          (case waiting_threads s of
             [] \<Rightarrow> None
           | f # rest \<Rightarrow>
               if f = my_signature then Some (admit callback t (s\<lparr>waiting_threads := rest\<rparr>))
               else Some (s\<lparr>sem_phase_of := (sem_phase_of s)(t := SemWaiting my_signature)\<rparr>))
      | _ \<Rightarrow> None)"

inductive sem_step :: "(int \<Rightarrow> int) \<Rightarrow> semaphore \<Rightarrow> semaphore \<Rightarrow> bool" for callback where
  first: "EnterFirst callback t s = Some s' \<Longrightarrow> sem_step callback s s'"
| again: "EnterAgain callback t s = Some s' \<Longrightarrow> sem_step callback s s'"
| leave: "sem_step callback s (Leave s)"
| wake: "sem_phase_of s t = SemWaiting g \<Longrightarrow> sem_step callback s (s\<lparr>sem_phase_of := (sem_phase_of s)(t := SemAwake g)\<rparr>)"

text \<open>The queue holds the signatures of the waiting threads, in the order of their arrival, and the
  threads that arrived are those admitted followed by those waiting.\<close>

definition holds_signature :: "semaphore \<Rightarrow> nat \<Rightarrow> int \<Rightarrow> bool" where
  "holds_signature s t g \<longleftrightarrow> sem_phase_of s t = SemWaiting g \<or> sem_phase_of s t = SemAwake g"

definition sem_inv :: "int \<Rightarrow> semaphore \<Rightarrow> bool" where
  "sem_inv count s \<longleftrightarrow> (\<exists>ts. arrived s = admitted s @ ts \<and> length ts = length (waiting_threads s)
       \<and> distinct (waiting_threads s) \<and> (\<forall>g \<in> set (waiting_threads s). g \<le> signature_gen s)
       \<and> (\<forall>t g. holds_signature s t g \<longleftrightarrow> (t, g) \<in> set (zip ts (waiting_threads s))))
     \<and> sem_count s = count + int (leaves s) - int (length (admitted s))"

lemma sem_first_inv:
  assumes "sem_inv count s" and "EnterFirst default_callback t s = Some s'"
  shows "sem_inv count s'"
proof -
  obtain ts where ts: "arrived s = admitted s @ ts" "length ts = length (waiting_threads s)"
      "distinct (waiting_threads s)" "\<forall>g \<in> set (waiting_threads s). g \<le> signature_gen s"
      "\<And>t g. holds_signature s t g \<longleftrightarrow> (t, g) \<in> set (zip ts (waiting_threads s))"
    and count: "sem_count s = count + int (leaves s) - int (length (admitted s))"
    using assms(1) by (auto simp: sem_inv_def)
  have out: "sem_phase_of s t = SemOutside" using assms(2) by (simp add: EnterFirst_def split: if_splits)
  then have none: "\<not> holds_signature s t g" for g by (simp add: holds_signature_def)
  show ?thesis
  proof (cases "sem_count s = 0 \<or> waiting_threads s \<noteq> []")
    case True
    let ?g = "signature_gen s + 1"
    have s': "s' = s\<lparr>arrived := arrived s @ [t], signature_gen := ?g, waiting_threads := waiting_threads s @ [?g],
        sem_phase_of := (sem_phase_of s)(t := SemWaiting ?g)\<rparr>"
      using assms(2) out True by (simp add: EnterFirst_def GetSignature_def Let_def)
    have "holds_signature s' u g \<longleftrightarrow> (u, g) \<in> set (zip (ts @ [t]) (waiting_threads s @ [?g]))" for u g
      using ts(2,5) none s' by (auto simp: holds_signature_def)
    then show ?thesis unfolding sem_inv_def using ts s' count
      by (intro conjI exI [of _ "ts @ [t]"]) auto
  next
    case False
    then have s': "s' = admit default_callback t (s\<lparr>arrived := arrived s @ [t]\<rparr>)" and "ts = []"
      using assms(2) out ts(2) by (simp_all add: EnterFirst_def Let_def)
    then show ?thesis unfolding sem_inv_def using ts count none False
      by (intro conjI exI [of _ "[]"]) (auto simp: admit_def holds_signature_def default_callback_def)
  qed
qed

lemma sem_again_inv:
  assumes "sem_inv count s" and "EnterAgain default_callback t s = Some s'"
  shows "sem_inv count s'"
proof -
  obtain ts where ts: "arrived s = admitted s @ ts" "length ts = length (waiting_threads s)"
      "distinct (waiting_threads s)" "\<forall>g \<in> set (waiting_threads s). g \<le> signature_gen s"
      "\<And>t g. holds_signature s t g \<longleftrightarrow> (t, g) \<in> set (zip ts (waiting_threads s))"
    and count: "sem_count s = count + int (leaves s) - int (length (admitted s))"
    using assms(1) by (auto simp: sem_inv_def)
  obtain g where g: "sem_phase_of s t = SemAwake g"
    using assms(2) by (auto simp: EnterAgain_def split: sem_phase.splits)
  obtain f rest where q: "waiting_threads s = f # rest"
    using assms(2) g by (auto simp: EnterAgain_def split: list.splits)
  obtain u us where us: "ts = u # us" using ts(2) q by (cases ts) auto
  show ?thesis
  proof (cases "f = g")
    case True
    have "holds_signature s t f" using True g by (simp add: holds_signature_def)
    moreover have "f \<notin> set rest" using ts(3) q by simp
    ultimately have "u = t" using ts(5) [of t f] q us by (auto dest: set_zip_rightD)
    have s': "s' = admit default_callback t (s\<lparr>waiting_threads := rest\<rparr>)"
      using assms(2) g q True by (simp add: EnterAgain_def)
    have "(t, h) \<notin> set (zip us rest)" for h
    proof
      assume h: "(t, h) \<in> set (zip us rest)"
      then have "holds_signature s t h" using ts(5) q us by simp
      then have "h = g" using g by (simp add: holds_signature_def)
      then show False using h True \<open>f \<notin> set rest\<close> by (auto dest: set_zip_rightD)
    qed
    then have "holds_signature s' v h \<longleftrightarrow> (v, h) \<in> set (zip us rest)" for v h
      using ts(5) [of v h] q us \<open>u = t\<close> s' g True by (auto simp: holds_signature_def admit_def)
    then show ?thesis unfolding sem_inv_def using ts s' count q us \<open>u = t\<close>
      by (intro conjI exI [of _ us]) (auto simp: admit_def default_callback_def)
  next
    case False
    then have s': "s' = s\<lparr>sem_phase_of := (sem_phase_of s)(t := SemWaiting g)\<rparr>"
      using assms(2) g q by (simp add: EnterAgain_def)
    have "holds_signature s' v h = holds_signature s v h" for v h
      using s' g by (auto simp: holds_signature_def)
    then show ?thesis unfolding sem_inv_def using ts s' count by (intro conjI exI [of _ ts]) auto
  qed
qed

lemma sem_step_inv:
  assumes "sem_step default_callback s s'" and "sem_inv count s"
  shows "sem_inv count s'"
  using assms
proof (induction rule: sem_step.induct)
  case (leave s)
  then show ?case by (simp add: sem_inv_def Leave_def holds_signature_def)
next
  case (wake s t g)
  then have "holds_signature (s\<lparr>sem_phase_of := (sem_phase_of s)(t := SemAwake g)\<rparr>) u h = holds_signature s u h" for u h
    by (auto simp: holds_signature_def)
  then show ?case using wake by (simp add: sem_inv_def)
qed (auto intro: sem_first_inv sem_again_inv)

interpretation sem: invariant "sem_step default_callback" "sem_inv count" for count
  by unfold_locales (rule sem_step_inv)

lemma sem_inv_new: "sem_inv count (Semaphore_new count)"
  by (simp add: sem_inv_def Semaphore_new_def holds_signature_def)

section \<open>Properties\<close>

text \<open>C32. Readers and writers exclude each other in \<open>RWSpinLock\<close>: whenever a thread holds the lock as the
  writer, no other thread holds it, and the top bit of the value says so; otherwise the value is the
  number of readers. Every reachable state of fewer than \<open>2 ^ 63\<close> threads.\<close>

theorem spin_exclusion:
  assumes "n < 2 ^ 63" and "(spin_step n)\<^sup>*\<^sup>* RWSpinLock_new s"
  shows "if \<exists>t. spin_phase_of s t = Writing
    then spin_val s = LAST_BIT \<and> (\<exists>!t. spin_phase_of s t = Writing) \<and> (\<forall>t. spin_phase_of s t \<noteq> Reading)
    else spin_val s = word_of_nat (holders n Reading (spin_phase_of s))"
proof -
  have inv: "spin_inv n s" using spin.steps_inv [OF assms(2)] assms(1) spin_inv_new by blast
  show ?thesis
  proof (cases "\<exists>t. spin_phase_of s t = Writing")
    case True
    then show ?thesis using spin_writerD [OF inv] by auto
  next
    case False
    then show ?thesis using inv by (simp add: spin_inv_def)
  qed
qed

lemma spin_write_example:
  "(spin_step 2)\<^sup>*\<^sup>* RWSpinLock_new \<lparr>spin_val = LAST_BIT, spin_phase_of = (\<lambda>_. Outside)(0 := Writing)\<rparr>"
proof -
  let ?s = "\<lparr>spin_val = 0, spin_phase_of = (\<lambda>_. Outside)(0 := CasWrite)\<rparr>"
  have "spin_step 2 RWSpinLock_new ?s"
    by (rule spin_step.intros(3) [of 0]) (simp_all add: RWSpinLock_new_def spin_goto_def)
  moreover have "spin_step 2 ?s \<lparr>spin_val = LAST_BIT, spin_phase_of = (\<lambda>_. Outside)(0 := Writing)\<rparr>"
    by (rule spin_step.intros(3) [of 0]) (simp_all add: spin_goto_def)
  ultimately show ?thesis by (rule two_steps)
qed

theorem spin_exclusion_witness:
  "\<forall>t. spin_phase_of \<lparr>spin_val = LAST_BIT, spin_phase_of = (\<lambda>_. Outside)(0 := Writing)\<rparr> t \<noteq> Reading"
proof -
  have "\<exists>t. spin_phase_of \<lparr>spin_val = LAST_BIT, spin_phase_of = (\<lambda>_. Outside)(0 := Writing)\<rparr> t = Writing"
    by (rule exI [of _ 0]) simp
  then show ?thesis using spin_exclusion [OF _ spin_write_example] by (simp del: spinlock.select_convs)
qed

text \<open>\<open>RWSpinLock\<close> does not deadlock: when no thread holds it, any thread that is in \<open>LockRead\<close> gets it
  within three accesses of its own, and any thread in \<open>LockWrite\<close> with its next one, wherever the
  others stopped.\<close>

theorem spin_progress:
  assumes "n < 2 ^ 63" and "(spin_step n)\<^sup>*\<^sup>* RWSpinLock_new s"
    and "\<And>t. spin_phase_of s t \<noteq> Reading \<and> spin_phase_of s t \<noteq> Writing"
  shows "(spin_phase_of s t = LoadRead \<or> (\<exists>e. spin_phase_of s t = CasRead e) \<longrightarrow>
      (\<exists>k s'. k \<le> 3 \<and> ((\<lambda>r. Option.bind r (LockRead t)) ^^ k) (Some s) = Some s' \<and> spin_phase_of s' t = Reading))
    \<and> (spin_phase_of s t = CasWrite \<longrightarrow> (\<exists>s'. LockWrite t s = Some s' \<and> spin_phase_of s' t = Writing))"
proof -
  have inv: "spin_inv n s" using spin.steps_inv [OF assms(2)] assms(1) spin_inv_new by blast
  have "holders n Reading (spin_phase_of s) = 0" using assms(3) by (simp add: holders_def)
  then have zero: "spin_val s = 0" using inv assms(3) by (simp add: spin_inv_def)
  have load: "((\<lambda>r. Option.bind r (LockRead t)) ^^ 2) (Some u) = Some (spin_goto t Reading (spin_goto t (CasRead 0) u\<lparr>spin_val := 1\<rparr>))"
    if "spin_phase_of u t = LoadRead" "spin_val u = 0" for u
    using that by (simp add: numeral_2_eq_2)
  show ?thesis
  proof (intro conjI impI)
    assume "spin_phase_of s t = LoadRead \<or> (\<exists>e. spin_phase_of s t = CasRead e)"
    then consider "spin_phase_of s t = LoadRead" | "spin_phase_of s t = CasRead 0"
      | e where "spin_phase_of s t = CasRead e" "e \<noteq> 0" by blast
    then show "\<exists>k s'. k \<le> 3 \<and> ((\<lambda>r. Option.bind r (LockRead t)) ^^ k) (Some s) = Some s' \<and> spin_phase_of s' t = Reading"
    proof cases
      case 1
      then show ?thesis using load zero by (intro exI [of _ 2]) simp
    next
      case 2
      then show ?thesis using zero by (intro exI [of _ 1]) simp
    next
      case 3
      then have "((\<lambda>r. Option.bind r (LockRead t)) ^^ 3) (Some s) = ((\<lambda>r. Option.bind r (LockRead t)) ^^ 2) (Some (spin_goto t LoadRead s))"
        using zero by (simp add: numeral_3_eq_3 numeral_2_eq_2)
      then show ?thesis using load [of "spin_goto t LoadRead s"] zero by (intro exI [of _ 3]) simp
    qed
  next
    assume "spin_phase_of s t = CasWrite"
    then show "\<exists>s'. LockWrite t s = Some s' \<and> spin_phase_of s' t = Writing" using zero by simp
  qed
qed

theorem spin_progress_witness:
  "\<exists>s'. LockWrite 0 \<lparr>spin_val = 0, spin_phase_of = (\<lambda>_. Outside)(0 := CasWrite)\<rparr> = Some s' \<and> spin_phase_of s' 0 = Writing"
proof -
  have "(spin_step 1)\<^sup>*\<^sup>* RWSpinLock_new \<lparr>spin_val = 0, spin_phase_of = (\<lambda>_. Outside)(0 := CasWrite)\<rparr>"
    by (rule r_into_rtranclp, rule spin_step.intros(3) [of 0]) (simp_all add: RWSpinLock_new_def spin_goto_def)
  from spin_progress [OF _ this, of 0] show ?thesis by simp
qed

text \<open>C34. In \<open>RWLock\<close> a function passed to \<open>Write\<close> runs alone: in every reachable state with a writing
  thread no thread reads and no other writes, and \<open>blocked_readers_\<close> always is the number of readers.\<close>

theorem rw_exclusion:
  assumes "(rw_step n)\<^sup>*\<^sup>* RWLock_new s"
  shows "blocked_readers s = int (holders n RwReading (rw_phase_of s))
    \<and> (\<forall>t. rw_phase_of s t = RwWriting \<longrightarrow>
         (\<forall>u < n. rw_phase_of s u \<noteq> RwReading) \<and> (\<forall>u. rw_phase_of s u = RwWriting \<longrightarrow> u = t))"
proof -
  have inv: "rw_inv n s" by (rule rw.steps_inv [OF assms rw_inv_new])
  have "rw_phase_of s u \<noteq> RwReading" if "blocked_readers s = 0" "u < n" for u
    using inv holders_pos [OF that(2), of "rw_phase_of s" RwReading] that(1) unfolding rw_inv_def by auto
  then show ?thesis using inv unfolding rw_inv_def by blast
qed

theorem rw_exclusion_witness:
  "blocked_readers \<lparr>blocked_readers = 1, rw_phase_of = (\<lambda>_. RwOutside)(1 := RwReading)\<rparr>
     = int (holders 2 RwReading ((\<lambda>_. RwOutside)(1 := RwReading)))"
proof -
  have "(rw_step 2)\<^sup>*\<^sup>* RWLock_new \<lparr>blocked_readers = 1, rw_phase_of = (\<lambda>_. RwOutside)(1 := RwReading)\<rparr>"
    by (rule r_into_rtranclp, rule rw_step.intros(1) [of 1])
      (simp_all add: RWLock_new_def rw_goto_def BeginRead_def mutex_free_def list_all_iff)
  from rw_exclusion [OF this] show ?thesis by simp
qed

text \<open>C33. The semaphore is fair: threads pass \<open>Enter\<close> in the order in which they arrived at it, whatever
  wakes up when, and the counter is the initial one plus the calls of \<open>Leave\<close> less the admissions.\<close>

theorem semaphore_order:
  assumes "(sem_step default_callback)\<^sup>*\<^sup>* (Semaphore_new count) s"
  shows "(\<exists>rest. arrived s = admitted s @ rest) \<and> sem_count s = count + int (leaves s) - int (length (admitted s))"
proof -
  have "sem_inv count s" by (rule sem.steps_inv [OF assms sem_inv_new])
  then show ?thesis by (auto simp: sem_inv_def)
qed

text \<open>A thread that wakes up is admitted when it is the first, without a look at the counter.\<close>

lemma semaphore_negative:
  "\<exists>s. (sem_step default_callback)\<^sup>*\<^sup>* (Semaphore_new 0) s \<and> sem_count s = - 1 \<and> admitted s = [t]"
proof -
  let ?w = "\<lambda>p. (Semaphore_new 0)\<lparr>arrived := [t], signature_gen := 1, waiting_threads := [1], sem_phase_of := (\<lambda>_. SemOutside)(t := p)\<rparr>"
  have "sem_step default_callback (Semaphore_new 0) (?w (SemWaiting 1))"
    by (rule sem_step.first [of _ t]) (simp add: EnterFirst_def Semaphore_new_def GetSignature_def)
  moreover have "sem_step default_callback (?w (SemWaiting 1)) (?w (SemAwake 1))"
    using sem_step.wake [of "?w (SemWaiting 1)" t 1 default_callback] by simp
  moreover have "sem_step default_callback (?w (SemAwake 1)) (admit default_callback t ((?w (SemAwake 1))\<lparr>waiting_threads := []\<rparr>))"
    by (rule sem_step.again [of _ t]) (simp add: EnterAgain_def)
  ultimately have "(sem_step default_callback)\<^sup>*\<^sup>* (Semaphore_new 0) (admit default_callback t ((?w (SemAwake 1))\<lparr>waiting_threads := []\<rparr>))"
    by (rule three_steps)
  then show ?thesis
    by (intro exI [of _ "admit default_callback t ((?w (SemAwake 1))\<lparr>waiting_threads := []\<rparr>)"] conjI)
      (simp_all add: admit_def default_callback_def Semaphore_new_def)
qed

theorem semaphore_order_witness: "sem_count (admit default_callback 7 ((Semaphore_new 2)\<lparr>arrived := [7]\<rparr>)) = 1"
proof -
  have "(sem_step default_callback)\<^sup>*\<^sup>* (Semaphore_new 2) (admit default_callback 7 ((Semaphore_new 2)\<lparr>arrived := [7]\<rparr>))"
    by (rule r_into_rtranclp, rule sem_step.first [of _ 7]) (simp add: EnterFirst_def Semaphore_new_def Let_def)
  from semaphore_order [OF this] show ?thesis by (simp add: admit_def Semaphore_new_def)
qed

end
