(* ===== verification/Channels.thy ===== *)
theory Channels
  imports Locks
begin

text \<open>
  The channels between threads (\<open>condvars/buffered-channel\<close>, \<open>condvars/unbuffered-channel\<close>), as state
  machines whose steps are the accesses to atomics outside the mutex and the critical sections of the
  mutex, cut at the waits. A waiting thread may wake up at any time.
\<close>

section \<open>The ring buffer\<close>

record 'a ring =
  ring_data :: "'a list"
  ring_begin :: nat
  ring_end :: nat
  ring_size :: nat

definition ring_new :: "'a \<Rightarrow> nat \<Rightarrow> 'a ring" where
  "ring_new d capacity = \<lparr>ring_data = replicate capacity d, ring_begin = 0, ring_end = 0, ring_size = 0\<rparr>"

definition Push :: "'a \<Rightarrow> 'a ring \<Rightarrow> 'a ring" where
  "Push v r =
     r\<lparr>ring_data := (ring_data r)[ring_end r := v],
       ring_end := (if ring_end r + 1 = length (ring_data r) then 0 else ring_end r + 1),
       ring_size := ring_size r + 1\<rparr>"

definition Pop :: "'a ring \<Rightarrow> 'a \<times> 'a ring" where
  "Pop r =
     (ring_data r ! ring_begin r,
      r\<lparr>ring_begin := (if ring_begin r + 1 = length (ring_data r) then 0 else ring_begin r + 1),
        ring_size := ring_size r - 1\<rparr>)"

definition contents :: "'a ring \<Rightarrow> 'a list" where
  "contents r = map (\<lambda>i. ring_data r ! ((ring_begin r + i) mod length (ring_data r))) [0..<ring_size r]"

definition ring_ok :: "'a ring \<Rightarrow> bool" where
  "ring_ok r \<longleftrightarrow> ring_size r \<le> length (ring_data r)
     \<and> (ring_data r \<noteq> [] \<longrightarrow> ring_begin r < length (ring_data r)
          \<and> ring_end r = (ring_begin r + ring_size r) mod length (ring_data r))"

lemma wrap_around: "0 < n \<Longrightarrow> i < n \<Longrightarrow> (if i + 1 = n then 0 else i + 1) = (i + 1) mod n" for i n :: nat
  by simp

lemma Push_ok:
  assumes "ring_ok r" and "ring_size r < length (ring_data r)"
  shows "ring_ok (Push v r)" and "contents (Push v r) = contents r @ [v]"
proof -
  let ?n = "length (ring_data r)" and ?e = "(ring_begin r + ring_size r) mod length (ring_data r)"
  have n: "0 < ?n" and b: "ring_begin r < ?n" and e: "ring_end r = ?e"
    using assms by (auto simp: ring_ok_def)
  have "ring_end r < ?n" using n e by simp
  then have "ring_end (Push v r) = (ring_end r + 1) mod ?n" by (simp add: Push_def)
  then have "ring_end (Push v r) = (ring_begin r + (ring_size r + 1)) mod ?n" by (simp add: e mod_Suc_eq)
  then show "ring_ok (Push v r)"
    using assms b by (simp add: ring_ok_def) (simp add: Push_def)
  have other: "(ring_begin r + i) mod ?n \<noteq> ?e" if "i < ring_size r" for i
  proof
    assume "(ring_begin r + i) mod ?n = ?e"
    then have "?n dvd ring_size r - i"
      using that by (metis add_diff_cancel_left diff_is_0_eq' le_add2 mod_eq_dvd_iff_nat nat_le_linear add_le_cancel_left less_imp_le)
    then show False using that assms(2) n by (auto dest: dvd_imp_le)
  qed
  then show "contents (Push v r) = contents r @ [v]"
  proof -
    have "(ring_data r)[ring_end r := v] ! ((ring_begin r + i) mod ?n) = ring_data r ! ((ring_begin r + i) mod ?n)"
      if "i < ring_size r" for i
      using other [OF that] e by (metis nth_list_update_neq)
    then have "map (\<lambda>i. (ring_data r)[ring_end r := v] ! ((ring_begin r + i) mod ?n)) [0..<ring_size r] = contents r"
      unfolding contents_def by (intro map_cong) simp_all
    moreover have "(ring_data r)[ring_end r := v] ! ?e = v" using \<open>ring_end r < ?n\<close> e by (metis nth_list_update_eq)
    ultimately show ?thesis by (simp add: contents_def Push_def)
  qed
qed

lemma Pop_ok:
  assumes "ring_ok r" and "0 < ring_size r"
  shows "ring_ok (snd (Pop r))" and "contents r = fst (Pop r) # contents (snd (Pop r))"
proof -
  let ?n = "length (ring_data r)"
  have n: "0 < ?n" and b: "ring_begin r < ?n" and e: "ring_end r = (ring_begin r + ring_size r) mod ?n"
    using assms by (auto simp: ring_ok_def)
  have b': "ring_begin (snd (Pop r)) = (ring_begin r + 1) mod ?n" using b by (simp add: Pop_def)
  have "((ring_begin r + 1) mod ?n + (ring_size r - 1)) mod ?n = (ring_begin r + ring_size r) mod ?n"
    using assms(2) by (cases "ring_size r") (simp_all add: mod_add_left_eq)
  then show "ring_ok (snd (Pop r))" using assms n b' e by (auto simp: ring_ok_def Pop_def)
  have "contents r = map (\<lambda>i. ring_data r ! ((ring_begin r + i) mod ?n)) (0 # map Suc [0..<ring_size r - 1])"
    using assms(2) by (simp add: contents_def map_Suc_upt upt_conv_Cons)
  also have "\<dots> = ring_data r ! ring_begin r # map (\<lambda>i. ring_data r ! (((ring_begin r + 1) mod ?n + i) mod ?n)) [0..<ring_size r - 1]"
    using b by (simp add: mod_add_left_eq)
  finally show "contents r = fst (Pop r) # contents (snd (Pop r))" using b' by (simp add: contents_def Pop_def)
qed

section \<open>The buffered channel\<close>

text \<open>\<open>SendChecked\<close>: the channel was open; \<open>SendReady\<close>: counted as a sender, needs the mutex.\<close>

datatype 'a channel_phase = ChOutside | SendChecked 'a | SendReady 'a | SendWaiting 'a | RecvWaiting | RecvAwake

text \<open>The lists \<open>sent\<close> and \<open>received\<close> record the values in the order of \<open>Push\<close> and \<open>Pop\<close>.\<close>

record 'a channel =
  ring_of :: "'a ring"
  closed :: bool
  waiting_send_cnt :: nat
  waiting_recv_cnt :: nat
  ch_phase :: "nat \<Rightarrow> 'a channel_phase"
  sent :: "'a list"
  received :: "'a list"

definition BufferedChannel_new :: "'a \<Rightarrow> nat \<Rightarrow> 'a channel" where
  "BufferedChannel_new d capacity =
     \<lparr>ring_of = ring_new d capacity, closed = False, waiting_send_cnt = 0, waiting_recv_cnt = 0,
      ch_phase = (\<lambda>t. ChOutside), sent = [], received = []\<rparr>"

definition ch_goto :: "nat \<Rightarrow> 'a channel_phase \<Rightarrow> 'a channel \<Rightarrow> 'a channel" where
  "ch_goto t p c = c\<lparr>ch_phase := (ch_phase c)(t := p)\<rparr>"

text \<open>The outcome of a step: still inside the call, returned, returned nothing, or threw.\<close>

datatype 'a outcome = Inside | Returned "'a option" | Thrown

definition Send_start :: "nat \<Rightarrow> 'a \<Rightarrow> 'a channel \<Rightarrow> 'a outcome \<times> 'a channel" where
  "Send_start t v c = (if closed c then (Thrown, c) else (Inside, ch_goto t (SendChecked v) c))"

definition Send_count :: "nat \<Rightarrow> 'a \<Rightarrow> 'a channel \<Rightarrow> 'a outcome \<times> 'a channel" where
  "Send_count t v c = (Inside, ch_goto t (SendReady v) (c\<lparr>waiting_send_cnt := waiting_send_cnt c + 1\<rparr>))"

definition Send_locked :: "nat \<Rightarrow> 'a \<Rightarrow> 'a channel \<Rightarrow> 'a outcome \<times> 'a channel" where
  "Send_locked t v c =
     (if ring_size (ring_of c) = length (ring_data (ring_of c)) then (Inside, ch_goto t (SendWaiting v) c)
      else (Returned None, ch_goto t ChOutside (c\<lparr>waiting_send_cnt := waiting_send_cnt c - 1,
              ring_of := Push v (ring_of c), sent := sent c @ [v]\<rparr>)))"

text \<open>The rest of \<open>Recv\<close> from the test of its loop on.\<close>

definition Recv_loop :: "nat \<Rightarrow> 'a channel \<Rightarrow> 'a outcome \<times> 'a channel" where
  "Recv_loop t c =
     (if ring_size (ring_of c) = 0 then (Inside, ch_goto t RecvWaiting c)
      else let (v, r) = Pop (ring_of c)
           in (Returned (Some v), ch_goto t ChOutside (c\<lparr>waiting_recv_cnt := waiting_recv_cnt c - 1,
                 ring_of := r, received := received c @ [v]\<rparr>)))"

definition Recv_start :: "nat \<Rightarrow> 'a channel \<Rightarrow> 'a outcome \<times> 'a channel" where
  "Recv_start t c =
     (if closed c \<and> ring_size (ring_of c) = 0 \<and> waiting_send_cnt c = 0 then (Returned None, c)
      else if closed c \<and> waiting_send_cnt c + ring_size (ring_of c) = waiting_recv_cnt c then (Returned None, c)
      else Recv_loop t (c\<lparr>waiting_recv_cnt := waiting_recv_cnt c + 1\<rparr>))"

definition Recv_again :: "nat \<Rightarrow> 'a channel \<Rightarrow> 'a outcome \<times> 'a channel" where
  "Recv_again t c =
     (if closed c \<and> ring_size (ring_of c) = 0 \<and> waiting_send_cnt c = 0 then (Returned None, ch_goto t ChOutside c)
      else Recv_loop t c)"

definition Close :: "'a channel \<Rightarrow> 'a channel" where
  "Close c = c\<lparr>closed := True\<rparr>"

inductive ch_step :: "'a channel \<Rightarrow> 'a channel \<Rightarrow> bool" where
  "ch_phase c t = ChOutside \<Longrightarrow> ch_step c (snd (Send_start t v c))"
| "ch_phase c t = SendChecked v \<Longrightarrow> ch_step c (snd (Send_count t v c))"
| "ch_phase c t = SendReady v \<Longrightarrow> ch_step c (snd (Send_locked t v c))"
| "ch_phase c t = ChOutside \<Longrightarrow> ch_step c (snd (Recv_start t c))"
| "ch_phase c t = RecvAwake \<Longrightarrow> ch_step c (snd (Recv_again t c))"
| "ch_step c (Close c)"
| "ch_phase c t = SendWaiting v \<Longrightarrow> ch_step c (ch_goto t (SendReady v) c)"
| "ch_phase c t = RecvWaiting \<Longrightarrow> ch_step c (ch_goto t RecvAwake c)"

definition ch_inv :: "nat \<Rightarrow> 'a channel \<Rightarrow> bool" where
  "ch_inv capacity c \<longleftrightarrow> ring_ok (ring_of c) \<and> length (ring_data (ring_of c)) = capacity
     \<and> sent c = received c @ contents (ring_of c)"

lemma ch_inv_goto [simp]: "ch_inv n (ch_goto t p c) = ch_inv n c"
  by (simp add: ch_inv_def ch_goto_def)

lemma Recv_loop_inv:
  assumes "ch_inv n c"
  shows "ch_inv n (snd (Recv_loop t c))"
proof (cases "ring_size (ring_of c) = 0")
  case True
  then show ?thesis using assms by (simp add: Recv_loop_def)
next
  case False
  have r: "ring_ok (ring_of c)" using assms by (simp add: ch_inv_def)
  obtain v r' where p: "Pop (ring_of c) = (v, r')" by force
  have "length (ring_data r') = length (ring_data (ring_of c))" using p by (auto simp: Pop_def)
  then show ?thesis using False assms Pop_ok [OF r] p by (auto simp: Recv_loop_def ch_inv_def ch_goto_def)
qed

lemma ch_step_inv: "ch_step c c' \<Longrightarrow> ch_inv n c \<Longrightarrow> ch_inv n c'"
proof (induction rule: ch_step.induct)
  case (3 c t v)
  then have r: "ring_ok (ring_of c)" "ring_size (ring_of c) \<noteq> length (ring_data (ring_of c)) \<Longrightarrow> ring_size (ring_of c) < length (ring_data (ring_of c))"
    by (auto simp: ch_inv_def ring_ok_def)
  have "length (ring_data (Push v (ring_of c))) = length (ring_data (ring_of c))" by (simp add: Push_def)
  then show ?case using 3 Push_ok [OF r(1) r(2)] by (auto simp: Send_locked_def ch_inv_def ch_goto_def)
next
  case (4 c t)
  have "ch_inv n (c\<lparr>waiting_recv_cnt := waiting_recv_cnt c + 1\<rparr>)" using 4 by (simp add: ch_inv_def)
  note loop = Recv_loop_inv [OF this, of t]
  show ?case using 4 loop by (simp add: Recv_start_def)
next
  case (5 c t)
  then show ?case using Recv_loop_inv [of n c t] by (simp add: Recv_again_def)
qed (simp_all add: Send_start_def Send_count_def Close_def ch_inv_def ch_goto_def)

interpretation channel: invariant ch_step "ch_inv n" for n
  by unfold_locales (rule ch_step_inv)

lemma ch_inv_new: "ch_inv n (BufferedChannel_new d n)"
  by (auto simp: ch_inv_def BufferedChannel_new_def ring_new_def ring_ok_def contents_def)

section \<open>The unbuffered channel\<close>

text \<open>\<open>SlotWaiting\<close>: a sender waits for the slot; \<open>TakenWaiting\<close>: it filled the slot and waits for a
  receiver; \<open>ValueWaiting\<close>: a receiver waits for a value. Each has its state after waking up.\<close>

datatype 'a unbuffered_phase =
    UnOutside | SlotWaiting 'a | SlotAwake 'a | TakenWaiting | TakenAwake | ValueWaiting | ValueAwake

record 'a unbuffered =
  slot_x :: "'a option"
  ongoing :: bool
  un_closed :: bool
  un_phase :: "nat \<Rightarrow> 'a unbuffered_phase"
  un_sent :: "'a list"
  un_received :: "'a list"

definition UnbufferedChannel_new :: "'a unbuffered" where
  "UnbufferedChannel_new = \<lparr>slot_x = None, ongoing = False, un_closed = False, un_phase = (\<lambda>t. UnOutside),
     un_sent = [], un_received = []\<rparr>"

definition un_goto :: "nat \<Rightarrow> 'a unbuffered_phase \<Rightarrow> 'a unbuffered \<Rightarrow> 'a unbuffered" where
  "un_goto t p c = c\<lparr>un_phase := (un_phase c)(t := p)\<rparr>"

text \<open>\<open>Send\<close> from the test of its first loop; from the test of its second loop; its last statements.\<close>

definition fill_slot :: "nat \<Rightarrow> 'a \<Rightarrow> 'a unbuffered \<Rightarrow> 'a outcome \<times> 'a unbuffered" where
  "fill_slot t v c =
     (if slot_x c \<noteq> None \<or> ongoing c then (Inside, un_goto t (SlotWaiting v) c)
      else (Inside, un_goto t TakenWaiting (c\<lparr>ongoing := True, slot_x := Some v, un_sent := un_sent c @ [v]\<rparr>)))"

definition un_send_start :: "nat \<Rightarrow> 'a \<Rightarrow> 'a unbuffered \<Rightarrow> 'a outcome \<times> 'a unbuffered" where
  "un_send_start t v c = (if un_closed c then (Thrown, c) else fill_slot t v c)"

definition un_send_slot :: "nat \<Rightarrow> 'a \<Rightarrow> 'a unbuffered \<Rightarrow> 'a outcome \<times> 'a unbuffered" where
  "un_send_slot t v c = (if un_closed c then (Thrown, un_goto t UnOutside c) else fill_slot t v c)"

definition un_send_taken :: "nat \<Rightarrow> 'a unbuffered \<Rightarrow> 'a outcome \<times> 'a unbuffered" where
  "un_send_taken t c =
     (if un_closed c \<or> slot_x c = None then (Returned None, un_goto t UnOutside (c\<lparr>ongoing := False\<rparr>))
      else (Inside, un_goto t TakenWaiting c))"

definition take_value :: "nat \<Rightarrow> 'a unbuffered \<Rightarrow> 'a outcome \<times> 'a unbuffered" where
  "take_value t c =
     (case slot_x c of
        None \<Rightarrow> (Inside, un_goto t ValueWaiting c)
      | Some v \<Rightarrow> (Returned (Some v), un_goto t UnOutside (c\<lparr>slot_x := None, un_received := un_received c @ [v]\<rparr>)))"

definition un_recv_start :: "nat \<Rightarrow> 'a unbuffered \<Rightarrow> 'a outcome \<times> 'a unbuffered" where
  "un_recv_start t c = (if un_closed c \<and> slot_x c = None then (Returned None, c) else take_value t c)"

definition un_recv_again :: "nat \<Rightarrow> 'a unbuffered \<Rightarrow> 'a outcome \<times> 'a unbuffered" where
  "un_recv_again t c = (if un_closed c \<and> slot_x c = None then (Returned None, un_goto t UnOutside c) else take_value t c)"

definition un_close :: "'a unbuffered \<Rightarrow> 'a unbuffered" where
  "un_close c = c\<lparr>un_closed := True\<rparr>"

inductive un_step :: "'a unbuffered \<Rightarrow> 'a unbuffered \<Rightarrow> bool" where
  "un_phase c t = UnOutside \<Longrightarrow> un_step c (snd (un_send_start t v c))"
| "un_phase c t = SlotAwake v \<Longrightarrow> un_step c (snd (un_send_slot t v c))"
| "un_phase c t = TakenAwake \<Longrightarrow> un_step c (snd (un_send_taken t c))"
| "un_phase c t = UnOutside \<Longrightarrow> un_step c (snd (un_recv_start t c))"
| "un_phase c t = ValueAwake \<Longrightarrow> un_step c (snd (un_recv_again t c))"
| "un_step c (un_close c)"
| "un_phase c t = SlotWaiting v \<Longrightarrow> un_step c (un_goto t (SlotAwake v) c)"
| "un_phase c t = TakenWaiting \<Longrightarrow> un_step c (un_goto t TakenAwake c)"
| "un_phase c t = ValueWaiting \<Longrightarrow> un_step c (un_goto t ValueAwake c)"

text \<open>Until the channel is closed, a value in the slot has its sender waiting.\<close>

definition un_inv :: "'a unbuffered \<Rightarrow> bool" where
  "un_inv c \<longleftrightarrow> un_sent c = un_received c @ (case slot_x c of None \<Rightarrow> [] | Some v \<Rightarrow> [v])
     \<and> (slot_x c \<noteq> None \<longrightarrow> ongoing c \<or> un_closed c)"

lemma un_step_inv: "un_step c c' \<Longrightarrow> un_inv c \<Longrightarrow> un_inv c'"
  by (induction rule: un_step.induct)
    (auto simp: un_inv_def un_goto_def un_send_start_def un_send_slot_def un_send_taken_def un_recv_start_def
      un_recv_again_def un_close_def fill_slot_def take_value_def split: option.splits)

interpretation unbuffered: invariant un_step un_inv
  by unfold_locales (rule un_step_inv)

lemma un_inv_new: "un_inv UnbufferedChannel_new"
  by (simp add: un_inv_def UnbufferedChannel_new_def)

lemma rendezvous:
  assumes "un_step\<^sup>*\<^sup>* UnbufferedChannel_new c"
  shows "un_sent c = un_received c @ (case slot_x c of None \<Rightarrow> [] | Some v \<Rightarrow> [v])"
    and "slot_x c \<noteq> None \<Longrightarrow> ongoing c \<or> un_closed c"
  using unbuffered.steps_inv [OF assms un_inv_new] by (auto simp: un_inv_def)

section \<open>Properties\<close>

text \<open>C35. The buffered channel delivers in order: in every reachable state the values sent are those
  received, in the same order, followed by those in the buffer, of which there never are more than the
  capacity.\<close>

theorem channel_fifo:
  assumes "ch_step\<^sup>*\<^sup>* (BufferedChannel_new d capacity) c"
  shows "sent c = received c @ contents (ring_of c) \<and> length (contents (ring_of c)) = ring_size (ring_of c)
    \<and> ring_size (ring_of c) \<le> capacity"
proof -
  have "ch_inv capacity c" by (rule channel.steps_inv [OF assms ch_inv_new])
  then have "sent c = received c @ contents (ring_of c)" "ring_size (ring_of c) \<le> capacity"
    unfolding ch_inv_def ring_ok_def by blast+
  then show ?thesis by (simp add: contents_def)
qed

theorem channel_fifo_witness:
  "\<exists>c. ch_step\<^sup>*\<^sup>* (BufferedChannel_new (0::int) 1) c \<and> waiting_send_cnt c = 1 \<and> sent c = received c @ contents (ring_of c)"
proof -
  let ?c = "ch_goto 0 (SendChecked (5::int)) (BufferedChannel_new 0 1)"
  have "ch_step (BufferedChannel_new 0 1) ?c"
    using ch_step.intros(1) [of "BufferedChannel_new 0 1" 0 5] by (simp add: BufferedChannel_new_def Send_start_def)
  moreover have "ch_step ?c (snd (Send_count 0 5 ?c))"
    by (rule ch_step.intros(2)) (simp add: ch_goto_def)
  ultimately have s: "ch_step\<^sup>*\<^sup>* (BufferedChannel_new 0 1) (snd (Send_count 0 5 ?c))" by (rule two_steps)
  moreover have "waiting_send_cnt (snd (Send_count 0 5 ?c)) = 1"
    by (simp add: Send_count_def ch_goto_def BufferedChannel_new_def)
  ultimately show ?thesis using channel_fifo [OF s] by (intro exI [of _ "snd (Send_count 0 5 ?c)"] conjI) simp_all
qed

end
