(* ===== verification/Parallel.thy ===== *)
theory Parallel
  imports Prelude "HOL-Library.Word"
begin

text \<open>
  The parallel computations whose threads do not depend on each other (\<open>baby-threads/reduce\<close>,
  \<open>is-prime\<close> and \<open>subset-sum\<close>): each thread works on its own part and the caller joins them all, so
  what they compute is a function of the parts. \<open>hardware_concurrency\<close> and the square root of doubles
  are parameters. A division by zero is an error; \<open>None\<close> is a loop that never ends.
\<close>

datatype thread_error = DivisionByZero

definition divide :: "nat \<Rightarrow> nat \<Rightarrow> thread_error + nat" where
  "divide a b = (if b = 0 then Inl DivisionByZero else Inr (a div b))"

section \<open>Reduce\<close>

text \<open>The part of thread \<open>num\<close>: from \<open>num * step\<close>, at most \<open>step\<close> elements, to the end at most.\<close>

definition reduce_part :: "('t \<Rightarrow> 'a \<Rightarrow> 't) \<Rightarrow> 't \<Rightarrow> 'a list \<Rightarrow> nat \<Rightarrow> nat \<Rightarrow> 't" where
  "reduce_part func initial_value xs step num = foldl func initial_value (take step (drop (num * step) xs))"

definition Reduce :: "nat \<Rightarrow> (nat \<Rightarrow> nat) \<Rightarrow> 'a list \<Rightarrow> 'a \<Rightarrow> ('a \<Rightarrow> 'a \<Rightarrow> 'a) \<Rightarrow> thread_error + 'a" where
  "Reduce hardware_concurrency root xs initial_value func =
     (let n = length xs in
      if n = 1 then Inr (hd xs)
      else if n = 0 then Inr initial_value
      else let thread_cnt = (if root n > hardware_concurrency then hardware_concurrency else root n) in
        ebind (divide n thread_cnt) (\<lambda>q.
          let step = (if n mod thread_cnt \<noteq> 0 then q + 1 else q);
              results = map (reduce_part func initial_value xs step) [0..<thread_cnt]
          in Inr (foldl func initial_value results)))"

text \<open>\<open>iter += step\<close> stays inside the range because the number of threads is at most the root.\<close>

lemma reduce_step:
  fixes n t :: nat
  assumes "0 < t" and "t * t \<le> n"
  defines "step \<equiv> (if n mod t \<noteq> 0 then n div t + 1 else n div t)"
  shows "n \<le> t * step" and "(t - 1) * step < n"
proof -
  have n: "n = t * (n div t) + n mod t" by simp
  show "n \<le> t * step"
  proof (cases "n mod t = 0")
    case True
    then show ?thesis using n by (simp add: step_def)
  next
    case False
    have "n mod t < t" using assms(1) by simp
    then have "n \<le> t * (n div t) + t" using n by linarith
    then show ?thesis using False by (simp add: step_def add.commute)
  qed
  have q: "t \<le> n div t" using assms(1,2) by (simp add: less_eq_div_iff_mult_less_eq)
  have "(t - 1) * step \<le> (t - 1) * (n div t) + (t - 1)" by (simp add: step_def)
  also have "\<dots> < (t - 1) * (n div t) + n div t" using q assms(1) by simp
  also have "\<dots> = t * (n div t)" using assms(1) by (cases t) simp_all
  also have "\<dots> \<le> n" by simp
  finally show "(t - 1) * step < n" .
qed

lemma concat_parts:
  "concat (map (\<lambda>i. take step (drop (i * step) xs)) [0..<t]) = take (t * step) xs"
proof (induction t)
  case (Suc t)
  have "take (t * step) xs @ take step (drop (t * step) xs) = take (t * step + step) xs"
    by (simp add: take_add)
  then show ?case using Suc by (simp add: add.commute)
qed simp

lemma foldl_parts:
  assumes assoc: "\<And>x y z. f (f x y) z = f x (f y z)" and neutral: "\<And>x. f e x = x"
  shows "[] \<notin> set xss \<Longrightarrow> foldl f a (map (foldl f e) xss) = foldl f a (concat xss)"
proof (induction xss arbitrary: a)
  case (Cons xs xss)
  obtain y ys where xs: "xs = y # ys" using Cons.prems by (cases xs) auto
  have "f a (foldl f y ys) = foldl f (f a y) ys"
    by (induction ys rule: rev_induct) (simp_all add: assoc [symmetric])
  then have "f a (foldl f e xs) = foldl f a xs" using xs neutral by simp
  then show ?case using Cons by simp
qed simp

lemma part_not_empty:
  assumes "(t - 1) * step < length xs" and "0 < step" and "i < t"
  shows "take step (drop (i * step) xs) \<noteq> []"
proof -
  have "i * step \<le> (t - 1) * step" using assms(3) by (intro mult_right_mono) auto
  then have "i * step < length xs" using assms(1) by (rule le_less_trans)
  then show ?thesis using assms(2) by simp
qed

text \<open>For an associative function with a neutral initial value, \<open>Reduce\<close> is the sequential fold,
  whatever the number of threads: the parts cover the range, none is empty and none reaches outside
  it. The square root of the length may be any number from 1 whose square is at most the length.\<close>

theorem Reduce_foldl:
  assumes "\<And>x y z. func (func x y) z = func x (func y z)" and "\<And>x. func e x = x"
    and "0 < hc" and "0 < root (length xs)" and "root (length xs) * root (length xs) \<le> length xs"
  shows "Reduce hc root xs e func = Inr (foldl func e xs)"
proof -
  let ?n = "length xs" and ?t = "if root (length xs) > hc then hc else root (length xs)"
  let ?step = "if ?n mod ?t \<noteq> 0 then ?n div ?t + 1 else ?n div ?t"
  have t: "0 < ?t" using assms(3,4) by simp
  have "?t * ?t \<le> root ?n * root ?n" by (intro mult_mono) simp_all
  then have "?t * ?t \<le> ?n" using assms(5) by (rule le_trans)
  note step = reduce_step [OF t this]
  have step_pos: "0 < ?step" using step(1) t step(2) by (metis gr0I mult_is_0 not_less0 le_zero_eq)
  have "[] \<notin> set (map (\<lambda>i. take ?step (drop (i * ?step) xs)) [0..<?t])"
    using part_not_empty [OF step(2) step_pos] by fastforce
  from foldl_parts [OF assms(1,2) this, of e]
  have parts: "foldl func e (map (reduce_part func e xs ?step) [0..<?t]) = foldl func e xs"
    using step(1) by (simp only: reduce_part_def [abs_def] map_map comp_def concat_parts take_all)
  show ?thesis
  proof (cases "?n = 1")
    case True
    then obtain x where "xs = [x]" by (auto simp: length_Suc_conv)
    then show ?thesis by (simp add: Reduce_def assms(2))
  next
    case False
    then show ?thesis using parts t by (auto simp: Reduce_def Let_def divide_def)
  qed
qed

theorem Reduce_foldl_witness: "Reduce 8 (\<lambda>n. 2) [1, 2, 3, 4, 5 :: int] 0 (+) = Inr 15"
  using Reduce_foldl [of "(+)" "0 :: int" 8 "\<lambda>n. 2" "[1, 2, 3, 4, 5]"] by simp

section \<open>Trial division\<close>

text \<open>One thread of \<open>IsPrime\<close> stores \<open>false\<close> when it finds a divisor; \<open>thread_ranges\<close> are the ranges the
  loop starts threads with.\<close>

definition Find :: "nat \<Rightarrow> nat \<Rightarrow> nat \<Rightarrow> bool" where
  "Find from to x \<longleftrightarrow> list_ex (\<lambda>i. x mod i = 0) [from..<to]"

partial_function (option) thread_ranges :: "nat \<Rightarrow> nat \<Rightarrow> nat \<Rightarrow> (nat \<times> nat) list option" where
  "thread_ranges from bound step =
     (if from < bound
      then Option.bind (thread_ranges (from + step) bound step)
             (\<lambda>rs. Some ((from, min bound (from + step)) # rs))
      else Some [])"

definition IsPrime :: "nat \<Rightarrow> (nat \<Rightarrow> nat) \<Rightarrow> nat \<Rightarrow> (thread_error + bool) option" where
  "IsPrime hardware_concurrency root x =
     (if x \<le> 1 then Some (Inr False)
      else let bound = min (root x + 6) x in
        if \<not> 2 < bound then Some (Inr True)
        else if hardware_concurrency = 0 then Some (Inl DivisionByZero)
        else Option.bind (thread_ranges 2 bound (bound div hardware_concurrency))
               (\<lambda>ranges. Some (Inr (\<not> list_ex (\<lambda>(from, to). Find from to x) ranges))))"

lemma thread_ranges_cover:
  assumes "0 < step"
  shows "\<exists>rs. thread_ranges lo bound step = Some rs \<and>
    (\<forall>i. (\<exists>(a, b) \<in> set rs. a \<le> i \<and> i < b) \<longleftrightarrow> lo \<le> i \<and> i < bound)"
proof (induction "bound - lo" arbitrary: lo rule: less_induct)
  case less
  show ?case
  proof (cases "lo < bound")
    case True
    have "bound - (lo + step) < bound - lo" using True assms by simp
    from less [OF this] obtain rs where rs: "thread_ranges (lo + step) bound step = Some rs"
      "\<And>i. (\<exists>(a, b) \<in> set rs. a \<le> i \<and> i < b) \<longleftrightarrow> lo + step \<le> i \<and> i < bound"
      by blast
    have "(\<exists>(a, b) \<in> set ((lo, min bound (lo + step)) # rs). a \<le> i \<and> i < b) \<longleftrightarrow> lo \<le> i \<and> i < bound" for i
      using rs(2) [of i] True by auto
    moreover have "thread_ranges lo bound step = Some ((lo, min bound (lo + step)) # rs)"
      using rs(1) True by (subst thread_ranges.simps) simp
    ultimately show ?thesis by blast
  next
    case False
    then show ?thesis by (subst thread_ranges.simps) auto
  qed
qed

definition prime_nat :: "nat \<Rightarrow> bool" where
  "prime_nat x \<longleftrightarrow> 1 < x \<and> (\<forall>d. d dvd x \<longrightarrow> d = 1 \<or> d = x)"

lemma prime_nat_bound:
  assumes "1 < x" and "x \<le> bound \<or> x < bound * bound" and "bound \<le> x"
  shows "prime_nat x \<longleftrightarrow> (\<forall>d. 2 \<le> d \<and> d < bound \<longrightarrow> \<not> d dvd x)"
proof
  assume "prime_nat x"
  then show "\<forall>d. 2 \<le> d \<and> d < bound \<longrightarrow> \<not> d dvd x" using assms(3) by (auto simp: prime_nat_def)
next
  assume none: "\<forall>d. 2 \<le> d \<and> d < bound \<longrightarrow> \<not> d dvd x"
  have "d = 1 \<or> d = x" if dvd: "d dvd x" for d
  proof (rule ccontr)
    assume d: "\<not> (d = 1 \<or> d = x)"
    obtain e where e: "x = d * e" using dvd by (rule dvdE)
    have d2: "2 \<le> d" using d e assms(1) by (cases d) (auto simp: Suc_le_eq)
    have e2: "2 \<le> e" using d e assms(1) by (cases e) (auto simp: Suc_le_eq intro: Suc_lessI)
    have "bound \<le> d" "bound \<le> e" using none d2 e2 e by (auto simp: not_less [symmetric])
    then have "bound * bound \<le> x" using e by (simp add: mult_le_mono)
    moreover have "d < x" using e e2 d2 by simp
    ultimately show False using assms(2) \<open>bound \<le> d\<close> by auto
  qed
  then show "prime_nat x" using assms(1) by (simp add: prime_nat_def)
qed

lemma threads_find:
  "list_ex (\<lambda>(lo, hi). Find lo hi x) rs \<longleftrightarrow> (\<exists>i. (\<exists>(a, b) \<in> set rs. a \<le> i \<and> i < b) \<and> x mod i = 0)"
proof -
  have "Find lo hi x \<longleftrightarrow> (\<exists>i. lo \<le> i \<and> i < hi \<and> x mod i = 0)" for lo hi
    by (simp only: Find_def list_ex_iff set_upt Bex_def atLeastLessThan_iff conj_assoc)
  then have "list_ex (\<lambda>(lo, hi). Find lo hi x) rs \<longleftrightarrow> (\<exists>(a, b) \<in> set rs. \<exists>i. a \<le> i \<and> i < b \<and> x mod i = 0)"
    by (simp only: list_ex_iff)
  then show ?thesis by (simp only: split_def Bex_def) metis
qed

lemma IsPrime_correct:
  assumes "0 < hc" and "hc \<le> min (root x + 6) x" and "x < (root x + 6) * (root x + 6)"
  shows "IsPrime hc root x = Some (Inr (prime_nat x))"
proof (cases "x \<le> 1")
  case True
  then show ?thesis by (simp add: IsPrime_def prime_nat_def)
next
  case False
  let ?b = "min (root x + 6) x"
  have p: "prime_nat x \<longleftrightarrow> (\<forall>d. 2 \<le> d \<and> d < ?b \<longrightarrow> \<not> d dvd x)"
    by (rule prime_nat_bound) (use False assms(3) in \<open>auto simp: min_def\<close>)
  show ?thesis
  proof (cases "2 < ?b")
    case True
    have "0 < ?b div hc" using assms(1,2) by (simp add: div_greater_zero_iff)
    from thread_ranges_cover [OF this, of 2 ?b] obtain rs where
      rs: "thread_ranges 2 ?b (?b div hc) = Some rs"
      "\<And>i. (\<exists>(a, b) \<in> set rs. a \<le> i \<and> i < b) \<longleftrightarrow> 2 \<le> i \<and> i < ?b" by blast
    have "list_ex (\<lambda>(from, to). Find from to x) rs \<longleftrightarrow> (\<exists>i. (\<exists>(a, b) \<in> set rs. a \<le> i \<and> i < b) \<and> i dvd x)"
      unfolding threads_find dvd_eq_mod_eq_0 ..
    also have "\<dots> \<longleftrightarrow> \<not> prime_nat x" unfolding rs(2) p by auto
    finally show ?thesis using False True rs(1) assms(1) by (simp add: IsPrime_def Let_def)
  next
    case small: False
    then have "prime_nat x" unfolding p by (meson less_le_trans not_le)
    then show ?thesis using False small by (simp add: IsPrime_def Let_def)
  qed
qed

text \<open>With more threads than numbers the step of the loop is zero and it never ends.\<close>

lemma thread_ranges_ends: "thread_ranges lo bound step = Some rs \<Longrightarrow> step = 0 \<longrightarrow> \<not> lo < bound"
  by (erule thread_ranges.raw_induct [rotated, where P = "\<lambda>lo bound step rs. step = 0 \<longrightarrow> \<not> lo < bound"])
    (force split: if_splits simp: bind_eq_Some_conv)

lemma thread_ranges_endless: "lo < bound \<Longrightarrow> thread_ranges lo bound 0 = None"
  using thread_ranges_ends by (metis option.exhaust)

lemma IsPrime_endless: "2 < x \<Longrightarrow> min (root x + 6) x < hc \<Longrightarrow> IsPrime hc root x = None"
  by (auto simp: IsPrime_def Let_def thread_ranges_endless)

section \<open>Subsets of equal sums\<close>

function Power :: "64 word \<Rightarrow> nat \<Rightarrow> 64 word" where
  "Power x p =
     (if p = 0 then 1
      else let y = Power x (p div 2) in if p mod 2 = 0 then y * y else y * y * x)"
  by pat_completeness auto
termination Power
  by (relation "measure snd") auto

declare Power.simps [simp del]

lemma Power_power: "Power x p = x ^ p"
proof (induction p rule: less_induct)
  case (less p)
  show ?case
  proof (cases "p = 0")
    case True
    then show ?thesis by (simp add: Power.simps)
  next
    case False
    then have "Power x (p div 2) = x ^ (p div 2)" using less by simp
    moreover have "x ^ p = x ^ (p div 2) * x ^ (p div 2) * x ^ (p mod 2)"
      by (simp flip: power_add mult_2)
    ultimately show ?thesis using False
      by (cases "p mod 2 = 0") (simp_all add: Power.simps [of x p] Let_def mod2_eq_if split: if_splits)
  qed
qed

text \<open>A set is a number in base 3: the digit of an element is 0 in the first subset, 2 in the second.\<close>

fun digits_seen :: "nat \<Rightarrow> 64 word \<Rightarrow> bool \<times> bool \<Rightarrow> bool \<times> bool" where
  "digits_seen 0 e seen = seen"
| "digits_seen (Suc n) e (has_zeroes, has_twoes) =
     digits_seen n (e div 3) (has_zeroes \<or> e mod 3 = 0, has_twoes \<or> e mod 3 = 2)"

definition IsEmpty :: "64 word \<Rightarrow> 64 word \<Rightarrow> nat \<Rightarrow> nat \<Rightarrow> bool" where
  "IsEmpty set1 set2 size1 size2 =
     (let (has_zeroes, has_twoes) = digits_seen size2 set2 (digits_seen size1 set1 (False, False))
      in \<not> has_zeroes \<or> \<not> has_twoes)"

record Subsets =
  found :: bool
  first_indices :: "nat list"
  second_indices :: "nat list"

text \<open>The sum of a set, with the wrap-around of the conversions between \<open>size_t\<close> and \<open>int64_t\<close>.\<close>

fun subset_sum :: "64 word list \<Rightarrow> 64 word \<Rightarrow> 64 word \<Rightarrow> 64 word" where
  "subset_sum [] e acc = acc"
| "subset_sum (x # xs) e acc = subset_sum xs (e div 3) (acc + x * (e mod 3 - 1))"

fun push_indices :: "nat \<Rightarrow> nat \<Rightarrow> 64 word \<Rightarrow> Subsets \<Rightarrow> Subsets" where
  "push_indices offset 0 e subsets = subsets"
| "push_indices offset (Suc n) e subsets =
     push_indices (offset + 1) n (e div 3)
       (let s = (if e mod 3 = 0 then subsets\<lparr>first_indices := first_indices subsets @ [offset]\<rparr> else subsets)
        in if e mod 3 = 2 then s\<lparr>second_indices := second_indices s @ [offset]\<rparr> else s)"

text \<open>The insertion into the table and the whole second phase are commented out, so \<open>exists\<close> stays false;
  \<open>set1\<close> and \<open>set2\<close>, never assigned, are parameters.\<close>

definition FindEqualSumSubsets :: "64 word \<Rightarrow> 64 word \<Rightarrow> nat \<Rightarrow> 64 word list \<Rightarrow> thread_error + Subsets" where
  "FindEqualSumSubsets set1 set2 hardware_concurrency data =
     (let subsets = \<lparr>found = False, first_indices = [], second_indices = []\<rparr> in
      if data = [] then Inr subsets
      else let first_half_size = length data div 2;
               second_half_size = length data - first_half_size;
               first_subset_cnt = unat (Power 3 first_half_size);
               threads_count = min hardware_concurrency first_subset_cnt in
        ebind (divide first_subset_cnt threads_count) (\<lambda>q.
          let sums = map (\<lambda>e. subset_sum (take first_half_size data) (word_of_nat e) 0) [0..<first_subset_cnt];
              exists = False in
          if \<not> exists then Inr subsets
          else Inr (push_indices first_half_size second_half_size set2
                     (push_indices 0 first_half_size set1 (subsets\<lparr>found := True\<rparr>)))))"

lemma nothing_found: "FindEqualSumSubsets set1 set2 hc data = Inr s \<Longrightarrow> \<not> found s"
  by (auto simp: FindEqualSumSubsets_def Let_def split: if_splits)

end
