(* ===== verification/Console.thy ===== *)
theory Console
  imports Prelude
begin

text \<open>
  Console input, for the two command loops that read it (\<open>tasks/move/rule-of-5/main.cpp\<close> and
  \<open>tasks/move/reallol/main.cpp\<close>, which carry the same \<open>LimitedGetline\<close>): \<open>std::cin\<close> and
  \<open>std::stringstream\<close> as the characters that are left and whether the stream has failed, with the
  operations of the standard library the loops use. A stream at its end that has not failed yet
  behaves as one with no characters, since the next extraction fails in either case.
\<close>

record stream =
  chars :: string
  ok :: bool

definition open_stream :: "string \<Rightarrow> stream" where
  "open_stream cs = \<lparr>chars = cs, ok = True\<rparr>"

definition fail :: "stream \<Rightarrow> stream" where
  "fail s = s\<lparr>ok := False\<rparr>"

text \<open>\<open>get\<close>: \<open>None\<close> is the end of the file, which the loops below store as the character 255.\<close>

definition get :: "stream \<Rightarrow> char option \<times> stream" where
  "get s =
     (if \<not> ok s then (None, s)
      else case chars s of [] \<Rightarrow> (None, fail s) | c # cs \<Rightarrow> (Some c, s\<lparr>chars := cs\<rparr>))"

definition kMaxSize :: nat where
  "kMaxSize = 80"

text \<open>The loop of \<open>LimitedGetline\<close> that may still store \<open>n\<close> characters.\<close>

fun read_line :: "nat \<Rightarrow> stream \<Rightarrow> string \<times> stream" where
  "read_line 0 s = ([], s)"
| "read_line (Suc n) s =
     (if \<not> ok s then ([], s)
      else case get s of
        (Some symbol, s') \<Rightarrow>
          if symbol = CHR 0x0A then ([], s')
          else (let (line, s'') = read_line n s' in (symbol # line, s''))
      | (None, s') \<Rightarrow> (let (line, s'') = read_line n s' in (CHR 0xFF # line, s'')))"

definition LimitedGetline :: "stream \<Rightarrow> string \<times> stream" where
  "LimitedGetline s = read_line kMaxSize s"

section \<open>Extraction of numbers\<close>

definition is_space :: "char \<Rightarrow> bool" where
  "is_space c \<longleftrightarrow> c = CHR '' '' \<or> (9 \<le> (of_char c :: nat) \<and> (of_char c :: nat) \<le> 13)"

definition is_digit :: "char \<Rightarrow> bool" where
  "is_digit c \<longleftrightarrow> 48 \<le> (of_char c :: nat) \<and> (of_char c :: nat) \<le> 57"

primrec digits_value :: "nat \<Rightarrow> string \<Rightarrow> nat" where
  "digits_value acc [] = acc"
| "digits_value acc (c # cs) = digits_value (10 * acc + (of_char c - 48)) cs"

text \<open>The sign, the digits and the rest of a number in decimal notation.\<close>

definition split_number :: "string \<Rightarrow> bool \<times> string \<times> string" where
  "split_number cs =
     (let sign = (cs \<noteq> [] \<and> (hd cs = CHR ''-'' \<or> hd cs = CHR ''+''));
          ds = (if sign then tl cs else cs)
      in (sign \<and> hd cs = CHR ''-'', takeWhile is_digit ds, dropWhile is_digit ds))"

text \<open>\<open>stream >> x\<close> for a number: \<open>None\<close> when the variable keeps its value, since nothing but white
  space is left; what the digits denote is given by \<open>convert\<close>, which also says if it fits.\<close>

definition extract_number :: "(bool \<Rightarrow> nat \<Rightarrow> int \<times> bool) \<Rightarrow> stream \<Rightarrow> int option \<times> stream" where
  "extract_number convert s =
     (if \<not> ok s then (None, s)
      else case dropWhile is_space (chars s) of
        [] \<Rightarrow> (None, \<lparr>chars = [], ok = False\<rparr>)
      | c # cs \<Rightarrow>
          (let (negative, ds, rest) = split_number (c # cs) in
           if ds = [] then (Some 0, \<lparr>chars = rest, ok = False\<rparr>)
           else (let (v, fits) = convert negative (digits_value 0 ds) in
                 (Some v, \<lparr>chars = rest, ok = fits\<rparr>))))"

definition int_value :: "bool \<Rightarrow> nat \<Rightarrow> int \<times> bool" where
  "int_value negative n =
     (let v = (if negative then - int n else int n) in
      if v < - (2 ^ 31) then (- (2 ^ 31), False)
      else if v \<ge> 2 ^ 31 then (2 ^ 31 - 1, False) else (v, True))"

definition size_value :: "bool \<Rightarrow> nat \<Rightarrow> int \<times> bool" where
  "size_value negative n =
     (if int n \<ge> 2 ^ 64 then (2 ^ 64 - 1, False)
      else if negative then ((- int n) mod 2 ^ 64, True) else (int n, True))"

definition extract_int :: "stream \<Rightarrow> int option \<times> stream" where
  "extract_int s = extract_number int_value s"

definition extract_size :: "stream \<Rightarrow> int option \<times> stream" where
  "extract_size s = extract_number size_value s"

section \<open>Lines\<close>

text \<open>A line that fits is read whole, its end with it; of a longer one the first 80 characters are.\<close>

lemma read_line_whole:
  "CHR 0x0A \<notin> set line \<Longrightarrow> length line < n \<Longrightarrow>
   read_line n \<lparr>chars = line @ CHR 0x0A # rest, ok = True\<rparr> = (line, \<lparr>chars = rest, ok = True\<rparr>)"
proof (induction line arbitrary: n)
  case Nil
  then show ?case by (cases n) (simp_all add: get_def)
next
  case (Cons c line)
  then show ?case by (cases n) (auto simp: get_def)
qed

lemma read_line_long:
  "CHR 0x0A \<notin> set line \<Longrightarrow>
   read_line (length line) \<lparr>chars = line @ rest, ok = True\<rparr> = (line, \<lparr>chars = rest, ok = True\<rparr>)"
  by (induction line) (auto simp: get_def)

lemma LimitedGetline_whole:
  "CHR 0x0A \<notin> set line \<Longrightarrow> length line < 80 \<Longrightarrow>
   LimitedGetline \<lparr>chars = line @ CHR 0x0A # rest, ok = True\<rparr> = (line, \<lparr>chars = rest, ok = True\<rparr>)"
  by (simp add: LimitedGetline_def kMaxSize_def read_line_whole)

lemma LimitedGetline_long:
  "CHR 0x0A \<notin> set line \<Longrightarrow> length line = 80 \<Longrightarrow>
   LimitedGetline \<lparr>chars = line @ rest, ok = True\<rparr> = (line, \<lparr>chars = rest, ok = True\<rparr>)"
  using read_line_long [of line rest] by (simp add: LimitedGetline_def kMaxSize_def)

lemma read_line_failed [simp]: "\<not> ok s \<Longrightarrow> read_line n s = ([], s)"
  by (cases n) simp_all

lemma LimitedGetline_failed [simp]: "\<not> ok s \<Longrightarrow> LimitedGetline s = ([], s)"
  by (simp add: LimitedGetline_def)

text \<open>At the end of the file the last line has one character more than the file has.\<close>

lemma read_line_end:
  "CHR 0x0A \<notin> set line \<Longrightarrow> length line < n \<Longrightarrow>
   read_line n \<lparr>chars = line, ok = True\<rparr> = (line @ [CHR 0xFF], \<lparr>chars = [], ok = False\<rparr>)"
proof (induction line arbitrary: n)
  case Nil
  then show ?case by (cases n) (simp_all add: get_def fail_def)
next
  case (Cons c line)
  then show ?case by (cases n) (auto simp: get_def)
qed

end
