(* ===== verification/LocationService.thy ===== *)
theory LocationService
  imports Console
begin

text \<open>
  The location service (\<open>tasks/move/reallol/main.cpp\<close>), whose feeds hold pointers into the vectors of
  other users. A \<open>User*\<close> is the position of the user, since users are never erased and each is an
  object of its own. A \<open>Location*\<close> is a position in a buffer of a vector: buffers have numbers that
  are not used again, and growing a vector moves it to a new buffer, so a pointer into the old one
  dangles. The locations are of any type; their extraction from a line (\<open>read_location\<close>) and the
  value of an \<open>int\<close> that no extraction set (\<open>junk\<close>) are parameters.
\<close>

section \<open>State\<close>

record 'l posts =
  buffer :: nat
  elements :: "'l list"
  capacity :: nat

type_synonym pointer = "nat \<times> nat"

record 'l user =
  username :: string
  posts :: "'l posts"
  subscribers :: "nat list"
  feed :: "(nat \<times> pointer) list"

record 'l service =
  users :: "'l user list"
  next_buffer :: nat

definition service_new :: "'l service" where
  "service_new = \<lparr>users = [], next_buffer = 0\<rparr>"

definition kMaxUsers :: nat where
  "kMaxUsers = 100"

text \<open>What a pointer points to, given the vectors of the users; \<open>None\<close> when it dangles.\<close>

definition deref :: "'l posts list \<Rightarrow> pointer \<Rightarrow> 'l option" where
  "deref ps p =
     (case List.find (\<lambda>v. buffer v = fst p) ps of
        None \<Rightarrow> None
      | Some v \<Rightarrow> if snd p < length (elements v) then Some (elements v ! snd p) else None)"

text \<open>\<open>emplace_back\<close>, which moves a full vector to a buffer of twice the size.\<close>

definition emplace_back :: "nat \<Rightarrow> 'l \<Rightarrow> 'l posts \<Rightarrow> 'l posts" where
  "emplace_back fresh l v =
     (if length (elements v) < capacity v then v\<lparr>elements := elements v @ [l]\<rparr>
      else \<lparr>buffer = fresh, elements = elements v @ [l], capacity = 2 * capacity v\<rparr>)"

section \<open>Reading a command\<close>

datatype 'l printed = Out string | OutAt string 'l

datatype 'l request = Register string | CheckIn nat 'l | ViewFeed nat | Subscribe nat nat | LimitReached | Ignore

definition Banner :: "'l printed list" where
  "Banner =
     [Out ''****************************************'',
      Out ''*   Welcome to ReAL Location Service   *'',
      Out ''****************************************'',
      Out ''* 1) Register User                     *'',
      Out ''* 2) Check In                          *'',
      Out ''* 3) View feed                         *'',
      Out ''* 4) Subscribe                         *'',
      Out ''****************************************'']"

definition GetCmd :: "int \<Rightarrow> stream \<Rightarrow> int \<times> stream" where
  "GetCmd junk s =
     (let (line, s') = LimitedGetline s in
      (case fst (extract_int (open_stream line)) of None \<Rightarrow> junk | Some cmd \<Rightarrow> cmd, s'))"

fun position_of :: "string \<Rightarrow> string list \<Rightarrow> nat option" where
  "position_of name [] = None"
| "position_of name (n # ns) = (if n = name then Some 0 else map_option Suc (position_of name ns))"

definition get_user :: "string list \<Rightarrow> stream \<Rightarrow> 'l printed list \<times> nat option \<times> stream" where
  "get_user names s =
     (let (name, s') = LimitedGetline s in
      case position_of name names of
        Some u \<Rightarrow> ([Out ''Enter username:''], Some u, s')
      | None \<Rightarrow> ([Out ''Enter username:'', Out ''User not found''], None, s'))"

definition read_request ::
  "int \<Rightarrow> (string \<Rightarrow> 'l) \<Rightarrow> string list \<Rightarrow> stream \<Rightarrow> 'l printed list \<times> 'l request \<times> stream" where
  "read_request junk read_location names s =
     (let (cmd, s1) = GetCmd junk s in
      if cmd = 1 then
        if length names > kMaxUsers then ([], LimitReached, s1)
        else (let (name, s2) = LimitedGetline s1 in ([Out ''Enter username:''], Register name, s2))
      else if cmd = 2 then
        (case get_user names s1 of
           (out, None, s2) \<Rightarrow> (out, Ignore, s2)
         | (out, Some u, s2) \<Rightarrow>
             (let (line, s3) = LimitedGetline s2
              in (out @ [Out ''Enter your location:''], CheckIn u (read_location line), s3)))
      else if cmd = 3 then
        (case get_user names s1 of
           (out, None, s2) \<Rightarrow> (out, Ignore, s2)
         | (out, Some u, s2) \<Rightarrow> (out, ViewFeed u, s2))
      else if cmd = 4 then
        (case get_user names s1 of
           (out, None, s2) \<Rightarrow> (out, Ignore, s2)
         | (out, Some u, s2) \<Rightarrow>
             (case get_user names s2 of
                (out', None, s3) \<Rightarrow> (out @ out', Ignore, s3)
              | (out', Some v, s3) \<Rightarrow> (out @ out', Subscribe u v, s3)))
      else ([], Ignore, s1))"

section \<open>Serving it\<close>

definition User_new :: "string \<Rightarrow> nat \<Rightarrow> 'l user" where
  "User_new name fresh =
     \<lparr>username = name, posts = \<lparr>buffer = fresh, elements = [], capacity = 16\<rparr>, subscribers = [], feed = []\<rparr>"

definition register :: "string \<Rightarrow> 'l service \<Rightarrow> 'l printed list \<times> 'l service" where
  "register name s =
     ([Out (''Registered user '' @ name)],
      \<lparr>users = users s @ [User_new name (next_buffer s)], next_buffer = Suc (next_buffer s)\<rparr>)"

definition add_feed :: "nat \<times> pointer \<Rightarrow> 'l user list \<Rightarrow> nat \<Rightarrow> 'l user list" where
  "add_feed entry us j = us[j := (us ! j)\<lparr>feed := feed (us ! j) @ [entry]\<rparr>]"

definition check_in :: "nat \<Rightarrow> 'l \<Rightarrow> 'l service \<Rightarrow> 'l printed list \<times> 'l service" where
  "check_in i l s =
     (let u = users s ! i;
          v = emplace_back (next_buffer s) l (posts u);
          entry = (i, buffer v, length (elements v) - 1);
          us = foldl (add_feed entry) ((users s)[i := u\<lparr>posts := v\<rparr>]) (subscribers u)
      in ([Out (''User '' @ username u @ '' checked in'')], \<lparr>users = us, next_buffer = Suc (next_buffer s)\<rparr>))"

primrec feed_lines :: "'l user list \<Rightarrow> (nat \<times> pointer) list \<Rightarrow> 'l printed list option" where
  "feed_lines us [] = Some []"
| "feed_lines us (post # rest) =
     (case deref (map posts us) (snd post) of
        None \<Rightarrow> None
      | Some l \<Rightarrow> map_option (\<lambda>out. OutAt (username (us ! fst post)) l # out) (feed_lines us rest))"

definition view_feed :: "nat \<Rightarrow> 'l service \<Rightarrow> 'l printed list option" where
  "view_feed i s =
     map_option (\<lambda>out. Out (''Feed for user '' @ username (users s ! i)) # out)
       (feed_lines (users s) (feed (users s ! i)))"

definition subscribe :: "nat \<Rightarrow> nat \<Rightarrow> 'l service \<Rightarrow> 'l printed list \<times> 'l service" where
  "subscribe i j s =
     ([Out (''User '' @ username (users s ! i) @ '' subscribed to '' @ username (users s ! j))],
      s\<lparr>users := (users s)[j := (users s ! j)\<lparr>subscribers := subscribers (users s ! j) @ [i]\<rparr>]\<rparr>)"

fun serve :: "'l request \<Rightarrow> 'l service \<Rightarrow> ('l printed list \<times> 'l service) option" where
  "serve (Register name) s = Some (register name s)"
| "serve (CheckIn u l) s = Some (check_in u l s)"
| "serve (ViewFeed u) s = map_option (\<lambda>out. (out, s)) (view_feed u s)"
| "serve (Subscribe u v) s = Some (subscribe u v s)"
| "serve LimitReached s = Some ([Out ''Users limit reached''], s)"
| "serve Ignore s = Some ([], s)"

text \<open>The loop of \<open>main\<close> for \<open>n\<close> more commands; \<open>None\<close> is an access through a dangling pointer.\<close>

fun service_loop ::
  "int \<Rightarrow> (string \<Rightarrow> 'l) \<Rightarrow> nat \<Rightarrow> stream \<Rightarrow> 'l service \<Rightarrow> ('l printed list \<times> 'l service) option" where
  "service_loop junk read_location 0 s st = Some ([], st)"
| "service_loop junk read_location (Suc n) s st =
     (let (out, r, s') = read_request junk read_location (map username (users st)) s in
      case serve r st of
        None \<Rightarrow> None
      | Some (out', st') \<Rightarrow>
          map_option (\<lambda>(rest, st''). (Banner @ out @ out' @ rest, st''))
            (service_loop junk read_location n s' st'))"

definition service_main :: "int \<Rightarrow> (string \<Rightarrow> 'l) \<Rightarrow> string \<Rightarrow> ('l printed list \<times> 'l service) option" where
  "service_main junk read_location input = service_loop junk read_location 1000 (open_stream input) service_new"

section \<open>The abstract service, whose feeds hold the locations themselves\<close>

record 'l person =
  name_of :: string
  places :: "'l list"
  followers :: "nat list"
  news :: "(nat \<times> 'l) list"

definition add_news :: "nat \<times> 'l \<Rightarrow> 'l person list \<Rightarrow> nat \<Rightarrow> 'l person list" where
  "add_news entry ps j = ps[j := (ps ! j)\<lparr>news := news (ps ! j) @ [entry]\<rparr>]"

fun spec_serve :: "'l request \<Rightarrow> 'l person list \<Rightarrow> 'l printed list \<times> 'l person list" where
  "spec_serve (Register name) ps =
     ([Out (''Registered user '' @ name)], ps @ [\<lparr>name_of = name, places = [], followers = [], news = []\<rparr>])"
| "spec_serve (CheckIn i l) ps =
     ([Out (''User '' @ name_of (ps ! i) @ '' checked in'')],
      foldl (add_news (i, l)) (ps[i := (ps ! i)\<lparr>places := places (ps ! i) @ [l]\<rparr>]) (followers (ps ! i)))"
| "spec_serve (ViewFeed i) ps =
     (Out (''Feed for user '' @ name_of (ps ! i)) # map (\<lambda>(j, l). OutAt (name_of (ps ! j)) l) (news (ps ! i)), ps)"
| "spec_serve (Subscribe i j) ps =
     ([Out (''User '' @ name_of (ps ! i) @ '' subscribed to '' @ name_of (ps ! j))],
      ps[j := (ps ! j)\<lparr>followers := followers (ps ! j) @ [i]\<rparr>])"
| "spec_serve LimitReached ps = ([Out ''Users limit reached''], ps)"
| "spec_serve Ignore ps = ([], ps)"

fun spec_loop ::
  "int \<Rightarrow> (string \<Rightarrow> 'l) \<Rightarrow> nat \<Rightarrow> stream \<Rightarrow> 'l person list \<Rightarrow> 'l printed list \<times> 'l person list" where
  "spec_loop junk read_location 0 s ps = ([], ps)"
| "spec_loop junk read_location (Suc n) s ps =
     (let (out, r, s') = read_request junk read_location (map name_of ps) s;
          (out', ps') = spec_serve r ps;
          (rest, ps'') = spec_loop junk read_location n s' ps'
      in (Banner @ out @ out' @ rest, ps''))"

section \<open>Pointers stay alive while vectors do not grow\<close>

text \<open>A user and a person agree when they hold the same and every pointer of the feed points to the
  location that is in the news.\<close>

definition same_user :: "'l posts list \<Rightarrow> 'l user \<Rightarrow> 'l person \<Rightarrow> bool" where
  "same_user ps u a \<longleftrightarrow>
     username u = name_of a \<and> subscribers u = followers a \<and> elements (posts u) = places a
   \<and> map (\<lambda>(v, p). (v, deref ps p)) (feed u) = map (\<lambda>(v, l). (v, Some l)) (news a)"

definition buffers_ok :: "'l service \<Rightarrow> bool" where
  "buffers_ok s \<longleftrightarrow>
     distinct (map (\<lambda>u. buffer (posts u)) (users s))
   \<and> (\<forall>u \<in> set (users s). buffer (posts u) < next_buffer s \<and> capacity (posts u) = 16
        \<and> (\<forall>(v, p) \<in> set (feed u). v < length (users s)))"

definition agrees :: "'l service \<Rightarrow> 'l person list \<Rightarrow> bool" where
  "agrees s ps \<longleftrightarrow> list_all2 (same_user (map posts (users s))) (users s) ps \<and> buffers_ok s"

definition fits :: "'l person list \<Rightarrow> bool" where
  "fits ps \<longleftrightarrow> (\<forall>a \<in> set ps. length (places a) \<le> 16)"

lemma deref_nth:
  assumes "i < length vs" and "distinct (map buffer vs)" and "k < length (elements (vs ! i))"
  shows "deref vs (buffer (vs ! i), k) = Some (elements (vs ! i) ! k)"
proof -
  have "List.find (\<lambda>v. buffer v = buffer (vs ! i)) vs = Some (vs ! i)"
    using assms(1,2) by (auto simp: find_Some_iff distinct_conv_nth intro!: exI [of _ i])
  then show ?thesis using assms(3) by (simp add: deref_def)
qed

text \<open>Live pointers survive a new vector with a new buffer and a new element at the end of a vector.\<close>

lemma find_append_Some: "List.find P xs = Some x \<Longrightarrow> List.find P (xs @ ys) = Some x"
  by (induction xs) (auto split: if_splits)

lemma deref_append: "deref vs p = Some l \<Longrightarrow> deref (vs @ ws) p = Some l"
  by (auto simp: deref_def find_append_Some split: option.splits)

lemma deref_Some:
  assumes "deref vs p = Some l"
  obtains j where "j < length vs" and "buffer (vs ! j) = fst p" and "snd p < length (elements (vs ! j))"
    and "l = elements (vs ! j) ! snd p"
  using assms by (auto simp: deref_def find_Some_iff split: option.splits if_splits)

lemma deref_grow:
  assumes "i < length vs" and "buffer v = buffer (vs ! i)" and "elements v = elements (vs ! i) @ ls"
    and "distinct (map buffer vs)" and "deref vs p = Some l"
  shows "deref (vs[i := v]) p = Some l"
proof -
  obtain j where j: "j < length vs" "buffer (vs ! j) = fst p" "snd p < length (elements (vs ! j))"
    "l = elements (vs ! j) ! snd p"
    using assms(5) by (rule deref_Some)
  have "map buffer (vs[i := v]) = map buffer vs"
    using assms(1,2) by (auto intro!: nth_equalityI simp: nth_list_update)
  then have "deref (vs[i := v]) (buffer (vs[i := v] ! j), snd p) = Some (elements (vs[i := v] ! j) ! snd p)"
    using assms(1,3,4) j(1,3) by (intro deref_nth) (auto simp: nth_list_update)
  then show ?thesis using assms(1-3) j by (cases "i = j") (auto simp: nth_append)
qed

lemma same_user_mono:
  assumes "same_user vs u a" and "\<And>p l. deref vs p = Some l \<Longrightarrow> deref ws p = Some l"
  shows "same_user ws u a"
proof -
  have "map (\<lambda>(v, p). (v, deref ws p)) xs = map (\<lambda>(v, l). (v, Some l)) ys"
    if "map (\<lambda>(v, p). (v, deref vs p)) xs = map (\<lambda>(v, l). (v, Some l)) ys" for xs and ys :: "(nat \<times> 'a) list"
    using that by (induction xs arbitrary: ys) (auto simp: Cons_eq_map_conv assms(2) split: prod.splits)
  then show ?thesis using assms(1) by (simp add: same_user_def)
qed

lemma agrees_names: "agrees s ps \<Longrightarrow> map username (users s) = map name_of ps"
  by (auto simp: agrees_def list_all2_conv_all_nth same_user_def intro!: nth_equalityI)

section \<open>Simulation\<close>

lemma map_update_same: "f x = f (xs ! j) \<Longrightarrow> map f (xs[j := x]) = map f xs"
  by (metis list_update_id map_update)

lemma posts_add_feed [simp]: "map posts (add_feed entry us j) = map posts us"
  by (cases "j < length us") (auto simp: add_feed_def map_update intro!: nth_equalityI simp: nth_list_update)

lemma posts_feeds [simp]: "map posts (foldl (add_feed entry) us js) = map posts us"
  by (induction js arbitrary: us) simp_all

lemma length_feeds [simp]: "length (foldl (add_feed entry) us js) = length us"
  by (induction js arbitrary: us) (simp_all add: add_feed_def)

lemma feeds_agree:
  assumes "list_all2 (same_user vs) us ps" and "deref vs p = Some l"
  shows "list_all2 (same_user vs) (foldl (add_feed (i, p)) us js) (foldl (add_news (i, l)) ps js)"
  using assms(1)
proof (induction js arbitrary: us ps)
  case (Cons j js)
  have len: "length us = length ps" using Cons.prems by (rule list_all2_lengthD)
  have "list_all2 (same_user vs) (add_feed (i, p) us j) (add_news (i, l) ps j)"
  proof (cases "j < length us")
    case True
    have "same_user vs (us ! j) (ps ! j)" by (rule list_all2_nthD [OF Cons.prems True])
    then have "same_user vs ((us ! j)\<lparr>feed := feed (us ! j) @ [(i, p)]\<rparr>) ((ps ! j)\<lparr>news := news (ps ! j) @ [(i, l)]\<rparr>)"
      using assms(2) by (simp add: same_user_def)
    then show ?thesis using Cons.prems by (simp add: add_feed_def add_news_def list_all2_update_cong)
  qed (use Cons.prems len in \<open>simp add: add_feed_def add_news_def list_update_beyond\<close>)
  then show ?case using Cons.IH by simp
qed simp

lemma feed_indices:
  assumes "\<forall>u \<in> set us. \<forall>(v, p) \<in> set (feed u). v < n" and "i < n"
  shows "\<forall>u \<in> set (foldl (add_feed (i, p)) us js). \<forall>(v, p) \<in> set (feed u). v < n"
  using assms(1)
proof (induction js arbitrary: us)
  case (Cons j js)
  have "\<forall>u \<in> set (add_feed (i, p) us j). \<forall>(v, p) \<in> set (feed u). v < n"
  proof (cases "j < length us")
    case True
    then have "\<forall>(v, p) \<in> set (feed (us ! j)). v < n" using Cons.prems nth_mem by blast
    then show ?thesis using Cons.prems assms(2)
      by (auto simp: add_feed_def dest!: set_update_subset_insert [THEN subsetD])
  qed (use Cons.prems in \<open>simp add: add_feed_def list_update_beyond\<close>)
  then show ?case using Cons.IH by simp
qed simp

fun valid :: "nat \<Rightarrow> 'l request \<Rightarrow> bool" where
  "valid n (CheckIn u l) \<longleftrightarrow> u < n"
| "valid n (ViewFeed u) \<longleftrightarrow> u < n"
| "valid n (Subscribe u v) \<longleftrightarrow> u < n \<and> v < n"
| "valid n r \<longleftrightarrow> True"

lemma position_of_less: "position_of name names = Some u \<Longrightarrow> u < length names"
  by (induction names arbitrary: u) (auto split: if_splits)

lemma get_user_less: "get_user names s = (out, Some u, s') \<Longrightarrow> u < length names"
  by (auto simp: get_user_def position_of_less split: prod.splits option.splits)

lemma read_request_valid:
  assumes "read_request junk read_location names s = (out, r, s')"
  shows "valid (length names) r"
  using assms get_user_less
  by (auto simp: read_request_def Let_def split: prod.splits option.splits if_splits) blast+

lemma places_news [simp]: "map places (foldl (add_news entry) ps js) = map places ps"
proof (induction js arbitrary: ps)
  case (Cons j js)
  have "map places (add_news entry ps j) = map places ps"
    by (cases "j < length ps") (auto simp: add_news_def intro!: nth_equalityI simp: nth_list_update)
  then show ?case by (simp add: Cons.IH)
qed simp

lemma fits_places: "fits ps \<longleftrightarrow> (\<forall>xs \<in> set (map places ps). length xs \<le> 16)"
  by (simp add: fits_def)

lemma places_check_in:
  "map places (snd (spec_serve (CheckIn i l) ps)) = (map places ps)[i := places (ps ! i) @ [l]]"
  by (simp add: map_update)

lemma fits_before:
  assumes "fits (snd (spec_serve r ps))" and "valid (length ps) r"
  shows "fits ps"
proof (cases r)
  case (CheckIn i l)
  have le: "length ((map places ps)[i := places (ps ! i) @ [l]] ! k) \<le> 16" if "k < length ps" for k
    using assms(1) that unfolding CheckIn fits_places places_check_in by (auto dest!: bspec simp del: map_update)
  have "length (places (ps ! k)) \<le> 16" if "k < length ps" for k
    using le [OF that] that by (cases "k = i") (auto simp: nth_list_update)
  then show ?thesis by (auto simp: fits_def in_set_conv_nth)
next
  case (Subscribe i j)
  then show ?thesis using assms by (simp add: fits_places map_update_same)
qed (use assms in \<open>auto simp: fits_def\<close>)

lemma feed_lines_agree:
  assumes "list_all2 (same_user (map posts us)) us ps"
    and "map (\<lambda>(v, p). (v, deref (map posts us) p)) entries = map (\<lambda>(v, l). (v, Some l)) items"
    and "\<forall>(v, p) \<in> set entries. v < length us"
  shows "feed_lines us entries = Some (map (\<lambda>(j, l). OutAt (name_of (ps ! j)) l) items)"
  using assms(2,3)
proof (induction entries arbitrary: items)
  case (Cons e entries)
  have "username (us ! v) = name_of (ps ! v)" if "v < length us" for v
    using list_all2_nthD [OF assms(1) that] by (simp add: same_user_def)
  then show ?case using Cons by (auto simp: Cons_eq_map_conv split: prod.splits)
qed simp

lemma register_agrees:
  assumes "agrees s ps"
  shows "agrees (snd (register name s)) (snd (spec_serve (Register name) ps))"
proof -
  let ?u = "User_new name (next_buffer s)"
  have "list_all2 (same_user (map posts (users s) @ [posts ?u])) (users s) ps"
    using assms by (auto simp: agrees_def intro: list_all2_mono same_user_mono deref_append)
  moreover have "buffers_ok (snd (register name s))"
    using assms by (fastforce simp: agrees_def buffers_ok_def register_def User_new_def)
  ultimately show ?thesis
    by (simp add: agrees_def register_def list_all2_appendI same_user_def User_new_def)
qed

lemma buffers_ok_update:
  assumes "buffers_ok s" and "j < length (users s)" and "posts u = posts (users s ! j)"
    and "feed u = feed (users s ! j)"
  shows "buffers_ok (s\<lparr>users := (users s)[j := u]\<rparr>)"
proof -
  have "\<forall>w \<in> set ((users s)[j := u]). \<exists>w' \<in> set (users s). posts w = posts w' \<and> feed w = feed w'"
    using assms(2-4) by (auto dest!: set_update_subset_insert [THEN subsetD])
  then show ?thesis
    using assms(1,3) by (simp add: buffers_ok_def map_update_same [where f = "\<lambda>u. buffer (posts u)"]) metis
qed

lemma subscribe_agrees:
  assumes "agrees s ps" and "j < length (users s)"
  shows "agrees (snd (subscribe i j s)) (snd (spec_serve (Subscribe i j) ps))"
proof -
  have all: "list_all2 (same_user (map posts (users s))) (users s) ps" using assms(1) by (simp add: agrees_def)
  have "same_user (map posts (users s)) (users s ! j) (ps ! j)" by (rule list_all2_nthD [OF all assms(2)])
  then have "list_all2 (same_user (map posts (users s)))
      ((users s)[j := (users s ! j)\<lparr>subscribers := subscribers (users s ! j) @ [i]\<rparr>])
      (ps[j := (ps ! j)\<lparr>followers := followers (ps ! j) @ [i]\<rparr>])"
    by (intro list_all2_update_cong all) (simp add: same_user_def)
  moreover have "map posts ((users s)[j := (users s ! j)\<lparr>subscribers := subscribers (users s ! j) @ [i]\<rparr>])
      = map posts (users s)"
    by (rule map_update_same) simp
  moreover have "buffers_ok (snd (subscribe i j s))"
    using assms by (simp add: agrees_def subscribe_def buffers_ok_update)
  ultimately show ?thesis by (simp add: agrees_def subscribe_def)
qed

lemma feed_in_range:
  assumes "buffers_ok s" and "i < length (users s)"
  shows "\<forall>(v, p) \<in> set (feed (users s ! i)). v < length (users s)"
  using assms(1) nth_mem [OF assms(2)] by (auto simp: buffers_ok_def)

lemma same_user_posts:
  "same_user ws u a \<Longrightarrow> elements v = elements (posts u) @ [l] \<Longrightarrow>
   same_user ws (u\<lparr>posts := v\<rparr>) (a\<lparr>places := places a @ [l]\<rparr>)"
  by (simp add: same_user_def)

lemma check_in_agrees:
  assumes "agrees s ps" and "i < length (users s)" and "fits (snd (spec_serve (CheckIn i l) ps))"
  shows "agrees (snd (check_in i l s)) (snd (spec_serve (CheckIn i l) ps))"
proof -
  let ?us = "users s" and ?vs = "map posts (users s)"
  define v where "v = emplace_back (next_buffer s) l (posts (?us ! i))"
  have all: "list_all2 (same_user ?vs) ?us ps" and ok: "buffers_ok s" using assms(1) by (simp_all add: agrees_def)
  have same: "same_user ?vs (?us ! i) (ps ! i)" by (rule list_all2_nthD [OF all assms(2)])
  have len: "length ps = length ?us" using all by (simp add: list_all2_lengthD)
  have "length (places (ps ! i) @ [l]) \<le> 16"
    using assms(2,3) len unfolding fits_places places_check_in by (auto dest: bspec [OF _ set_update_memI])
  moreover have "capacity (posts (?us ! i)) = 16" using ok assms(2) by (simp add: buffers_ok_def)
  ultimately have v: "v = (posts (?us ! i))\<lparr>elements := elements (posts (?us ! i)) @ [l]\<rparr>"
    using same by (simp add: v_def emplace_back_def same_user_def)
  let ?ws = "?vs[i := v]" and ?entry = "(buffer v, length (elements v) - 1)"
  have dist: "distinct (map buffer ?vs)" using ok by (simp add: buffers_ok_def comp_def)
  have grow: "deref ?ws p = Some l'" if "deref ?vs p = Some l'" for p l'
    using assms(2) v dist that by (intro deref_grow [where ls = "[l]"]) auto
  have "map buffer ?ws = map buffer ?vs" using assms(2) v by (intro map_update_same) simp
  then have entry: "deref ?ws ?entry = Some l"
    using deref_nth [of i ?ws "length (elements v) - 1"] assms(2) dist v by simp
  let ?u = "(?us ! i)\<lparr>posts := v\<rparr>" and ?a = "(ps ! i)\<lparr>places := places (ps ! i) @ [l]\<rparr>"
  have "same_user ?ws ?u ?a" using same_user_posts [OF same_user_mono [OF same grow], of v l] v by simp
  then have "list_all2 (same_user ?ws) (?us[i := ?u]) (ps[i := ?a])"
    using list_all2_mono [OF all] same_user_mono [OF _ grow] by (intro list_all2_update_cong) blast+
  then have upd: "list_all2 (same_user ?ws) (foldl (add_feed (i, ?entry)) (?us[i := ?u]) js)
      (foldl (add_news (i, l)) (ps[i := ?a]) js)" for js
    using entry by (rule feeds_agree)
  let ?final = "foldl (add_feed (i, ?entry)) (?us[i := ?u]) (subscribers (?us ! i))"
  have posts: "map posts ?final = ?ws" by (simp add: map_update)
  have mem: "posts u \<in> set ?ws" if "u \<in> set ?final" for u
    using imageI [OF that, of posts] unfolding set_map [symmetric] posts .
  have "buffers_ok \<lparr>users = ?final, next_buffer = Suc (next_buffer s)\<rparr>"
    unfolding buffers_ok_def
  proof (intro conjI ballI, goal_cases)
    case 1
    have "map (\<lambda>u. buffer (posts u)) ?final = map buffer (map posts ?final)" by (simp only: map_map comp_def)
    also have "\<dots> = map buffer ?vs" unfolding posts using \<open>map buffer ?ws = map buffer ?vs\<close> .
    finally show ?case using dist by simp
  next
    case (2 u)
    then have "posts u \<in> set ?ws" unfolding service.simps by (rule mem)
    then show ?case using ok assms(2) v
      by (fastforce simp: buffers_ok_def dest!: set_update_subset_insert [THEN subsetD] nth_mem)
  next
    case (3 u)
    then have "posts u \<in> set ?ws" unfolding service.simps by (rule mem)
    then show ?case using ok assms(2) v
      by (fastforce simp: buffers_ok_def dest!: set_update_subset_insert [THEN subsetD] nth_mem)
  next
    case (4 u e)
    have "\<forall>u \<in> set (?us[i := ?u]). \<forall>(v, p) \<in> set (feed u). v < length ?us"
      using ok feed_in_range [OF ok assms(2)]
      by (auto simp: buffers_ok_def dest!: set_update_subset_insert [THEN subsetD])
    then show ?case using feed_indices [OF _ assms(2)] 4 by fastforce
  qed
  then show ?thesis using upd same posts by (simp add: agrees_def check_in_def Let_def v_def same_user_def)
qed

lemma serve_agrees:
  assumes "agrees s ps" and "valid (length (users s)) r" and "fits (snd (spec_serve r ps))"
  shows "\<exists>s'. serve r s = Some (fst (spec_serve r ps), s') \<and> agrees s' (snd (spec_serve r ps))"
proof (cases r)
  case (Register name)
  then show ?thesis using register_agrees [OF assms(1), of name] by (simp add: register_def)
next
  case (CheckIn i l)
  have "username (users s ! i) = name_of (ps ! i)"
    using assms(1,2) CheckIn by (auto simp: agrees_def same_user_def dest: list_all2_nthD)
  then show ?thesis using check_in_agrees [OF assms(1), of i l] assms(2,3) CheckIn
    by (simp add: check_in_def Let_def)
next
  case (ViewFeed i)
  have all: "list_all2 (same_user (map posts (users s))) (users s) ps" using assms(1) by (simp add: agrees_def)
  have i: "i < length (users s)" using assms(2) ViewFeed by simp
  have same: "same_user (map posts (users s)) (users s ! i) (ps ! i)" by (rule list_all2_nthD [OF all i])
  have "\<forall>(v, p) \<in> set (feed (users s ! i)). v < length (users s)"
    using assms(1) i by (simp add: agrees_def feed_in_range)
  then have "feed_lines (users s) (feed (users s ! i)) = Some (map (\<lambda>(j, l). OutAt (name_of (ps ! j)) l) (news (ps ! i)))"
    using same by (intro feed_lines_agree [OF all]) (simp_all add: same_user_def)
  then show ?thesis using assms(1) same ViewFeed by (simp add: view_feed_def same_user_def)
next
  case (Subscribe i j)
  have "username (users s ! k) = name_of (ps ! k)" if "k < length (users s)" for k
    using assms(1) that by (auto simp: agrees_def same_user_def dest: list_all2_nthD)
  then show ?thesis using subscribe_agrees [OF assms(1), of j i] assms(2) Subscribe by (simp add: subscribe_def)
qed (use assms(1) in simp_all)

text \<open>Numbers of posts never shrink, so the bound at the end is a bound everywhere.\<close>

lemma length_spec_serve: "length ps \<le> length (snd (spec_serve r ps))"
proof -
  have "length (foldl (add_news e) qs js) = length qs" for e and qs :: "'a person list" and js
    by (induction js arbitrary: qs) (simp_all add: add_news_def)
  then show ?thesis by (cases r) simp_all
qed

lemma fits_spec_loop: "fits (snd (spec_loop junk read_location n s ps)) \<Longrightarrow> fits ps"
proof (induction n arbitrary: s ps)
  case (Suc n)
  obtain out r s' where r: "read_request junk read_location (map name_of ps) s = (out, r, s')" by (metis prod_cases3)
  have "fits (snd (spec_serve r ps))"
    using Suc.IH [of s' "snd (spec_serve r ps)"] Suc.prems by (simp add: r Let_def split_def)
  then show ?case using read_request_valid [OF r] by (auto intro: fits_before)
qed simp

lemma service_loop_agrees:
  assumes "agrees st ps" and "fits (snd (spec_loop junk read_location n s ps))"
  shows "\<exists>st'. service_loop junk read_location n s st = Some (fst (spec_loop junk read_location n s ps), st')
    \<and> agrees st' (snd (spec_loop junk read_location n s ps))"
  using assms
proof (induction n arbitrary: s st ps)
  case (Suc n)
  have names: "map username (users st) = map name_of ps" using Suc.prems(1) by (rule agrees_names)
  obtain out r s' where r: "read_request junk read_location (map name_of ps) s = (out, r, s')" by (metis prod_cases3)
  obtain out' ps' where ps': "spec_serve r ps = (out', ps')" by force
  have fits: "fits (snd (spec_loop junk read_location n s' ps'))"
    using Suc.prems(2) by (simp add: r ps' split_def Let_def)
  have "length (users st) = length ps" using names by (metis length_map)
  then have "valid (length (users st)) r" using read_request_valid [OF r] by simp
  moreover have "fits (snd (spec_serve r ps))" using fits_spec_loop [OF fits] ps' by simp
  ultimately obtain st' where st': "serve r st = Some (out', st')" "agrees st' ps'"
    using serve_agrees [OF Suc.prems(1)] ps' by force
  obtain st'' where "service_loop junk read_location n s' st' = Some (fst (spec_loop junk read_location n s' ps'), st'')"
    "agrees st'' (snd (spec_loop junk read_location n s' ps'))"
    using Suc.IH [OF st'(2) fits] by blast
  then show ?case by (simp add: names r ps' st' split_def Let_def)
qed simp

lemma agrees_new: "agrees service_new []"
  by (simp add: agrees_def service_new_def buffers_ok_def)

text \<open>C26. As long as nobody checks in more than 16 times, the service, whose feeds hold pointers, prints what the
  service prints whose feeds hold the locations: no pointer dangles.\<close>

theorem service_refines_values:
  assumes "fits (snd (spec_loop junk read_location 1000 (open_stream input) []))"
  shows "map_option fst (service_main junk read_location input)
    = Some (fst (spec_loop junk read_location 1000 (open_stream input) []))"
  using service_loop_agrees [OF agrees_new assms] by (auto simp: service_main_def)

definition checkins :: "nat \<Rightarrow> string" where
  "checkins n = concat (replicate n (''2'' @ [CHR 0x0A] @ ''bob'' @ [CHR 0x0A] @ ''7'' @ [CHR 0x0A]))"

definition bob_session :: "nat \<Rightarrow> string" where
  "bob_session n = ''1'' @ [CHR 0x0A] @ ''bob'' @ [CHR 0x0A] @ ''4'' @ [CHR 0x0A] @ ''bob'' @ [CHR 0x0A] @ ''bob'' @ [CHR 0x0A]
     @ checkins n @ ''3'' @ [CHR 0x0A] @ ''bob'' @ [CHR 0x0A]"

text \<open>The states of the abstract service one by one; after the end of the input nothing changes.\<close>

definition spec_step :: "int \<Rightarrow> (string \<Rightarrow> 'l) \<Rightarrow> stream \<times> 'l person list \<Rightarrow> stream \<times> 'l person list" where
  "spec_step junk read_location st =
     (let (out, r, s') = read_request junk read_location (map name_of (snd st)) (fst st)
      in (s', snd (spec_serve r (snd st))))"

fun spec_steps ::
  "int \<Rightarrow> (string \<Rightarrow> 'l) \<Rightarrow> nat \<Rightarrow> stream \<times> 'l person list \<Rightarrow> stream \<times> 'l person list" where
  "spec_steps junk read_location 0 st = st"
| "spec_steps junk read_location (Suc n) st = spec_steps junk read_location n (spec_step junk read_location st)"

lemma snd_spec_loop:
  "snd (spec_loop junk read_location n s ps) = snd (spec_steps junk read_location n (s, ps))"
  by (induction n arbitrary: s ps) (simp_all add: spec_step_def split_def Let_def)

lemma spec_steps_add:
  "spec_steps junk read_location (m + n) st = spec_steps junk read_location n (spec_steps junk read_location m st)"
  by (induction m arbitrary: st) simp_all

lemma spec_steps_idle: "\<not> ok s \<Longrightarrow> spec_steps 0 read_location n (s, ps) = (s, ps)"
proof (induction n)
  case (Suc n)
  have "extract_int (open_stream []) = (None, \<lparr>chars = [], ok = False\<rparr>)"
    by (simp add: extract_int_def extract_number_def open_stream_def)
  then have "spec_step 0 read_location (s, ps) = (s, ps)"
    using Suc.prems by (simp add: spec_step_def read_request_def GetCmd_def)
  then show ?case using Suc by simp
qed simp

lemma bob_final:
  "snd (spec_loop 0 id 1000 (open_stream (bob_session 2)) [])
     = [\<lparr>name_of = ''bob'', places = [''7'', ''7''], followers = [0], news = [(0, ''7''), (0, ''7'')]\<rparr>]"
proof -
  have "spec_steps 0 id 6 (open_stream (bob_session 2), [])
    = (\<lparr>chars = [], ok = False\<rparr>,
       [\<lparr>name_of = ''bob'', places = [''7'', ''7''], followers = [0], news = [(0, ''7''), (0, ''7'')]\<rparr>])"
    by code_simp
  then have "spec_steps 0 id (6 + 994) (open_stream (bob_session 2), [])
    = (\<lparr>chars = [], ok = False\<rparr>,
       [\<lparr>name_of = ''bob'', places = [''7'', ''7''], followers = [0], news = [(0, ''7''), (0, ''7'')]\<rparr>])"
    unfolding spec_steps_add by (simp add: spec_steps_idle)
  then show ?thesis by (simp add: snd_spec_loop)
qed

theorem service_refines_values_witness:
  "map_option fst (service_main 0 id (bob_session 2))
    = Some (fst (spec_loop 0 id 1000 (open_stream (bob_session 2)) []))"
  by (rule service_refines_values) (simp add: bob_final fits_def)

text \<open>The seventeenth check-in moves the vector, and the next look at a feed follows a dangling pointer.\<close>

lemma service_loop_None:
  "service_loop junk read_location m s st = None \<Longrightarrow> service_loop junk read_location (m + n) s st = None"
  by (induction m arbitrary: s st) (auto split: prod.splits option.splits)

lemma bob_dangles: "service_main 0 id (bob_session 17) = None"
proof -
  have "service_loop 0 id 20 (open_stream (bob_session 17)) service_new = None" by code_simp
  then have "service_loop 0 id (20 + 980) (open_stream (bob_session 17)) service_new = None"
    by (rule service_loop_None)
  then show ?thesis by (simp add: service_main_def)
qed

end
