(* ===== verification/SlowNumbers.thy ===== *)
theory SlowNumbers
  imports Console Refinement
begin

text \<open>
  The stack of slow numbers (\<open>tasks/move/rule-of-5/main.cpp\<close>). A \<open>SlowNumber\<close> owns an \<open>int\<close> on the
  heap through a raw pointer; the stack holds shared pointers, so \<open>dup\<close> makes two entries the same
  object and \<open>pop_carry\<close> may move an object onto itself. An object and an \<open>int\<close> are positions in two
  stores, where a position that was destroyed or freed is \<open>None\<close>.
\<close>

section \<open>State\<close>

record machine =
  ints :: "int option list"
  objects :: "nat option option list"
  stack :: "nat list"

datatype undefined_behaviour = NullRead | DoubleFree | UseAfterFree

definition machine_new :: machine where
  "machine_new = \<lparr>ints = [], objects = [], stack = []\<rparr>"

text \<open>The pointer \<open>value_\<close> of an object, writing it, \<open>new int\<close>, \<open>delete\<close> under the guard of the code,
  and reading an \<open>int\<close>.\<close>

definition value_of :: "nat \<Rightarrow> machine \<Rightarrow> undefined_behaviour + nat option" where
  "value_of x m =
     (if x < length (objects m) then (case objects m ! x of Some p \<Rightarrow> Inr p | None \<Rightarrow> Inl UseAfterFree)
      else Inl UseAfterFree)"

definition set_value :: "nat \<Rightarrow> nat option \<Rightarrow> machine \<Rightarrow> machine" where
  "set_value x p m = m\<lparr>objects := (objects m)[x := Some p]\<rparr>"

definition new_int :: "int \<Rightarrow> machine \<Rightarrow> nat \<times> machine" where
  "new_int v m = (length (ints m), m\<lparr>ints := ints m @ [Some v]\<rparr>)"

definition new_object :: "nat option \<Rightarrow> machine \<Rightarrow> nat \<times> machine" where
  "new_object p m = (length (objects m), m\<lparr>objects := objects m @ [Some p]\<rparr>)"

definition read_int :: "nat \<Rightarrow> machine \<Rightarrow> undefined_behaviour + int" where
  "read_int a m =
     (if a < length (ints m) then (case ints m ! a of Some v \<Rightarrow> Inr v | None \<Rightarrow> Inl UseAfterFree)
      else Inl UseAfterFree)"

definition delete_int :: "nat option \<Rightarrow> machine \<Rightarrow> undefined_behaviour + machine" where
  "delete_int p m =
     (case p of
        None \<Rightarrow> Inr m
      | Some a \<Rightarrow>
          if a < length (ints m) \<and> ints m ! a \<noteq> None then Inr (m\<lparr>ints := (ints m)[a := None]\<rparr>)
          else Inl DoubleFree)"

section \<open>The five\<close>

definition SlowNumber_new :: "int \<Rightarrow> machine \<Rightarrow> nat \<times> machine" where
  "SlowNumber_new v m = (let (a, m') = new_int v m in new_object (Some a) m')"

definition SlowNumber_move :: "nat \<Rightarrow> machine \<Rightarrow> undefined_behaviour + nat \<times> machine" where
  "SlowNumber_move other m =
     ebind (value_of other m) (\<lambda>p. let (x, m') = new_object p m in Inr (x, set_value other None m'))"

definition SlowNumber_copy :: "nat \<Rightarrow> machine \<Rightarrow> undefined_behaviour + nat \<times> machine" where
  "SlowNumber_copy other m =
     ebind (value_of other m) (\<lambda>p.
       case p of
         None \<Rightarrow> Inl NullRead
       | Some b \<Rightarrow> ebind (read_int b m) (\<lambda>v. Inr (SlowNumber_new v m)))"

definition move_assign :: "nat \<Rightarrow> nat \<Rightarrow> machine \<Rightarrow> undefined_behaviour + machine" where
  "move_assign x other m =
     ebind (value_of x m) (\<lambda>p.
     ebind (delete_int p m) (\<lambda>m1.
     ebind (value_of other m1) (\<lambda>q. Inr (set_value other None (set_value x q m1)))))"

definition copy_assign :: "nat \<Rightarrow> nat \<Rightarrow> machine \<Rightarrow> undefined_behaviour + machine" where
  "copy_assign x other m =
     ebind (value_of x m) (\<lambda>p.
     ebind (delete_int p m) (\<lambda>m1.
     let m2 = set_value x None m1 in
     ebind (value_of other m2) (\<lambda>q.
       case q of
         None \<Rightarrow> Inr m2
       | Some b \<Rightarrow> ebind (read_int b m2) (\<lambda>v. let (a, m3) = new_int v m2 in Inr (set_value x (Some a) m3)))))"

definition destroy :: "nat \<Rightarrow> machine \<Rightarrow> undefined_behaviour + machine" where
  "destroy x m =
     ebind (value_of x m) (\<lambda>p.
     ebind (delete_int p m) (\<lambda>m'. Inr (m'\<lparr>objects := (objects m')[x := None]\<rparr>)))"

definition Value :: "nat \<Rightarrow> machine \<Rightarrow> undefined_behaviour + int" where
  "Value x m = ebind (value_of x m) (\<lambda>p. case p of None \<Rightarrow> Inl NullRead | Some a \<Rightarrow> read_int a m)"

section \<open>Commands\<close>

datatype command = Push int | Pop | Print | Swap nat nat | Dup | PopCarry | Quit | Unknown

datatype printed = Number int | Message string

text \<open>\<open>std::swap\<close> on two objects, with its temporary.\<close>

definition swap_numbers :: "nat \<Rightarrow> nat \<Rightarrow> machine \<Rightarrow> undefined_behaviour + machine" where
  "swap_numbers x y m =
     ebind (SlowNumber_move x m) (\<lambda>(tmp, m1).
     ebind (move_assign x y m1) (\<lambda>m2.
     ebind (move_assign y tmp m2) (\<lambda>m3. destroy tmp m3)))"

text \<open>Removing the last shared pointer of the stack destroys the object when no other one points to it.\<close>

definition pop_back :: "machine \<Rightarrow> undefined_behaviour + machine" where
  "pop_back m =
     (let m' = m\<lparr>stack := butlast (stack m)\<rparr> in
      if last (stack m) \<in> set (stack m') then Inr m' else destroy (last (stack m)) m')"

fun exec :: "command \<Rightarrow> machine \<Rightarrow> undefined_behaviour + printed list \<times> machine" where
  "exec (Push v) m = (let (x, m') = SlowNumber_new v m in Inr ([], m'\<lparr>stack := stack m' @ [x]\<rparr>))"
| "exec Pop m =
     (if stack m \<noteq> [] then ebind (pop_back m) (\<lambda>m'. Inr ([], m'))
      else Inr ([Message ''error: stack is empty''], m))"
| "exec Print m = ebind (emap (\<lambda>x. Value x m) (stack m)) (\<lambda>vs. Inr (map Number vs, m))"
| "exec (Swap i j) m =
     (if i \<ge> length (stack m) \<or> j \<ge> length (stack m) then Inr ([Message ''error: invalid index''], m)
      else ebind (swap_numbers (stack m ! i) (stack m ! j) m) (\<lambda>m'. Inr ([], m')))"
| "exec Dup m =
     (if stack m = [] then Inr ([Message ''error: stack is empty''], m)
      else Inr ([], m\<lparr>stack := stack m @ [last (stack m)]\<rparr>))"
| "exec PopCarry m =
     (if length (stack m) < 2 then Inr ([Message ''error: stack size must be greater than 2''], m)
      else ebind (move_assign (stack m ! (length (stack m) - 2)) (last (stack m)) m) (\<lambda>m1.
           ebind (pop_back m1) (\<lambda>m2. Inr ([], m2))))"
| "exec Quit m = Inr ([], m)"
| "exec Unknown m = Inr ([Message ''unknown cmd''], m)"

text \<open>Reading a command with its operands, which start as 0.\<close>

definition operand :: "int option \<Rightarrow> int" where
  "operand r = (case r of None \<Rightarrow> 0 | Some v \<Rightarrow> v)"

definition read_command :: "stream \<Rightarrow> command \<times> stream" where
  "read_command s =
     (let (cmd, s1) = LimitedGetline s in
      if cmd = ''push'' then (let (v, s2) = extract_int s1 in (Push (operand v), snd (get s2)))
      else if cmd = ''pop'' then (Pop, s1)
      else if cmd = ''print'' then (Print, s1)
      else if cmd = ''swap'' then
        (let (i, s2) = extract_size s1; (j, s3) = extract_size s2
         in (Swap (nat (operand i)) (nat (operand j)), snd (get s3)))
      else if cmd = ''dup'' then (Dup, s1)
      else if cmd = ''pop_carry'' then (PopCarry, s1)
      else if cmd = [] then (Quit, s1)
      else (Unknown, s1))"

fun stack_loop :: "nat \<Rightarrow> stream \<Rightarrow> machine \<Rightarrow> undefined_behaviour + printed list" where
  "stack_loop 0 s m = Inr []"
| "stack_loop (Suc n) s m =
     (let (c, s') = read_command s in
      if c = Quit then Inr []
      else ebind (exec c m) (\<lambda>(out, m'). ebind (stack_loop n s' m') (\<lambda>rest. Inr (out @ rest))))"

definition stack_main :: "string \<Rightarrow> undefined_behaviour + printed list" where
  "stack_main input = stack_loop 1000 (open_stream input) machine_new"

section \<open>Stores\<close>

definition entry :: "'a option list \<Rightarrow> nat \<Rightarrow> 'a option" where
  "entry xs i = (if i < length xs then xs ! i else None)"

lemma entry_less: "entry xs i = Some v \<Longrightarrow> i < length xs"
  by (simp add: entry_def split: if_splits)

lemma entry_update [simp]: "entry (xs[i := v]) j = (if i = j \<and> i < length xs then v else entry xs j)"
  by (auto simp: entry_def)

lemma entry_append [simp]: "entry (xs @ [v]) i = (if i = length xs then v else entry xs i)"
  by (auto simp: entry_def nth_append)

lemma entry_length [simp]: "entry xs (length xs) = None"
  by (simp add: entry_def)

lemma entry_Nil [simp]: "entry [] i = None"
  by (simp add: entry_def)

lemma value_of_entry:
  "value_of x m = (case entry (objects m) x of Some p \<Rightarrow> Inr p | None \<Rightarrow> Inl UseAfterFree)"
  by (simp add: value_of_def entry_def)

lemma read_int_entry:
  "read_int a m = (case entry (ints m) a of Some v \<Rightarrow> Inr v | None \<Rightarrow> Inl UseAfterFree)"
  by (simp add: read_int_def entry_def)

lemma delete_int_entry:
  "delete_int p m = (case p of None \<Rightarrow> Inr m | Some a \<Rightarrow>
     if entry (ints m) a = None then Inl DoubleFree else Inr (m\<lparr>ints := (ints m)[a := None]\<rparr>))"
  by (auto simp: delete_int_def entry_def split: option.splits)

section \<open>Ownership\<close>

text \<open>The live objects are those of the set \<open>L\<close>; every live \<open>int\<close> is owned by exactly one of them, and
  what an object owns is live.\<close>

definition owned :: "nat set \<Rightarrow> machine \<Rightarrow> bool" where
  "owned L m \<longleftrightarrow>
     (\<forall>x. x \<in> L \<longleftrightarrow> entry (objects m) x \<noteq> None)
   \<and> (\<forall>x a. entry (objects m) x = Some (Some a) \<longrightarrow> entry (ints m) a \<noteq> None)
   \<and> (\<forall>a. entry (ints m) a \<noteq> None \<longrightarrow> (\<exists>x. entry (objects m) x = Some (Some a)))
   \<and> (\<forall>x y a. entry (objects m) x = Some (Some a) \<and> entry (objects m) y = Some (Some a) \<longrightarrow> x = y)"

text \<open>What a live object holds: the number it owns, or nothing.\<close>

definition contents :: "machine \<Rightarrow> nat \<Rightarrow> int option" where
  "contents m x = (case entry (objects m) x of Some (Some a) \<Rightarrow> entry (ints m) a | _ \<Rightarrow> None)"

lemma owned_fields:
  "owned L (m\<lparr>stack := xs\<rparr>) = owned L m" "contents (m\<lparr>stack := xs\<rparr>) = contents m"
  by (simp_all add: owned_def contents_def fun_eq_iff split: option.split)

lemma ownedI:
  assumes "\<And>x. x \<in> L \<longleftrightarrow> entry (objects m) x \<noteq> None"
    and "\<And>x a. entry (objects m) x = Some (Some a) \<Longrightarrow> entry (ints m) a \<noteq> None"
    and "\<And>a. entry (ints m) a \<noteq> None \<Longrightarrow> \<exists>x. entry (objects m) x = Some (Some a)"
    and "\<And>x y a. entry (objects m) x = Some (Some a) \<Longrightarrow> entry (objects m) y = Some (Some a) \<Longrightarrow> x = y"
  shows "owned L m"
  using assms unfolding owned_def by blast

lemma owned_live: "owned L m \<Longrightarrow> x \<in> L \<longleftrightarrow> entry (objects m) x \<noteq> None"
  and owned_int: "owned L m \<Longrightarrow> entry (objects m) x = Some (Some a) \<Longrightarrow> entry (ints m) a \<noteq> None"
  and owned_owner: "owned L m \<Longrightarrow> entry (ints m) a \<noteq> None \<Longrightarrow> \<exists>x. entry (objects m) x = Some (Some a)"
  and owned_inj: "owned L m \<Longrightarrow> entry (objects m) x = Some (Some a) \<Longrightarrow> entry (objects m) y = Some (Some a) \<Longrightarrow> x = y"
  unfolding owned_def by blast+

lemma owned_new: "owned {} machine_new"
  by (simp add: owned_def machine_new_def)

lemma owned_value:
  assumes "owned L m" and "x \<in> L"
  obtains "value_of x m = Inr None" and "contents m x = None"
  | a v where "value_of x m = Inr (Some a)" and "entry (objects m) x = Some (Some a)"
    and "entry (ints m) a = Some v" and "contents m x = Some v"
proof -
  obtain p where p: "entry (objects m) x = Some p" using assms by (auto simp: owned_def)
  show thesis
  proof (cases p)
    case None
    then show ?thesis using p that(1) by (simp add: value_of_entry contents_def)
  next
    case (Some a)
    then obtain v where "entry (ints m) a = Some v" using owned_int [OF assms(1), of x a] p by auto
    then show ?thesis using p Some that(2) by (simp add: value_of_entry contents_def)
  qed
qed

lemma Value_contents:
  "owned L m \<Longrightarrow> x \<in> L \<Longrightarrow> Value x m = (case contents m x of None \<Rightarrow> Inl NullRead | Some v \<Rightarrow> Inr v)"
  by (erule (1) owned_value) (simp_all add: Value_def read_int_entry)

lemma SlowNumber_new_owned:
  assumes "owned L m"
  shows "\<exists>x m'. SlowNumber_new v m = (x, m') \<and> x \<notin> L \<and> owned (insert x L) m' \<and> stack m' = stack m
    \<and> contents m' = (contents m)(x := Some v)"
proof -
  let ?m = "m\<lparr>ints := ints m @ [Some v], objects := objects m @ [Some (Some (length (ints m)))]\<rparr>"
  have new: "SlowNumber_new v m = (length (objects m), ?m)"
    by (simp add: SlowNumber_new_def new_int_def new_object_def)
  have fresh: "entry (objects m) x \<noteq> Some (Some (length (ints m)))" for x
    using owned_int [OF assms, of x "length (ints m)"] by auto
  have new_x: "length (objects m) \<notin> L" using owned_live [OF assms] by simp
  moreover have "owned (insert (length (objects m)) L) ?m"
  proof (rule ownedI, goal_cases)
    case (3 a)
    show ?case
    proof (cases "a = length (ints m)")
      case False
      then obtain x where "entry (objects m) x = Some (Some a)" using 3 owned_owner [OF assms, of a] by auto
      then show ?thesis by (intro exI [of _ x]) (auto dest: entry_less)
    qed (auto intro!: exI [of _ "length (objects m)"])
  qed (use owned_live [OF assms] owned_int [OF assms] owned_inj [OF assms] fresh in \<open>auto split: if_splits\<close>)
  moreover have "contents ?m = (contents m)(length (objects m) := Some v)"
    using fresh by (auto simp: contents_def fun_eq_iff split: option.splits)
  ultimately show ?thesis using new by simp
qed

lemma SlowNumber_move_owned:
  assumes "owned L m" and "x \<in> L"
  shows "\<exists>y m'. SlowNumber_move x m = Inr (y, m') \<and> y \<notin> L \<and> owned (insert y L) m' \<and> stack m' = stack m
    \<and> contents m' = (contents m)(y := contents m x, x := None)"
proof -
  obtain p where p: "entry (objects m) x = Some p" using assms by (auto simp: owned_def)
  let ?y = "length (objects m)"
  let ?m = "m\<lparr>objects := (objects m @ [Some p])[x := Some None]\<rparr>"
  have "SlowNumber_move x m = Inr (?y, ?m)"
    by (simp add: SlowNumber_move_def value_of_entry p new_object_def set_value_def)
  moreover have "?y \<notin> L" using assms by (simp add: owned_def)
  moreover have "owned (insert ?y L) ?m"
  proof (rule ownedI, goal_cases)
    case (3 a)
    then obtain z where "entry (objects m) z = Some (Some a)" using owned_owner [OF assms(1), of a] by auto
    then show ?case using p entry_less [OF p] by (cases "z = x") (auto intro!: exI [of _ "if z = x then ?y else z"] dest: entry_less)
  qed (use owned_live [OF assms(1)] owned_int [OF assms(1)] owned_inj [OF assms(1)] p entry_less [OF p]
      in \<open>auto split: if_splits\<close>)
  moreover have "contents ?m = (contents m)(?y := contents m x, x := None)"
    using entry_less [OF p] p by (auto simp: contents_def fun_eq_iff split: option.splits)
  ultimately show ?thesis by simp
qed

lemma delete_owned:
  assumes "owned L m" and "entry (objects m) x = Some p"
  shows "\<exists>m1. delete_int p m = Inr m1 \<and> objects m1 = objects m \<and> stack m1 = stack m
    \<and> (\<forall>a. entry (ints m1) a = (if p = Some a then None else entry (ints m) a))"
proof (cases p)
  case None
  then show ?thesis by (simp add: delete_int_entry)
next
  case (Some a)
  then obtain v where v: "entry (ints m) a = Some v" using owned_int [OF assms(1), of x a] assms(2) by auto
  show ?thesis
    using v entry_less [OF v] Some by (auto simp: delete_int_entry)
qed

lemma move_assign_owned:
  assumes "owned L m" and "x \<in> L" and "y \<in> L"
  shows "\<exists>m'. move_assign x y m = Inr m' \<and> owned L m' \<and> stack m' = stack m
    \<and> contents m' = (contents m)(x := contents m y, y := None)"
proof -
  obtain p where p: "entry (objects m) x = Some p" using assms by (auto simp: owned_def)
  obtain q where q: "entry (objects m) y = Some q" using assms by (auto simp: owned_def)
  obtain m1 where m1: "delete_int p m = Inr m1" "objects m1 = objects m" "stack m1 = stack m"
    "\<And>a. entry (ints m1) a = (if p = Some a then None else entry (ints m) a)"
    using delete_owned [OF assms(1) p] by blast
  let ?m = "m1\<lparr>objects := (objects m)[x := Some q, y := Some None]\<rparr>"
  have "move_assign x y m = Inr ?m"
    using m1 q by (simp add: move_assign_def value_of_entry p set_value_def)
  moreover have "owned L ?m"
  proof (rule ownedI, goal_cases)
    case (3 a)
    then have a: "p \<noteq> Some a" "entry (ints m) a \<noteq> None" by (simp_all add: m1(4) split: if_splits)
    then obtain z where z: "entry (objects m) z = Some (Some a)" using owned_owner [OF assms(1)] by blast
    then have "z \<noteq> x" using a(1) p by auto
    then show ?case using z q entry_less [OF p] entry_less [OF q]
      by (intro exI [of _ "if z = y then x else z"]) auto
  qed (use owned_live [OF assms(1)] owned_int [OF assms(1)] owned_inj [OF assms(1)] assms(2,3) p q m1(4)
      entry_less [OF p] entry_less [OF q] in \<open>auto split: if_splits\<close>)
  moreover have "contents ?m z = ((contents m)(x := contents m y, y := None)) z" for z
  proof -
    have other: "entry (ints m1) a = entry (ints m) a" if "entry (objects m) w = Some (Some a)" "w \<noteq> x" for w a
      using owned_inj [OF assms(1) that(1), of x] that(2) p m1(4) by auto
    show ?thesis using p q entry_less [OF p] entry_less [OF q] other
      by (auto simp: contents_def split: option.split)
  qed
  ultimately show ?thesis using m1(3) by (simp add: fun_eq_iff)
qed

text \<open>Deleting what an object owns leaves it empty, or gone.\<close>

lemma release_owned:
  assumes "owned L m" and "x \<in> L" and "gone = Some None \<or> gone = None"
  shows "\<exists>p m1. value_of x m = Inr p \<and> delete_int p m = Inr m1 \<and> objects m1 = objects m \<and> stack m1 = stack m
    \<and> owned (if gone = None then L - {x} else L) (m1\<lparr>objects := (objects m)[x := gone]\<rparr>)
    \<and> contents (m1\<lparr>objects := (objects m)[x := gone]\<rparr>) = (contents m)(x := None)"
proof -
  obtain p where p: "entry (objects m) x = Some p" using assms by (auto simp: owned_def)
  obtain m1 where m1: "delete_int p m = Inr m1" "objects m1 = objects m" "stack m1 = stack m"
    "\<And>a. entry (ints m1) a = (if p = Some a then None else entry (ints m) a)"
    using delete_owned [OF assms(1) p] by blast
  let ?m = "m1\<lparr>objects := (objects m)[x := gone]\<rparr>"
  have "owned (if gone = None then L - {x} else L) ?m"
  proof (rule ownedI, goal_cases)
    case (3 a)
    then have a: "p \<noteq> Some a" "entry (ints m) a \<noteq> None" by (simp_all add: m1(4) split: if_splits)
    then obtain z where z: "entry (objects m) z = Some (Some a)" using owned_owner [OF assms(1)] by blast
    then have "z \<noteq> x" using a(1) p by auto
    then show ?case using z by auto
  qed (use owned_live [OF assms(1)] owned_int [OF assms(1)] owned_inj [OF assms(1)] assms(2,3) p m1(4)
      entry_less [OF p] in \<open>auto split: if_splits\<close>)
  moreover have "contents ?m z = ((contents m)(x := None)) z" for z
  proof -
    have other: "entry (ints m1) a = entry (ints m) a" if "entry (objects m) w = Some (Some a)" "w \<noteq> x" for w a
      using owned_inj [OF assms(1) that(1), of x] that(2) p m1(4) by auto
    show ?thesis using p entry_less [OF p] other assms(3) by (auto simp: contents_def split: option.split)
  qed
  ultimately show ?thesis using p m1 by (simp add: value_of_entry fun_eq_iff)
qed

lemma destroy_owned:
  assumes "owned L m" and "x \<in> L"
  shows "\<exists>m'. destroy x m = Inr m' \<and> owned (L - {x}) m' \<and> stack m' = stack m \<and> contents m' = (contents m)(x := None)"
  using release_owned [OF assms, of None] by (auto simp: destroy_def)

lemma acquire_owned:
  assumes "owned L m" and "entry (objects m) x = Some None"
  shows "owned L (m\<lparr>ints := ints m @ [Some v], objects := (objects m)[x := Some (Some (length (ints m)))]\<rparr>)"
    and "contents (m\<lparr>ints := ints m @ [Some v], objects := (objects m)[x := Some (Some (length (ints m)))]\<rparr>)
      = (contents m)(x := Some v)"
proof -
  let ?m = "m\<lparr>ints := ints m @ [Some v], objects := (objects m)[x := Some (Some (length (ints m)))]\<rparr>"
  have fresh: "entry (objects m) x \<noteq> Some (Some (length (ints m)))" for x
    using owned_int [OF assms(1), of x "length (ints m)"] by auto
  show "owned L ?m"
  proof (rule ownedI, goal_cases)
    case (3 a)
    show ?case
    proof (cases "a = length (ints m)")
      case False
      then obtain z where "entry (objects m) z = Some (Some a)" using 3 owned_owner [OF assms(1), of a] by auto
      then show ?thesis using assms(2) by (intro exI [of _ z]) auto
    qed (use entry_less [OF assms(2)] in \<open>auto intro!: exI [of _ x]\<close>)
  qed (use owned_live [OF assms(1)] owned_int [OF assms(1)] owned_inj [OF assms(1)] fresh assms(2) entry_less [OF assms(2)]
      in \<open>auto split: if_splits\<close>)
  show "contents ?m = (contents m)(x := Some v)"
    using fresh entry_less [OF assms(2)] by (auto simp: contents_def fun_eq_iff split: option.splits)
qed

lemma copy_assign_owned:
  assumes "owned L m" and "x \<in> L" and "y \<in> L"
  shows "\<exists>m'. copy_assign x y m = Inr m' \<and> owned L m' \<and> stack m' = stack m
    \<and> contents m' = (contents m)(x := if x = y then None else contents m y)"
proof -
  obtain p m1 where 1: "value_of x m = Inr p" "delete_int p m = Inr m1" "objects m1 = objects m" "stack m1 = stack m"
    and 2: "owned L (m1\<lparr>objects := (objects m)[x := Some None]\<rparr>)"
      "contents (m1\<lparr>objects := (objects m)[x := Some None]\<rparr>) = (contents m)(x := None)"
    using release_owned [OF assms(1,2), of "Some None"] by auto
  define m2 where "m2 = m1\<lparr>objects := (objects m)[x := Some None]\<rparr>"
  have m2: "set_value x None m1 = m2" "owned L m2" "contents m2 = (contents m)(x := None)" "stack m2 = stack m"
    using 1 2 by (simp_all add: m2_def set_value_def)
  have null: "entry (objects m2) x = Some None"
    using owned_live [OF assms(1)] assms(2) by (auto simp: m2_def dest: entry_less)
  show ?thesis using m2(2) assms(3)
  proof (cases rule: owned_value)
    case 1
    then show ?thesis using \<open>value_of x m = Inr p\<close> \<open>delete_int p m = Inr m1\<close> m2
      by (auto simp: copy_assign_def fun_eq_iff)
  next
    case (2 b v)
    then have "x \<noteq> y" using null by auto
    then show ?thesis
      using \<open>value_of x m = Inr p\<close> \<open>delete_int p m = Inr m1\<close> m2 2 acquire_owned [OF m2(2) null, of v]
      by (auto simp: copy_assign_def read_int_entry new_int_def set_value_def)
  qed
qed

lemma SlowNumber_copy_owned:
  assumes "owned L m" and "x \<in> L"
  shows "case contents m x of None \<Rightarrow> SlowNumber_copy x m = Inl NullRead
    | Some v \<Rightarrow> \<exists>y m'. SlowNumber_copy x m = Inr (y, m') \<and> y \<notin> L \<and> owned (insert y L) m' \<and> stack m' = stack m
        \<and> contents m' = (contents m)(y := Some v)"
proof -
  show ?thesis using assms
  proof (cases rule: owned_value)
    case (2 a v)
    then show ?thesis using SlowNumber_new_owned [OF assms(1), of v]
      by (auto simp: SlowNumber_copy_def read_int_entry)
  qed (simp add: SlowNumber_copy_def)
qed

section \<open>Commands\<close>

lemma swap_owned:
  assumes "owned L m" and "x \<in> L" and "y \<in> L"
  shows "\<exists>m'. swap_numbers x y m = Inr m' \<and> owned L m' \<and> stack m' = stack m
    \<and> (\<forall>z \<in> L. contents m' z = ((contents m)(x := contents m y, y := contents m x)) z)"
proof -
  obtain tmp m1 where 1: "SlowNumber_move x m = Inr (tmp, m1)" "tmp \<notin> L" "owned (insert tmp L) m1" "stack m1 = stack m"
    "contents m1 = (contents m)(tmp := contents m x, x := None)"
    using SlowNumber_move_owned [OF assms(1,2)] by blast
  obtain m2 where 2: "move_assign x y m1 = Inr m2" "owned (insert tmp L) m2" "stack m2 = stack m1"
    "contents m2 = (contents m1)(x := contents m1 y, y := None)"
    using move_assign_owned [OF 1(3), of x y] assms(2,3) by blast
  obtain m3 where 3: "move_assign y tmp m2 = Inr m3" "owned (insert tmp L) m3" "stack m3 = stack m2"
    "contents m3 = (contents m2)(y := contents m2 tmp, tmp := None)"
    using move_assign_owned [OF 2(2), of y tmp] assms(3) by blast
  obtain m4 where 4: "destroy tmp m3 = Inr m4" "owned (insert tmp L - {tmp}) m4" "stack m4 = stack m3"
    "contents m4 = (contents m3)(tmp := None)"
    using destroy_owned [OF 3(2), of tmp] by blast
  have "insert tmp L - {tmp} = L" using 1(2) by auto
  then show ?thesis using 1 2 3 4 assms(2,3) by (auto simp: swap_numbers_def)
qed

lemma pop_back_owned:
  assumes "owned (set (stack m)) m" and "stack m \<noteq> []"
  shows "\<exists>m'. pop_back m = Inr m' \<and> owned (set (stack m')) m' \<and> stack m' = butlast (stack m)
    \<and> (\<forall>z \<in> set (stack m'). contents m' z = contents m z)"
proof -
  let ?m = "m\<lparr>stack := butlast (stack m)\<rparr>"
  have stack: "set (stack m) = insert (last (stack m)) (set (butlast (stack m)))"
    using assms(2) by (metis append_butlast_last_id list.set(1,2) set_append sup_bot.right_neutral Un_insert_right)
  show ?thesis
  proof (cases "last (stack m) \<in> set (butlast (stack m))")
    case True
    then show ?thesis using assms(1) stack by (auto simp: pop_back_def owned_fields insert_absorb)
  next
    case False
    then have "insert (last (stack m)) (set (butlast (stack m))) - {last (stack m)} = set (butlast (stack m))" by auto
    then obtain m' where "destroy (last (stack m)) ?m = Inr m'" "owned (set (butlast (stack m))) m'"
      "stack m' = butlast (stack m)" "contents m' = (contents m)(last (stack m) := None)"
      using destroy_owned [of "set (stack m)" ?m "last (stack m)"] assms(1) stack by (auto simp: owned_fields)
    then show ?thesis using False by (auto simp: pop_back_def)
  qed
qed

text \<open>C27. Whatever the commands, no \<open>int\<close> is freed twice or used after it was freed, and none leaks: a command
  keeps the ownership, or it prints a number that was moved from.\<close>

theorem exec_keeps_ownership:
  assumes "owned (set (stack m)) m"
  shows "case exec c m of
      Inl e \<Rightarrow> e = NullRead \<and> c = Print \<and> (\<exists>x \<in> set (stack m). contents m x = None)
    | Inr (out, m') \<Rightarrow> owned (set (stack m')) m'"
proof (cases c)
  case (Push v)
  then show ?thesis using SlowNumber_new_owned [OF assms, of v] by (auto simp: owned_fields)
next
  case Pop
  then show ?thesis using pop_back_owned [OF assms] assms by auto
next
  case Print
  have "case emap (\<lambda>x. Value x m) xs of Inl e \<Rightarrow> e = NullRead \<and> (\<exists>x \<in> set xs. contents m x = None) | Inr vs \<Rightarrow> True"
    if "set xs \<subseteq> set (stack m)" for xs
    using that by (induction xs) (auto simp: Value_contents [OF assms] ebind_def split: sum.splits option.splits)
  from this [of "stack m"] show ?thesis using Print assms by (auto split: sum.splits simp: ebind_def)
next
  case (Swap i j)
  then show ?thesis
    using swap_owned [OF assms, of "stack m ! i" "stack m ! j"] assms by (auto simp: not_le)
next
  case Dup
  then show ?thesis using assms by (auto simp: owned_fields insert_absorb)
next
  case PopCarry
  show ?thesis
  proof (cases "length (stack m) < 2")
    case False
    then have "stack m ! (length (stack m) - 2) \<in> set (stack m)" "last (stack m) \<in> set (stack m)" "stack m \<noteq> []"
      by (auto intro!: last_in_set)
    then obtain m1 where m1: "move_assign (stack m ! (length (stack m) - 2)) (last (stack m)) m = Inr m1"
      "owned (set (stack m)) m1" "stack m1 = stack m"
      using move_assign_owned [OF assms] by blast
    then obtain m2 where "pop_back m1 = Inr m2" "owned (set (stack m2)) m2"
      using pop_back_owned [of m1] \<open>stack m \<noteq> []\<close> by auto
    then show ?thesis using PopCarry False m1 by simp
  qed (use PopCarry assms in simp)
qed (use assms in simp_all)

section \<open>Sessions without dup\<close>

text \<open>Without \<open>dup\<close> the stack is one of numbers.\<close>

fun spec_exec :: "command \<Rightarrow> int list \<Rightarrow> printed list \<times> int list" where
  "spec_exec (Push v) xs = ([], xs @ [v])"
| "spec_exec Pop xs = (if xs = [] then ([Message ''error: stack is empty''], xs) else ([], butlast xs))"
| "spec_exec Print xs = (map Number xs, xs)"
| "spec_exec (Swap i j) xs =
     (if i \<ge> length xs \<or> j \<ge> length xs then ([Message ''error: invalid index''], xs)
      else ([], xs[i := xs ! j, j := xs ! i]))"
| "spec_exec Dup xs = (if xs = [] then ([Message ''error: stack is empty''], xs) else ([], xs @ [last xs]))"
| "spec_exec PopCarry xs =
     (if length xs < 2 then ([Message ''error: stack size must be greater than 2''], xs)
      else ([], butlast (butlast xs) @ [last xs]))"
| "spec_exec Quit xs = ([], xs)"
| "spec_exec Unknown xs = ([Message ''unknown cmd''], xs)"

definition numbers :: "machine \<Rightarrow> int list" where
  "numbers m = map (\<lambda>x. the (contents m x)) (stack m)"

definition plain :: "machine \<Rightarrow> bool" where
  "plain m \<longleftrightarrow> owned (set (stack m)) m \<and> distinct (stack m) \<and> (\<forall>x \<in> set (stack m). contents m x \<noteq> None)"

lemma plain_Print:
  assumes "plain m"
  shows "emap (\<lambda>x. Value x m) (stack m) = Inr (numbers m)"
proof -
  have "Value x m = Inr (the (contents m x))" if "x \<in> set (stack m)" for x
    using assms that Value_contents [of "set (stack m)" m x] by (auto simp: plain_def)
  then show ?thesis unfolding numbers_def by (rule emap_all_Inr)
qed

lemma plain_pop_back:
  assumes "owned (set (stack m)) m" and "distinct (stack m)" and "stack m \<noteq> []"
    and "\<forall>x \<in> set (butlast (stack m)). contents m x \<noteq> None"
  shows "\<exists>m'. pop_back m = Inr m' \<and> plain m' \<and> stack m' = butlast (stack m)
    \<and> numbers m' = map (\<lambda>x. the (contents m x)) (butlast (stack m))"
  using pop_back_owned [OF assms(1,3)] assms(2,4) by (auto simp: plain_def numbers_def distinct_butlast)

lemma plain_swap:
  assumes "plain m" and "i < length (stack m)" and "j < length (stack m)"
  shows "\<exists>m'. swap_numbers (stack m ! i) (stack m ! j) m = Inr m' \<and> plain m'
    \<and> numbers m' = (numbers m)[i := numbers m ! j, j := numbers m ! i]"
proof -
  let ?x = "stack m ! i" and ?y = "stack m ! j"
  have own: "owned (set (stack m)) m" and dist: "distinct (stack m)" using assms(1) by (simp_all add: plain_def)
  obtain m' where m': "swap_numbers ?x ?y m = Inr m'" "owned (set (stack m)) m'" "stack m' = stack m"
    "\<forall>z \<in> set (stack m). contents m' z = ((contents m)(?x := contents m ?y, ?y := contents m ?x)) z"
    using swap_owned [OF own nth_mem [OF assms(2)] nth_mem [OF assms(3)]] by blast
  have "numbers m' = (numbers m)[i := numbers m ! j, j := numbers m ! i]"
  proof (rule nth_equalityI)
    fix k assume "k < length (numbers m')"
    then have k: "k < length (stack m)" using m'(3) by (simp add: numbers_def)
    then show "numbers m' ! k = (numbers m)[i := numbers m ! j, j := numbers m ! i] ! k"
      using assms(2,3) m'(3,4) dist nth_mem [OF k]
      by (auto simp: numbers_def nth_list_update nth_eq_iff_index_eq)
  qed (simp add: numbers_def m'(3))
  moreover have "plain m'"
    using assms m' by (auto simp: plain_def)
  ultimately show ?thesis using m'(1) by blast
qed

lemma plain_pop_carry:
  assumes "plain m" and "\<not> length (stack m) < 2"
  shows "\<exists>m' m1. move_assign (stack m ! (length (stack m) - 2)) (last (stack m)) m = Inr m1 \<and> pop_back m1 = Inr m'
    \<and> plain m' \<and> numbers m' = butlast (butlast (numbers m)) @ [last (numbers m)]"
proof -
  obtain xs x y where st: "stack m = xs @ [x, y]"
    using assms(2) by (metis append.assoc append_Cons append_Nil length_0_conv length_Suc_conv_rev not_less less_2_cases_iff numeral_2_eq_2 rev_exhaust One_nat_def)
  have x: "stack m ! (length (stack m) - 2) = x" "last (stack m) = y" using st by (simp_all add: nth_append)
  have own: "owned (set (stack m)) m" and dist: "distinct (stack m)" using assms(1) by (simp_all add: plain_def)
  obtain m1 where m1: "move_assign x y m = Inr m1" "owned (set (stack m)) m1" "stack m1 = stack m"
    "contents m1 = (contents m)(x := contents m y, y := None)"
    using move_assign_owned [OF own, of x y] st by auto
  have "\<forall>z \<in> set (butlast (stack m1)). contents m1 z \<noteq> None"
    using m1(3,4) st dist assms(1) by (auto simp: butlast_append plain_def)
  then obtain m' where m': "pop_back m1 = Inr m'" "plain m'"
    "numbers m' = map (\<lambda>x. the (contents m1 x)) (butlast (stack m1))"
    using plain_pop_back [of m1] m1 dist st by auto
  have "numbers m' = butlast (butlast (numbers m)) @ [last (numbers m)]"
    using m'(3) m1(3,4) st dist by (auto simp: numbers_def butlast_append)
  then show ?thesis using m' m1(1) x by auto
qed

interpretation slow_stack: refines_for exec spec_exec plain numbers "\<lambda>c. c \<noteq> Dup"
proof unfold_locales
  fix c m assume c: "c \<noteq> Dup" and m: "plain m"
  have own: "owned (set (stack m)) m" using m by (simp add: plain_def)
  have empty: "numbers m = [] \<longleftrightarrow> stack m = []" "length (numbers m) = length (stack m)" by (simp_all add: numbers_def)
  show "\<exists>m'. exec c m = Inr (fst (spec_exec c (numbers m)), m') \<and> plain m' \<and> numbers m' = snd (spec_exec c (numbers m))"
  proof (cases c)
    case (Push v)
    then show ?thesis using SlowNumber_new_owned [OF own, of v] m
      by (auto simp: plain_def numbers_def owned_fields)
  next
    case Pop
    show ?thesis
    proof (cases "stack m = []")
      case False
      then show ?thesis using plain_pop_back [of m] Pop m
        by (auto simp: plain_def numbers_def map_butlast in_set_butlastD)
    qed (use Pop m empty in simp)
  next
    case (Swap i j)
    show ?thesis
    proof (cases "i \<ge> length (stack m) \<or> j \<ge> length (stack m)")
      case False
      then show ?thesis using plain_swap [OF m, of i j] Swap empty by (auto simp: not_le)
    qed (use Swap m empty in auto)
  next
    case PopCarry
    show ?thesis
    proof (cases "length (stack m) < 2")
      case False
      then show ?thesis using plain_pop_carry [OF m False] PopCarry empty by auto
    qed (use PopCarry m empty in auto)
  qed (use c m plain_Print [OF m] in simp_all)
qed

section \<open>The whole program\<close>

text \<open>The commands that are read do not depend on the stack.\<close>

fun commands :: "nat \<Rightarrow> stream \<Rightarrow> command list" where
  "commands 0 s = []"
| "commands (Suc n) s = (let (c, s') = read_command s in if c = Quit then [] else c # commands n s')"

lemma stack_loop_run:
  "stack_loop n s m = ebind (run_all exec (commands n s) m) (\<lambda>(out, m'). Inr (concat out))"
  by (induction n s arbitrary: m rule: commands.induct)
    (auto simp: Let_def ebind_def split: prod.splits sum.splits)

text \<open>C28. A session without \<open>dup\<close> prints what a stack of numbers prints, and never misbehaves.\<close>

theorem stack_session_refines:
  assumes "Dup \<notin> set (commands 1000 (open_stream input))"
  shows "stack_main input = Inr (concat (fst (spec_all spec_exec (commands 1000 (open_stream input)) [])))"
proof -
  have new: "plain machine_new" "numbers machine_new = []"
    by (simp_all add: plain_def numbers_def machine_new_def owned_def)
  have "list_all (\<lambda>c. c \<noteq> Dup) (commands 1000 (open_stream input))"
    using assms by (auto simp: list_all_iff)
  from slow_stack.run_allowed_refines [OF this new(1)] show ?thesis
    by (auto simp: stack_main_def stack_loop_run new(2))
qed

definition carry_input :: string where
  "carry_input = ''push'' @ [CHR 0x0A] @ ''1'' @ [CHR 0x0A] @ ''push'' @ [CHR 0x0A] @ ''2'' @ [CHR 0x0A]
     @ ''swap'' @ [CHR 0x0A] @ ''0 1'' @ [CHR 0x0A] @ ''pop_carry'' @ [CHR 0x0A] @ ''print'' @ [CHR 0x0A]"

lemma commands_carry: "commands 1000 (open_stream carry_input) = [Push 1, Push 2, Swap 0 1, PopCarry, Print, Unknown]"
  by code_simp

theorem stack_session_refines_witness:
  "stack_main carry_input = Inr [Number 1, Message ''unknown cmd'']"
  using stack_session_refines [of carry_input] by (simp add: commands_carry)

theorem exec_keeps_ownership_witness:
  "case exec PopCarry \<lparr>ints = [Some 5], objects = [Some (Some 0)], stack = [0, 0]\<rparr> of
      Inl e \<Rightarrow> False | Inr (out, m') \<Rightarrow> owned {0} m' \<and> contents m' 0 = None"
proof -
  let ?m = "\<lparr>ints = [Some 5], objects = [Some (Some 0)], stack = [0, 0]\<rparr>"
  have "owned (set (stack ?m)) ?m" by (auto simp: owned_def entry_def)
  moreover have "exec PopCarry ?m = Inr ([], \<lparr>ints = [None], objects = [Some None], stack = [0]\<rparr>)"
    by code_simp
  ultimately show ?thesis using exec_keeps_ownership [of ?m PopCarry] by (simp add: contents_def entry_def)
qed

text \<open>With \<open>dup\<close> a number can be moved onto itself, which empties it, and printing it reads through a
  null pointer.\<close>

definition dup_input :: string where
  "dup_input = ''push'' @ [CHR 0x0A] @ ''1'' @ [CHR 0x0A] @ ''dup'' @ [CHR 0x0A] @ ''pop_carry'' @ [CHR 0x0A] @ ''print'' @ [CHR 0x0A]"

lemma dup_carry_print: "stack_main dup_input = Inl NullRead"
proof -
  have "commands 1000 (open_stream dup_input) = [Push 1, Dup, PopCarry, Print, Unknown]" by code_simp
  moreover have "run_all exec [Push 1, Dup, PopCarry, Print, Unknown] machine_new = Inl NullRead" by code_simp
  ultimately show ?thesis by (simp add: stack_main_def stack_loop_run)
qed

end
