(* ===== verification/MpscStack.thy ===== *)
theory MpscStack
  imports Locks
begin

text \<open>
  The lock-free stack with many producers and one consumer (\<open>tasks/lock-free/mpsc-stack\<close>), as a
  state machine. A step is one access to the atomic \<open>head_\<close> or to a node that other threads can see.
  The weak compare-and-exchange may fail for no reason, and \<open>new\<close> may return any address that is
  free, one that was deleted included. Thread 0 is the consumer.
\<close>

section \<open>State\<close>

type_synonym addr = nat

record 'v node =
  node_value :: 'v
  next_node :: "addr option"

text \<open>What a thread does: outside; in the loop of \<open>Push\<close> with its new node and what it expects; about to
  test what it expects in \<open>Pop\<close>; about to exchange \<open>head_\<close> with the successor it read; having
  taken a node out; about to look at \<open>head_\<close>, or to call \<open>Pop\<close>, in \<open>DequeueAll\<close>.\<close>

datatype mp_phase =
    Outside | Pushing addr "addr option" | Popping "addr option" | Swinging addr "addr option" | Unlinked addr
  | Draining | Loading

text \<open>The log holds the operations in the order in which they take effect, and \<open>returned\<close> what \<open>Pop\<close>
  returned; both are only observed.\<close>

datatype 'v event = Pushed 'v | Popped

record 'v mpsc =
  head :: "addr option"
  nodes :: "addr \<Rightarrow> 'v node option"
  mp_phase_of :: "nat \<Rightarrow> mp_phase"
  draining :: bool
  log :: "'v event list"
  returned :: "'v option list"

definition MPSCStack_new :: "'v mpsc" where
  "MPSCStack_new = \<lparr>head = None, nodes = (\<lambda>a. None), mp_phase_of = (\<lambda>t. Outside), draining = False, log = [], returned = []\<rparr>"

definition mp_goto :: "nat \<Rightarrow> mp_phase \<Rightarrow> 'v mpsc \<Rightarrow> 'v mpsc" where
  "mp_goto t p s = s\<lparr>mp_phase_of := (mp_phase_of s)(t := p)\<rparr>"

section \<open>Push\<close>

fun Push_start :: "nat \<Rightarrow> 'v \<Rightarrow> addr \<Rightarrow> 'v mpsc \<Rightarrow> 'v mpsc option" where
  "Push_start t v a s =
     (if mp_phase_of s t = Outside \<and> nodes s a = None
      then Some (mp_goto t (Pushing a None) (s\<lparr>nodes := (nodes s)(a := Some \<lparr>node_value = v, next_node = None\<rparr>)\<rparr>))
      else None)"

fun Push_cas :: "nat \<Rightarrow> bool \<Rightarrow> 'v mpsc \<Rightarrow> 'v mpsc option" where
  "Push_cas t spurious s =
     (case (mp_phase_of s t) of
        Pushing a expected \<Rightarrow>
          (case nodes s a of
             None \<Rightarrow> None
           | Some new_head \<Rightarrow>
               if head s = expected \<and> \<not> spurious
               then Some (mp_goto t Outside (s\<lparr>head := Some a, log := log s @ [Pushed (node_value new_head)]\<rparr>))
               else Some (mp_goto t (Pushing a (head s))
                 (s\<lparr>nodes := (nodes s)(a := Some (new_head\<lparr>next_node := head s\<rparr>))\<rparr>)))
      | _ \<Rightarrow> None)"

section \<open>Pop\<close>

text \<open>The consumer takes over what it expects; finding nothing is an operation that takes effect here.\<close>

definition expect :: "addr option \<Rightarrow> 'v mpsc \<Rightarrow> 'v mpsc" where
  "expect p s = mp_goto 0 (Popping p) (if p = None then s\<lparr>log := log s @ [Popped]\<rparr> else s)"

definition return_value :: "'v option \<Rightarrow> 'v mpsc \<Rightarrow> 'v mpsc" where
  "return_value r s = mp_goto 0 (if draining s then Draining else Outside) (s\<lparr>returned := returned s @ [r]\<rparr>)"

fun Pop_load :: "'v mpsc \<Rightarrow> 'v mpsc option" where
  "Pop_load s =
     (if mp_phase_of s 0 = Outside \<or> mp_phase_of s 0 = Loading then Some (expect (head s) s) else None)"

fun Pop_test :: "'v mpsc \<Rightarrow> 'v mpsc option" where
  "Pop_test s =
     (case mp_phase_of s 0 of
        Popping None \<Rightarrow> Some (return_value None s)
      | Popping (Some a) \<Rightarrow> map_option (\<lambda>expected. mp_goto 0 (Swinging a (next_node expected)) s) (nodes s a)
      | _ \<Rightarrow> None)"

fun Pop_cas :: "bool \<Rightarrow> 'v mpsc \<Rightarrow> 'v mpsc option" where
  "Pop_cas spurious s =
     (case mp_phase_of s 0 of
        Swinging a next \<Rightarrow>
          if head s = Some a \<and> \<not> spurious
          then Some (mp_goto 0 (Unlinked a) (s\<lparr>head := next, log := log s @ [Popped]\<rparr>))
          else Some (expect (head s) s)
      | _ \<Rightarrow> None)"

fun Pop_end :: "'v mpsc \<Rightarrow> 'v mpsc option" where
  "Pop_end s =
     (case mp_phase_of s 0 of
        Unlinked a \<Rightarrow>
          map_option (\<lambda>expected. return_value (Some (node_value expected)) (s\<lparr>nodes := (nodes s)(a := None)\<rparr>)) (nodes s a)
      | _ \<Rightarrow> None)"

section \<open>DequeueAll and the destructor\<close>

fun DequeueAll_start :: "'v mpsc \<Rightarrow> 'v mpsc option" where
  "DequeueAll_start s = (if mp_phase_of s 0 = Outside then Some (mp_goto 0 Draining (s\<lparr>draining := True\<rparr>)) else None)"

fun DequeueAll_test :: "'v mpsc \<Rightarrow> 'v mpsc option" where
  "DequeueAll_test s =
     (if mp_phase_of s 0 = Draining then
        if head s \<noteq> None then Some (mp_goto 0 Loading s)
        else Some (mp_goto 0 Outside (s\<lparr>draining := False\<rparr>))
      else None)"

text \<open>The destructor of a node deletes its successor first; \<open>n\<close> bounds the depth of the recursion, and
  \<open>None\<close> is a node that was deleted before.\<close>

primrec delete_node :: "nat \<Rightarrow> addr option \<Rightarrow> (addr \<Rightarrow> 'v node option) \<Rightarrow> (addr \<Rightarrow> 'v node option) option" where
  "delete_node 0 p h = None"
| "delete_node (Suc n) p h =
     (case p of
        None \<Rightarrow> Some h
      | Some a \<Rightarrow>
          (case h a of
             None \<Rightarrow> None
           | Some nd \<Rightarrow> map_option (\<lambda>h'. h'(a := None)) (delete_node n (next_node nd) h)))"

section \<open>Steps\<close>

inductive mp_step :: "'v mpsc \<Rightarrow> 'v mpsc \<Rightarrow> bool" where
  "Push_start t v a s = Some s' \<Longrightarrow> mp_step s s'"
| "Push_cas t spurious s = Some s' \<Longrightarrow> mp_step s s'"
| "Pop_load s = Some s' \<Longrightarrow> mp_step s s'"
| "Pop_test s = Some s' \<Longrightarrow> mp_step s s'"
| "Pop_cas spurious s = Some s' \<Longrightarrow> mp_step s s'"
| "Pop_end s = Some s' \<Longrightarrow> mp_step s s'"
| "DequeueAll_start s = Some s' \<Longrightarrow> mp_step s s'"
| "DequeueAll_test s = Some s' \<Longrightarrow> mp_step s s'"

text \<open>The next step of a thread would reach for a node that was deleted.\<close>

definition faults :: "nat \<Rightarrow> 'v mpsc \<Rightarrow> bool" where
  "faults t s =
     (case mp_phase_of s t of
        Pushing a e \<Rightarrow> nodes s a = None
      | Popping (Some a) \<Rightarrow> nodes s a = None
      | Unlinked a \<Rightarrow> nodes s a = None
      | _ \<Rightarrow> False)"

section \<open>The abstract stack\<close>

fun act :: "'v list \<times> 'v option list \<Rightarrow> 'v event \<Rightarrow> 'v list \<times> 'v option list" where
  "act (vs, out) (Pushed v) = (v # vs, out)"
| "act ([], out) Popped = ([], out @ [None])"
| "act (v # vs, out) Popped = (vs, out @ [Some v])"

definition replay :: "'v event list \<Rightarrow> 'v list \<times> 'v option list" where
  "replay es = foldl act ([], []) es"

lemma replay_simps [simp]:
  "replay [] = ([], [])"
  "replay (es @ [e]) = act (replay es) e"
  by (simp_all add: replay_def)

section \<open>Chains of nodes\<close>

primrec chain :: "(addr \<Rightarrow> 'v node option) \<Rightarrow> addr option \<Rightarrow> addr list \<Rightarrow> bool" where
  "chain h p [] \<longleftrightarrow> p = None"
| "chain h p (a # as) \<longleftrightarrow> p = Some a \<and> (\<exists>nd. h a = Some nd \<and> chain h (next_node nd) as)"

definition node_values :: "(addr \<Rightarrow> 'v node option) \<Rightarrow> addr list \<Rightarrow> 'v list" where
  "node_values h as = map (\<lambda>a. node_value (the (h a))) as"

lemma chain_None [simp]: "chain h None as \<longleftrightarrow> as = []"
  by (cases as) auto

lemma chain_update: "a \<notin> set as \<Longrightarrow> chain (h(a := nd)) p as = chain h p as"
  by (induction as arbitrary: p) auto

lemma values_update: "a \<notin> set as \<Longrightarrow> node_values (h(a := nd)) as = node_values h as"
  by (auto simp: node_values_def)

lemma chain_live: "chain h p as \<Longrightarrow> a \<in> set as \<Longrightarrow> h a \<noteq> None"
  by (induction as arbitrary: p) auto

lemma chain_next:
  "chain h p as \<Longrightarrow> h a = Some nd \<Longrightarrow> a \<in> set as \<Longrightarrow> next_node nd = Some b \<Longrightarrow> b \<in> set as"
proof (induction as arbitrary: p)
  case (Cons c as)
  then show ?case by (cases "a = c"; cases as) auto
qed simp

lemma delete_chain:
  "chain h p as \<Longrightarrow> distinct as \<Longrightarrow> length as < n \<Longrightarrow>
   delete_node n p h = Some (\<lambda>a. if a \<in> set as then None else h a)"
proof (induction as arbitrary: p n)
  case Nil
  then show ?case by (cases n) simp_all
next
  case (Cons b as)
  then show ?case by (cases n) (auto simp: fun_eq_iff)
qed

section \<open>The invariant\<close>

text \<open>What \<open>Pop\<close> is about to return.\<close>

definition pending :: "'v mpsc \<Rightarrow> 'v option list" where
  "pending s =
     (case mp_phase_of s 0 of
        Popping None \<Rightarrow> [None]
      | Unlinked a \<Rightarrow> [Some (node_value (the (nodes s a)))]
      | _ \<Rightarrow> [])"

text \<open>The nodes reached from \<open>head_\<close> are those of the abstract stack; a node in the making belongs to one
  thread; the consumer's nodes are where it believes they are; and every node has an owner.\<close>

definition stack_ok :: "'v mpsc \<Rightarrow> addr list \<Rightarrow> bool" where
  "stack_ok s as \<longleftrightarrow>
     chain (nodes s) (head s) as \<and> distinct as
   \<and> replay (log s) = (node_values (nodes s) as, returned s @ pending s)"

definition producers_ok :: "'v mpsc \<Rightarrow> addr list \<Rightarrow> bool" where
  "producers_ok s as \<longleftrightarrow>
     (\<forall>t a e. mp_phase_of s t = Pushing a e \<longrightarrow> a \<notin> set as \<and> (\<exists>v. nodes s a = Some \<lparr>node_value = v, next_node = e\<rparr>))
   \<and> (\<forall>t u a e e'. mp_phase_of s t = Pushing a e \<and> mp_phase_of s u = Pushing a e' \<longrightarrow> t = u)
   \<and> (\<forall>t. t \<noteq> 0 \<longrightarrow> mp_phase_of s t = Outside \<or> (\<exists>a e. mp_phase_of s t = Pushing a e))"

definition consumer_ok :: "'v mpsc \<Rightarrow> addr list \<Rightarrow> bool" where
  "consumer_ok s as \<longleftrightarrow>
     (case mp_phase_of s 0 of
        Popping (Some a) \<Rightarrow> a \<in> set as
      | Swinging a p \<Rightarrow> a \<in> set as \<and> next_node (the (nodes s a)) = p
      | Unlinked a \<Rightarrow> a \<notin> set as \<and> nodes s a \<noteq> None \<and> (\<forall>t e. mp_phase_of s t \<noteq> Pushing a e)
      | _ \<Rightarrow> True)"

definition no_leak :: "'v mpsc \<Rightarrow> addr list \<Rightarrow> bool" where
  "no_leak s as \<longleftrightarrow>
     (\<forall>a. nodes s a \<noteq> None \<longrightarrow> a \<in> set as \<or> (\<exists>t e. mp_phase_of s t = Pushing a e) \<or> mp_phase_of s 0 = Unlinked a)"

definition mp_inv :: "'v mpsc \<Rightarrow> bool" where
  "mp_inv s \<longleftrightarrow> (\<exists>as. stack_ok s as \<and> producers_ok s as \<and> consumer_ok s as \<and> no_leak s as)"

lemma goto_simps [simp]:
  "mp_phase_of (mp_goto t p s) = (mp_phase_of s)(t := p)" "head (mp_goto t p s) = head s"
  "nodes (mp_goto t p s) = nodes s" "log (mp_goto t p s) = log s" "returned (mp_goto t p s) = returned s"
  "draining (mp_goto t p s) = draining s"
  by (simp_all add: mp_goto_def)

lemma mp_inv_new: "mp_inv MPSCStack_new"
  by (auto simp: mp_inv_def MPSCStack_new_def stack_ok_def producers_ok_def consumer_ok_def no_leak_def pending_def
      node_values_def intro!: exI [of _ "[]"])

lemma no_leak_step:
  assumes "no_leak s as"
    and "\<And>b. nodes s' b \<noteq> None \<Longrightarrow> nodes s b \<noteq> None \<or> (\<exists>u e. mp_phase_of s' u = Pushing b e)"
    and "\<And>b. b \<in> set as \<Longrightarrow> b \<in> set bs \<or> mp_phase_of s' 0 = Unlinked b"
    and "\<And>u b e. mp_phase_of s u = Pushing b e \<Longrightarrow> b \<in> set bs \<or> (\<exists>e. mp_phase_of s' u = Pushing b e)"
    and "\<And>b. mp_phase_of s 0 = Unlinked b \<Longrightarrow> mp_phase_of s' 0 = Unlinked b \<or> nodes s' b = None"
  shows "no_leak s' bs"
  unfolding no_leak_def
proof (intro allI impI)
  fix b assume b: "nodes s' b \<noteq> None"
  show "b \<in> set bs \<or> (\<exists>t e. mp_phase_of s' t = Pushing b e) \<or> mp_phase_of s' 0 = Unlinked b"
  proof (cases "nodes s b = None")
    case True
    then show ?thesis using assms(2) [OF b] by blast
  next
    case False
    then consider "b \<in> set as" | u e where "mp_phase_of s u = Pushing b e" | "mp_phase_of s 0 = Unlinked b"
      using assms(1) unfolding no_leak_def by blast
    then show ?thesis
    proof cases
      case 3
      then show ?thesis using assms(5) b by auto
    qed (use assms(3,4) in blast)+
  qed
qed

lemma Push_start_inv:
  assumes "Push_start t v a s = Some s'" and "mp_inv s"
  shows "mp_inv s'"
proof -
  obtain as where as: "stack_ok s as" "producers_ok s as" "consumer_ok s as" "no_leak s as"
    using assms(2) by (auto simp: mp_inv_def)
  have t: "mp_phase_of s t = Outside" "nodes s a = None"
    and s': "s' = mp_goto t (Pushing a None) (s\<lparr>nodes := (nodes s)(a := Some \<lparr>node_value = v, next_node = None\<rparr>)\<rparr>)"
    using assms(1) by (auto split: if_splits)
  have a: "a \<notin> set as" using as(1) t(2) chain_live by (fastforce simp: stack_ok_def)
  have fresh: "mp_phase_of s u \<noteq> Pushing a e" for u e using as(2) t(2) by (fastforce simp: producers_ok_def)
  have "pending s' = pending s" and unl: "mp_phase_of s 0 \<noteq> Unlinked a"
    using as(3) t by (cases "t = 0"; auto simp: pending_def s' consumer_ok_def split: mp_phase.splits option.splits)+
  then have "stack_ok s' as" using as(1) a by (simp add: stack_ok_def s' chain_update values_update)
  moreover have "producers_ok s' as" using as(2) t a fresh unfolding producers_ok_def s' by auto
  moreover have "consumer_ok s' as"
    using as(3) t a by (auto simp: consumer_ok_def s' split: mp_phase.splits option.splits)
  moreover have "no_leak s' as" by (rule no_leak_step [OF as(4)]) (use t in \<open>auto simp: s' split: if_splits\<close>)
  ultimately show ?thesis by (auto simp: mp_inv_def)
qed

lemma Push_cas_inv:
  assumes "Push_cas t spurious s = Some s'" and "mp_inv s"
  shows "mp_inv s'"
proof -
  obtain as where as: "stack_ok s as" "producers_ok s as" "consumer_ok s as" "no_leak s as"
    using assms(2) by (auto simp: mp_inv_def)
  obtain a e where t: "mp_phase_of s t = Pushing a e" using assms(1) by (auto split: mp_phase.splits)
  then obtain v where a: "a \<notin> set as" "nodes s a = Some \<lparr>node_value = v, next_node = e\<rparr>"
    using as(2) by (fastforce simp: producers_ok_def)
  have other: "mp_phase_of s u = Pushing a e' \<Longrightarrow> u = t" for u e' using as(2) t unfolding producers_ok_def by blast
  show ?thesis
  proof (cases "head s = e \<and> \<not> spurious")
    case True
    then have s': "s' = mp_goto t Outside (s\<lparr>head := Some a, log := log s @ [Pushed v]\<rparr>)"
      using assms(1) t a by simp
    have "pending s' = pending s"
      using t by (cases "t = 0") (auto simp: pending_def s' split: mp_phase.splits option.splits)
    then have "stack_ok s' (a # as)"
      using as(1) a True by (simp add: stack_ok_def s' node_values_def)
    moreover have "producers_ok s' (a # as)" using as(2) a other unfolding producers_ok_def s' by auto
    moreover have "consumer_ok s' (a # as)"
      using as(3) t by (auto simp: consumer_ok_def s' split: mp_phase.splits option.splits)
    moreover have "no_leak s' (a # as)" by (rule no_leak_step [OF as(4)]) (use t in \<open>auto simp: s' split: if_splits\<close>)
    ultimately show ?thesis by (auto simp: mp_inv_def)
  next
    case False
    then have s': "s' = mp_goto t (Pushing a (head s))
        (s\<lparr>nodes := (nodes s)(a := Some \<lparr>node_value = v, next_node = head s\<rparr>)\<rparr>)"
      using assms(1) t a by auto
    have unl: "mp_phase_of s 0 \<noteq> Unlinked a" using as(3) t by (auto simp: consumer_ok_def)
    then have "pending s' = pending s"
      using t by (cases "t = 0") (auto simp: pending_def s' split: mp_phase.splits option.splits)
    then have "stack_ok s' as" using as(1) a by (simp add: stack_ok_def s' chain_update values_update)
    moreover have "producers_ok s' as" using as(2) a other unfolding producers_ok_def s' by auto
    moreover have "consumer_ok s' as"
      using as(3) t a unl by (auto simp: consumer_ok_def s' split: mp_phase.splits option.splits)
    moreover have "no_leak s' as" by (rule no_leak_step [OF as(4)]) (use t in \<open>auto simp: s' split: if_splits\<close>)
    ultimately show ?thesis by (auto simp: mp_inv_def)
  qed
qed

text \<open>A step of the consumer that changes no node and no producer.\<close>

lemma consumer_step:
  assumes "producers_ok s as" and "\<And>t. t \<noteq> 0 \<Longrightarrow> mp_phase_of s' t = mp_phase_of s t" and "nodes s' = nodes s"
    and "\<And>a e. mp_phase_of s 0 \<noteq> Pushing a e" and "\<And>a e. mp_phase_of s' 0 \<noteq> Pushing a e"
  shows "producers_ok s' as"
proof -
  have "mp_phase_of s' t = Pushing a e \<longleftrightarrow> mp_phase_of s t = Pushing a e" for t a e
    using assms(2,4,5) by (cases "t = 0") auto
  then show ?thesis using assms(1-3) by (auto simp: producers_ok_def)
qed

lemma expect_inv:
  assumes "stack_ok s as" "producers_ok s as" "no_leak s as" and "pending s = []"
    and "\<And>a e. mp_phase_of s 0 \<noteq> Pushing a e" and "\<And>a. mp_phase_of s 0 \<noteq> Unlinked a"
  shows "mp_inv (expect (head s) s)"
proof -
  let ?s = "expect (head s) s"
  have fields: "nodes ?s = nodes s" "head ?s = head s" "returned ?s = returned s"
    "mp_phase_of ?s = (mp_phase_of s)(0 := Popping (head s))"
    "log ?s = (if head s = None then log s @ [Popped] else log s)"
    by (simp_all add: expect_def)
  have as: "head s = None \<longleftrightarrow> as = []" "\<And>a. head s = Some a \<Longrightarrow> a \<in> set as"
    using assms(1) by (cases as; auto simp: stack_ok_def)+
  have "stack_ok ?s as"
    using assms(1,4) as(1) by (auto simp: stack_ok_def fields pending_def node_values_def split: option.splits)
  moreover have "producers_ok ?s as" by (rule consumer_step [OF assms(2)]) (use assms(5) fields in auto)
  moreover have "no_leak ?s as" by (rule no_leak_step [OF assms(3)]) (use assms(5,6) fields in \<open>auto split: if_splits\<close>)
  moreover have "consumer_ok ?s as" using as(2) by (simp add: consumer_ok_def fields split: option.splits)
  ultimately show ?thesis by (auto simp: mp_inv_def)
qed

lemma goto_inv:
  assumes "stack_ok s as" "producers_ok s as" "no_leak s as" and "pending s = []"
    and "\<And>a e. mp_phase_of s 0 \<noteq> Pushing a e" and "\<And>a. mp_phase_of s 0 \<noteq> Unlinked a"
    and "p = Outside \<or> p = Draining \<or> p = Loading"
  shows "mp_inv (mp_goto 0 p s)"
proof -
  have "stack_ok (mp_goto 0 p s) as" using assms(1,4,7) by (auto simp: stack_ok_def pending_def)
  moreover have "producers_ok (mp_goto 0 p s) as" by (rule consumer_step [OF assms(2)]) (use assms(5,7) in auto)
  moreover have "no_leak (mp_goto 0 p s) as"
    by (rule no_leak_step [OF assms(3)]) (use assms(5,6) in \<open>auto split: if_splits\<close>)
  moreover have "consumer_ok (mp_goto 0 p s) as" using assms(7) by (auto simp: consumer_ok_def)
  ultimately show ?thesis by (auto simp: mp_inv_def)
qed

lemma Pop_load_inv: "Pop_load s = Some s' \<Longrightarrow> mp_inv s \<Longrightarrow> mp_inv s'"
  unfolding mp_inv_def [of s]
  by (auto split: if_splits simp: pending_def intro!: expect_inv)

lemma Pop_cas_inv:
  assumes "Pop_cas spurious s = Some s'" and "mp_inv s"
  shows "mp_inv s'"
proof -
  obtain as where as: "stack_ok s as" "producers_ok s as" "consumer_ok s as" "no_leak s as"
    using assms(2) by (auto simp: mp_inv_def)
  obtain a p where t: "mp_phase_of s 0 = Swinging a p" using assms(1) by (auto split: mp_phase.splits)
  show ?thesis
  proof (cases "head s = Some a \<and> \<not> spurious")
    case True
    then have s': "s' = mp_goto 0 (Unlinked a) (s\<lparr>head := p, log := log s @ [Popped]\<rparr>)"
      using assms(1) t by simp
    obtain bs nd where bs: "as = a # bs" "nodes s a = Some nd" "chain (nodes s) (next_node nd) bs"
      using as(1) True by (cases as) (auto simp: stack_ok_def)
    then have p: "next_node nd = p" using as(3) t by (simp add: consumer_ok_def)
    have "stack_ok s' bs"
      using as(1) bs p t by (simp add: stack_ok_def s' pending_def node_values_def)
    moreover have "producers_ok s' bs" using as(2) bs(1) t unfolding producers_ok_def s' by auto
    moreover have "consumer_ok s' bs"
      using as(1,2) bs t by (auto simp: consumer_ok_def s' stack_ok_def producers_ok_def)
    moreover have "no_leak s' bs"
      by (rule no_leak_step [OF as(4)]) (use bs(1) t in \<open>auto simp: s' split: if_splits\<close>)
    ultimately show ?thesis by (auto simp: mp_inv_def)
  next
    case False
    then have "s' = expect (head s) s" using assms(1) t by auto
    then show ?thesis using as t by (auto simp: pending_def intro!: expect_inv)
  qed
qed

lemma Pop_test_inv:
  assumes "Pop_test s = Some s'" and "mp_inv s"
  shows "mp_inv s'"
proof -
  obtain as where as: "stack_ok s as" "producers_ok s as" "consumer_ok s as" "no_leak s as"
    using assms(2) by (auto simp: mp_inv_def)
  obtain p where t: "mp_phase_of s 0 = Popping p" using assms(1) by (auto split: mp_phase.splits)
  show ?thesis
  proof (cases p)
    case None
    have s': "s' = return_value None s" using assms(1) t None by simp
    have "stack_ok s' as" using as(1) t None by (simp add: stack_ok_def s' return_value_def pending_def)
    moreover have "producers_ok s' as"
      by (rule consumer_step [OF as(2)]) (use t in \<open>auto simp: s' return_value_def\<close>)
    moreover have "no_leak s' as" by (rule no_leak_step [OF as(4)]) (use t in \<open>auto simp: s' return_value_def\<close>)
    moreover have "consumer_ok s' as" by (simp add: s' return_value_def consumer_ok_def)
    ultimately show ?thesis by (auto simp: mp_inv_def)
  next
    case (Some a)
    then obtain nd where nd: "nodes s a = Some nd" "s' = mp_goto 0 (Swinging a (next_node nd)) s"
      using assms(1) t by auto
    have "stack_ok s' as" using as(1) t Some by (simp add: stack_ok_def nd pending_def)
    moreover have "producers_ok s' as" by (rule consumer_step [OF as(2)]) (use t in \<open>auto simp: nd\<close>)
    moreover have "no_leak s' as" by (rule no_leak_step [OF as(4)]) (use t in \<open>auto simp: nd\<close>)
    moreover have "consumer_ok s' as" using as(3) t Some nd by (simp add: consumer_ok_def)
    ultimately show ?thesis by (auto simp: mp_inv_def)
  qed
qed

lemma Pop_end_inv:
  assumes "Pop_end s = Some s'" and "mp_inv s"
  shows "mp_inv s'"
proof -
  obtain as where as: "stack_ok s as" "producers_ok s as" "consumer_ok s as" "no_leak s as"
    using assms(2) by (auto simp: mp_inv_def)
  obtain a where t: "mp_phase_of s 0 = Unlinked a" using assms(1) by (auto split: mp_phase.splits)
  then have a: "a \<notin> set as" "\<And>t e. mp_phase_of s t \<noteq> Pushing a e" using as(3) by (simp_all add: consumer_ok_def)
  obtain nd where nd: "nodes s a = Some nd"
    and s': "s' = return_value (Some (node_value nd)) (s\<lparr>nodes := (nodes s)(a := None)\<rparr>)"
    using assms(1) t by auto
  have phase: "mp_phase_of s' u = Pushing b e \<longleftrightarrow> mp_phase_of s u = Pushing b e" for u b e
    using t by (auto simp: s' return_value_def)
  have nodes: "nodes s' = (nodes s)(a := None)" by (simp add: s' return_value_def)
  have "stack_ok s' as"
    using as(1) a t nd by (simp add: stack_ok_def s' return_value_def pending_def chain_update values_update)
  moreover have "producers_ok s' as"
    using as(2) a(2) unfolding producers_ok_def phase nodes by (auto simp: s' return_value_def)
  moreover have "no_leak s' as" by (rule no_leak_step [OF as(4)]) (use t in \<open>auto simp: nodes phase split: if_splits\<close>)
  moreover have "consumer_ok s' as" by (simp add: s' return_value_def consumer_ok_def)
  ultimately show ?thesis by (auto simp: mp_inv_def)
qed

lemma DequeueAll_inv:
  assumes "DequeueAll_start s = Some s' \<or> DequeueAll_test s = Some s'" and "mp_inv s"
  shows "mp_inv s'"
proof -
  obtain as where as: "stack_ok s as" "producers_ok s as" "no_leak s as"
    using assms(2) by (auto simp: mp_inv_def)
  have t: "mp_phase_of s 0 = Outside \<or> mp_phase_of s 0 = Draining" using assms(1) by (auto split: if_splits)
  have same: "stack_ok (s\<lparr>draining := d\<rparr>) as" "producers_ok (s\<lparr>draining := d\<rparr>) as" "no_leak (s\<lparr>draining := d\<rparr>) as"
    "pending (s\<lparr>draining := d\<rparr>) = pending s" for d
    using as by (simp_all add: stack_ok_def producers_ok_def no_leak_def pending_def split: mp_phase.split option.split)
  have none: "pending s = []" using t by (auto simp: pending_def)
  have "mp_inv (mp_goto 0 Draining (s\<lparr>draining := True\<rparr>))" "mp_inv (mp_goto 0 Outside (s\<lparr>draining := False\<rparr>))"
    by (rule goto_inv [OF same(1-3)]; use t same(4) none in auto)+
  moreover have "mp_inv (mp_goto 0 Loading s)" by (rule goto_inv [OF as]) (use t none in auto)
  ultimately show ?thesis using assms(1) by (auto split: if_splits)
qed

lemma mp_step_inv: "mp_step s s' \<Longrightarrow> mp_inv s \<Longrightarrow> mp_inv s'"
  by (induction rule: mp_step.induct)
    (erule (1) Push_start_inv Push_cas_inv Pop_load_inv Pop_test_inv Pop_cas_inv Pop_end_inv
      DequeueAll_inv [OF disjI1] DequeueAll_inv [OF disjI2])+

interpretation mpsc: invariant mp_step mp_inv
  by unfold_locales (rule mp_step_inv)

section \<open>Properties\<close>

lemma reachable_inv: "mp_step\<^sup>*\<^sup>* MPSCStack_new s \<Longrightarrow> mp_inv s"
  using mp_inv_new by (rule mpsc.steps_inv [rotated])

text \<open>C23. Under every interleaving, with spurious failures and addresses that are used again, the nodes are the
  abstract stack of the operations in the order they took effect, \<open>Pop\<close> has returned what that stack
  gives, and no thread reaches for a deleted node.\<close>

theorem mpsc_refines_stack:
  assumes "mp_step\<^sup>*\<^sup>* MPSCStack_new s"
  shows "(\<exists>as. chain (nodes s) (head s) as
      \<and> replay (log s) = (node_values (nodes s) as, returned s @ pending s))
    \<and> (\<forall>t. \<not> faults t s)"
proof -
  obtain as where as: "stack_ok s as" "producers_ok s as" "consumer_ok s as"
    using reachable_inv [OF assms] by (auto simp: mp_inv_def)
  have "\<not> faults t s" for t
  proof (cases "mp_phase_of s t")
    case (Popping p)
    then have "t = 0" using as(2) by (fastforce simp: producers_ok_def)
    then show ?thesis using Popping as(1,3) chain_live [of "nodes s" "head s" as]
      by (auto simp: faults_def consumer_ok_def stack_ok_def split: option.splits)
  next
    case (Unlinked a)
    then have "t = 0" using as(2) by (fastforce simp: producers_ok_def)
    then show ?thesis using Unlinked as(3) by (simp add: faults_def consumer_ok_def)
  next
    case (Pushing a e)
    then have "\<exists>v. nodes s a = Some \<lparr>node_value = v, next_node = e\<rparr>"
      using as(2) unfolding producers_ok_def by blast
    then show ?thesis using Pushing by (auto simp: faults_def)
  qed (simp_all add: faults_def)
  then show ?thesis using as(1) by (auto simp: stack_ok_def)
qed

text \<open>When no operation is running, the destructor frees every node, and each once.\<close>

lemma destructor_frees_all:
  assumes "mp_step\<^sup>*\<^sup>* MPSCStack_new s" and "\<And>t. mp_phase_of s t = Outside"
  shows "\<exists>n. delete_node n (head s) (nodes s) = Some (\<lambda>a. None)"
proof -
  obtain as where as: "stack_ok s as" "no_leak s as"
    using reachable_inv [OF assms(1)] by (auto simp: mp_inv_def)
  have "nodes s a = None" if "a \<notin> set as" for a
    using as(2) assms(2) that by (auto simp: no_leak_def)
  then have "(\<lambda>a. if a \<in> set as then None else nodes s a) = (\<lambda>a. None)" by auto
  then have "delete_node (Suc (length as)) (head s) (nodes s) = Some (\<lambda>a. None)"
    using as(1) delete_chain [of "nodes s" "head s" as "Suc (length as)"] unfolding stack_ok_def by simp
  then show ?thesis by blast
qed

text \<open>One value pushed and popped again.\<close>

lemma push_pop_run:
  "mp_step\<^sup>*\<^sup>* MPSCStack_new
     \<lparr>head = None, nodes = (\<lambda>a. None), mp_phase_of = (\<lambda>t. Outside), draining = False,
      log = [Pushed (5 :: nat), Popped], returned = [Some 5]\<rparr>"
proof -
  define n where "n = \<lparr>node_value = 5 :: nat, next_node = None\<rparr>"
  let ?s1 = "MPSCStack_new\<lparr>nodes := (\<lambda>a. None)(7 := Some n), mp_phase_of := (\<lambda>t. Outside)(1 := Pushing 7 None)\<rparr>"
  let ?s2 = "MPSCStack_new\<lparr>head := Some 7, nodes := (\<lambda>a. None)(7 := Some n), log := [Pushed 5]\<rparr>"
  let ?s3 = "?s2\<lparr>mp_phase_of := (\<lambda>t. Outside)(0 := Popping (Some 7))\<rparr>"
  let ?s4 = "?s2\<lparr>mp_phase_of := (\<lambda>t. Outside)(0 := Swinging 7 None)\<rparr>"
  let ?s5 = "?s2\<lparr>head := None, log := [Pushed 5, Popped], mp_phase_of := (\<lambda>t. Outside)(0 := Unlinked 7)\<rparr>"
  have upd: "(f(0 := x))(0 := y) = f(0 := y)" "(f(Suc 0 := x))(Suc 0 := y) = f(Suc 0 := y)" "(\<lambda>t. Outside)(t := Outside) = (\<lambda>t. Outside)"
    for f :: "nat \<Rightarrow> mp_phase" and x y t by auto
  note defs = MPSCStack_new_def mp_goto_def expect_def return_value_def n_def upd
  have 1: "mp_step MPSCStack_new ?s1"
    by (rule mp_step.intros(1) [where t = 1 and v = 5 and a = 7]) (simp add: defs)
  have 2: "mp_step ?s1 ?s2" by (rule mp_step.intros(2) [where t = 1 and spurious = False]) (simp add: defs)
  have 3: "mp_step ?s2 ?s3" by (rule mp_step.intros(3)) (simp add: defs)
  have 4: "mp_step ?s3 ?s4" by (rule mp_step.intros(4)) (simp add: defs)
  have 5: "mp_step ?s4 ?s5" by (rule mp_step.intros(5) [where spurious = False]) (simp add: defs)
  have 6: "mp_step ?s5 (MPSCStack_new\<lparr>log := [Pushed 5, Popped], returned := [Some 5]\<rparr>)"
    by (rule mp_step.intros(6)) (simp add: defs fun_eq_iff)
  have "mp_step\<^sup>*\<^sup>* MPSCStack_new ?s3" using 1 2 3 by (rule three_steps)
  moreover have "mp_step\<^sup>*\<^sup>* ?s3 (MPSCStack_new\<lparr>log := [Pushed 5, Popped], returned := [Some 5]\<rparr>)"
    using 4 5 6 by (rule three_steps)
  ultimately have "mp_step\<^sup>*\<^sup>* MPSCStack_new (MPSCStack_new\<lparr>log := [Pushed (5 :: nat), Popped], returned := [Some 5]\<rparr>)"
    by (rule rtranclp_trans)
  then show ?thesis by (simp add: MPSCStack_new_def)
qed

theorem mpsc_refines_stack_witness:
  "replay [Pushed (5 :: nat), Popped] = ([], [Some 5])"
  using mpsc_refines_stack [OF push_pop_run] by (auto simp: pending_def node_values_def)

end
