(* ===== verification/TestFramework.thy ===== *)
theory TestFramework
  imports Prelude "HOL-Library.Char_ord" "HOL-Library.List_Lexorder" "HOL-Library.Sublist"
begin

text \<open>
  The small test framework (\<open>tasks/patterns/small-test-framework/test.h\<close>): a registry of test classes
  by name, and running tests so that each is torn down whatever happens. The methods of a test change
  a world of any type and may throw; a call of a method or of a destructor is recorded with what it
  threw. A test does not change the registry while it runs.
\<close>

section \<open>Tests\<close>

datatype 'e exc = out_of_range | Thrown 'e

record ('w, 'e) test =
  test_SetUp :: "'w \<Rightarrow> 'w \<times> 'e option"
  test_Run :: "'w \<Rightarrow> 'w \<times> 'e option"
  test_TearDown :: "'w \<Rightarrow> 'w \<times> 'e option"
  test_destructor :: "'w \<Rightarrow> 'w"

text \<open>A fabric makes a test, which may throw.\<close>

type_synonym ('w, 'e) fabric = "'w \<Rightarrow> 'w \<times> ('e + ('w, 'e) test)"

datatype call = Produce string | SetUp string | Run string | TearDown string | Destroy string

type_synonym ('w, 'e) run_state = "'w \<times> (call \<times> 'e option) list"

definition invoke :: "call \<Rightarrow> ('w \<Rightarrow> 'w \<times> 'e option) \<Rightarrow> ('w, 'e) run_state \<Rightarrow> ('w, 'e) run_state \<times> 'e exc option" where
  "invoke c f st = (let (w, r) = f (fst st) in ((w, snd st @ [(c, r)]), map_option Thrown r))"

section \<open>The registry\<close>

text \<open>\<open>std::map\<close> of names to fabrics, as its pairs in ascending order of the names.\<close>

type_synonym ('w, 'e) registry = "(string \<times> ('w, 'e) fabric) list"

fun assign :: "string \<Rightarrow> 'a \<Rightarrow> (string \<times> 'a) list \<Rightarrow> (string \<times> 'a) list" where
  "assign k v [] = [(k, v)]"
| "assign k v ((k', v') # ps) =
     (if k < k' then (k, v) # (k', v') # ps
      else if k = k' then (k, v) # ps else (k', v') # assign k v ps)"

definition RegisterClass :: "string \<Rightarrow> ('w, 'e) fabric \<Rightarrow> ('w, 'e) registry \<Rightarrow> ('w, 'e) registry" where
  "RegisterClass class_name test_class registry = assign class_name test_class registry"

definition CreateTest :: "string \<Rightarrow> ('w, 'e) registry \<Rightarrow> ('w, 'e) run_state \<Rightarrow> ('w, 'e) run_state \<times> ('e exc + ('w, 'e) test)" where
  "CreateTest class_name registry st =
     (case map_of registry class_name of
        None \<Rightarrow> (st, Inl out_of_range)
      | Some test_class \<Rightarrow>
          (case test_class (fst st) of
             (w, Inl e) \<Rightarrow> ((w, snd st @ [(Produce class_name, Some e)]), Inl (Thrown e))
           | (w, Inr t) \<Rightarrow> ((w, snd st @ [(Produce class_name, None)]), Inr t)))"

text \<open>What follows the creation in \<open>RunTest\<close>, and the destructor that runs on every way out.\<close>

definition run_created :: "string \<Rightarrow> ('w, 'e) test \<Rightarrow> ('w, 'e) run_state \<Rightarrow> ('w, 'e) run_state \<times> 'e exc option" where
  "run_created name t st =
     (case invoke (SetUp name) (test_SetUp t) st of
        (st1, Some e) \<Rightarrow> (st1, Some e)
      | (st1, None) \<Rightarrow>
          (case invoke (Run name) (test_Run t) st1 of
             (st2, Some e) \<Rightarrow>
               (case invoke (TearDown name) (test_TearDown t) st2 of
                  (st3, Some e') \<Rightarrow> (st3, Some e')
                | (st3, None) \<Rightarrow> (st3, Some e))
           | (st2, None) \<Rightarrow> invoke (TearDown name) (test_TearDown t) st2))"

definition destruct :: "string \<Rightarrow> ('w, 'e) test \<Rightarrow> ('w, 'e) run_state \<Rightarrow> ('w, 'e) run_state" where
  "destruct name t st = (test_destructor t (fst st), snd st @ [(Destroy name, None)])"

definition RunTest :: "string \<Rightarrow> ('w, 'e) registry \<Rightarrow> ('w, 'e) run_state \<Rightarrow> ('w, 'e) run_state \<times> 'e exc option" where
  "RunTest name registry st =
     (case CreateTest name registry st of
        (st1, Inl e) \<Rightarrow> (st1, Some e)
      | (st1, Inr t) \<Rightarrow> (let (st2, e) = run_created name t st1 in (destruct name t st2, e)))"

section \<open>Choosing tests\<close>

definition FullMatch :: "string \<Rightarrow> string \<Rightarrow> bool" where
  "FullMatch wanted name \<longleftrightarrow> name = wanted"

text \<open>\<open>std::string::find\<close>: the first position at which \<open>sub\<close> begins.\<close>

fun string_find :: "string \<Rightarrow> string \<Rightarrow> nat option" where
  "string_find sub [] = (if sub = [] then Some 0 else None)"
| "string_find sub (c # cs) =
     (if take (length sub) (c # cs) = sub then Some 0 else map_option Suc (string_find sub cs))"

definition Substr :: "string \<Rightarrow> string \<Rightarrow> bool" where
  "Substr substr name \<longleftrightarrow> string_find substr name \<noteq> None"

primrec ShowTests :: "(string \<Rightarrow> bool) \<Rightarrow> ('w, 'e) registry \<Rightarrow> string list" where
  "ShowTests callback [] = []"
| "ShowTests callback (p # ps) =
     (if callback (fst p) then fst p # ShowTests callback ps else ShowTests callback ps)"

primrec ShowAllTests :: "('w, 'e) registry \<Rightarrow> string list" where
  "ShowAllTests [] = []"
| "ShowAllTests (p # ps) = fst p # ShowAllTests ps"

text \<open>The loop of \<open>RunTests\<close> over the pairs that are left.\<close>

primrec run_tests ::
  "(string \<Rightarrow> bool) \<Rightarrow> (string \<times> ('w, 'e) fabric) list \<Rightarrow> ('w, 'e) registry \<Rightarrow> ('w, 'e) run_state \<Rightarrow> ('w, 'e) run_state \<times> 'e exc option" where
  "run_tests callback [] registry st = (st, None)"
| "run_tests callback (p # ps) registry st =
     (if callback (fst p) then
        (case RunTest (fst p) registry st of
           (st1, Some e) \<Rightarrow> (st1, Some e)
         | (st1, None) \<Rightarrow> run_tests callback ps registry st1)
      else run_tests callback ps registry st)"

definition RunTests :: "(string \<Rightarrow> bool) \<Rightarrow> ('w, 'e) registry \<Rightarrow> ('w, 'e) run_state \<Rightarrow> ('w, 'e) run_state \<times> 'e exc option" where
  "RunTests callback registry st = run_tests callback registry registry st"

definition Clear_registry :: "('w, 'e) registry \<Rightarrow> ('w, 'e) registry" where
  "Clear_registry registry = []"

section \<open>The registry is a map in ascending order\<close>

definition ascending :: "(string \<times> 'a) list \<Rightarrow> bool" where
  "ascending ps \<longleftrightarrow> sorted_wrt (<) (map fst ps)"

lemma keys_assign: "fst ` set (assign k v ps) = insert k (fst ` set ps)"
  by (induction k v ps rule: assign.induct) auto

lemma ascending_assign: "ascending ps \<Longrightarrow> ascending (assign k v ps)"
proof (induction k v ps rule: assign.induct)
  case (2 k v k' v' ps)
  have "\<forall>x \<in> fst ` set (assign k v ps). k' < x" if "k' < k"
    using 2(2) that by (auto simp: ascending_def keys_assign)
  then show ?case using 2 by (fastforce simp: ascending_def)
qed (simp add: ascending_def)

lemma map_of_assign: "ascending ps \<Longrightarrow> map_of (assign k v ps) = (map_of ps)(k \<mapsto> v)"
proof (induction k v ps rule: assign.induct)
  case (2 k v k' v' ps)
  have "map_of ps k = None" if "k < k'"
    using 2(2) that by (fastforce simp: ascending_def map_of_eq_None_iff)
  then show ?case using 2 by (auto simp: ascending_def fun_eq_iff)
qed (simp add: fun_eq_iff)

lemma ShowTests_filter: "ShowTests callback registry = filter callback (map fst registry)"
  by (induction registry) simp_all

lemma ShowAllTests_keys: "ShowAllTests registry = map fst registry"
  by (induction registry) simp_all

lemma Substr_sublist: "Substr s name \<longleftrightarrow> sublist s name"
proof -
  have "string_find s name \<noteq> None \<longleftrightarrow> sublist s name"
  proof (induction s name rule: string_find.induct)
    case (2 sub c cs)
    have "take (length sub) (c # cs) = sub \<longleftrightarrow> prefix sub (c # cs)"
      by (metis append_eq_conv_conj prefix_def take_is_prefix)
    then show ?case using 2 by (auto simp: sublist_Cons_right)
  qed simp
  then show ?thesis by (simp add: Substr_def)
qed

section \<open>Tests are torn down and destroyed\<close>

text \<open>The calls of a test, which throw nothing but the last before the destructor, and \<open>Run\<close> before a
  \<open>TearDown\<close> that throws; then \<open>x\<close> is the exception that leaves \<open>RunTest\<close>.\<close>

definition complete :: "string \<Rightarrow> (call \<times> 'e option) list" where
  "complete n = [(Produce n, None), (SetUp n, None), (Run n, None), (TearDown n, None), (Destroy n, None)]"

inductive interrupted :: "string \<Rightarrow> 'e \<Rightarrow> (call \<times> 'e option) list \<Rightarrow> bool" for n x where
  "interrupted n x [(Produce n, Some x)]"
| "interrupted n x [(Produce n, None), (SetUp n, Some x), (Destroy n, None)]"
| "interrupted n x [(Produce n, None), (SetUp n, None), (Run n, Some x), (TearDown n, None), (Destroy n, None)]"
| "interrupted n x [(Produce n, None), (SetUp n, None), (Run n, r), (TearDown n, Some x), (Destroy n, None)]"

lemma invoke_cases:
  assumes "invoke c f st = (st', e)"
  obtains (returned) "e = None" "snd st' = snd st @ [(c, None)]"
  | (threw) x where "e = Some (Thrown x)" "snd st' = snd st @ [(c, Some x)]"
  using assms by (cases "snd (f (fst st))") (auto simp: invoke_def split: prod.splits)

text \<open>What a test calls after it was made, up to its destructor.\<close>

lemma run_created_calls:
  assumes "run_created n t st = (st', e)"
  shows "\<exists>cs. snd st' = snd st @ cs \<and>
    (case e of
       None \<Rightarrow> (Produce n, None) # cs @ [(Destroy n, None)] = complete n
     | Some y \<Rightarrow> \<exists>x. y = Thrown x \<and> interrupted n x ((Produce n, None) # cs @ [(Destroy n, None)]))"
proof -
  obtain st1 e1 where up: "invoke (SetUp n) (test_SetUp t) st = (st1, e1)" by (meson surj_pair)
  from up show ?thesis
  proof (cases rule: invoke_cases)
    case (threw x)
    then have "st' = st1" "e = Some (Thrown x)" using assms up by (simp_all add: run_created_def)
    then show ?thesis using threw by (auto intro: interrupted.intros)
  next
    case returned
    obtain st2 e2 where run: "invoke (Run n) (test_Run t) st1 = (st2, e2)" by (meson surj_pair)
    obtain st3 e3 where down: "invoke (TearDown n) (test_TearDown t) st2 = (st3, e3)" by (meson surj_pair)
    have st': "st' = st3" "e = (if e3 = None then e2 else e3)"
      using assms up returned run down by (auto simp: run_created_def split: option.splits)
    obtain r where r: "snd st2 = snd st1 @ [(Run n, r)]" "e2 = map_option Thrown r"
      using run by (cases rule: invoke_cases) auto
    from down show ?thesis
      by (cases rule: invoke_cases; cases r)
        (use st' r returned in \<open>auto simp: complete_def intro: interrupted.intros\<close>)
  qed
qed

lemma RunTest_calls:
  assumes "RunTest n registry st = (st', e)" and "n \<in> fst ` set registry"
  shows "\<exists>cs. snd st' = snd st @ cs
    \<and> (case e of None \<Rightarrow> cs = complete n | Some y \<Rightarrow> \<exists>x. y = Thrown x \<and> interrupted n x cs)"
proof -
  obtain f where f: "map_of registry n = Some f" using assms(2) by (metis map_of_eq_None_iff not_None_eq)
  obtain w r where r: "f (fst st) = (w, r)" by force
  show ?thesis
  proof (cases r)
    case (Inl x)
    then have "snd st' = snd st @ [(Produce n, Some x)]" "e = Some (Thrown x)"
      using assms(1) f r by (auto simp: RunTest_def CreateTest_def)
    then show ?thesis by (auto intro: interrupted.intros)
  next
    case (Inr t)
    obtain st2 e2 where run: "run_created n t (w, snd st @ [(Produce n, None)]) = (st2, e2)" by (meson surj_pair)
    then have "st' = destruct n t st2" "e = e2"
      using assms(1) f r Inr by (simp_all add: RunTest_def CreateTest_def)
    moreover obtain cs where "snd st2 = snd st @ (Produce n, None) # cs"
      "case e2 of None \<Rightarrow> (Produce n, None) # cs @ [(Destroy n, None)] = complete n
       | Some y \<Rightarrow> \<exists>x. y = Thrown x \<and> interrupted n x ((Produce n, None) # cs @ [(Destroy n, None)])"
      using run_created_calls [OF run] by auto
    ultimately show ?thesis
      by (intro exI [of _ "(Produce n, None) # cs @ [(Destroy n, None)]"]) (simp add: destruct_def)
  qed
qed

lemma RunTest_unknown: "n \<notin> fst ` set registry \<Longrightarrow> RunTest n registry st = (st, Some out_of_range)"
  by (simp add: RunTest_def CreateTest_def map_of_eq_None_iff [THEN iffD2])

lemma run_tests_calls:
  assumes "run_tests callback ps registry st = (st', e)" and "set ps \<subseteq> set registry"
  shows "\<exists>names rest cs. filter callback (map fst ps) = names @ rest \<and> snd st' = snd st @ concat (map complete names) @ cs
    \<and> (case e of None \<Rightarrow> rest = [] \<and> cs = [] | Some y \<Rightarrow> rest \<noteq> [] \<and> (\<exists>x. y = Thrown x \<and> interrupted (hd rest) x cs))"
  using assms
proof (induction ps arbitrary: st)
  case (Cons p ps)
  show ?case
  proof (cases "callback (fst p)")
    case True
    obtain st1 e1 where run: "RunTest (fst p) registry st = (st1, e1)" by (meson surj_pair)
    obtain cs where cs: "snd st1 = snd st @ cs"
      "case e1 of None \<Rightarrow> cs = complete (fst p) | Some y \<Rightarrow> \<exists>x. y = Thrown x \<and> interrupted (fst p) x cs"
      using RunTest_calls [OF run] Cons.prems(2) by auto
    show ?thesis
    proof (cases e1)
      case None
      then have "run_tests callback ps registry st1 = (st', e)" using Cons.prems(1) True run by simp
      then obtain names rest ds where "filter callback (map fst ps) = names @ rest"
        "snd st' = snd st1 @ concat (map complete names) @ ds"
        "case e of None \<Rightarrow> rest = [] \<and> ds = [] | Some y \<Rightarrow> rest \<noteq> [] \<and> (\<exists>x. y = Thrown x \<and> interrupted (hd rest) x ds)"
        using Cons.IH [of st1] Cons.prems(2) by auto
      then show ?thesis using cs None True
        by (intro exI [of _ "fst p # names"] exI [of _ rest] exI [of _ ds]) simp
    next
      case (Some x)
      then have "st' = st1" "e = Some x" using Cons.prems(1) True run by simp_all
      then show ?thesis using Some True cs
        by (intro exI [of _ "[]"] exI [of _ "filter callback (map fst (p # ps))"] exI [of _ cs]) simp
    qed
  qed (use Cons in simp)
qed simp

text \<open>C36. \<open>RunTests\<close> runs the tests it is asked for in ascending order of their names up to the first of which
  the fabric or a method throws, and throws that exception: the one of \<open>TearDown\<close> if it throws, else
  the one of \<open>Run\<close>. Every test that was made and set up is run, torn down once and destroyed once, also
  the one that throws.\<close>

theorem RunTests_tears_down:
  assumes "ascending registry" and "RunTests callback registry st = (st', e)"
  shows "\<exists>names rest cs. filter callback (map fst registry) = names @ rest \<and> sorted_wrt (<) (names @ rest)
    \<and> snd st' = snd st @ concat (map complete names) @ cs
    \<and> (case e of None \<Rightarrow> rest = [] \<and> cs = [] | Some y \<Rightarrow> rest \<noteq> [] \<and> (\<exists>x. y = Thrown x \<and> interrupted (hd rest) x cs))"
proof -
  obtain names rest cs where "filter callback (map fst registry) = names @ rest"
    "snd st' = snd st @ concat (map complete names) @ cs"
    "case e of None \<Rightarrow> rest = [] \<and> cs = [] | Some y \<Rightarrow> rest \<noteq> [] \<and> (\<exists>x. y = Thrown x \<and> interrupted (hd rest) x cs)"
    using run_tests_calls [OF assms(2) [unfolded RunTests_def]] by blast
  moreover from this(1) have "sorted_wrt (<) (names @ rest)"
    using assms(1) by (metis ascending_def sorted_wrt_filter)
  ultimately show ?thesis by blast
qed

definition steady :: "nat option \<Rightarrow> (nat, nat) fabric" where
  "steady e n = (n, Inr \<lparr>test_SetUp = (\<lambda>n. (n, None)), test_Run = (\<lambda>n. (Suc n, e)),
     test_TearDown = (\<lambda>n. (n, None)), test_destructor = (\<lambda>n. n)\<rparr>)"

text \<open>The second of three tests throws 3.\<close>

theorem RunTests_tears_down_witness:
  "\<exists>names rest cs. [''a'', ''b'', ''c''] = names @ rest
    \<and> complete ''a'' @ [(Produce ''b'', None), (SetUp ''b'', None), (Run ''b'', Some 3), (TearDown ''b'', None), (Destroy ''b'', None)]
      = concat (map complete names) @ cs
    \<and> rest \<noteq> [] \<and> interrupted (hd rest) (3::nat) cs"
proof -
  let ?reg = "RegisterClass ''b'' (steady (Some 3)) (RegisterClass ''a'' (steady None) (RegisterClass ''c'' (steady None) []))"
  have "ascending ?reg" by (simp add: RegisterClass_def ascending_assign ascending_def)
  moreover have "RunTests (\<lambda>n. True) ?reg (0, []) = ((2, complete ''a'' @ [(Produce ''b'', None), (SetUp ''b'', None),
      (Run ''b'', Some 3), (TearDown ''b'', None), (Destroy ''b'', None)]), Some (Thrown 3))"
    by code_simp
  moreover have "filter (\<lambda>n. True) (map fst ?reg) = [''a'', ''b'', ''c'']" by code_simp
  ultimately show ?thesis using RunTests_tears_down [of ?reg "\<lambda>n. True" "(0, [])"] by fastforce
qed

end
