(* ===== verification/TimerQueue.thy ===== *)
theory TimerQueue
  imports Locks "HOL-Library.Multiset"
begin

text \<open>
  The timer queue (\<open>tasks/condvars/timerqueue/timerqueue.h\<close>) as a state machine whose steps are the
  critical sections of its mutex: \<open>Add\<close>, and \<open>Pop\<close> from the call, or from a return of \<open>wait_until\<close>,
  to the next wait or the return. The clock may read anything each time, and a wait may end at any
  time. The priority queue is the list of its pairs, and its top any pair with the least time, since
  the order of equal times depends on the heap. A duration counts nanoseconds. The removal from an
  empty queue, which is undefined, breaks the queue: nothing happens to it afterwards.
\<close>

section \<open>State\<close>

type_synonym 'a timed = "'a \<times> int"

datatype timer_phase = Outside | Waiting

text \<open>The log, newest event first, is only observed: what was added, what \<open>Pop\<close> returned and what the clock
  read in the test that let it return, and that \<open>Pop\<close> removed from an empty queue, with the readings of
  the clock in \<open>GetTop\<close> and in this test.\<close>

datatype 'a timer_event = Added "'a timed" | Taken "'a timed" int | TakenFromEmpty int int

record 'a timer_queue =
  queue :: "'a timed list"
  timer_phase_of :: "nat \<Rightarrow> timer_phase"
  broken :: bool
  timer_log :: "'a timer_event list"

definition TimerQueue_new :: "'a timer_queue" where
  "TimerQueue_new = \<lparr>queue = [], timer_phase_of = (\<lambda>t. Outside), broken = False, timer_log = []\<rparr>"

definition one_second :: int where
  "one_second = 1000000000"

section \<open>Operations\<close>

definition is_top :: "'a timed list \<Rightarrow> 'a timed \<Rightarrow> bool" where
  "is_top q r \<longleftrightarrow> r \<in> set q \<and> (\<forall>x \<in> set q. snd r \<le> snd x)"

definition Add :: "nat \<Rightarrow> 'a \<Rightarrow> int \<Rightarrow> 'a timer_queue \<Rightarrow> 'a timer_queue option" where
  "Add t item time s =
     (if timer_phase_of s t = Outside \<and> \<not> broken s
      then Some (s\<lparr>queue := (item, time) # queue s, timer_log := Added (item, time) # timer_log s\<rparr>) else None)"

definition GetTop :: "'a \<Rightarrow> 'a timed list \<Rightarrow> int \<Rightarrow> 'a timed \<Rightarrow> 'a timed" where
  "GetTop dflt q now first = (if q = [] then (dflt, now + one_second) else first)"

text \<open>A section of \<open>Pop\<close>, in which \<open>GetTop\<close> reads \<open>now\<close> when it has to, the test of the loop reads \<open>now'\<close>, and
  \<open>first\<close> is the top of the queue.\<close>

definition Pop_section ::
  "'a \<Rightarrow> nat \<Rightarrow> int \<Rightarrow> int \<Rightarrow> 'a timed \<Rightarrow> 'a timer_queue \<Rightarrow> 'a timer_queue option" where
  "Pop_section dflt t now now' first s =
     (if broken s \<or> queue s \<noteq> [] \<and> \<not> is_top (queue s) first then None
      else let r = GetTop dflt (queue s) now first in
        if now' < snd r then Some (s\<lparr>timer_phase_of := (timer_phase_of s)(t := Waiting)\<rparr>)
        else if queue s = []
        then Some (s\<lparr>broken := True, timer_phase_of := (timer_phase_of s)(t := Outside),
               timer_log := TakenFromEmpty now now' # timer_log s\<rparr>)
        else Some (s\<lparr>queue := remove1 r (queue s), timer_phase_of := (timer_phase_of s)(t := Outside),
               timer_log := Taken r now' # timer_log s\<rparr>))"

inductive timer_step :: "'a \<Rightarrow> 'a timer_queue \<Rightarrow> 'a timer_queue \<Rightarrow> bool" for dflt where
  "Add t item time s = Some s' \<Longrightarrow> timer_step dflt s s'"
| "Pop_section dflt t now now' first s = Some s' \<Longrightarrow> timer_step dflt s s'"

inductive_cases timer_stepE: "timer_step dflt s s'"

section \<open>The abstract queue\<close>

text \<open>What a log leaves in the queue, and the logs of a queue that returns the earliest item, and not
  before its time, and that removes from an empty queue only when a second or more passed between the
  two readings of the clock.\<close>

primrec left_over :: "'a timer_event list \<Rightarrow> 'a timed multiset" where
  "left_over [] = {#}"
| "left_over (e # es) =
     (case e of
        Added p \<Rightarrow> add_mset p (left_over es)
      | Taken p now \<Rightarrow> left_over es - {#p#}
      | TakenFromEmpty now now' \<Rightarrow> left_over es)"

primrec legal :: "'a timer_event list \<Rightarrow> bool" where
  "legal [] = True"
| "legal (e # es) =
     (legal es \<and>
      (case e of
         Added p \<Rightarrow> True
       | Taken p now \<Rightarrow> p \<in># left_over es \<and> (\<forall>q \<in># left_over es. snd p \<le> snd q) \<and> snd p \<le> now
       | TakenFromEmpty now now' \<Rightarrow> left_over es = {#} \<and> now + one_second \<le> now'))"

definition empty_removals :: "'a timer_event list \<Rightarrow> nat" where
  "empty_removals es = length (filter (\<lambda>e. case e of TakenFromEmpty now now' \<Rightarrow> True | _ \<Rightarrow> False) es)"

definition timer_inv :: "'a timer_queue \<Rightarrow> bool" where
  "timer_inv s \<longleftrightarrow> legal (timer_log s) \<and> mset (queue s) = left_over (timer_log s)
     \<and> empty_removals (timer_log s) = (if broken s then 1 else 0)"

lemma Add_inv: "Add t item time s = Some s' \<Longrightarrow> timer_inv s \<Longrightarrow> timer_inv s'"
  by (auto simp: Add_def timer_inv_def empty_removals_def split: if_splits)

lemma Pop_section_inv:
  assumes "Pop_section dflt t now now' first s = Some s'" and "timer_inv s"
  shows "timer_inv s'"
proof -
  have whole: "\<not> broken s" using assms(1) by (simp add: Pop_section_def split: if_splits)
  have left: "left_over (timer_log s) = mset (queue s)" "legal (timer_log s)" "empty_removals (timer_log s) = 0"
    using assms(2) whole by (simp_all add: timer_inv_def)
  show ?thesis
  proof (cases "queue s = []")
    case True
    then show ?thesis using assms left whole
      by (auto simp: Pop_section_def GetTop_def timer_inv_def empty_removals_def Let_def split: if_splits)
  next
    case False
    then have first: "is_top (queue s) first" "GetTop dflt (queue s) now first = first"
      using assms(1) by (auto simp: Pop_section_def GetTop_def split: if_splits)
    show ?thesis
    proof (cases "now' < snd first")
      case True
      then have "s' = s\<lparr>timer_phase_of := (timer_phase_of s)(t := Waiting)\<rparr>"
        using assms(1) first False whole by (simp add: Pop_section_def)
      then show ?thesis using assms(2) by (simp add: timer_inv_def)
    next
      case notless: False
      then have "s' = s\<lparr>queue := remove1 first (queue s), timer_phase_of := (timer_phase_of s)(t := Outside),
          timer_log := Taken first now' # timer_log s\<rparr>"
        using assms(1) first False whole by (simp add: Pop_section_def)
      then show ?thesis using first(1) left notless whole by (auto simp: timer_inv_def is_top_def empty_removals_def)
    qed
  qed
qed

lemma timer_step_inv: "timer_step dflt s s' \<Longrightarrow> timer_inv s \<Longrightarrow> timer_inv s'"
  by (erule timer_stepE) (blast intro: Add_inv Pop_section_inv)+

interpretation timer: invariant "timer_step dflt" timer_inv for dflt
  by unfold_locales (rule timer_step_inv)

text \<open>C37. Whatever wakes up when, \<open>Pop\<close> returns an item that is in the queue, the earliest one, at its time or
  later, and what was added and not returned is still in the queue, unless and until a call of \<open>Pop\<close> on
  the empty queue sees a second or more pass between its two readings of the clock: then it removes
  from the empty queue, which breaks it.\<close>

theorem timer_queue_legal:
  assumes "(timer_step dflt)\<^sup>*\<^sup>* TimerQueue_new s"
  shows "legal (timer_log s) \<and> mset (queue s) = left_over (timer_log s)
    \<and> empty_removals (timer_log s) = (if broken s then 1 else 0)"
proof -
  have "timer_inv TimerQueue_new" by (simp add: timer_inv_def TimerQueue_new_def empty_removals_def)
  with assms have "timer_inv s" by (rule timer.steps_inv)
  then show ?thesis by (simp add: timer_inv_def)
qed

text \<open>An item is taken, and then the empty queue is broken.\<close>

lemma timer_run:
  "(timer_step 0)\<^sup>*\<^sup>* TimerQueue_new
     \<lparr>queue = [], timer_phase_of = (\<lambda>t. Outside), broken = True,
       timer_log = [TakenFromEmpty 20 1000000020, Taken (5 :: nat, 10) 15, Added (5, 10)]\<rparr>"
proof -
  let ?s1 = "TimerQueue_new\<lparr>queue := [(5 :: nat, 10)], timer_log := [Added (5, 10)]\<rparr>"
  let ?s2 = "TimerQueue_new\<lparr>timer_log := [Taken (5 :: nat, 10) 15, Added (5, 10)]\<rparr>"
  let ?s3 = "?s2\<lparr>broken := True, timer_log := [TakenFromEmpty 20 1000000020, Taken (5 :: nat, 10) 15, Added (5, 10)]\<rparr>"
  have "timer_step 0 TimerQueue_new ?s1"
    by (rule timer_step.intros(1) [of 1 5 10]) (simp add: Add_def TimerQueue_new_def)
  moreover have "timer_step 0 ?s1 ?s2"
    by (rule timer_step.intros(2) [of 0 2 0 15 "(5, 10)"])
      (auto simp: Pop_section_def GetTop_def is_top_def TimerQueue_new_def Let_def fun_eq_iff)
  moreover have "timer_step 0 ?s2 ?s3"
    by (rule timer_step.intros(2) [of 0 2 20 1000000020 "(5, 10)"])
      (auto simp: Pop_section_def GetTop_def TimerQueue_new_def Let_def fun_eq_iff one_second_def)
  ultimately have "(timer_step 0)\<^sup>*\<^sup>* TimerQueue_new ?s3" by (rule three_steps)
  then show ?thesis by (simp add: TimerQueue_new_def)
qed

theorem timer_queue_legal_witness:
  "legal [TakenFromEmpty 20 1000000020, Taken (5 :: nat, 10) 15, Added (5, 10)] \<and>
   left_over [TakenFromEmpty 20 1000000020, Taken (5 :: nat, 10) 15, Added (5, 10)] = {#}"
  using timer_queue_legal [OF timer_run] by simp

section \<open>Returning, and the empty queue\<close>

text \<open>A section of \<open>Pop\<close> returns when the earliest item is due.\<close>

lemma Pop_due:
  assumes "is_top (queue s) first" and "snd first \<le> now'" and "\<not> broken s"
  shows "\<exists>s'. Pop_section dflt t now now' first s = Some s' \<and> timer_phase_of s' t = Outside
    \<and> timer_log s' = Taken first now' # timer_log s"
proof -
  have "queue s \<noteq> []" using assms(1) by (auto simp: is_top_def)
  then show ?thesis using assms by (simp add: Pop_section_def GetTop_def)
qed

text \<open>On an empty queue \<open>Pop\<close> waits if less than a second passes between its readings of the clock.\<close>

lemma Pop_empty_waits:
  "queue s = [] \<Longrightarrow> \<not> broken s \<Longrightarrow> now' < now + one_second
    \<Longrightarrow> Pop_section dflt t now now' first s = Some (s\<lparr>timer_phase_of := (timer_phase_of s)(t := Waiting)\<rparr>)"
  by (simp add: Pop_section_def GetTop_def)

end
