(* ===== verification/Itertools.thy ===== *)
theory Itertools
  imports Prelude
begin

text \<open>
  Ranges, zips and groups (\<open>tasks/types/itertools/itertools.h\<close>): the operators of each iterator, and the
  loop over a range. An iterator over a sequence is an index into its memory, of which the sequence is
  a part; \<open>None\<close> is an access outside the memory or an overflow of a 32-bit \<open>int\<close>, the type of the
  numbers of a \<open>Range\<close>.
\<close>

section \<open>Loops over ranges\<close>

text \<open>The three operators of an iterator.\<close>

record ('i, 'a) iterator_ops =
  next_op :: "'i \<Rightarrow> 'i option"
  not_equal :: "'i \<Rightarrow> 'i \<Rightarrow> bool"
  get :: "'i \<Rightarrow> 'a option"

record 'i iterator_range =
  range_begin :: 'i
  range_end :: 'i

text \<open>What a loop over a range visits; a loop that never ends is \<open>None\<close>, too.\<close>

partial_function (option) visit :: "('i, 'a) iterator_ops \<Rightarrow> 'i \<Rightarrow> 'i \<Rightarrow> 'a list option" where
  "visit ops it stop =
     (if not_equal ops it stop then
        Option.bind (get ops it) (\<lambda>x.
        Option.bind (next_op ops it) (\<lambda>it'.
        Option.bind (visit ops it' stop) (\<lambda>xs. Some (x # xs))))
      else Some [])"

definition visit_range :: "('i, 'a) iterator_ops \<Rightarrow> 'i iterator_range \<Rightarrow> 'a list option" where
  "visit_range ops r = visit ops (range_begin r) (range_end r)"

section \<open>Range\<close>

record rng =
  rng_value :: int
  rng_step :: int

definition Rng_next :: "rng \<Rightarrow> rng option" where
  "Rng_next r =
     (let v = rng_value r + rng_step r in
      if - (2 ^ 31) \<le> v \<and> v < 2 ^ 31 then Some (r\<lparr>rng_value := v\<rparr>) else None)"

definition Rng_not_equal :: "rng \<Rightarrow> rng \<Rightarrow> bool" where
  "Rng_not_equal r iter \<longleftrightarrow> rng_value iter > rng_value r"

definition Rng_get :: "rng \<Rightarrow> int option" where
  "Rng_get r = Some (rng_value r)"

definition Rng_ops :: "(rng, int) iterator_ops" where
  "Rng_ops = \<lparr>next_op = Rng_next, not_equal = Rng_not_equal, get = Rng_get\<rparr>"

definition Range_step :: "int \<Rightarrow> int \<Rightarrow> int \<Rightarrow> rng iterator_range" where
  "Range_step start edge step =
     \<lparr>range_begin = \<lparr>rng_value = start, rng_step = step\<rparr>, range_end = \<lparr>rng_value = edge, rng_step = step\<rparr>\<rparr>"

definition Range_from :: "int \<Rightarrow> int \<Rightarrow> rng iterator_range" where
  "Range_from start edge = Range_step start edge 1"

definition Range_to :: "int \<Rightarrow> rng iterator_range" where
  "Range_to edge = Range_step 0 edge 1"

section \<open>Zip\<close>

definition Zp_next :: "('i, 'a) iterator_ops \<Rightarrow> ('j, 'b) iterator_ops \<Rightarrow> 'i \<times> 'j \<Rightarrow> ('i \<times> 'j) option" where
  "Zp_next ops1 ops2 z =
     (case next_op ops1 (fst z) of
        None \<Rightarrow> None
      | Some i \<Rightarrow> (case next_op ops2 (snd z) of None \<Rightarrow> None | Some j \<Rightarrow> Some (i, j)))"

definition Zp_not_equal :: "('i, 'a) iterator_ops \<Rightarrow> ('j, 'b) iterator_ops \<Rightarrow> 'i \<times> 'j \<Rightarrow> 'i \<times> 'j \<Rightarrow> bool" where
  "Zp_not_equal ops1 ops2 z oth \<longleftrightarrow> not_equal ops1 (fst z) (fst oth) \<and> not_equal ops2 (snd z) (snd oth)"

definition Zp_get :: "('i, 'a) iterator_ops \<Rightarrow> ('j, 'b) iterator_ops \<Rightarrow> 'i \<times> 'j \<Rightarrow> ('a \<times> 'b) option" where
  "Zp_get ops1 ops2 z =
     (case get ops1 (fst z) of
        None \<Rightarrow> None
      | Some x \<Rightarrow> (case get ops2 (snd z) of None \<Rightarrow> None | Some y \<Rightarrow> Some (x, y)))"

definition Zp_ops :: "('i, 'a) iterator_ops \<Rightarrow> ('j, 'b) iterator_ops \<Rightarrow> ('i \<times> 'j, 'a \<times> 'b) iterator_ops" where
  "Zp_ops ops1 ops2 = \<lparr>next_op = Zp_next ops1 ops2, not_equal = Zp_not_equal ops1 ops2, get = Zp_get ops1 ops2\<rparr>"

definition Zip :: "'i iterator_range \<Rightarrow> 'j iterator_range \<Rightarrow> ('i \<times> 'j) iterator_range" where
  "Zip seq1 seq2 =
     \<lparr>range_begin = (range_begin seq1, range_begin seq2), range_end = (range_end seq1, range_end seq2)\<rparr>"

section \<open>Sequences in memory\<close>

definition load :: "'a list \<Rightarrow> nat \<Rightarrow> 'a option" where
  "load memory i = (if i < length memory then Some (memory ! i) else None)"

definition seq_ops :: "'a list \<Rightarrow> (nat, 'a) iterator_ops" where
  "seq_ops memory = \<lparr>next_op = (\<lambda>i. Some (Suc i)), not_equal = (\<noteq>), get = load memory\<rparr>"

text \<open>\<open>SubSeq\<close> passes every operator on.\<close>

definition SubSeq_ops :: "(nat, 'a) iterator_ops \<Rightarrow> (nat, 'a) iterator_ops" where
  "SubSeq_ops ops = \<lparr>next_op = next_op ops, not_equal = not_equal ops, get = get ops\<rparr>"

section \<open>Group\<close>

text \<open>The loop of \<open>Grp::operator++\<close> that moves both iterators while the elements are equal, and the
  operator.\<close>

function skip_equal :: "'a list \<Rightarrow> nat \<Rightarrow> nat \<Rightarrow> nat option" where
  "skip_equal memory it it_next =
     (case load memory it_next of
        None \<Rightarrow> None
      | Some x \<Rightarrow>
          if load memory it = Some x then skip_equal memory (Suc it) (Suc it_next)
          else if load memory it = None then None else Some it)"
  by pat_completeness auto

termination skip_equal
  by (relation "measure (\<lambda>(memory, it, it_next). length memory - it_next)") (auto simp: load_def split: if_splits)

definition Grp_next :: "'a list \<Rightarrow> nat \<Rightarrow> nat option" where
  "Grp_next memory it = map_option Suc (skip_equal memory it (Suc it))"

text \<open>The end of the group that \<open>operator*\<close> looks for.\<close>

function group_end :: "'a list \<Rightarrow> nat \<Rightarrow> nat \<Rightarrow> nat option" where
  "group_end memory it it_last =
     (case load memory it_last of
        None \<Rightarrow> None
      | Some x \<Rightarrow>
          if load memory it = Some x then group_end memory it (Suc it_last)
          else if load memory it = None then None else Some it_last)"
  by pat_completeness auto

termination group_end
  by (relation "measure (\<lambda>(memory, it, it_last). length memory - it_last)") (auto simp: load_def split: if_splits)

definition Grp_get :: "'a list \<Rightarrow> nat \<Rightarrow> nat iterator_range option" where
  "Grp_get memory it = map_option (\<lambda>it_last. \<lparr>range_begin = it, range_end = it_last\<rparr>) (group_end memory it it)"

definition Grp_ops :: "'a list \<Rightarrow> (nat, nat iterator_range) iterator_ops" where
  "Grp_ops memory = \<lparr>next_op = Grp_next memory, not_equal = (\<noteq>), get = Grp_get memory\<rparr>"

text \<open>\<open>Group\<close> of a sequence of \<open>n\<close> elements at the beginning of the memory.\<close>

definition Group :: "nat \<Rightarrow> nat iterator_range" where
  "Group n = \<lparr>range_begin = 0, range_end = n\<rparr>"

text \<open>The groups a client sees that visits every group to its end.\<close>

definition groups :: "'a list \<Rightarrow> nat \<Rightarrow> 'a list list option" where
  "groups memory n =
     (case visit_range (Grp_ops memory) (Group n) of
        None \<Rightarrow> None
      | Some rs \<Rightarrow> those (map (visit_range (SubSeq_ops (seq_ops memory))) rs))"

section \<open>Ranges and zips\<close>

lemma visit_stop: "\<not> not_equal ops it stop \<Longrightarrow> visit ops it stop = Some []"
  by (subst visit.simps) simp

lemma visit_step:
  "not_equal ops it stop \<Longrightarrow> get ops it = Some x \<Longrightarrow> next_op ops it = Some it' \<Longrightarrow>
   visit ops it stop = map_option (Cons x) (visit ops it' stop)"
  by (subst visit.simps) (simp add: map_conv_bind_option comp_def)

text \<open>How many numbers a range has, and the numbers.\<close>

definition range_count :: "int \<Rightarrow> int \<Rightarrow> int \<Rightarrow> nat" where
  "range_count start edge step = nat ((edge - start + step - 1) div step)"

lemma range_count_step:
  assumes "0 < step" and "start < edge"
  shows "range_count start edge step = Suc (range_count (start + step) edge step)"
proof -
  have "(edge - start + step - 1) div step = (edge - (start + step) + step - 1) div step + 1"
    using assms(1) div_add_self2 [of step "edge - start - 1"] by (simp add: algebra_simps)
  moreover have "0 \<le> (edge - (start + step) + step - 1) div step"
    using assms by (simp add: pos_imp_zdiv_nonneg_iff)
  ultimately show ?thesis by (simp add: range_count_def Suc_nat_eq_nat_zadd1)
qed

lemma range_count_stop: "0 < step \<Longrightarrow> edge \<le> start \<Longrightarrow> range_count start edge step = 0"
  by (simp add: range_count_def zdiv_mono1 [of "edge - start + step - 1" "step - 1" step, simplified div_pos_pos_trivial])

lemma visit_Rng:
  assumes "0 < step" and "edge + step \<le> 2 ^ 31" and "- (2 ^ 31) \<le> start"
  shows "visit Rng_ops \<lparr>rng_value = start, rng_step = step\<rparr> \<lparr>rng_value = edge, rng_step = step\<rparr>
    = Some (map (\<lambda>i. start + int i * step) [0..<range_count start edge step])"
  using assms(3)
proof (induction "range_count start edge step" arbitrary: start)
  case 0
  then have "edge \<le> start" using range_count_step [OF assms(1), of start edge] by force
  then show ?case using 0 by (simp add: visit_stop Rng_ops_def Rng_not_equal_def)
next
  case (Suc n)
  have less: "start < edge" using Suc(2) range_count_stop [OF assms(1), of edge start] by force
  then have n: "n = range_count (start + step) edge step" using Suc(2) range_count_step [OF assms(1)] by simp
  have "visit Rng_ops \<lparr>rng_value = start + step, rng_step = step\<rparr> \<lparr>rng_value = edge, rng_step = step\<rparr>
    = Some (map (\<lambda>i. start + step + int i * step) [0..<n])"
    using Suc(1) [OF n] Suc(3) assms(1) n by simp
  moreover have "map (\<lambda>i. start + int i * step) [0..<Suc n] = start # map (\<lambda>i. start + step + int i * step) [0..<n]"
    by (simp add: upt_conv_Cons map_Suc_upt [symmetric] del: upt_Suc) (simp add: algebra_simps)
  ultimately show ?case
    using less Suc(2,3) assms(1,2) by (subst visit_step) (auto simp: Rng_ops_def Rng_not_equal_def Rng_get_def Rng_next_def)
qed

text \<open>A range visits its numbers in steps, as long as the first number past the edge fits an \<open>int\<close>.\<close>

theorem Range_visits:
  assumes "0 < step" and "edge + step \<le> 2 ^ 31" and "- (2 ^ 31) \<le> start"
  shows "visit_range Rng_ops (Range_step start edge step)
    = Some (map (\<lambda>i. start + int i * step) [0..<range_count start edge step])"
  using visit_Rng [OF assms] by (simp add: visit_range_def Range_step_def)

declare skip_equal.simps [simp del] group_end.simps [simp del]

lemma visit_NilD: "visit ops it stop = Some [] \<Longrightarrow> \<not> not_equal ops it stop"
  by (subst (asm) visit.simps) (auto simp: Option.bind_eq_Some_conv split: if_splits)

lemma visit_ConsD:
  assumes "visit ops it stop = Some (x # xs)"
  obtains it' where "not_equal ops it stop" "get ops it = Some x" "next_op ops it = Some it'" "visit ops it' stop = Some xs"
  using assms by (subst (asm) visit.simps) (auto simp: Option.bind_eq_Some_conv split: if_splits)

text \<open>A zip visits the pairs of what its two ranges visit, and stops with the shorter one.\<close>

theorem Zip_visits:
  assumes "visit_range ops1 r1 = Some xs" and "visit_range ops2 r2 = Some ys"
  shows "visit_range (Zp_ops ops1 ops2) (Zip r1 r2) = Some (zip xs ys)"
proof -
  have "visit (Zp_ops ops1 ops2) (i, j) (i', j') = Some (zip xs ys)"
    if "visit ops1 i i' = Some xs" "visit ops2 j j' = Some ys" for i i' j j'
    using that
  proof (induction xs arbitrary: i j ys)
    case Nil
    then show ?case using visit_NilD [OF Nil(1)] by (simp add: visit_stop Zp_ops_def Zp_not_equal_def)
  next
    case (Cons x xs)
    show ?case
    proof (cases ys)
      case Nil
      then show ?thesis using visit_NilD [of ops2 j j'] Cons.prems(2)
        by (simp add: visit_stop Zp_ops_def Zp_not_equal_def)
    next
      case ys: (Cons y ys')
      obtain i1 where i: "not_equal ops1 i i'" "get ops1 i = Some x" "next_op ops1 i = Some i1" "visit ops1 i1 i' = Some xs"
        using Cons.prems(1) by (rule visit_ConsD)
      obtain j1 where j: "not_equal ops2 j j'" "get ops2 j = Some y" "next_op ops2 j = Some j1" "visit ops2 j1 j' = Some ys'"
        using Cons.prems(2) [unfolded ys] by (rule visit_ConsD)
      have "visit (Zp_ops ops1 ops2) (i, j) (i', j') = map_option (Cons (x, y)) (visit (Zp_ops ops1 ops2) (i1, j1) (i', j'))"
        using i j by (intro visit_step) (simp_all add: Zp_ops_def Zp_not_equal_def Zp_get_def Zp_next_def)
      then show ?thesis using Cons.IH [OF i(4) j(4)] ys by simp
    qed
  qed
  then show ?thesis using assms by (simp add: visit_range_def Zip_def)
qed

section \<open>Groups\<close>

lemma length_dropWhile_Suc [termination_simp]: "length (dropWhile P xs) < Suc (length xs)"
  by (simp add: le_imp_less_Suc length_dropWhile_le)

fun runs :: "'a list \<Rightarrow> 'a list list" where
  "runs [] = []"
| "runs (x # xs) = (x # takeWhile ((=) x) xs) # runs (dropWhile ((=) x) xs)"

lemma load_append [simp]: "load (ps @ qs) (length ps + d) = load qs d"
  by (simp add: load_def nth_append)

lemma load_run:
  "load (replicate n x @ qs) d = (if d < n then Some x else load qs (d - n))"
  by (auto simp: load_def nth_append)

lemma group_end_run:
  assumes "load qs 0 = Some q" and "q \<noteq> x"
  shows "d \<le> n \<Longrightarrow> 0 < n \<Longrightarrow>
    group_end (ps @ replicate n x @ qs) (length ps) (length ps + d) = Some (length ps + n)"
proof (induction "n - d" arbitrary: d)
  case 0
  then have "d = n" by simp
  then show ?case using 0 assms load_append [of ps _ 0]
    by (subst group_end.simps) (simp add: load_run)
next
  case (Suc k)
  have "group_end (ps @ replicate n x @ qs) (length ps) (length ps + Suc d) = Some (length ps + n)"
    using Suc(1) [of "Suc d"] Suc(2-4) by simp
  moreover have "d < n" using Suc(2) by simp
  ultimately show ?case using Suc(4) load_append [of ps "replicate n x @ qs" 0]
    by (subst group_end.simps) (simp add: load_run)
qed

lemma skip_equal_run:
  assumes "load qs 0 = Some q" and "q \<noteq> x"
  shows "d < n \<Longrightarrow>
    skip_equal (ps @ replicate n x @ qs) (length ps + d) (Suc (length ps + d)) = Some (length ps + (n - 1))"
proof (induction "n - d" arbitrary: d)
  case (Suc k)
  have next_load: "load (ps @ replicate n x @ qs) (Suc (length ps + d)) = (if Suc d < n then Some x else Some q)"
    using load_append [of ps "replicate n x @ qs" "Suc d"] Suc(3) assms(1) by (auto simp: load_run less_Suc_eq)
  show ?case
  proof (cases "Suc d < n")
    case True
    then have "skip_equal (ps @ replicate n x @ qs) (length ps + Suc d) (Suc (length ps + Suc d)) = Some (length ps + (n - 1))"
      using Suc(1) [of "Suc d"] Suc(2) by simp
    then show ?thesis using True Suc(3) by (subst skip_equal.simps) (simp add: next_load load_run)
  next
    case False
    then show ?thesis using Suc(3) assms(2) by (subst skip_equal.simps) (auto simp: next_load load_run)
  qed
qed simp

lemma visit_seq:
  "i \<le> j \<Longrightarrow> j \<le> length memory \<Longrightarrow> visit (SubSeq_ops (seq_ops memory)) i j = Some (take (j - i) (drop i memory))"
proof (induction "j - i" arbitrary: i)
  case 0
  then show ?case by (simp add: visit_stop SubSeq_ops_def seq_ops_def)
next
  case (Suc n)
  then have "visit (SubSeq_ops (seq_ops memory)) (Suc i) j = Some (take (j - Suc i) (drop (Suc i) memory))" by simp
  then show ?case using Suc(2,4)
    by (subst visit_step [where x = "memory ! i" and it' = "Suc i"])
      (auto simp: SubSeq_ops_def seq_ops_def load_def Cons_nth_drop_Suc [symmetric] take_Cons' diff_Suc_less)
qed

text \<open>The first run of a list.\<close>

lemma first_run:
  assumes "xs \<noteq> []"
  obtains n x ys where "xs = replicate (Suc n) x @ ys" and "ys = [] \<or> hd ys \<noteq> x"
    and "runs xs = replicate (Suc n) x # runs ys"
proof -
  obtain x zs where xs: "xs = x # zs" using assms by (cases xs) auto
  have "takeWhile ((=) x) zs = replicate (length (takeWhile ((=) x) zs)) x"
    by (rule replicate_length_same [symmetric]) (auto dest: set_takeWhileD)
  moreover have "dropWhile ((=) x) zs = [] \<or> hd (dropWhile ((=) x) zs) \<noteq> x"
    using hd_dropWhile [of "(=) x" zs] by metis
  ultimately show thesis
    using that [of "length (takeWhile ((=) x) zs)" x "dropWhile ((=) x) zs"] xs takeWhile_dropWhile_id [of "(=) x" zs]
    by (metis append_Cons replicate_Suc runs.simps(2))
qed

lemma Group_step:
  assumes "load qs 0 = Some q" and "q \<noteq> x"
  shows "Grp_get (ps @ replicate (Suc n) x @ qs) (length ps)
      = Some \<lparr>range_begin = length ps, range_end = length ps + Suc n\<rparr>"
    and "Grp_next (ps @ replicate (Suc n) x @ qs) (length ps) = Some (length ps + Suc n)"
    and "visit_range (SubSeq_ops (seq_ops (ps @ replicate (Suc n) x @ qs)))
      \<lparr>range_begin = length ps, range_end = length ps + Suc n\<rparr> = Some (replicate (Suc n) x)"
  using group_end_run [OF assms, of 0 "Suc n" ps] skip_equal_run [OF assms, of 0 "Suc n" ps]
  by (simp_all add: Grp_get_def Grp_next_def visit_range_def visit_seq del: replicate_Suc)


text \<open>The groups of a sequence that is followed in memory by \<open>qs\<close>.\<close>

lemma groups_from:
  assumes "load qs 0 = Some q" and "xs = [] \<or> q \<noteq> last xs"
  shows "\<exists>rs. visit (Grp_ops (ps @ xs @ qs)) (length ps) (length ps + length xs) = Some rs
    \<and> those (map (visit_range (SubSeq_ops (seq_ops (ps @ xs @ qs)))) rs) = Some (runs xs)"
  using assms(2)
proof (induction "length xs" arbitrary: ps xs rule: less_induct)
  case less
  show ?case
  proof (cases "xs = []")
    case True
    then show ?thesis by (intro exI [of _ "[]"]) (simp add: visit_stop Grp_ops_def)
  next
    case False
    obtain n x ys where run: "xs = replicate (Suc n) x @ ys" "ys = [] \<or> hd ys \<noteq> x" "runs xs = replicate (Suc n) x # runs ys"
      using False by (rule first_run)
    let ?mem = "ps @ replicate (Suc n) x @ ys @ qs" and ?r = "\<lparr>range_begin = length ps, range_end = length ps + Suc n\<rparr>"
    obtain q' where q': "load (ys @ qs) 0 = Some q'" "q' \<noteq> x"
    proof (cases ys)
      case Nil
      then show thesis using that [of q] assms(1) less.prems run(1) last_replicate [of "Suc n" x] by (simp del: replicate_Suc last_replicate)
    next
      case (Cons y zs)
      then show thesis using that [of y] run(2) by (simp add: load_def)
    qed
    note step = Group_step [OF q', of ps n]
    have last_ys: "ys = [] \<or> q \<noteq> last ys" using less.prems run(1) by (cases "ys = []") (simp_all split: if_splits)
    have "\<exists>rs. visit (Grp_ops ((ps @ replicate (Suc n) x) @ ys @ qs)) (length (ps @ replicate (Suc n) x))
        (length (ps @ replicate (Suc n) x) + length ys) = Some rs
      \<and> those (map (visit_range (SubSeq_ops (seq_ops ((ps @ replicate (Suc n) x) @ ys @ qs)))) rs) = Some (runs ys)"
      using less.hyps [of ys "ps @ replicate (Suc n) x"] last_ys run(1) by simp
    then obtain rs where rs: "visit (Grp_ops ?mem) (length ps + Suc n) (length ps + Suc n + length ys) = Some rs"
      "those (map (visit_range (SubSeq_ops (seq_ops ?mem))) rs) = Some (runs ys)"
      by (auto simp del: replicate_Suc)
    have "visit (Grp_ops ?mem) (length ps) (length ps + Suc n + length ys) = Some (?r # rs)"
      using step(1,2) rs(1) by (subst visit_step) (simp_all add: Grp_ops_def del: replicate_Suc)
    then show ?thesis using rs(2) step(3) run(1,3) by (intro exI [of _ "?r # rs"]) (simp add: add.assoc del: replicate_Suc)
  qed
qed

text \<open>A group is a run of equal elements, provided that the element after the sequence, which the code
  looks at, is there and differs from the last one.\<close>

theorem Group_runs:
  assumes "xs = [] \<or> q \<noteq> last xs"
  shows "groups (xs @ q # rest) (length xs) = Some (runs xs)"
  using groups_from [of "q # rest" q xs "[]"] assms
  by (auto simp: groups_def visit_range_def Group_def load_def)

theorem Group_runs_witness: "groups [4, 4, 5, 4, 7 :: nat] 4 = Some [[4, 4], [5], [4]]"
  using Group_runs [of "[4, 4, 5, 4]" "7 :: nat" "[]"] by (simp add: numeral_eq_Suc)

theorem Zip_visits_witness:
  "visit_range (Zp_ops Rng_ops Rng_ops) (Zip (Range_step 0 3 1) (Range_step 5 100 50)) = Some [(0, 5), (1, 55)]"
proof -
  have "visit_range Rng_ops (Range_step 0 3 1) = Some [0, 1, 2]"
    "visit_range Rng_ops (Range_step 5 100 50) = Some [5, 55]"
    by (simp_all add: visit_range_def Range_step_def visit_Rng range_count_def upt_rec eval_nat_numeral)
  from Zip_visits [OF this] show ?thesis by simp
qed

theorem Range_visits_witness: "visit_range Rng_ops (Range_step 3 10 4) = Some [3, 7]"
  using Range_visits [of 4 10 3] by (simp add: range_count_def upt_rec eval_nat_numeral)

text \<open>Without an element after the sequence every loop over its groups looks outside the memory.\<close>

lemma Group_overruns:
  assumes "xs \<noteq> []"
  shows "groups xs (length xs) = None"
proof -
  have overrun: "group_end (ps @ replicate n x) (length ps) (length ps + d) = None" if "d \<le> n" "0 < n" for ps n d and x :: 'a
    using that
  proof (induction "n - d" arbitrary: d)
    case 0
    then show ?case by (subst group_end.simps) (simp add: load_def)
  next
    case (Suc k)
    have "group_end (ps @ replicate n x) (length ps) (length ps + Suc d) = None"
      using Suc(1) [of "Suc d"] Suc(2-4) by simp
    moreover have "d < n" using Suc(2) by simp
    ultimately show ?case by (subst group_end.simps) (simp add: load_def nth_append)
  qed
  have "visit (Grp_ops (ps @ xs)) (length ps) (length ps + length xs) = None" if "xs \<noteq> []" for ps and xs :: "'a list"
    using that
  proof (induction "length xs" arbitrary: ps xs rule: less_induct)
    case less
    obtain n x ys where run: "xs = replicate (Suc n) x @ ys" "ys = [] \<or> hd ys \<noteq> x"
      using less.prems by (rule first_run)
    show ?case
    proof (cases ys)
      case Nil
      then have "Grp_get (ps @ xs) (length ps) = None"
        using overrun [of 0 "Suc n" ps x] run(1) by (simp add: Grp_get_def del: replicate_Suc)
      then show ?thesis using run(1) by (subst visit.simps) (simp add: Grp_ops_def)
    next
      case (Cons y zs)
      then have "load ys 0 = Some y" "y \<noteq> x" using run(2) by (simp_all add: load_def)
      note step = Group_step [OF this, of ps n]
      have "visit (Grp_ops ((ps @ replicate (Suc n) x) @ ys)) (length (ps @ replicate (Suc n) x))
          (length (ps @ replicate (Suc n) x) + length ys) = None"
        using less.hyps [of ys] run(1) Cons by (metis length_append length_replicate less_add_same_cancel2 list.distinct(1) zero_less_Suc)
      then have "visit (Grp_ops (ps @ xs)) (length ps + Suc n) (length ps + length xs) = None"
        using run(1) by (simp add: add.assoc del: replicate_Suc)
      then show ?thesis using step(1,2) run(1)
        by (subst visit_step) (simp_all add: Grp_ops_def del: replicate_Suc)
    qed
  qed
  from this [of xs "[]"] show ?thesis using assms by (simp add: groups_def visit_range_def Group_def)
qed

end
