(* ===== verification/Spline.thy ===== *)
theory Spline
  imports Complex_Main Prelude "HOL-Library.Word"
begin

text \<open>
  Cubic splines (\<open>tasks/patterns/pimpl\<close>: the two routines of \<open>bad.h\<close> and the class \<open>Spline\<close> of \<open>ugly.cpp\<close>).
  A \<open>double\<close> is a real number, and each of its operations is that of the reals followed by a rounding
  \<open>rnd\<close>, a parameter; infinities and not-a-number do not occur. The properties are about arithmetic
  that does not round. \<open>None\<close> is an access outside an array, an overflow of \<open>int\<close> or the use of an
  uninitialised \<open>double\<close>; an allocation does not fail.
\<close>

section \<open>Arithmetic\<close>

type_synonym rounding = "real \<Rightarrow> real"

definition fadd :: "rounding \<Rightarrow> real \<Rightarrow> real \<Rightarrow> real" where "fadd rnd a b = rnd (a + b)"
definition fsub :: "rounding \<Rightarrow> real \<Rightarrow> real \<Rightarrow> real" where "fsub rnd a b = rnd (a - b)"
definition fmul :: "rounding \<Rightarrow> real \<Rightarrow> real \<Rightarrow> real" where "fmul rnd a b = rnd (a * b)"
definition fdiv :: "rounding \<Rightarrow> real \<Rightarrow> real \<Rightarrow> real" where "fdiv rnd a b = rnd (a / b)"

definition exact :: rounding where "exact v = v"

lemma exact_simps [simp]:
  "fadd exact a b = a + b" "fsub exact a b = a - b" "fmul exact a b = a * b" "fdiv exact a b = a / b"
  by (simp_all add: fadd_def fsub_def fmul_def fdiv_def exact_def)

section \<open>The second derivatives\<close>

text \<open>\<open>x[i + 1] - x[i]\<close>, and the right side of equation \<open>i + 1\<close> of \<open>n\<close> in the loop, before the terms of \<open>A\<close>.\<close>

definition step_at :: "rounding \<Rightarrow> real list \<Rightarrow> nat \<Rightarrow> real" where
  "step_at rnd x i = fsub rnd (x ! Suc i) (x ! i)"

definition curvature :: "rounding \<Rightarrow> real list \<Rightarrow> real list \<Rightarrow> nat \<Rightarrow> real" where
  "curvature rnd x y i =
     fmul rnd 6 (fsub rnd (fdiv rnd (fsub rnd (y ! (i + 2)) (y ! Suc i)) (step_at rnd x (Suc i)))
                          (fdiv rnd (fsub rnd (y ! Suc i) (y ! i)) (step_at rnd x i)))"

definition add_last :: "rounding \<Rightarrow> real list \<Rightarrow> nat \<Rightarrow> real \<Rightarrow> nat \<Rightarrow> real \<Rightarrow> real" where
  "add_last rnd x n B i r =
     (if Suc i = n then fadd rnd r (fmul rnd (- step_at rnd x (Suc i)) B) else r)"

text \<open>The forward loop from \<open>i\<close> on: whether it came to its end, or there is a return of -2, and \<open>gam\<close> and \<open>y2\<close>.\<close>

function eliminate ::
  "rounding \<Rightarrow> real list \<Rightarrow> real list \<Rightarrow> nat \<Rightarrow> real \<Rightarrow> nat \<Rightarrow> real \<Rightarrow> real list \<Rightarrow> real list \<Rightarrow> bool \<times> real list \<times> real list" where
  "eliminate rnd x y n B i bet gam y2 =
     (if i < n then
        (let r = add_last rnd x n B i (curvature rnd x y i);
             g = fdiv rnd (step_at rnd x i) bet;
             bet' = fsub rnd (fmul rnd 2 (fsub rnd (x ! (i + 2)) (x ! i))) (fmul rnd (step_at rnd x i) g)
         in if bet' = 0 then (False, gam[i := g], y2)
            else eliminate rnd x y n B (Suc i) bet' (gam[i := g])
              (y2[Suc i := fdiv rnd (fsub rnd r (fmul rnd (step_at rnd x i) (y2 ! i))) bet']))
      else (True, gam, y2))"
  by pat_completeness auto

termination eliminate
  by (relation "measure (\<lambda>(rnd, x, y, n, B, i, bet, gam, y2). n - i)") auto

declare eliminate.simps [simp del]

text \<open>The backward loop for \<open>i = k, \<dots>, 1\<close>.\<close>

primrec substitute :: "rounding \<Rightarrow> real list \<Rightarrow> nat \<Rightarrow> real list \<Rightarrow> real list" where
  "substitute rnd gam 0 y2 = y2"
| "substitute rnd gam (Suc k) y2 =
     substitute rnd gam k (y2[Suc k := fsub rnd (y2 ! Suc k) (fmul rnd (gam ! Suc k) (y2 ! (k + 2)))])"

text \<open>The result and the array \<open>y2\<close>.\<close>

definition mySplineSnd ::
  "rounding \<Rightarrow> real list \<Rightarrow> real list \<Rightarrow> nat \<Rightarrow> real \<Rightarrow> real \<Rightarrow> real list \<Rightarrow> int \<times> real list" where
  "mySplineSnd rnd x y points A B y2 =
     (if points < 1 then (0, y2)
      else if points = 1 then (0, y2[0 := A])
      else if points = 2 then (0, y2[0 := A, 1 := B])
      else
        (let n = points - 2;
             r = add_last rnd x n B 0 (fsub rnd (curvature rnd x y 0) (fmul rnd (step_at rnd x 0) A));
             bet = fmul rnd 2 (fsub rnd (x ! 2) (x ! 0))
         in if bet = 0 then (- 2, y2[0 := A])
            else
              (let (done, gam, z) = eliminate rnd x y n B 1 bet (replicate n 0) (y2[0 := A, 1 := fdiv rnd r bet])
               in if done then (0, (substitute rnd gam (n - 1) z)[Suc n := B]) else (- 2, z))))"

section \<open>The value at a point\<close>

text \<open>\<open>int\<close> has 32 bits: the initial \<open>hi\<close> is \<open>n - 1\<close> of type \<open>size_t\<close>, narrowed.\<close>

definition last_index :: "nat \<Rightarrow> int" where
  "last_index n = sint (word_of_nat n - 1 :: 32 word)"

definition int_max :: int where
  "int_max = 2147483647"

text \<open>The loop of the bisection.\<close>

function bisect :: "real list \<Rightarrow> real \<Rightarrow> int \<Rightarrow> int \<Rightarrow> (int \<times> int) option" where
  "bisect xa v lo hi =
     (if hi - lo > 1 then
        (if hi + lo > int_max then None
         else let k = (hi + lo) div 2 in if xa ! nat k > v then bisect xa v lo k else bisect xa v k hi)
      else Some (lo, hi))"
  by pat_completeness auto

termination bisect
  by (relation "measure (\<lambda>(xa, v, lo, hi). nat (hi - lo))") auto

declare bisect.simps [simp del]

definition cube :: "rounding \<Rightarrow> real \<Rightarrow> real" where
  "cube rnd a = fsub rnd (fmul rnd (fmul rnd a a) a) a"

text \<open>The value stored at \<open>y\<close>; \<open>Inl\<close> is the result of a return without one.\<close>

definition mySplintCube ::
  "rounding \<Rightarrow> real list \<Rightarrow> real list \<Rightarrow> real list \<Rightarrow> nat \<Rightarrow> real \<Rightarrow> (int + real) option" where
  "mySplintCube rnd xa ya y2a n v =
     (if n = 0 then Some (Inl (- 1))
      else
        (case bisect xa v 0 (last_index n) of
           None \<Rightarrow> None
         | Some (l, h) \<Rightarrow>
             if h < 0 then None
             else
               (let lo = nat l; hi = nat h; dx = fsub rnd (xa ! hi) (xa ! lo)
                in if dx = 0 then Some (Inl (- 2))
                   else
                     (let a = fdiv rnd (fsub rnd (xa ! hi) v) dx;
                          b = fdiv rnd (fsub rnd v (xa ! lo)) dx
                      in Some (Inr (fadd rnd (fadd rnd (fmul rnd a (ya ! lo)) (fmul rnd b (ya ! hi)))
                           (fdiv rnd (fmul rnd (fmul rnd (fadd rnd (fmul rnd (cube rnd a) (y2a ! lo))
                              (fmul rnd (cube rnd b) (y2a ! hi))) dx) dx) 6)))))))"

section \<open>The class\<close>

record spline =
  sp_n :: nat
  sp_x :: "real list"
  sp_y :: "real list"
  sp_y2 :: "real list"

text \<open>The result of \<open>mySplineSnd\<close> is ignored; \<open>junk\<close> is what the new array holds before.\<close>

definition Spline_new :: "rounding \<Rightarrow> real list \<Rightarrow> real list \<Rightarrow> real \<Rightarrow> real \<Rightarrow> real list \<Rightarrow> spline option" where
  "Spline_new rnd x y a b junk =
     (let np = length x in
      if length y < np then None
      else Some \<lparr>sp_n = np, sp_x = x, sp_y = take np y, sp_y2 = snd (mySplineSnd rnd x (take np y) np a b junk)\<rparr>)"

definition Interpolate :: "rounding \<Rightarrow> spline \<Rightarrow> real \<Rightarrow> real option" where
  "Interpolate rnd s v =
     (case mySplintCube rnd (sp_x s) (sp_y s) (sp_y2 s) (sp_n s) v of Some (Inr r) \<Rightarrow> Some r | _ \<Rightarrow> None)"

section \<open>Elimination\<close>

text \<open>The quantities of the elimination as sequences: equation \<open>i + 1\<close> has the divisor \<open>divisors i\<close>, the
  right side \<open>right_side i\<close> and the value \<open>values_of i\<close>.\<close>

abbreviation h_of :: "real list \<Rightarrow> nat \<Rightarrow> real" where
  "h_of x i \<equiv> x ! Suc i - x ! i"

primrec divisors :: "real list \<Rightarrow> nat \<Rightarrow> real" where
  "divisors x 0 = 2 * (x ! 2 - x ! 0)"
| "divisors x (Suc k) = 2 * (x ! (Suc k + 2) - x ! Suc k) - h_of x (Suc k) * (h_of x (Suc k) / divisors x k)"

definition slopes :: "real list \<Rightarrow> real list \<Rightarrow> nat \<Rightarrow> real" where
  "slopes x y i = 6 * ((y ! (i + 2) - y ! Suc i) / h_of x (Suc i) - (y ! Suc i - y ! i) / h_of x i)"

definition right_side :: "real list \<Rightarrow> real list \<Rightarrow> nat \<Rightarrow> real \<Rightarrow> real \<Rightarrow> nat \<Rightarrow> real" where
  "right_side x y n A B i =
     slopes x y i - (if i = 0 then h_of x 0 * A else 0) - (if Suc i = n then h_of x (Suc i) * B else 0)"

primrec values_of :: "real list \<Rightarrow> real list \<Rightarrow> nat \<Rightarrow> real \<Rightarrow> real \<Rightarrow> nat \<Rightarrow> real" where
  "values_of x y n A B 0 = right_side x y n A B 0 / divisors x 0"
| "values_of x y n A B (Suc k) =
     (right_side x y n A B (Suc k) - h_of x (Suc k) * values_of x y n A B k) / divisors x (Suc k)"

lemma divisors_pos:
  assumes "sorted_wrt (<) x"
  shows "k + 2 < length x \<Longrightarrow> h_of x (Suc k) < divisors x k"
proof (induction k)
  case 0
  have "x ! 0 < x ! 1" "x ! 1 < x ! 2" using 0 sorted_wrt_nth_less [OF assms] by auto
  then show ?case by (simp add: numeral_2_eq_2)
next
  case (Suc k)
  let ?h = "h_of x (Suc k)" and ?d = "divisors x k"
  have lt: "x ! Suc k < x ! (k + 2)" "x ! (k + 2) < x ! (k + 3)"
    using Suc.prems sorted_wrt_nth_less [OF assms] by auto
  have d: "?h < ?d" "0 < ?h" using Suc lt by simp_all
  then have "?h * (?h / ?d) < ?h" by (simp add: divide_less_eq)
  then show ?case using lt by (simp add: numeral_3_eq_3)
qed

lemma eliminate_values:
  assumes "sorted_wrt (<) x" and "n + 2 \<le> length x"
  shows "0 < i \<Longrightarrow> i \<le> n \<Longrightarrow> length gam = n \<Longrightarrow> length y2 = n + 2 \<Longrightarrow> y2 ! i = values_of x y n A B (i - 1) \<Longrightarrow>
    \<exists>gam' z. eliminate exact x y n B i (divisors x (i - 1)) gam y2 = (True, gam', z)
      \<and> length gam' = n \<and> length z = n + 2
      \<and> (\<forall>j < i. gam' ! j = gam ! j) \<and> (\<forall>j. i \<le> j \<and> j < n \<longrightarrow> gam' ! j = h_of x j / divisors x (j - 1))
      \<and> (\<forall>j \<le> i. z ! j = y2 ! j) \<and> (\<forall>j. i < j \<and> j \<le> n \<longrightarrow> z ! j = values_of x y n A B (j - 1))"
proof (induction "n - i" arbitrary: i gam y2)
  case 0
  then have "i = n" by simp
  then show ?case using 0 by (subst eliminate.simps) simp
next
  case (Suc d)
  then have less: "i < n" by simp
  obtain k where k: "i = Suc k" using Suc.prems(1) by (cases i) auto
  have pos: "divisors x i \<noteq> 0"
    using divisors_pos [OF assms(1), of i] sorted_wrt_nth_less [OF assms(1), of "Suc i" "Suc (Suc i)"] less assms(2) by force
  let ?g = "h_of x i / divisors x (i - 1)" and ?v = "values_of x y n A B i"
  have new: "2 * (x ! (i + 2) - x ! i) - h_of x i * ?g = divisors x i" using k by simp
  have v: "(add_last exact x n B i (curvature exact x y i) - h_of x i * y2 ! i) / divisors x i = ?v"
    using Suc.prems(5) k
    by (simp add: add_last_def curvature_def step_at_def right_side_def slopes_def algebra_simps)
  have unfold: "eliminate exact x y n B i (divisors x (i - 1)) gam y2
      = eliminate exact x y n B (Suc i) (divisors x i) (gam[i := ?g]) (y2[Suc i := ?v])"
    using less pos new v by (subst eliminate.simps) (simp add: Let_def step_at_def)
  obtain gam' z where IH: "eliminate exact x y n B (Suc i) (divisors x i) (gam[i := ?g]) (y2[Suc i := ?v]) = (True, gam', z)"
    "length gam' = n" "length z = n + 2" "\<forall>j < Suc i. gam' ! j = gam[i := ?g] ! j"
    "\<forall>j. Suc i \<le> j \<and> j < n \<longrightarrow> gam' ! j = h_of x j / divisors x (j - 1)"
    "\<forall>j \<le> Suc i. z ! j = y2[Suc i := ?v] ! j" "\<forall>j. Suc i < j \<and> j \<le> n \<longrightarrow> z ! j = values_of x y n A B (j - 1)"
    using Suc.hyps(1) [of "Suc i" "gam[i := ?g]" "y2[Suc i := ?v]"] Suc.hyps(2) Suc.prems less by force
  have "gam' ! j = h_of x j / divisors x (j - 1)" if "i \<le> j" "j < n" for j
    using IH(4,5) that Suc.prems(3) by (cases "j = i") auto
  moreover have "z ! j = values_of x y n A B (j - 1)" if "i < j" "j \<le> n" for j
    using IH(6,7) that Suc.prems(4) less by (cases "j = Suc i") auto
  ultimately show ?case using unfold IH less by (auto simp: nth_list_update)
qed

lemma substitute_values:
  "k + 2 \<le> length y2 \<Longrightarrow> length (substitute exact gam k y2) = length y2
    \<and> (\<forall>j. j = 0 \<or> k < j \<longrightarrow> substitute exact gam k y2 ! j = y2 ! j)
    \<and> (\<forall>j. 0 < j \<and> j \<le> k \<longrightarrow> substitute exact gam k y2 ! j = y2 ! j - gam ! j * substitute exact gam k y2 ! Suc j)"
proof (induction k arbitrary: y2)
  case (Suc k)
  let ?y = "y2[Suc k := y2 ! Suc k - gam ! Suc k * y2 ! (k + 2)]"
  have IH: "length (substitute exact gam k ?y) = length ?y"
    "\<forall>j. j = 0 \<or> k < j \<longrightarrow> substitute exact gam k ?y ! j = ?y ! j"
    "\<forall>j. 0 < j \<and> j \<le> k \<longrightarrow> substitute exact gam k ?y ! j = ?y ! j - gam ! j * substitute exact gam k ?y ! Suc j"
    using Suc.IH [of ?y] Suc.prems by auto
  have "substitute exact gam k ?y ! j = y2 ! j - gam ! j * substitute exact gam k ?y ! Suc j" if "0 < j" "j \<le> Suc k" for j
  proof (cases "j = Suc k")
    case True
    then show ?thesis using IH(2) Suc.prems by simp
  next
    case False
    then show ?thesis using IH(3) that by simp
  qed
  then show ?case using IH(1,2) by simp
qed simp

section \<open>The equations\<close>

lemma equation_step:
  fixes d v h u g z0 z1 later R T :: real
  assumes "d * v = R - h * u" and "u = z0 + g * z1" and "d = T - h * g" and "d * v = d * z1 + later"
  shows "T * z1 + later + h * z0 = R"
  using assms by algebra

lemma mySplineSnd_solves:
  assumes "sorted_wrt (<) x" and "length x = n + 2" and "0 < n" and "length y2 = n + 2"
  obtains z where "mySplineSnd exact x y (n + 2) A B y2 = (0, z)" and "z ! 0 = A" and "z ! Suc n = B"
    and "\<forall>i < n. h_of x i * z ! i + 2 * (x ! (i + 2) - x ! i) * z ! Suc i + h_of x (Suc i) * z ! (i + 2) = slopes x y i"
proof -
  have d0: "divisors x k \<noteq> 0" if "k < n" for k
    using divisors_pos [OF assms(1), of k] sorted_wrt_nth_less [OF assms(1), of "Suc k" "Suc (Suc k)"] that assms(2) by force
  let ?v = "values_of x y n A B" and ?y = "y2[0 := A, 1 := values_of x y n A B 0]"
  have v0: "add_last exact x n B 0 (curvature exact x y 0 - h_of x 0 * A) / divisors x 0 = ?v 0"
    by (simp add: add_last_def curvature_def step_at_def right_side_def slopes_def numeral_2_eq_2 algebra_simps)
  obtain gam z where el: "eliminate exact x y n B 1 (divisors x 0) (replicate n 0) ?y = (True, gam, z)"
    "length z = n + 2" "\<forall>j. 1 \<le> j \<and> j < n \<longrightarrow> gam ! j = h_of x j / divisors x (j - 1)"
    "z ! 0 = A" "\<forall>j. 0 < j \<and> j \<le> n \<longrightarrow> z ! j = ?v (j - 1)"
  proof -
    have "\<exists>gam' z. eliminate exact x y n B 1 (divisors x (1 - 1)) (replicate n 0) ?y = (True, gam', z)
      \<and> length gam' = n \<and> length z = n + 2
      \<and> (\<forall>j < 1. gam' ! j = replicate n 0 ! j) \<and> (\<forall>j. 1 \<le> j \<and> j < n \<longrightarrow> gam' ! j = h_of x j / divisors x (j - 1))
      \<and> (\<forall>j \<le> 1. z ! j = ?y ! j) \<and> (\<forall>j. 1 < j \<and> j \<le> n \<longrightarrow> z ! j = ?v (j - 1))"
      by (rule eliminate_values [OF assms(1)]) (use assms in simp_all)
    then obtain gam z where 1: "eliminate exact x y n B 1 (divisors x 0) (replicate n 0) ?y = (True, gam, z)"
      "length z = n + 2" "\<forall>j. 1 \<le> j \<and> j < n \<longrightarrow> gam ! j = h_of x j / divisors x (j - 1)"
      "z ! 0 = ?y ! 0" "z ! 1 = ?y ! 1" "\<forall>j. 1 < j \<and> j \<le> n \<longrightarrow> z ! j = ?v (j - 1)"
      by auto
    have "z ! j = ?v (j - 1)" if "0 < j" "j \<le> n" for j
      using 1(5,6) that assms(4) by (cases "j = 1") auto
    then show thesis using that [OF 1(1-3)] 1(4) assms(4) by simp
  qed
  define s where "s = substitute exact gam (n - 1) z"
  have s: "length s = n + 2" "s ! 0 = A" "s ! n = ?v (n - 1)"
    "\<And>j. 0 < j \<Longrightarrow> j < n \<Longrightarrow> s ! j = ?v (j - 1) - h_of x j / divisors x (j - 1) * s ! Suc j"
    using substitute_values [of "n - 1" z gam] el assms(3) by (auto simp: s_def)
  have bet: "2 * (x ! 2 - x ! 0) = divisors x 0" by simp
  have run: "mySplineSnd exact x y (n + 2) A B y2 = (0, s[Suc n := B])"
    using assms(3) d0 [OF assms(3)] v0 el(1) unfolding mySplineSnd_def Let_def
    by (simp add: step_at_def s_def del: divisors.simps add: bet) (simp add: numeral_2_eq_2)
  let ?z = "s[Suc n := B]"
  have z: "?z ! j = s ! j" if "j \<le> n" for j using that by simp
  have "h_of x i * ?z ! i + 2 * (x ! (i + 2) - x ! i) * ?z ! Suc i + h_of x (Suc i) * ?z ! (i + 2) = slopes x y i"
    if i: "i < n" for i
  proof -
    let ?next = "if Suc i = n then 0 else h_of x (Suc i) * s ! (i + 2)"
    have "?v i = s ! Suc i + (if Suc i = n then 0 else h_of x (Suc i) / divisors x i * s ! (i + 2))"
      using s(3) s(4) [of "Suc i"] i by (cases "Suc i = n") auto
    then have eq: "divisors x i * ?v i = divisors x i * s ! Suc i + ?next"
      using d0 [OF i] by (simp add: distrib_left)
    have last: "h_of x (Suc i) * ?z ! (i + 2) = ?next + (if Suc i = n then h_of x (Suc i) * B else 0)"
      using i s(1) by (cases "Suc i = n") auto
    show ?thesis
    proof (cases i)
      case 0
      have "divisors x 0 * ?v 0 = right_side x y n A B 0" using d0 [of 0] assms(3) by simp
      then have "divisors x 0 * s ! Suc 0 + ?next = right_side x y n A B 0" using eq unfolding 0 by (rule trans [OF sym, rotated])
      then have "2 * (x ! 2 - x ! 0) * s ! Suc 0 + ?next = right_side x y n A B 0" by simp
      moreover have "?z ! 0 = A" "?z ! Suc 0 = s ! Suc 0" using s(1,2) z [of "Suc i"] i 0 by simp_all
      ultimately show ?thesis using last 0
        by (cases "Suc 0 = n") (simp_all add: right_side_def numeral_2_eq_2)
    next
      case (Suc k)
      have "divisors x i * ?v i = right_side x y n A B i - h_of x i * ?v k" using d0 [OF i] Suc by simp
      moreover have "?v k = s ! i + h_of x i / divisors x k * s ! Suc i" using s(4) [of i] Suc i by simp
      moreover have "divisors x i = 2 * (x ! (i + 2) - x ! i) - h_of x i * (h_of x i / divisors x k)" using Suc by simp
      ultimately have "2 * (x ! (i + 2) - x ! i) * s ! Suc i + ?next + h_of x i * s ! i = right_side x y n A B i"
        using eq by (rule equation_step)
      then show ?thesis using last Suc z [of i] z [of "Suc i"] i
        by (cases "Suc i = n") (auto simp add: right_side_def)
    qed
  qed
  moreover have "?z ! 0 = A" "?z ! Suc n = B" using s(1,2) by simp_all
  ultimately show thesis using that [OF run] by blast
qed

section \<open>Interpolation\<close>

lemma last_index: "0 < n \<Longrightarrow> n \<le> 2 ^ 30 \<Longrightarrow> last_index n = int (n - 1)"
proof -
  assume n: "0 < n" "n \<le> 2 ^ 30"
  then have "word_of_nat n - 1 = (word_of_nat (n - 1) :: 32 word)" by (simp add: of_nat_diff)
  then have "last_index n = signed_take_bit 31 (int (n - 1))" by (simp add: last_index_def signed_of_nat)
  also have "\<dots> = int (n - 1)" using n by (intro signed_take_bit_int_eq_self) simp_all
  finally show ?thesis .
qed

text \<open>The two indices are neighbours, and the point lies between theirs, or outside all.\<close>

lemma bisect_interval:
  assumes "0 \<le> lo" and "lo < hi" and "hi < 2 ^ 30"
  shows "\<exists>l. bisect xa v lo hi = Some (int l, int (Suc l)) \<and> nat lo \<le> l \<and> Suc l \<le> nat hi
    \<and> (l = nat lo \<or> xa ! l \<le> v) \<and> (Suc l = nat hi \<or> v < xa ! Suc l)"
  using assms
proof (induction "nat (hi - lo)" arbitrary: lo hi rule: less_induct)
  case less
  show ?case
  proof (cases "hi - lo > 1")
    case True
    let ?k = "(hi + lo) div 2"
    have k: "lo < ?k" "?k < hi" using True by auto
    have small: "\<not> hi + lo > int_max" using less.prems by (simp add: int_max_def)
    show ?thesis
    proof (cases "xa ! nat ?k > v")
      case left: True
      have "nat (?k - lo) < nat (hi - lo)" using k by linarith
      moreover have "?k < 2 ^ 30" using k less.prems by simp
      ultimately obtain l where l: "bisect xa v lo ?k = Some (int l, int (Suc l))" "nat lo \<le> l" "Suc l \<le> nat ?k"
        "l = nat lo \<or> xa ! l \<le> v" "Suc l = nat ?k \<or> v < xa ! Suc l"
        using less.hyps [of ?k lo] less.prems(1) k(1) by blast
      have "Suc l \<le> nat hi" using l(3) k(2) by linarith
      moreover have "v < xa ! Suc l" using l(5) left by auto
      ultimately show ?thesis using l True small left by (subst bisect.simps) (auto simp: Let_def)
    next
      case right: False
      have "nat (hi - ?k) < nat (hi - lo)" using k by linarith
      moreover have "0 \<le> ?k" using k less.prems by simp
      ultimately obtain l where l: "bisect xa v ?k hi = Some (int l, int (Suc l))" "nat ?k \<le> l" "Suc l \<le> nat hi"
        "l = nat ?k \<or> xa ! l \<le> v" "Suc l = nat hi \<or> v < xa ! Suc l"
        using less.hyps [of hi ?k] less.prems(3) k(2) by blast
      have "nat lo \<le> l" using l(2) k(1) by linarith
      moreover have "xa ! l \<le> v" using l(4) right by auto
      ultimately show ?thesis using l True small right by (subst bisect.simps) (auto simp: Let_def)
    qed
  next
    case False
    then have "hi = lo + 1" using less.prems by simp
    then have "nat hi = Suc (nat lo)" "hi = int (Suc (nat lo))" "lo = int (nat lo)" using less.prems(1) by simp_all
    then show ?thesis using False by (intro exI [of _ "nat lo"]) (subst bisect.simps, simp)
  qed
qed

text \<open>The cubic between two neighbouring points, and its derivatives, where \<open>z\<close> has the second derivatives at
  the points.\<close>

definition piece :: "real list \<Rightarrow> real list \<Rightarrow> real list \<Rightarrow> nat \<Rightarrow> real \<Rightarrow> real" where
  "piece x y z k v =
     (let a = (x ! Suc k - v) / h_of x k; b = (v - x ! k) / h_of x k
      in a * y ! k + b * y ! Suc k + ((a ^ 3 - a) * z ! k + (b ^ 3 - b) * z ! Suc k) * h_of x k * h_of x k / 6)"

definition piece' :: "real list \<Rightarrow> real list \<Rightarrow> real list \<Rightarrow> nat \<Rightarrow> real \<Rightarrow> real" where
  "piece' x y z k v =
     (let a = (x ! Suc k - v) / h_of x k; b = (v - x ! k) / h_of x k
      in (y ! Suc k - y ! k) / h_of x k + ((1 - 3 * a ^ 2) * z ! k + (3 * b ^ 2 - 1) * z ! Suc k) * h_of x k / 6)"

definition piece'' :: "real list \<Rightarrow> real list \<Rightarrow> nat \<Rightarrow> real \<Rightarrow> real" where
  "piece'' x z k v = ((x ! Suc k - v) * z ! k + (v - x ! k) * z ! Suc k) / h_of x k"

lemma piece_knots:
  assumes "x ! k < x ! Suc k"
  shows "piece x y z k (x ! k) = y ! k" "piece x y z k (x ! Suc k) = y ! Suc k"
    "piece' x y z k (x ! k) = (y ! Suc k - y ! k) / h_of x k - (2 * z ! k + z ! Suc k) * h_of x k / 6"
    "piece' x y z k (x ! Suc k) = (y ! Suc k - y ! k) / h_of x k + (z ! k + 2 * z ! Suc k) * h_of x k / 6"
    "piece'' x z k (x ! k) = z ! k" "piece'' x z k (x ! Suc k) = z ! Suc k"
  using assms by (simp_all add: piece_def piece'_def piece''_def field_simps)

lemma linear_derivatives:
  fixes h :: real
  assumes "h \<noteq> 0"
  shows "((\<lambda>v. (c - v) / h) has_real_derivative - 1 / h) (at v)" and "((\<lambda>v. (v - c) / h) has_real_derivative 1 / h) (at v)"
  using assms by (auto intro!: derivative_eq_intros simp: field_simps)

lemma cubic_derivatives:
  fixes h :: real
  assumes "h \<noteq> 0" and a: "(A has_real_derivative - 1 / h) (at v)" and b: "(B has_real_derivative 1 / h) (at v)"
  shows "((\<lambda>v. A v * y0 + B v * y1 + ((A v ^ 3 - A v) * z0 + (B v ^ 3 - B v) * z1) * h * h / 6) has_real_derivative
      (y1 - y0) / h + ((1 - 3 * A v ^ 2) * z0 + (3 * B v ^ 2 - 1) * z1) * h / 6) (at v)"
    and "((\<lambda>v. d + ((1 - 3 * A v ^ 2) * z0 + (3 * B v ^ 2 - 1) * z1) * h / 6) has_real_derivative A v * z0 + B v * z1) (at v)"
  using assms(1) by (auto intro!: derivative_eq_intros a b simp: field_simps power2_eq_square)

lemma piece_derivatives:
  assumes "x ! k < x ! Suc k"
  shows "(piece x y z k has_real_derivative piece' x y z k v) (at v)"
    and "(piece' x y z k has_real_derivative piece'' x z k v) (at v)"
proof -
  have h: "h_of x k \<noteq> 0" using assms by simp
  note d = cubic_derivatives [OF h linear_derivatives(1) [OF h] linear_derivatives(2) [OF h]]
  show "(piece x y z k has_real_derivative piece' x y z k v) (at v)"
    unfolding piece_def piece'_def Let_def by (rule d(1))
  have "piece'' x z k v = (x ! Suc k - v) / h_of x k * z ! k + (v - x ! k) / h_of x k * z ! Suc k"
    by (simp add: piece''_def add_divide_distrib)
  then show "(piece' x y z k has_real_derivative piece'' x z k v) (at v)"
    unfolding piece'_def Let_def using d(2) by simp
qed

lemma piece''_affine: "\<exists>c d. piece'' x z k = (\<lambda>v. c * v + d)"
proof (intro exI ext)
  fix v
  show "piece'' x z k v = (z ! Suc k - z ! k) / h_of x k * v + (x ! Suc k * z ! k - x ! k * z ! Suc k) / h_of x k"
    by (simp add: piece''_def diff_divide_distrib add_divide_distrib left_diff_distrib right_diff_distrib mult.commute)
qed

text \<open>The spline as a function: on each interval between neighbours, on the first one also before its point and
  on the last also behind, a cubic through both points; first and second derivatives of neighbouring
  cubics agree at the point between them, and the second derivatives at the ends are given.\<close>

definition cubic_spline :: "real list \<Rightarrow> real list \<Rightarrow> real \<Rightarrow> real \<Rightarrow> (real \<Rightarrow> real) \<Rightarrow> bool" where
  "cubic_spline x y a b f \<longleftrightarrow>
     (\<exists>p p' p'' :: nat \<Rightarrow> real \<Rightarrow> real.
        (\<forall>k v. Suc k < length x \<and> (k = 0 \<or> x ! k \<le> v) \<and> (k + 2 = length x \<or> v \<le> x ! Suc k) \<longrightarrow> f v = p k v)
      \<and> (\<forall>k. Suc k < length x \<longrightarrow> p k (x ! k) = y ! k \<and> p k (x ! Suc k) = y ! Suc k
           \<and> (\<forall>v. (p k has_real_derivative p' k v) (at v) \<and> (p' k has_real_derivative p'' k v) (at v))
           \<and> (\<exists>c d. p'' k = (\<lambda>v. c * v + d)))
      \<and> (\<forall>k. k + 2 < length x \<longrightarrow> p' k (x ! Suc k) = p' (Suc k) (x ! Suc k) \<and> p'' k (x ! Suc k) = p'' (Suc k) (x ! Suc k))
      \<and> p'' 0 (x ! 0) = a \<and> p'' (length x - 2) (x ! (length x - 1)) = b)"

lemma cubic_spline_points:
  assumes "cubic_spline x y a b f" and "Suc k < length x" and "x ! k \<le> x ! Suc k"
  shows "f (x ! k) = y ! k" and "f (x ! Suc k) = y ! Suc k"
  using assms unfolding cubic_spline_def by (metis order_refl)+

lemma mySplintCube_piece:
  assumes "sorted_wrt (<) x" and "2 \<le> length x" and "length x \<le> 2 ^ 30"
  obtains l where "mySplintCube exact x y z (length x) v = Some (Inr (piece x y z l v))" and "Suc l < length x"
    and "l = 0 \<or> x ! l \<le> v" and "l + 2 = length x \<or> v < x ! Suc l"
proof -
  have last: "last_index (length x) = int (length x - 1)" using assms(2,3) by (intro last_index) auto
  have "0 < int (length x - 1)" "int (length x - 1) < 2 ^ 30" using assms(2,3) by auto
  then obtain l where l: "bisect x v 0 (int (length x - 1)) = Some (int l, int (Suc l))" "Suc l \<le> length x - 1"
    "l = 0 \<or> x ! l \<le> v" "Suc l = length x - 1 \<or> v < x ! Suc l"
    using bisect_interval [of 0 "int (length x - 1)" x v] unfolding nat_0 nat_int by blast
  have sl: "Suc l < length x" using l(2) assms(2) by linarith
  then have lt: "x ! l < x ! Suc l" using sorted_wrt_nth_less [OF assms(1), of l "Suc l"] by simp
  have "length x \<noteq> 0" using assms(2) by linarith
  then have "mySplintCube exact x y z (length x) v = Some (Inr (piece x y z l v))"
    unfolding mySplintCube_def last l(1) option.case prod.case Let_def nat_int
    using lt by (simp add: cube_def piece_def Let_def power3_eq_cube)
  moreover have "l + 2 = length x \<or> v < x ! Suc l" using l(4) assms(2) by auto
  ultimately show thesis using l(3) sl by (intro that)
qed

text \<open>The piece that the bisection finds has the value of every other one whose interval holds the point.\<close>

lemma pieces_agree:
  assumes "sorted_wrt (<) x" and "Suc l < length x" and "l = 0 \<or> x ! l \<le> v" and "l + 2 = length x \<or> v < x ! Suc l"
    and "Suc k < length x" and "k = 0 \<or> x ! k \<le> v" and "k + 2 = length x \<or> v \<le> x ! Suc k"
  shows "piece x y z l v = piece x y z k v"
proof -
  have le: "x ! i \<le> x ! j" if "i \<le> j" "j < length x" for i j
    using sorted_wrt_nth_less [OF assms(1), of i j] that by (cases "i = j") auto
  consider "l = k" | "l < k" | "k < l" by linarith
  then show ?thesis
  proof cases
    case 2
    then have "v < x ! Suc l" "x ! k \<le> v" using assms(4-6) by auto
    moreover have "x ! Suc l \<le> x ! k" using le [of "Suc l" k] 2 assms(5) by simp
    ultimately show ?thesis by linarith
  next
    case 3
    then have "v \<le> x ! Suc k" "x ! l \<le> v" using assms(2,3,7) by auto
    moreover have "x ! Suc k \<le> x ! l" using le [of "Suc k" l] 3 assms(2) by simp
    ultimately have v: "v = x ! Suc k" "x ! Suc k = x ! l" by auto
    then have "\<not> Suc k < l" using sorted_wrt_nth_less [OF assms(1), of "Suc k" l] assms(2) by auto
    then have l: "l = Suc k" using 3 by simp
    have "x ! k < x ! Suc k" "x ! l < x ! Suc l"
      using sorted_wrt_nth_less [OF assms(1)] assms(2,5) by auto
    then have "piece x y z k (x ! Suc k) = y ! Suc k" "piece x y z l (x ! l) = y ! l"
      by (simp_all only: piece_knots)
    then show ?thesis by (simp only: v(1) l)
  qed simp
qed

lemma slopes_join:
  fixes h h' z0 z1 z2 d d' :: real
  assumes "h * z0 + 2 * (h + h') * z1 + h' * z2 = 6 * (d' - d)"
  shows "d + (z0 + 2 * z1) * h / 6 = d' - (2 * z1 + z2) * h' / 6"
  using assms by (simp add: field_simps)

lemma second_derivatives:
  assumes "sorted_wrt (<) x" and "length y = length x" and "length junk = length x" and "2 \<le> length x"
  obtains z where "Spline_new exact x y a b junk = Some \<lparr>sp_n = length x, sp_x = x, sp_y = y, sp_y2 = z\<rparr>"
    and "z ! 0 = a" and "z ! (length x - 1) = b"
    and "\<forall>i. i + 2 < length x \<longrightarrow>
      h_of x i * z ! i + 2 * (x ! (i + 2) - x ! i) * z ! Suc i + h_of x (Suc i) * z ! (i + 2) = slopes x y i"
proof (cases "length x = 2")
  case True
  then show thesis using that [of "junk[0 := a, 1 := b]"] assms(2,3)
    by (simp add: Spline_new_def mySplineSnd_def)
next
  case False
  define n where "n = length x - 2"
  have n: "length x = n + 2" "0 < n" using assms(4) False by (simp_all add: n_def)
  obtain z where "mySplineSnd exact x y (n + 2) a b junk = (0, z)" "z ! 0 = a" "z ! Suc n = b"
    "\<forall>i < n. h_of x i * z ! i + 2 * (x ! (i + 2) - x ! i) * z ! Suc i + h_of x (Suc i) * z ! (i + 2) = slopes x y i"
    using mySplineSnd_solves [OF assms(1) n] assms(3) n by metis
  then show thesis using that [of z] n assms(2) by (simp add: Spline_new_def)
qed

text \<open>C24. Without rounding, for two or more points in ascending order and at most as many as half of the numbers
  of type \<open>int\<close> that are not negative, \<open>Interpolate\<close> computes the cubic spline through the points whose second
  derivatives at the ends are those given: it is a cubic on each interval, and its first and second
  derivatives are continuous.\<close>

theorem Spline_through_points:
  assumes "sorted_wrt (<) x" and "length y = length x" and "length junk = length x"
    and "2 \<le> length x" and "length x \<le> 2 ^ 30"
  shows "\<exists>s f. Spline_new exact x y a b junk = Some s \<and> (\<forall>v. Interpolate exact s v = Some (f v)) \<and> cubic_spline x y a b f"
proof -
  obtain z where z: "Spline_new exact x y a b junk = Some \<lparr>sp_n = length x, sp_x = x, sp_y = y, sp_y2 = z\<rparr>"
    "z ! 0 = a" "z ! (length x - 1) = b"
    "\<forall>i. i + 2 < length x \<longrightarrow>
      h_of x i * z ! i + 2 * (x ! (i + 2) - x ! i) * z ! Suc i + h_of x (Suc i) * z ! (i + 2) = slopes x y i"
    by (rule second_derivatives [OF assms(1-4), of a b])
  define s where "s = \<lparr>sp_n = length x, sp_x = x, sp_y = y, sp_y2 = z\<rparr>"
  define f where "f v = the (Interpolate exact s v)" for v
  have at: "\<exists>l. Interpolate exact s v = Some (piece x y z l v) \<and> Suc l < length x
      \<and> (l = 0 \<or> x ! l \<le> v) \<and> (l + 2 = length x \<or> v < x ! Suc l)" for v
    by (rule mySplintCube_piece [OF assms(1,4,5), of y z v]) (auto simp: Interpolate_def s_def)
  have f: "f v = piece x y z k v"
    if "Suc k < length x" "k = 0 \<or> x ! k \<le> v" "k + 2 = length x \<or> v \<le> x ! Suc k" for k v
    using at [of v] pieces_agree [OF assms(1) _ _ _ that] unfolding f_def by auto
  have lt: "x ! k < x ! Suc k" if "Suc k < length x" for k using sorted_wrt_nth_less [OF assms(1)] that by simp
  have join: "piece' x y z k (x ! Suc k) = piece' x y z (Suc k) (x ! Suc k)"
    "piece'' x z k (x ! Suc k) = piece'' x z (Suc k) (x ! Suc k)" if k: "k + 2 < length x" for k
  proof -
    have lts: "x ! k < x ! Suc k" "x ! Suc k < x ! Suc (Suc k)" using k lt by simp_all
    show "piece'' x z k (x ! Suc k) = piece'' x z (Suc k) (x ! Suc k)"
      by (simp only: piece_knots [OF lts(1)] piece_knots [OF lts(2)])
    have "h_of x k * z ! k + 2 * (h_of x k + h_of x (Suc k)) * z ! Suc k + h_of x (Suc k) * z ! Suc (Suc k)
        = 6 * ((y ! Suc (Suc k) - y ! Suc k) / h_of x (Suc k) - (y ! Suc k - y ! k) / h_of x k)"
      using z(4) [rule_format, OF k] by (simp add: slopes_def)
    then show "piece' x y z k (x ! Suc k) = piece' x y z (Suc k) (x ! Suc k)"
      unfolding piece_knots [OF lts(1)] piece_knots [OF lts(2)] by (rule slopes_join)
  qed
  have ends: "piece'' x z 0 (x ! 0) = a" "piece'' x z (length x - 2) (x ! (length x - 1)) = b"
  proof -
    have "Suc (length x - 2) = length x - 1" using assms(4) by simp
    then show "piece'' x z 0 (x ! 0) = a" "piece'' x z (length x - 2) (x ! (length x - 1)) = b"
      using piece_knots(5) [OF lt, of 0] piece_knots(6) [OF lt, of "length x - 2"] assms(4) z(2,3) by simp_all
  qed
  have "cubic_spline x y a b f"
    unfolding cubic_spline_def
    by (intro exI [of _ "piece x y z"] exI [of _ "piece' x y z"] exI [of _ "piece'' x z"] conjI allI impI)
      (use f join ends lt in \<open>simp_all add: piece_knots piece_derivatives piece''_affine\<close>)
  moreover have "Interpolate exact s v = Some (f v)" for v using at [of v] by (auto simp: f_def)
  ultimately show ?thesis using z(1) by (auto simp: s_def)
qed

theorem Spline_through_points_witness:
  "\<exists>s f. Spline_new exact [0, 1, 3] [2, 5, 1] 0 0 [9, 9, 9] = Some s \<and> (\<forall>v. Interpolate exact s v = Some (f v))
    \<and> cubic_spline [0, 1, 3] [2, 5, 1] 0 0 f \<and> f 1 = 5"
proof -
  have "sorted_wrt (<) [0, 1, 3 :: real]" by simp
  from Spline_through_points [OF this, of "[2, 5, 1]" "[9, 9, 9]" 0 0] obtain s f where
    s: "Spline_new exact [0, 1, 3] [2, 5, 1] 0 0 [9, 9, 9] = Some s" "\<forall>v. Interpolate exact s v = Some (f v)"
      "cubic_spline [0, 1, 3] [2, 5, 1] 0 0 f"
    by auto
  have "f 1 = 5" using cubic_spline_points [OF s(3), of 0] by simp
  then show ?thesis using s by blast
qed

text \<open>A spline of one point, or of none, gives a \<open>double\<close> that was never set.\<close>

lemma Spline_too_short:
  assumes "length x < 2" and "length y = length x" and "Spline_new rnd x y a b junk = Some s" and "rnd 0 = 0"
  shows "Interpolate rnd s v = None"
proof -
  have s: "sp_n s = length x" "sp_x s = x" using assms(2,3) by (auto simp: Spline_new_def Let_def)
  have "last_index (Suc 0) = 0" by (simp add: last_index_def)
  moreover have "bisect x v 0 0 = Some (0, 0)" by (subst bisect.simps) simp
  ultimately show ?thesis using assms(1,4) s
    by (cases "length x") (simp_all add: Interpolate_def mySplintCube_def fsub_def)
qed

end
