(* ===== verification/Euclid.thy ===== *)
theory Euclid
  imports Console
begin

text \<open>
  The greatest common divisor (\<open>tasks/intro/gcd/main.cpp\<close>): a loop that runs while the product of the
  two numbers is not zero. \<open>None\<close> is an overflow of \<open>int\<close> in that product, or in the remainder,
  which is undefined.
\<close>

definition int_fits :: "int \<Rightarrow> bool" where
  "int_fits v \<longleftrightarrow> - (2 ^ 31) \<le> v \<and> v < 2 ^ 31"

text \<open>The remainder of C++, which has the sign of the dividend.\<close>

definition c_rem :: "int \<Rightarrow> int \<Rightarrow> int" where
  "c_rem a b = sgn a * (\<bar>a\<bar> mod \<bar>b\<bar>)"

partial_function (option) gcd_loop :: "int \<Rightarrow> int \<Rightarrow> int option" where
  "gcd_loop a b =
     (if \<not> int_fits (a * b) then None
      else if a * b \<noteq> 0 then gcd_loop b (c_rem a b)
      else Some (max a b))"

definition Gcd :: "int \<Rightarrow> int \<Rightarrow> int option" where
  "Gcd a b = gcd_loop a b"

section \<open>The program\<close>

text \<open>\<open>TryRead\<close>: \<open>None\<close> is the exit after the message.\<close>

definition TryRead :: "stream \<Rightarrow> int option \<times> stream" where
  "TryRead s =
     (case extract_int s of (v, s') \<Rightarrow> if ok s' then (v, s') else (None, s'))"

text \<open>What is printed and the exit code; \<open>std::gcd\<close> is the library's.\<close>

definition gcd_main :: "string \<Rightarrow> (string \<times> int) option" where
  "gcd_main input =
     (case TryRead (open_stream input) of
        (None, s) \<Rightarrow> Some (''Fail on reading'', 0)
      | (Some a, s) \<Rightarrow>
          (case TryRead s of
             (None, s') \<Rightarrow> Some (''Fail on reading'', 0)
           | (Some b, s') \<Rightarrow>
               if a \<le> 0 \<or> b \<le> 0 then Some (''Numbers should be positive'', 0)
               else (case Gcd a b of
                 None \<Rightarrow> None
               | Some d \<Rightarrow>
                   if d \<noteq> gcd a b then Some (''Shit happens'', 1) else Some (''Try again...'', 0))))"

section \<open>The loop ends with the greatest common divisor\<close>

lemma c_rem_nonneg: "0 \<le> a \<Longrightarrow> 0 \<le> b \<Longrightarrow> c_rem a b = a mod b"
  by (auto simp: c_rem_def sgn_if)

text \<open>The product never grows, so it fits in every iteration if it fits at the start.\<close>

lemma product_step:
  assumes "0 \<le> a" and "0 < (b :: int)"
  shows "b * (a mod b) \<le> a * b"
proof -
  have "a mod b \<le> a" using assms(1) by (rule zmod_le_nonneg_dividend)
  then show ?thesis using assms by (simp add: mult.commute mult_left_mono)
qed

lemma gcd_loop_correct:
  assumes "0 \<le> a" and "0 \<le> b" and "a * b < 2 ^ 31"
  shows "gcd_loop a b = Some (gcd a b)"
  using assms
proof (induction "nat b" arbitrary: a b rule: less_induct)
  case less
  have fits: "int_fits (a * b)" using less.prems by (simp add: int_fits_def order_trans [of _ 0])
  show ?case
  proof (cases "a * b = 0")
    case True
    then have "max a b = gcd a b" using less.prems by auto
    then show ?thesis using fits True by (subst gcd_loop.simps) (simp only: if_False if_True simp_thms)
  next
    case False
    then have pos: "0 < a" "0 < b" using less.prems by auto
    then have "b * (a mod b) < 2 ^ 31" using product_step [of a b] less.prems by linarith
    then have "gcd_loop b (a mod b) = Some (gcd b (a mod b))"
      using less.prems pos by (intro less.hyps) auto
    then show ?thesis using fits False pos
      by (subst gcd_loop.simps) (simp add: c_rem_nonneg gcd_red_int [symmetric])
  qed
qed

text \<open>For numbers that are not negative and whose product is less than two to the power of 31, \<open>Gcd\<close> ends
  with their greatest common divisor.\<close>

theorem Gcd_correct:
  assumes "0 \<le> a" and "0 \<le> b" and "a * b < 2 ^ 31"
  shows "Gcd a b = Some (gcd a b)"
  using gcd_loop_correct [OF assms] by (simp add: Gcd_def)

theorem Gcd_correct_witness: "Gcd 48 36 = Some 12"
proof -
  have "gcd 48 36 = (12 :: int)" by code_simp
  then show ?thesis using Gcd_correct [of 48 36] by simp
qed

text \<open>Otherwise it may overflow, although the divisor is an \<open>int\<close>.\<close>

lemma Gcd_overflow: "Gcd 65536 131072 = None"
  by (simp add: Gcd_def gcd_loop.simps int_fits_def)

end
