(* ===== verification/Dungeon.thy ===== *)
theory Dungeon
  imports Prelude
begin

text \<open>
  The dungeon (\<open>tasks/types/dungeon/dungeon.h\<close>): rooms with keys and doors; a \<open>Room*\<close> is the number of
  the room, a \<open>Door*\<close> its room and its index there. \<open>None\<close> is an index outside a vector or a failed
  assertion.
\<close>

record door =
  is_open :: bool
  door_key :: string
  leads_to :: nat

record room =
  is_final :: bool
  doors :: "door list"
  room_keys :: "string list"

type_synonym dungeon = "room list"

definition Door_new :: "nat \<Rightarrow> door" where
  "Door_new r = \<lparr>is_open = True, door_key = [], leads_to = r\<rparr>"

definition Door_new_with_key :: "nat \<Rightarrow> string \<Rightarrow> door" where
  "Door_new_with_key r key = \<lparr>is_open = False, door_key = key, leads_to = r\<rparr>"

definition IsOpen :: "door \<Rightarrow> bool" where
  "IsOpen d = is_open d"

definition TryOpen :: "string \<Rightarrow> door \<Rightarrow> bool \<times> door" where
  "TryOpen key d = (let d' = (if door_key d = key then d\<lparr>is_open := True\<rparr> else d) in (is_open d', d'))"

definition GoThrough :: "door \<Rightarrow> nat option" where
  "GoThrough d = (if is_open d then Some (leads_to d) else None)"

definition Room_new :: "bool \<Rightarrow> room" where
  "Room_new final = \<lparr>is_final = final, doors = [], room_keys = []\<rparr>"

definition IsFinal :: "room \<Rightarrow> bool" where
  "IsFinal r = is_final r"

definition NumKeys :: "room \<Rightarrow> nat" where
  "NumKeys r = length (room_keys r)"

definition GetKey :: "nat \<Rightarrow> room \<Rightarrow> string option" where
  "GetKey i r = (if i < length (room_keys r) then Some (room_keys r ! i) else None)"

definition NumDoors :: "room \<Rightarrow> nat" where
  "NumDoors r = length (doors r)"

definition GetDoor :: "nat \<Rightarrow> room \<Rightarrow> door option" where
  "GetDoor i r = (if i < length (doors r) then Some (doors r ! i) else None)"

definition append_door :: "nat \<Rightarrow> door \<Rightarrow> dungeon \<Rightarrow> dungeon" where
  "append_door r d rooms = rooms[r := (rooms ! r)\<lparr>doors := doors (rooms ! r) @ [d]\<rparr>]"

definition AddDoor :: "nat \<Rightarrow> nat \<Rightarrow> dungeon \<Rightarrow> dungeon" where
  "AddDoor this_room to rooms = append_door to (Door_new this_room) (append_door this_room (Door_new to) rooms)"

definition AddDoorWithKey :: "nat \<Rightarrow> nat \<Rightarrow> string \<Rightarrow> dungeon \<Rightarrow> dungeon" where
  "AddDoorWithKey this_room to key rooms =
     append_door to (Door_new_with_key this_room key) (append_door this_room (Door_new_with_key to key) rooms)"

definition AddKey :: "nat \<Rightarrow> string \<Rightarrow> dungeon \<Rightarrow> dungeon" where
  "AddKey r key rooms = rooms[r := (rooms ! r)\<lparr>room_keys := room_keys (rooms ! r) @ [key]\<rparr>]"

section \<open>Doors\<close>

lemma TryOpen_result:
  "fst (TryOpen key d) = is_open (snd (TryOpen key d))"
  "is_open (snd (TryOpen key d)) \<longleftrightarrow> is_open d \<or> door_key d = key"
  by (simp_all add: TryOpen_def Let_def)

lemma GoThrough_after_TryOpen:
  "TryOpen key d = (True, d') \<Longrightarrow> GoThrough d' = Some (leads_to d)"
  by (auto simp: TryOpen_def GoThrough_def Let_def split: if_splits)

text \<open>Between two rooms there are as many doors with a key one way as the other way.\<close>

definition doors_between :: "dungeon \<Rightarrow> nat \<Rightarrow> nat \<Rightarrow> string \<Rightarrow> nat" where
  "doors_between rooms r s key = length (filter (\<lambda>d. leads_to d = s \<and> door_key d = key) (doors (rooms ! r)))"

definition two_way :: "dungeon \<Rightarrow> bool" where
  "two_way rooms \<longleftrightarrow>
     (\<forall>r < length rooms. \<forall>s < length rooms. \<forall>key. doors_between rooms r s key = doors_between rooms s r key)"

lemma length_append_door [simp]: "length (append_door r d rooms) = length rooms"
  by (simp add: append_door_def)

lemma append_door_between:
  "r < length rooms \<Longrightarrow> doors_between (append_door r d rooms) i j key =
     doors_between rooms i j key + (if i = r \<and> leads_to d = j \<and> door_key d = key then 1 else 0)"
  by (auto simp: doors_between_def append_door_def nth_list_update)

lemma two_way_doors:
  assumes "two_way rooms" and "r < length rooms" and "s < length rooms"
  shows "two_way (AddDoor r s rooms)" and "two_way (AddDoorWithKey r s key rooms)"
  using assms by (auto simp: two_way_def AddDoor_def AddDoorWithKey_def append_door_between Door_new_def Door_new_with_key_def)

end
