(* ===== verification/BoundedQueue.thy ===== *)
theory BoundedQueue
  imports Prelude
begin

text \<open>
  The bounded queue for many producers and consumers (\<open>tasks/lock-free/fast-queue/mpmc.h\<close>), one thread
  at a time (calls at the same time race on the tail, the head and the data, which are not atomic): an
  exchange fails only when the value is not the expected one. \<open>None\<close> is an access outside
  the vectors, or a loop that never ends.
\<close>

record 'a bounded_queue =
  data :: "'a list"
  gen :: "int list"
  queue_head :: nat
  queue_tail :: nat
  max_size :: int

text \<open>The vector of the data starts with values of the type's default.\<close>

definition MPMCBoundedQueue_new :: "'a \<Rightarrow> nat \<Rightarrow> 'a bounded_queue" where
  "MPMCBoundedQueue_new dflt n =
     \<lparr>data = replicate n dflt, gen = map int [0..<n], queue_head = 0, queue_tail = 0, max_size = int n\<rparr>"

text \<open>The loop \<open>while (g.compare_exchange_weak(expected, g + offset)) expected = again;\<close> on one generation
  \<open>g\<close>, with the new value computed from \<open>g\<close>: its result is \<open>g\<close> and \<open>expected\<close> at the end.\<close>

partial_function (option) exchange_loop :: "(int \<Rightarrow> int) \<Rightarrow> int \<Rightarrow> int \<Rightarrow> int \<Rightarrow> (int \<times> int) option" where
  "exchange_loop new again g expected =
     (if g = expected then exchange_loop new again (new g) again else Some (g, g))"

definition Enqueue :: "'a \<Rightarrow> 'a bounded_queue \<Rightarrow> (bool \<times> 'a bounded_queue) option" where
  "Enqueue v q =
     (let t = queue_tail q in
      if t \<ge> length (gen q) then None
      else if gen q ! t = int t then
        (case exchange_loop (\<lambda>g. g + 1) (int t) (gen q ! t) (int t) of
           None \<Rightarrow> None
         | Some (g, expected) \<Rightarrow>
             if nat expected \<ge> length (data q) then None
             else Some (True, q\<lparr>gen := (gen q)[t := g], data := (data q)[nat expected := v], queue_tail := Suc t\<rparr>))
      else Some (False, q))"

definition Dequeue :: "'a bounded_queue \<Rightarrow> ('a option \<times> 'a bounded_queue) option" where
  "Dequeue q =
     (let h = queue_head q in
      if h \<ge> length (gen q) then None
      else if gen q ! h = int h + 1 then
        (case exchange_loop (\<lambda>g. int h + max_size q) (int h + 1) (gen q ! h) (int h + 1) of
           None \<Rightarrow> None
         | Some (g, expected) \<Rightarrow>
             if h \<ge> length (data q) then None
             else Some (Some (data q ! h), q\<lparr>gen := (gen q)[h := g], queue_head := Suc h\<rparr>))
      else Some (None, q))"

section \<open>What it does\<close>

lemma exchange_add_one: "exchange_loop (\<lambda>g. g + 1) t t t = Some (t + 1, t + 1)"
  by (subst exchange_loop.simps, simp) (subst exchange_loop.simps, simp)

text \<open>The queue as a client can see it: generations of places before the tail are ahead by one, up to the
  head by the size.\<close>

definition in_order :: "'a bounded_queue \<Rightarrow> bool" where
  "in_order q \<longleftrightarrow>
     length (data q) = length (gen q) \<and> max_size q = int (length (gen q))
   \<and> queue_head q \<le> queue_tail q \<and> queue_tail q \<le> length (gen q)
   \<and> (\<forall>i < length (gen q). gen q ! i =
        (if i < queue_head q then int i + max_size q else if i < queue_tail q then int i + 1 else int i))"

lemma in_order_new: "in_order (MPMCBoundedQueue_new dflt n)"
  by (simp add: in_order_def MPMCBoundedQueue_new_def)

text \<open>A value is stored one place too far, and outside the vector in the end.\<close>

lemma Enqueue_next_place:
  assumes "in_order q" and "Suc (queue_tail q) < length (gen q)"
  shows "Enqueue v q = Some (True, q\<lparr>gen := (gen q)[queue_tail q := int (queue_tail q) + 1],
      data := (data q)[Suc (queue_tail q) := v], queue_tail := Suc (queue_tail q)\<rparr>)"
proof -
  have "gen q ! queue_tail q = int (queue_tail q)" using assms by (simp add: in_order_def)
  moreover have "nat (int (queue_tail q) + 1) = Suc (queue_tail q)" by simp
  ultimately show ?thesis using assms by (simp add: Enqueue_def exchange_add_one in_order_def Let_def)
qed

lemma Enqueue_outside:
  assumes "in_order q" and "Suc (queue_tail q) \<ge> length (gen q)"
  shows "Enqueue v q = None"
proof (cases "queue_tail q < length (gen q)")
  case True
  then have "gen q ! queue_tail q = int (queue_tail q)" using assms by (simp add: in_order_def)
  then show ?thesis using True assms by (simp add: Enqueue_def exchange_add_one in_order_def Let_def)
qed (simp add: Enqueue_def)

lemma Enqueue_in_order: "in_order q \<Longrightarrow> Enqueue v q = Some (b, q') \<Longrightarrow> in_order q'"
  by (cases "Suc (queue_tail q) < length (gen q)")
    (auto simp: Enqueue_next_place Enqueue_outside, auto simp: in_order_def nth_list_update)

text \<open>The first value that comes out of a new queue is the default, not the one that went in.\<close>

lemma first_value_lost:
  assumes "1 < n"
  obtains q where "Enqueue v (MPMCBoundedQueue_new dflt n) = Some (True, q)"
    and "map_option fst (Dequeue q) = Some (Some dflt)"
proof -
  let ?q = "MPMCBoundedQueue_new dflt n"
  let ?r = "?q\<lparr>gen := (gen ?q)[0 := 1], data := (data ?q)[Suc 0 := v], queue_tail := Suc 0\<rparr>"
  have n: "length (gen ?q) = n" "length (data ?q) = n" "queue_tail ?q = 0" "queue_head ?q = 0" "max_size ?q = int n"
    "data ?q ! 0 = dflt"
    using assms by (simp_all add: MPMCBoundedQueue_new_def)
  have "Enqueue v ?q = Some (True, ?r)"
    using Enqueue_next_place [OF in_order_new, of dflt n v] assms n by simp
  moreover have "exchange_loop (\<lambda>g. int n) 1 1 1 = Some (int n, int n)"
    using assms by (subst exchange_loop.simps, simp) (subst exchange_loop.simps, simp)
  then have "map_option fst (Dequeue ?r) = Some (Some dflt)"
    using assms n by (simp add: Dequeue_def Let_def)
  ultimately show thesis by (rule that)
qed

end
