(* ===== verification/SmallClasses.thy ===== *)
theory SmallClasses
  imports Prelude
begin

text \<open>
  Small classes that stand alone: the type-erased value (\<open>tasks/patterns/any/any.h\<close>), the deque of
  numbers (\<open>tasks/memory/deque/deque.h\<close>), duplicating and sharing strings
  (\<open>tasks/memory/dedup/dedup.h\<close>), the view of a string (\<open>tasks/memory/string-view/string_view.h\<close>) and the
  deferred callback (\<open>tasks/errors/defer/defer.h\<close>). \<open>None\<close> is undefined behaviour.
\<close>

section \<open>Any\<close>

text \<open>A value with the type it was stored at; \<open>Empty\<close> is the null pointer. A cast that fails is an exception.\<close>

datatype ('t, 'v) any = Empty | Holding 't 'v

datatype bad_cast = bad_cast

definition Any_new :: "('t, 'v) any" where
  "Any_new = Empty"

definition Any_of :: "'t \<Rightarrow> 'v \<Rightarrow> ('t, 'v) any" where
  "Any_of T v = Holding T v"

definition Any_assign_value :: "'t \<Rightarrow> 'v \<Rightarrow> ('t, 'v) any \<Rightarrow> ('t, 'v) any" where
  "Any_assign_value T v a = Holding T v"

definition Copy :: "('t, 'v) any \<Rightarrow> ('t, 'v) any option" where
  "Copy rhs = (case rhs of Empty \<Rightarrow> None | Holding T v \<Rightarrow> Some (Holding T v))"

definition Any_copy :: "('t, 'v) any \<Rightarrow> ('t, 'v) any option" where
  "Any_copy rhs = Copy rhs"

definition Any_assign :: "('t, 'v) any \<Rightarrow> ('t, 'v) any \<Rightarrow> ('t, 'v) any option" where
  "Any_assign rhs a = Copy rhs"

definition Any_Empty :: "('t, 'v) any \<Rightarrow> bool" where
  "Any_Empty a = (case a of Empty \<Rightarrow> True | Holding T v \<Rightarrow> False)"

definition Any_Clear :: "('t, 'v) any \<Rightarrow> ('t, 'v) any" where
  "Any_Clear a = Empty"

definition Any_Swap :: "('t, 'v) any \<Rightarrow> ('t, 'v) any \<Rightarrow> ('t, 'v) any \<times> ('t, 'v) any" where
  "Any_Swap a rhs = (rhs, a)"

definition GetValue :: "'t \<Rightarrow> ('t, 'v) any \<Rightarrow> (bad_cast + 'v) option" where
  "GetValue T a =
     (case a of
        Empty \<Rightarrow> None
      | Holding T' v \<Rightarrow> Some (if T' = T then Inr v else Inl bad_cast))"

text \<open>A copy holds the value at its type, and at no other; the empty one cannot be copied.\<close>

lemma GetValue_copy:
  "Any_copy (Any_of T v) = Some b \<Longrightarrow> GetValue T' b = Some (if T = T' then Inr v else Inl bad_cast)"
  by (auto simp: Any_copy_def Copy_def Any_of_def GetValue_def)

lemma copy_defined: "Any_copy a = None \<longleftrightarrow> Any_Empty a" "Any_assign a b = None \<longleftrightarrow> Any_Empty a"
  by (simp_all add: Any_copy_def Any_assign_def Copy_def Any_Empty_def split: any.splits)

section \<open>Deque\<close>

type_synonym deque = "int list"

definition Deque_sized :: "nat \<Rightarrow> deque" where
  "Deque_sized n = replicate n 0"

definition Deque_list :: "int list \<Rightarrow> deque" where
  "Deque_list xs = xs"

definition Deque_Swap :: "deque \<Rightarrow> deque \<Rightarrow> deque \<times> deque" where
  "Deque_Swap d rhs = (rhs, d)"

text \<open>The parameter of the assignment is a copy, which takes the old value away.\<close>

definition Deque_assign :: "deque \<Rightarrow> deque \<Rightarrow> deque" where
  "Deque_assign rhs d = fst (Deque_Swap d rhs)"

definition PushBack :: "int \<Rightarrow> deque \<Rightarrow> deque" where
  "PushBack v d = d @ [v]"

definition PopBack :: "deque \<Rightarrow> deque option" where
  "PopBack d = (if d = [] then None else Some (butlast d))"

definition PushFront :: "int \<Rightarrow> deque \<Rightarrow> deque" where
  "PushFront v d = v # d"

definition PopFront :: "deque \<Rightarrow> deque option" where
  "PopFront d = (if d = [] then None else Some (tl d))"

definition Deque_at :: "nat \<Rightarrow> deque \<Rightarrow> int option" where
  "Deque_at i d = (if i < length d then Some (d ! i) else None)"

definition Deque_set :: "nat \<Rightarrow> int \<Rightarrow> deque \<Rightarrow> deque option" where
  "Deque_set i v d = (if i < length d then Some (d[i := v]) else None)"

definition Deque_Size :: "deque \<Rightarrow> nat" where
  "Deque_Size d = length d"

definition Deque_Clear :: "deque \<Rightarrow> deque" where
  "Deque_Clear d = []"

lemma Deque_ends:
  "PopBack (PushBack v d) = Some d" "PopFront (PushFront v d) = Some d"
  "Deque_at 0 (PushFront v d) = Some v" "Deque_at (Deque_Size d) (PushBack v d) = Some v"
  "d \<noteq> [] \<Longrightarrow> PopFront (PushBack v d) = map_option (PushBack v) (PopFront d)"
  "d \<noteq> [] \<Longrightarrow> PopBack (PushFront v d) = map_option (PushFront v) (PopBack d)"
  by (simp_all add: PopBack_def PushBack_def PopFront_def PushFront_def Deque_at_def Deque_Size_def)

section \<open>Sharing strings\<close>

text \<open>A pointer is a place in the list of the strings on the heap.\<close>

type_synonym heap = "string list"

definition deref :: "heap \<Rightarrow> nat option \<Rightarrow> string option" where
  "deref h p = (case p of None \<Rightarrow> None | Some a \<Rightarrow> if a < length h then Some (h ! a) else None)"

fun Duplicate :: "nat option list \<Rightarrow> heap \<Rightarrow> (nat list \<times> heap) option" where
  "Duplicate [] h = Some ([], h)"
| "Duplicate (p # items) h =
     (case deref h p of
        None \<Rightarrow> None
      | Some s \<Rightarrow> map_option (\<lambda>(ret, h'). (length h # ret, h')) (Duplicate items (h @ [s])))"

text \<open>The loop of \<open>DeDuplicate\<close> with the vector \<open>ret\<close>.\<close>

fun dedup_loop :: "nat option list \<Rightarrow> nat list \<Rightarrow> heap \<Rightarrow> (nat list \<times> heap) option" where
  "dedup_loop [] ret h = Some (ret, h)"
| "dedup_loop (p # items) ret h =
     (case deref h p of
        None \<Rightarrow> None
      | Some s \<Rightarrow>
          (case List.find (\<lambda>a. h ! a = s) ret of
             Some a \<Rightarrow> dedup_loop items (ret @ [a]) h
           | None \<Rightarrow> dedup_loop items (ret @ [length h]) (h @ [s])))"

definition DeDuplicate :: "nat option list \<Rightarrow> heap \<Rightarrow> (nat list \<times> heap) option" where
  "DeDuplicate items h = dedup_loop items [] h"

definition strings_at :: "heap \<Rightarrow> nat list \<Rightarrow> string list" where
  "strings_at h ps = map ((!) h) ps"

lemma Duplicate_copies:
  assumes "Duplicate (map Some ps) h = Some (ret, h')" and "\<forall>a \<in> set ps. a < length h"
  shows "strings_at h' ret = strings_at h ps \<and> ret = [length h..<length h + length ps] \<and> take (length h) h' = h
    \<and> length h' = length h + length ps"
  using assms
proof (induction ps arbitrary: h ret)
  case (Cons a ps)
  then obtain ret' where r: "Duplicate (map Some ps) (h @ [h ! a]) = Some (ret', h')" "ret = length h # ret'"
    by (auto simp: deref_def)
  have IH: "strings_at h' ret' = strings_at (h @ [h ! a]) ps \<and> ret' = [length (h @ [h ! a])..<length (h @ [h ! a]) + length ps]
      \<and> take (length (h @ [h ! a])) h' = h @ [h ! a] \<and> length h' = length (h @ [h ! a]) + length ps"
    using Cons.IH [OF r(1)] Cons.prems(2) by (auto simp: less_SucI)
  have tk: "take (Suc (length h)) h' = h @ [h ! a]" using IH by simp
  then have "h' ! length h = h ! a" by (metis lessI nth_append_length nth_take)
  moreover have "take (length h) h' = h"
    using arg_cong [OF tk, of "take (length h)"] by simp
  moreover have "strings_at (h @ [h ! a]) ps = strings_at h ps"
    using Cons.prems(2) by (simp add: strings_at_def nth_append)
  moreover have "ret = [length h..<length h + length (a # ps)]"
    using IH r(2) by (simp add: upt_conv_Cons del: upt_Suc)
  moreover have "strings_at h' ret = h' ! length h # strings_at h' ret'"
    using r(2) by (simp add: strings_at_def)
  moreover have "strings_at h (a # ps) = h ! a # strings_at h ps" by (simp add: strings_at_def)
  moreover have "strings_at h' ret' = strings_at (h @ [h ! a]) ps" "length h' = length h + length (a # ps)"
    using IH by auto
  ultimately show ?case by metis
qed (auto simp: strings_at_def)

text \<open>What is shared: the strings are those of the items, and equal strings are one object.\<close>

definition shared :: "heap \<Rightarrow> nat list \<Rightarrow> bool" where
  "shared h ret \<longleftrightarrow> (\<forall>a \<in> set ret. a < length h) \<and> (\<forall>a \<in> set ret. \<forall>b \<in> set ret. h ! a = h ! b \<longrightarrow> a = b)"

lemma dedup_loop_shares:
  assumes "dedup_loop (map Some ps) ret h = Some (ret', h')" and "\<forall>a \<in> set ps. a < length h" and "shared h ret"
  shows "shared h' ret' \<and> strings_at h' ret' = strings_at h ret @ strings_at h ps"
  using assms
proof (induction ps arbitrary: h ret)
  case (Cons p ps)
  have p: "deref h (Some p) = Some (h ! p)" using Cons.prems(2) by (simp add: deref_def)
  show ?case
  proof (cases "List.find (\<lambda>a. h ! a = h ! p) ret")
    case None
    then have new: "\<forall>a \<in> set ret. h ! a \<noteq> h ! p" by (auto simp: find_None_iff)
    let ?h = "h @ [h ! p]"
    have "shared ?h (ret @ [length h])"
      using Cons.prems(3) new by (auto simp: shared_def nth_append)
    moreover have "strings_at ?h ps = strings_at h ps" "strings_at ?h ret = strings_at h ret"
      using Cons.prems(2,3) by (auto simp: strings_at_def nth_append shared_def)
    ultimately show ?thesis
      using Cons.IH [of "ret @ [length h]" ?h] Cons.prems(1,2) None p by (simp add: strings_at_def less_SucI)
  next
    case (Some a)
    then have a: "a \<in> set ret" "h ! a = h ! p" by (auto simp: find_Some_iff)
    then have "shared h (ret @ [a])" using Cons.prems(3) by (auto simp: shared_def)
    then show ?thesis
      using Cons.IH [of "ret @ [a]" h] Cons.prems(1,2) Some p a(2) by (simp add: strings_at_def)
  qed
qed (simp add: strings_at_def)

lemma DeDuplicate_shares:
  assumes "DeDuplicate (map Some ps) h = Some (ret, h')" and "\<forall>a \<in> set ps. a < length h"
  shows "strings_at h' ret = strings_at h ps"
    and "i < length ret \<Longrightarrow> j < length ret \<Longrightarrow> ret ! i = ret ! j \<longleftrightarrow> h' ! (ret ! i) = h' ! (ret ! j)"
proof -
  have "shared h' ret \<and> strings_at h' ret = strings_at h [] @ strings_at h ps"
    using dedup_loop_shares [of ps "[]" h ret h'] assms by (simp add: DeDuplicate_def shared_def strings_at_def)
  then show "strings_at h' ret = strings_at h ps"
    and "i < length ret \<Longrightarrow> j < length ret \<Longrightarrow> ret ! i = ret ! j \<longleftrightarrow> h' ! (ret ! i) = h' ! (ret ! j)"
    by (auto simp: shared_def strings_at_def)
qed

section \<open>Views of strings\<close>

text \<open>The characters from the pointer on, with the zero that ends them, and the size.\<close>

record string_view =
  view_chars :: string
  view_size :: nat

definition c_str :: "string \<Rightarrow> string" where
  "c_str s = s @ [CHR 0x00]"

definition StringView_of :: "string \<Rightarrow> string_view" where
  "StringView_of s = \<lparr>view_chars = c_str s, view_size = length s\<rparr>"

definition StringView_from :: "string \<Rightarrow> nat \<Rightarrow> string_view option" where
  "StringView_from s start =
     (if start \<le> length s then Some \<lparr>view_chars = drop start (c_str s), view_size = length s - start\<rparr> else None)"

definition StringView_part :: "string \<Rightarrow> nat \<Rightarrow> nat \<Rightarrow> string_view option" where
  "StringView_part s start n =
     (if start \<le> length s then Some \<lparr>view_chars = drop start (c_str s), view_size = min (length s - start) n\<rparr>
      else None)"

definition StringView_chars :: "string \<Rightarrow> string_view option" where
  "StringView_chars p =
     (if CHR 0x00 \<in> set p then Some \<lparr>view_chars = p, view_size = length (takeWhile (\<lambda>c. c \<noteq> CHR 0x00) p)\<rparr> else None)"

definition StringView_chars_part :: "string \<Rightarrow> nat \<Rightarrow> string_view" where
  "StringView_chars_part p n = \<lparr>view_chars = p, view_size = n\<rparr>"

definition view_at :: "nat \<Rightarrow> string_view \<Rightarrow> char option" where
  "view_at i v = (if i < length (view_chars v) then Some (view_chars v ! i) else None)"

definition StringView_Size :: "string_view \<Rightarrow> nat" where
  "StringView_Size v = view_size v"

definition view_string :: "string_view \<Rightarrow> string" where
  "view_string v = take (view_size v) (view_chars v)"

lemma view_string_part: "StringView_part s start n = Some v \<Longrightarrow> view_string v = take n (drop start s)"
  by (auto simp: StringView_part_def view_string_def c_str_def min_def split: if_splits)

lemma strlen_c_str: "CHR 0x00 \<notin> set s \<Longrightarrow> takeWhile (\<lambda>c. c \<noteq> CHR 0x00) (s @ [CHR 0x00]) = s"
  by (induction s) auto

lemma view_string_whole:
  "view_string (StringView_of s) = s"
  "StringView_from s start = Some v \<Longrightarrow> view_string v = drop start s"
  "StringView_chars (c_str s) = Some v \<Longrightarrow> CHR 0x00 \<notin> set s \<Longrightarrow> view_string v = s"
  by (auto simp: StringView_of_def StringView_from_def StringView_chars_def view_string_def c_str_def
      strlen_c_str split: if_splits)

lemma view_at_string:
  "StringView_part s start n = Some v \<Longrightarrow> i < StringView_Size v \<Longrightarrow> view_at i v = Some (s ! (start + i))"
  by (auto simp: StringView_part_def StringView_Size_def view_at_def c_str_def nth_append split: if_splits)

section \<open>Deferred callbacks\<close>

text \<open>Whether a callback was put into the buffer, the flag \<open>called_\<close>, and how often the callback ran.\<close>

record deferred =
  has_callback :: bool
  called :: bool
  runs_of_callback :: nat

definition Defer_empty :: deferred where
  "Defer_empty = \<lparr>has_callback = False, called = False, runs_of_callback = 0\<rparr>"

definition Defer_new :: deferred where
  "Defer_new = \<lparr>has_callback = True, called = False, runs_of_callback = 0\<rparr>"

definition Defer_destruct :: "deferred \<Rightarrow> deferred option" where
  "Defer_destruct d =
     (if called d then Some d
      else if has_callback d then Some (d\<lparr>called := True, runs_of_callback := Suc (runs_of_callback d)\<rparr>) else None)"

definition Cancel :: "deferred \<Rightarrow> deferred option" where
  "Cancel d = (if has_callback d then Some (d\<lparr>called := True\<rparr>) else None)"

definition Invoke :: "deferred \<Rightarrow> deferred option" where
  "Invoke d = Defer_destruct d"

datatype defer_call = CallCancel | CallInvoke

text \<open>What a client does with it before it goes out of scope.\<close>

fun use_defer :: "defer_call list \<Rightarrow> deferred \<Rightarrow> deferred option" where
  "use_defer [] d = Defer_destruct d"
| "use_defer (CallCancel # cs) d = Option.bind (Cancel d) (use_defer cs)"
| "use_defer (CallInvoke # cs) d = Option.bind (Invoke d) (use_defer cs)"

lemma use_called: "called d \<Longrightarrow> has_callback d \<Longrightarrow> \<exists>d'. use_defer cs d = Some d' \<and> runs_of_callback d' = runs_of_callback d"
proof (induction cs arbitrary: d)
  case (Cons c cs)
  then show ?case
  proof (cases c)
    case CallCancel
    then show ?thesis using Cons.IH [of "d\<lparr>called := True\<rparr>"] Cons.prems by (simp add: Cancel_def)
  next
    case CallInvoke
    then show ?thesis using Cons by (simp add: Invoke_def Defer_destruct_def)
  qed
qed (simp add: Defer_destruct_def)

text \<open>A callback runs exactly once, or never when the first call is \<open>Cancel\<close>.\<close>

lemma defer_runs_once:
  "\<exists>d. use_defer cs Defer_new = Some d \<and> runs_of_callback d = (if cs \<noteq> [] \<and> hd cs = CallCancel then 0 else 1)"
proof (cases cs)
  case (Cons c cs')
  then show ?thesis
    using use_called [of "\<lparr>has_callback = True, called = True, runs_of_callback = (if c = CallCancel then 0 else 1)\<rparr>" cs']
    by (cases c) (auto simp: Defer_new_def Cancel_def Invoke_def Defer_destruct_def)
qed (simp add: Defer_new_def Defer_destruct_def)

lemma defer_empty_undefined: "use_defer [] Defer_empty = None"
  by (simp add: Defer_empty_def Defer_destruct_def)

end
