(* ===== verification/UserNames.thy ===== *)
theory UserNames
  imports Console
begin

text \<open>
  Reading user names (\<open>tasks/bonus/bad-hash/main.cpp\<close>) and the guess of a password
  (\<open>tasks/bonus/bad-rand/run.cpp\<close>), which share a loop that reads a line of limited size. A stream
  that failed did so at the end of the file. Character classification is undefined for negative
  characters, which is \<open>None\<close>.
\<close>

text \<open>The loop of \<open>GetLine\<close> and of \<open>ReadString\<close>, which may still store \<open>n\<close> characters: if the line ended,
  and the line.\<close>

fun line_loop :: "nat \<Rightarrow> stream \<Rightarrow> bool \<times> string \<times> stream" where
  "line_loop 0 s = (False, [], s)"
| "line_loop (Suc n) s =
     (if \<not> ok s then (False, [], s)
      else case get s of
        (Some symbol, s') \<Rightarrow>
          if symbol = CHR 0x0A then (True, [], s')
          else (let (ended, line, s'') = line_loop n s' in (ended, symbol # line, s''))
      | (None, s') \<Rightarrow> (let (ended, line, s'') = line_loop n s' in (ended, CHR 0xFF # line, s'')))"

definition GetLine :: "nat \<Rightarrow> stream \<Rightarrow> bool \<times> string \<times> stream" where
  "GetLine max_length s = line_loop (Suc max_length) s"

definition ReadString :: "nat \<Rightarrow> stream \<Rightarrow> bool \<times> string \<times> stream" where
  "ReadString max_length s = line_loop (Suc max_length) s"

definition is_alpha :: "char \<Rightarrow> bool" where
  "is_alpha c \<longleftrightarrow> (let n = (of_char c :: nat) in (65 \<le> n \<and> n \<le> 90) \<or> (97 \<le> n \<and> n \<le> 122))"

definition name_char :: "char \<Rightarrow> bool" where
  "name_char c \<longleftrightarrow> is_alpha c \<or> is_digit c \<or> c = CHR ''_''"

fun CheckUserName :: "string \<Rightarrow> bool option" where
  "CheckUserName [] = Some True"
| "CheckUserName (c # cs) =
     (if (of_char c :: nat) \<ge> 128 then None
      else if \<not> name_char c then Some False else CheckUserName cs)"

text \<open>The users, or the line of the message before the exit.\<close>

datatype users_read = Users "string list" | TooLong string | Incorrect string

text \<open>The loop of \<open>GetUsers\<close> that may still store \<open>n\<close> users.\<close>

fun users_loop :: "nat \<Rightarrow> stream \<Rightarrow> string list \<Rightarrow> users_read option" where
  "users_loop 0 s users = Some (Users users)"
| "users_loop (Suc n) s users =
     (let (is_valid, cur_line, s') = GetLine 15 s in
      if \<not> ok s' then Some (Users users)
      else if \<not> is_valid then Some (TooLong cur_line)
      else if cur_line = [] then Some (Users users)
      else case CheckUserName cur_line of
        None \<Rightarrow> None
      | Some True \<Rightarrow> users_loop n s' (users @ [cur_line])
      | Some False \<Rightarrow> Some (Incorrect cur_line))"

definition GetUsers :: "nat \<Rightarrow> stream \<Rightarrow> users_read option" where
  "GetUsers max_count s = users_loop max_count s []"

section \<open>Only valid names are read\<close>

lemma line_loop_length: "line_loop n s = (ended, line, s') \<Longrightarrow> length line \<le> n \<and> (ended \<longrightarrow> length line < n)"
  by (induction n s arbitrary: ended line s' rule: line_loop.induct)
    (fastforce split: if_splits prod.splits option.splits)+

lemma CheckUserName_chars: "CheckUserName name = Some True \<longleftrightarrow> (\<forall>c \<in> set name. name_char c)"
  by (induction name rule: CheckUserName.induct) (auto simp: name_char_def is_alpha_def is_digit_def Let_def)

definition valid_name :: "string \<Rightarrow> bool" where
  "valid_name name \<longleftrightarrow> name \<noteq> [] \<and> length name \<le> 15 \<and> (\<forall>c \<in> set name. name_char c)"

lemma users_loop_valid:
  assumes "users_loop n s users = Some (Users us)" and "\<forall>u \<in> set users. valid_name u"
  shows "(\<forall>u \<in> set us. valid_name u) \<and> length us \<le> length users + n"
  using assms
proof (induction n s users rule: users_loop.induct)
  case (2 n s users)
  obtain is_valid line s' where g: "GetLine 15 s = (is_valid, line, s')" by (metis prod_cases3)
  show ?case
  proof (cases "\<not> ok s' \<or> line = []")
    case True
    then show ?thesis using 2 g by (auto split: if_splits)
  next
    case False
    then have valid: "is_valid" "CheckUserName line = Some True"
      and rest: "users_loop n s' (users @ [line]) = Some (Users us)"
      using "2.prems"(1) g by (auto split: if_splits option.splits bool.splits)
    have "length line \<le> 15" using g line_loop_length [of 16 s is_valid line s'] valid(1) by (simp add: GetLine_def)
    then have "valid_name line" using False valid(2) by (simp add: valid_name_def CheckUserName_chars)
    then show ?thesis using "2.IH" [OF g [symmetric] refl] False valid rest "2.prems"(2) by auto
  qed
qed simp

lemma GetUsers_valid:
  "GetUsers max_count s = Some (Users us) \<Longrightarrow> (\<forall>u \<in> set us. valid_name u) \<and> length us \<le> max_count"
  using users_loop_valid [of max_count s "[]" us] by (simp add: GetUsers_def)

end
