(* ===== verification/IntrusiveList.thy ===== *)
theory IntrusiveList
  imports Refinement
begin

text \<open>
  The intrusive list of the fibers (\<open>seminars/2023/12-advanced-threads/03-nanofibers-mutex/intrusive_list.h\<close>):
  items with a pointer to the next and the previous item, which are linked into rings, each through the
  \<open>dummy_\<close> item of an \<open>IntrusiveList\<close>. The two pointers of all items are two maps from pointers to
  pointers, and an operation is the assignments it makes, in their order.
\<close>

section \<open>The code\<close>

record 'p links =
  next_of :: "'p \<Rightarrow> 'p"
  prev_of :: "'p \<Rightarrow> 'p"

definition set_next :: "'p \<Rightarrow> 'p \<Rightarrow> 'p links \<Rightarrow> 'p links" where
  "set_next p q l = l\<lparr>next_of := (next_of l)(p := q)\<rparr>"

definition set_prev :: "'p \<Rightarrow> 'p \<Rightarrow> 'p links \<Rightarrow> 'p links" where
  "set_prev p q l = l\<lparr>prev_of := (prev_of l)(p := q)\<rparr>"

text \<open>Items that were only constructed: each is linked to itself.\<close>

definition items_new :: "'p links" where
  "items_new = \<lparr>next_of = (\<lambda>p. p), prev_of = (\<lambda>p. p)\<rparr>"

definition Unlink :: "'p \<Rightarrow> 'p links \<Rightarrow> 'p links" where
  "Unlink this l =
     (let l = set_prev (next_of l this) (prev_of l this) l;
          l = set_next (prev_of l this) (next_of l this) l
      in set_next this this (set_prev this this l))"

definition LinkBefore :: "'p \<Rightarrow> 'p \<Rightarrow> 'p links \<Rightarrow> 'p links" where
  "LinkBefore item this l =
     (let l = Unlink this l;
          l = set_prev this (prev_of l item) l;
          l = set_next this item l;
          l = set_next (prev_of l this) this l
      in set_prev (next_of l this) this l)"

definition LinkAfter :: "'p \<Rightarrow> 'p \<Rightarrow> 'p links \<Rightarrow> 'p links" where
  "LinkAfter item this l =
     (let l = Unlink this l;
          l = set_prev this item l;
          l = set_next this (next_of l item) l;
          l = set_next (prev_of l this) this l
      in set_prev (next_of l this) this l)"

text \<open>The operations of a list, given by its dummy item; \<open>PopBack\<close> is the \<open>PushFront()\<close> without an
  argument, which takes the last item out.\<close>

definition PushBack :: "'p \<Rightarrow> 'p \<Rightarrow> 'p links \<Rightarrow> 'p links" where
  "PushBack dummy p l = LinkBefore dummy p l"

definition PushFront :: "'p \<Rightarrow> 'p \<Rightarrow> 'p links \<Rightarrow> 'p links" where
  "PushFront dummy p l = LinkAfter dummy p l"

definition PopFront :: "'p \<Rightarrow> 'p links \<Rightarrow> 'p \<times> 'p links" where
  "PopFront dummy l = (let p = next_of l dummy in (p, Unlink p l))"

definition PopBack :: "'p \<Rightarrow> 'p links \<Rightarrow> 'p \<times> 'p links" where
  "PopBack dummy l = (let p = prev_of l dummy in (p, Unlink p l))"

definition Empty :: "'p \<Rightarrow> 'p links \<Rightarrow> bool" where
  "Empty dummy l \<longleftrightarrow> next_of l dummy = dummy"

section \<open>The two pointers are inverse to each other\<close>

definition inverse_maps :: "('p \<Rightarrow> 'p) \<Rightarrow> ('p \<Rightarrow> 'p) \<Rightarrow> bool" where
  "inverse_maps f g \<longleftrightarrow> (\<forall>a b. f a = b \<longleftrightarrow> g b = a)"

lemma swap_inverse_maps:
  assumes "inverse_maps f g"
  shows "inverse_maps (f(x := f y, y := f x)) (g(f y := x, f x := y))"
proof -
  have g: "g (f a) = a" "f (g b) = b" for a b using assms by (auto simp: inverse_maps_def)
  then have inj: "f a = f b \<longleftrightarrow> a = b" for a b by metis
  have "(f(x := f y, y := f x)) a = b \<longleftrightarrow> (g(f y := x, f x := y)) b = a" for a b
  proof (cases "b = f x \<or> b = f y")
    case True
    then show ?thesis using inj by auto
  next
    case False
    then have "g b \<noteq> x" "g b \<noteq> y" using g(2) by auto
    then show ?thesis using False assms by (auto simp: inverse_maps_def)
  qed
  then show ?thesis by (simp add: inverse_maps_def)
qed

definition well_linked :: "'p links \<Rightarrow> bool" where
  "well_linked l \<longleftrightarrow> inverse_maps (next_of l) (prev_of l)"

lemma well_linkedD:
  assumes "well_linked l"
  shows "prev_of l (next_of l p) = p" and "next_of l (prev_of l p) = p"
    and "next_of l p = q \<longleftrightarrow> prev_of l q = p"
  using assms by (auto simp: well_linked_def inverse_maps_def)

lemma well_linked_new: "well_linked items_new"
  by (auto simp: well_linked_def inverse_maps_def items_new_def)

lemma Unlink_pointers:
  assumes "well_linked l"
  shows "next_of (Unlink p l) = (next_of l)(prev_of l p := next_of l p, p := p)"
    and "prev_of (Unlink p l) = (prev_of l)(next_of l p := prev_of l p, p := p)"
  using well_linkedD [OF assms] by (auto simp: Unlink_def set_next_def set_prev_def Let_def fun_eq_iff)

lemma well_linked_Unlink: "well_linked l \<Longrightarrow> well_linked (Unlink p l)"
  using swap_inverse_maps [of "next_of l" "prev_of l" "prev_of l p" p]
  by (simp add: well_linked_def Unlink_pointers [unfolded well_linked_def]
      well_linkedD(2) [unfolded well_linked_def])

lemma Unlink_neq:
  assumes "well_linked l" and "p \<noteq> d"
  shows "prev_of (Unlink p l) d \<noteq> p" and "next_of (Unlink p l) d \<noteq> p"
proof -
  have "next_of (Unlink p l) p = p" by (simp add: Unlink_pointers [OF assms(1)])
  then show "prev_of (Unlink p l) d \<noteq> p" "next_of (Unlink p l) d \<noteq> p"
    using well_linkedD [OF well_linked_Unlink [OF assms(1)]] assms(2) by metis+
qed

lemma LinkBefore_pointers:
  assumes "well_linked l" and "p \<noteq> d"
  shows "next_of (LinkBefore d p l) = (next_of (Unlink p l))(prev_of (Unlink p l) d := p, p := d)"
    and "prev_of (LinkBefore d p l) = (prev_of (Unlink p l))(p := prev_of (Unlink p l) d, d := p)"
  using Unlink_neq [OF assms] assms(2)
  by (auto simp: LinkBefore_def set_next_def set_prev_def Let_def fun_eq_iff)

lemma LinkAfter_pointers:
  assumes "well_linked l" and "p \<noteq> d"
  shows "next_of (LinkAfter d p l) = (next_of (Unlink p l))(d := p, p := next_of (Unlink p l) d)"
    and "prev_of (LinkAfter d p l) = (prev_of (Unlink p l))(p := d, next_of (Unlink p l) d := p)"
  using Unlink_neq [OF assms] assms(2)
  by (auto simp: LinkAfter_def set_next_def set_prev_def Let_def fun_eq_iff)

lemma well_linked_insert:
  assumes "well_linked l" and "p \<noteq> d"
  shows "well_linked (LinkBefore d p l)" and "well_linked (LinkAfter d p l)"
proof -
  let ?u = "Unlink p l"
  have wl: "well_linked ?u" using assms(1) by (rule well_linked_Unlink)
  have p: "next_of ?u p = p" by (simp add: Unlink_pointers [OF assms(1)])
  show "well_linked (LinkBefore d p l)"
    using swap_inverse_maps [of "next_of ?u" "prev_of ?u" "prev_of ?u d" p] wl p well_linkedD(2) [OF wl]
    by (simp add: well_linked_def LinkBefore_pointers [OF assms])
  show "well_linked (LinkAfter d p l)"
    using swap_inverse_maps [of "next_of ?u" "prev_of ?u" d p] wl p
    by (simp add: well_linked_def LinkAfter_pointers [OF assms])
qed

section \<open>Lists\<close>

fun leads :: "('p \<Rightarrow> 'p) \<Rightarrow> 'p \<Rightarrow> 'p list \<Rightarrow> 'p \<Rightarrow> bool" where
  "leads f a [] b \<longleftrightarrow> f a = b"
| "leads f a (x # xs) b \<longleftrightarrow> f a = x \<and> leads f x xs b"

lemma leads_append: "leads f a (xs @ y # ys) b \<longleftrightarrow> leads f a xs y \<and> leads f y ys b"
  by (induction xs arbitrary: a) auto

lemma leads_other: "x \<notin> set (a # xs) \<Longrightarrow> leads (f(x := y)) a xs b \<longleftrightarrow> leads f a xs b"
  by (induction xs arbitrary: a) auto

lemma leads_redirect: "distinct (a # xs) \<Longrightarrow> leads f a xs b \<Longrightarrow> leads (f(last (a # xs) := c)) a xs c"
  by (induction xs arbitrary: a) (auto simp: leads_other)

lemma leads_last: "leads f a xs b \<Longrightarrow> f (last (a # xs)) = b"
  by (induction xs arbitrary: a) auto

text \<open>The pointers hold the lists \<open>ls d\<close> of the dummy items \<open>d\<close> in \<open>D\<close>: each is a ring through its dummy,
  no two share an item, and an item in none of them is linked to itself.\<close>

definition holds_lists :: "'p set \<Rightarrow> ('p \<Rightarrow> 'p list) \<Rightarrow> 'p links \<Rightarrow> bool" where
  "holds_lists D ls l \<longleftrightarrow> well_linked l
     \<and> (\<forall>d \<in> D. leads (next_of l) d (ls d) d \<and> distinct (ls d) \<and> set (ls d) \<inter> D = {})
     \<and> (\<forall>d \<in> D. \<forall>e \<in> D. d \<noteq> e \<longrightarrow> set (ls d) \<inter> set (ls e) = {})
     \<and> (\<forall>p. p \<notin> D \<longrightarrow> (\<forall>d \<in> D. p \<notin> set (ls d)) \<longrightarrow> next_of l p = p)"

lemma holds_listsD:
  assumes "holds_lists D ls l" and "d \<in> D"
  shows "leads (next_of l) d (ls d) d" and "distinct (d # ls d)" and "set (ls d) \<inter> D = {}" and "well_linked l"
  using assms by (auto simp: holds_lists_def)

lemma holds_lists_new: "holds_lists D (\<lambda>d. []) items_new"
  by (simp add: holds_lists_def well_linked_new) (simp add: items_new_def)

definition remove_item :: "'p \<Rightarrow> ('p \<Rightarrow> 'p list) \<Rightarrow> 'p \<Rightarrow> 'p list" where
  "remove_item p ls d = removeAll p (ls d)"

lemma remove_item_absent: "p \<notin> set (ls d) \<Longrightarrow> remove_item p ls d = ls d"
  by (simp add: remove_item_def)

lemma holds_lists_Unlink:
  assumes "holds_lists D ls l" and "p \<notin> D"
  shows "holds_lists D (remove_item p ls) (Unlink p l)"
proof -
  have wl: "well_linked l" using assms(1) by (simp add: holds_lists_def)
  let ?f = "next_of l" and ?u = "next_of (Unlink p l)"
  have u: "?u = ?f(prev_of l p := ?f p, p := p)" using wl by (rule Unlink_pointers)
  have ring: "leads ?u d (remove_item p ls d) d" if d: "d \<in> D" for d
  proof (cases "p \<in> set (ls d)")
    case True
    then obtain xs ys where split: "ls d = xs @ p # ys" by (meson split_list)
    note r = holds_listsD [OF assms(1) d]
    have dist: "distinct (d # xs @ p # ys)" using r(2) split by simp
    have to_p: "leads ?f d xs p" and from_p: "leads ?f p ys d" using r(1) split by (simp_all add: leads_append)
    have prev: "prev_of l p = last (d # xs)" using leads_last [OF to_p] well_linkedD(3) [OF wl] by blast
    have "leads (?f(prev_of l p := ?f p)) d xs (?f p)"
      unfolding prev using dist to_p by (intro leads_redirect) auto
    then have first: "leads ?u d xs (?f p)" unfolding u using dist assms(2) d by (subst leads_other) auto
    have rest: "leads ?u d (xs @ ys) d"
    proof (cases ys)
      case Nil
      then show ?thesis using first from_p by simp
    next
      case (Cons y ys')
      have "prev_of l p \<in> set (d # xs)" unfolding prev by (rule last_in_set) simp
      then have "prev_of l p \<notin> set ys" using dist by auto
      then have "leads ?u y ys' d" using from_p Cons dist unfolding u by (auto simp: leads_other)
      then show ?thesis using first from_p Cons by (simp add: leads_append)
    qed
    have "remove_item p ls d = xs @ ys" using dist split by (simp add: remove_item_def)
    then show ?thesis using rest by simp
  next
    case False
    note r = holds_listsD [OF assms(1) d]
    have "prev_of l p \<notin> set (d # ls d)"
    proof
      assume "prev_of l p \<in> set (d # ls d)"
      moreover have "leads ?f a xs b \<Longrightarrow> x \<in> set (a # xs) \<Longrightarrow> ?f x \<in> set xs \<union> {b}" for a xs b x
        by (induction xs arbitrary: a) auto
      ultimately have "?f (prev_of l p) \<in> set (ls d) \<union> {d}" using r(1) by blast
      then show False using False assms(2) d well_linkedD(2) [OF wl] by auto
    qed
    moreover have "p \<noteq> d" using assms(2) d by blast
    ultimately show ?thesis using False r(1) by (simp add: u remove_item_absent leads_other)
  qed
  have "?u q = q" if "q \<notin> D" "\<forall>d \<in> D. q \<notin> set (remove_item p ls d)" for q
  proof (cases "q = p")
    case False
    then have "?f q = q" using that assms(1) by (auto simp: holds_lists_def remove_item_def)
    then show ?thesis using u well_linkedD(2) [OF wl, of p] False by auto
  qed (simp add: u)
  then have self: "\<forall>q. q \<notin> D \<longrightarrow> (\<forall>d \<in> D. q \<notin> set (remove_item p ls d)) \<longrightarrow> ?u q = q" by blast
  have sub: "set (remove_item p ls d) \<subseteq> set (ls d)" for d by (auto simp: remove_item_def)
  have "distinct (remove_item p ls d) \<and> set (remove_item p ls d) \<inter> D = {}" if "d \<in> D" for d
    using that holds_listsD(2,3) [OF assms(1) that] sub [of d] by (auto simp: remove_item_def distinct_removeAll)
  moreover have "set (remove_item p ls d) \<inter> set (remove_item p ls e) = {}" if "d \<in> D" "e \<in> D" "d \<noteq> e" for d e
    using that sub [of d] sub [of e] assms(1) unfolding holds_lists_def by blast
  ultimately show ?thesis using ring self well_linked_Unlink [OF wl] by (simp add: holds_lists_def)
qed

lemma holds_lists_insert:
  assumes "holds_lists D ls l" and "d \<in> D" and "p \<notin> D"
  shows "holds_lists D ((remove_item p ls)(d := remove_item p ls d @ [p])) (LinkBefore d p l)"
    and "holds_lists D ((remove_item p ls)(d := p # remove_item p ls d)) (LinkAfter d p l)"
proof -
  let ?ls = "remove_item p ls" and ?u = "Unlink p l"
  have wl: "well_linked l" using assms(1) by (simp add: holds_lists_def)
  have U: "holds_lists D ?ls ?u" using assms(1,3) by (rule holds_lists_Unlink)
  have neq: "p \<noteq> d" using assms(2,3) by blast
  have absent: "p \<notin> set (?ls e)" for e by (simp add: remove_item_def)
  note wlu = well_linked_Unlink [OF wl, of p]
  note r = holds_listsD [OF U]
  have last_d: "prev_of ?u d = last (d # ?ls d)"
    using leads_last [OF r(1) [OF assms(2)]] well_linkedD(3) [OF wlu] by blast
  have "leads ((next_of ?u)(last (d # ?ls d) := p)) d (?ls d) p"
    using r(1,2) [OF assms(2)] by (intro leads_redirect)
  then have before: "leads (next_of (LinkBefore d p l)) d (?ls d @ [p]) d"
    using neq absent unfolding LinkBefore_pointers [OF wl neq] last_d by (simp add: leads_append leads_other)
  have after: "leads (next_of (LinkAfter d p l)) d (p # ?ls d) d"
    using r(1,2) [OF assms(2)] neq absent [of d] unfolding LinkAfter_pointers [OF wl neq]
    by (cases "?ls d") (auto simp: leads_other)
  have last_in: "last (d # ?ls d) \<in> insert d (set (?ls d))" using last_in_set [of "d # ?ls d"] by simp
  have disj: "last (d # ?ls d) \<notin> set (e # ?ls e)" "d \<notin> set (e # ?ls e)" if e: "e \<in> D" "e \<noteq> d" for e
  proof -
    have "insert d (set (?ls d)) \<inter> insert e (set (?ls e)) = {}"
      using U e assms(2) unfolding holds_lists_def by blast
    then show "last (d # ?ls d) \<notin> set (e # ?ls e)" "d \<notin> set (e # ?ls e)" using last_in by auto
  qed
  have other: "leads (next_of (LinkBefore d p l)) e (?ls e) e \<and> leads (next_of (LinkAfter d p l)) e (?ls e) e"
    if e: "e \<in> D" "e \<noteq> d" for e
  proof -
    have "p \<notin> set (e # ?ls e)" using absent e(1) assms(3) by auto
    then show ?thesis using r(1) [OF e(1)] disj [OF e]
      unfolding LinkBefore_pointers [OF wl neq] LinkAfter_pointers [OF wl neq] last_d
      by (simp only: leads_other simp_thms)
  qed
  have self: "next_of ?u q = q" if "q \<notin> D" "\<forall>e \<in> D. q \<notin> set (?ls e)" for q
    using U that by (simp add: holds_lists_def)
  have rings: "holds_lists D (?ls(d := ps)) l'"
    if ps: "set ps = insert p (set (?ls d))" "distinct ps" and wl': "well_linked l'" and d: "leads (next_of l') d ps d"
      and other: "\<And>e. e \<in> D \<Longrightarrow> e \<noteq> d \<Longrightarrow> leads (next_of l') e (?ls e) e"
      and self': "\<And>q. q \<noteq> p \<Longrightarrow> q \<notin> insert d (set (?ls d)) \<Longrightarrow> next_of l' q = next_of ?u q" for ps l'
    unfolding holds_lists_def
  proof (intro conjI ballI allI impI)
    fix e assume e: "e \<in> D"
    show "leads (next_of l') e ((?ls(d := ps)) e) e" using d other e by simp
    show "distinct ((?ls(d := ps)) e)" using r(2) [OF e] ps(2) by simp
    show "set ((?ls(d := ps)) e) \<inter> D = {}" using r(3) [OF e] ps(1) assms(3) by auto
    fix e' assume "e' \<in> D" "e \<noteq> e'"
    then have "set (?ls e) \<inter> set (?ls e') = {}" using U e unfolding holds_lists_def by blast
    then show "set ((?ls(d := ps)) e) \<inter> set ((?ls(d := ps)) e') = {}" using ps(1) absent \<open>e \<noteq> e'\<close> by auto
  next
    fix q assume q: "q \<notin> D" "\<forall>e \<in> D. q \<notin> set ((?ls(d := ps)) e)"
    have "q \<notin> set ps" using q(2) assms(2) by auto
    then have "q \<noteq> p" "q \<notin> insert d (set (?ls d))" using ps(1) q(1) assms(2) by auto
    moreover have "\<forall>e \<in> D. q \<notin> set (?ls e)" using q(2) calculation(2) by (auto split: if_split_asm)
    ultimately show "next_of l' q = q" using self' self q(1) by simp
  qed (rule wl')
  have dist: "distinct (?ls d)" "d \<notin> set (?ls d)" using r(2) [OF assms(2)] by auto
  show "holds_lists D (?ls(d := ?ls d @ [p])) (LinkBefore d p l)"
    by (rule rings) (use dist absent before other well_linked_insert(1) [OF wl neq] last_in in
        \<open>auto simp: LinkBefore_pointers [OF wl neq] last_d\<close>)
  show "holds_lists D (?ls(d := p # ?ls d)) (LinkAfter d p l)"
    by (rule rings) (use dist absent after other well_linked_insert(2) [OF wl neq] in
        \<open>auto simp: LinkAfter_pointers [OF wl neq]\<close>)
qed

lemma holds_lists_ends:
  assumes "holds_lists D ls l" and "d \<in> D"
  shows "next_of l d = (if ls d = [] then d else hd (ls d))"
    and "prev_of l d = (if ls d = [] then d else last (ls d))"
proof -
  note r = holds_listsD [OF assms]
  show "next_of l d = (if ls d = [] then d else hd (ls d))" using r(1) by (cases "ls d") auto
  show "prev_of l d = (if ls d = [] then d else last (ls d))"
    using leads_last [OF r(1)] well_linkedD(3) [OF r(4)] by (cases "ls d" rule: rev_cases) auto
qed

section \<open>Requests\<close>

datatype 'p request = PushBackOf 'p 'p | PushFrontOf 'p 'p | PopFrontOf 'p | PopBackOf 'p | EmptyOf 'p | UnlinkItem 'p

datatype 'p reply = Done | Item 'p | Answer bool

fun serve :: "'p request \<Rightarrow> 'p links \<Rightarrow> unit + 'p reply \<times> 'p links" where
  "serve (PushBackOf d p) l = Inr (Done, PushBack d p l)"
| "serve (PushFrontOf d p) l = Inr (Done, PushFront d p l)"
| "serve (PopFrontOf d) l = (let (p, l') = PopFront d l in Inr (Item p, l'))"
| "serve (PopBackOf d) l = (let (p, l') = PopBack d l in Inr (Item p, l'))"
| "serve (EmptyOf d) l = Inr (Answer (Empty d l), l)"
| "serve (UnlinkItem p) l = Inr (Done, Unlink p l)"

text \<open>The same on lists: an item is in one list at most, so it leaves the list it was in.\<close>

fun on_lists :: "'p request \<Rightarrow> ('p \<Rightarrow> 'p list) \<Rightarrow> 'p reply \<times> ('p \<Rightarrow> 'p list)" where
  "on_lists (PushBackOf d p) ls = (Done, (remove_item p ls)(d := remove_item p ls d @ [p]))"
| "on_lists (PushFrontOf d p) ls = (Done, (remove_item p ls)(d := p # remove_item p ls d))"
| "on_lists (PopFrontOf d) ls = (if ls d = [] then (Item d, ls) else (Item (hd (ls d)), ls(d := tl (ls d))))"
| "on_lists (PopBackOf d) ls = (if ls d = [] then (Item d, ls) else (Item (last (ls d)), ls(d := butlast (ls d))))"
| "on_lists (EmptyOf d) ls = (Answer (ls d = []), ls)"
| "on_lists (UnlinkItem p) ls = (Done, remove_item p ls)"

fun allowed :: "'p set \<Rightarrow> 'p request \<Rightarrow> bool" where
  "allowed D (PushBackOf d p) \<longleftrightarrow> d \<in> D \<and> p \<notin> D"
| "allowed D (PushFrontOf d p) \<longleftrightarrow> d \<in> D \<and> p \<notin> D"
| "allowed D (PopFrontOf d) \<longleftrightarrow> d \<in> D"
| "allowed D (PopBackOf d) \<longleftrightarrow> d \<in> D"
| "allowed D (EmptyOf d) \<longleftrightarrow> d \<in> D"
| "allowed D (UnlinkItem p) \<longleftrightarrow> p \<notin> D"

lemma Unlink_self:
  assumes "holds_lists D ls l" and "d \<in> D" and "ls d = []"
  shows "Unlink d l = l"
proof -
  have ends: "next_of l d = d" "prev_of l d = d" using holds_lists_ends [OF assms(1,2)] assms(3) by simp_all
  then have "(next_of l)(d := d) = next_of l" "(prev_of l)(d := d) = prev_of l" by (simp_all add: fun_upd_idem)
  then show ?thesis using ends by (simp add: Unlink_def set_next_def set_prev_def)
qed

lemma remove_listed:
  assumes "holds_lists D ls l" and "d \<in> D" and "ls d = xs @ p # ys"
  shows "p \<notin> D" and "e \<in> D \<Longrightarrow> remove_item p ls e = (ls(d := xs @ ys)) e"
proof -
  have p: "p \<in> set (ls d)" using assms(3) by simp
  then show "p \<notin> D" using assms(1,2) by (auto simp: holds_lists_def)
  show "remove_item p ls e = (ls(d := xs @ ys)) e" if "e \<in> D"
  proof (cases "e = d")
    case True
    then show ?thesis using holds_listsD(2) [OF assms(1,2)] assms(3) by (simp add: remove_item_def)
  next
    case False
    then have "p \<notin> set (ls e)" using p that assms(1,2) unfolding holds_lists_def by blast
    then show ?thesis using False by (simp add: remove_item_absent)
  qed
qed

lemma holds_lists_cong: "holds_lists D ls l \<Longrightarrow> (\<And>d. d \<in> D \<Longrightarrow> ls' d = ls d) \<Longrightarrow> holds_lists D ls' l"
  by (simp add: holds_lists_def)

lemma holds_lists_pop:
  assumes "holds_lists D ls l" and "d \<in> D" and "ls d = xs @ p # ys"
  shows "holds_lists D (ls(d := xs @ ys)) (Unlink p l)"
  using holds_lists_cong [OF holds_lists_Unlink [OF assms(1) remove_listed(1) [OF assms]]] remove_listed(2) [OF assms]
  by metis

lemma serve_on_lists:
  assumes "allowed D r" and "holds_lists D ls l"
  shows "\<exists>l'. serve r l = Inr (fst (on_lists r ls), l') \<and> holds_lists D (snd (on_lists r ls)) l'"
proof (cases r)
  case (PopFrontOf d)
  then have d: "d \<in> D" using assms(1) by simp
  show ?thesis
  proof (cases "ls d")
    case Nil
    then show ?thesis using PopFrontOf assms(2) Unlink_self [OF assms(2) d] holds_lists_ends(1) [OF assms(2) d]
      by (simp add: PopFront_def)
  next
    case (Cons p ps)
    then show ?thesis using PopFrontOf holds_lists_pop [OF assms(2) d, of "[]" p ps] holds_lists_ends(1) [OF assms(2) d]
      by (simp add: PopFront_def)
  qed
next
  case (PopBackOf d)
  then have d: "d \<in> D" using assms(1) by simp
  show ?thesis
  proof (cases "ls d" rule: rev_cases)
    case Nil
    then show ?thesis using PopBackOf assms(2) Unlink_self [OF assms(2) d] holds_lists_ends(2) [OF assms(2) d]
      by (simp add: PopBack_def)
  next
    case (snoc ps p)
    then show ?thesis using PopBackOf holds_lists_pop [OF assms(2) d, of ps p "[]"] holds_lists_ends(2) [OF assms(2) d]
      by (simp add: PopBack_def)
  qed
next
  case (EmptyOf d)
  then show ?thesis using assms holds_lists_ends(1) [OF assms(2), of d] holds_listsD(2) [OF assms(2), of d]
    by (cases "ls d") (auto simp: Empty_def)
qed (use assms holds_lists_insert [OF assms(2)] holds_lists_Unlink [OF assms(2)] in
  \<open>simp_all add: PushBack_def PushFront_def\<close>)

interpretation lists: simulates_for serve on_lists "\<lambda>l ls. holds_lists D ls l" "allowed D" for D
  by unfold_locales (rule serve_on_lists)

text \<open>C17. Any operations on any number of lists whose dummies are \<open>D\<close>, from freshly constructed items, give
  the replies of the operations on plain lists, where an item that is pushed or unlinked leaves the list
  it was in; at the end the pointers hold these lists. Popping from an empty list returns its dummy.\<close>

theorem intrusive_lists_refine:
  assumes "list_all (allowed D) rs"
  shows "\<exists>l. run_all serve rs items_new = Inr (fst (spec_all on_lists rs (\<lambda>d. [])), l)
    \<and> holds_lists D (snd (spec_all on_lists rs (\<lambda>d. []))) l"
  using lists.run_allowed_simulates [OF assms holds_lists_new] .

theorem intrusive_lists_refine_witness:
  "\<exists>l. run_all serve [PushBackOf 0 2, PushBackOf 0 3, PushFrontOf 1 3, PushFrontOf 0 4, PopBackOf 0, PopFrontOf 1, EmptyOf 1, PopFrontOf 1]
     (items_new :: nat links) = Inr ([Done, Done, Done, Done, Item 2, Item 3, Answer True, Item 1], l)
   \<and> holds_lists {0, 1} (snd (spec_all on_lists [PushBackOf 0 2, PushBackOf 0 3, PushFrontOf 1 3, PushFrontOf 0 4, PopBackOf 0, PopFrontOf 1, EmptyOf 1, PopFrontOf 1] (\<lambda>d. []))) l"
  using intrusive_lists_refine [of "{0, 1}" "[PushBackOf 0 2, PushBackOf 0 3, PushFrontOf 1 3, PushFrontOf 0 4, PopBackOf 0, PopFrontOf 1, EmptyOf 1, PopFrontOf (1::nat)]"]
  by (simp add: remove_item_def Let_def)

end
