(* ===== verification/Nanofibers.thy ===== *)
theory Nanofibers
  imports IntrusiveList
begin

text \<open>
  The fibers with a mutex (\<open>seminars/2023/12-advanced-threads/03-nanofibers-mutex\<close>): a scheduler that runs
  routines one at a time, each until it yields, waits or ends. \<open>SaveContext\<close> and \<open>JumpContext\<close> are written
  in assembly; what they save and restore is here the rest of the routine, the list of the actions that
  it has not taken yet. The lists of fibers are the intrusive lists, over pointers to their dummies and to fibers.
\<close>

section \<open>Fibers and their scheduler\<close>

datatype EFiberState = Runnable | Suspended | Finished

text \<open>The calls a routine makes, on mutexes and condition variables given by numbers; a loop in the routine
  with a known number of rounds is the list of its calls.\<close>

datatype action =
  Print string | Spawn "action list" | Yield | Lock nat | Unlock nat | Wait nat | NotifyOne nat | NotifyAll nat

text \<open>The dummies of \<open>queue_\<close> of the scheduler, of a mutex and of a condition variable, and the fibers.\<close>

datatype ptr = SchedulerQueue | MutexQueue nat | ConditionQueue nat | FiberPtr nat

record scheduler =
  links :: "ptr links"
  state_of :: "nat \<Rightarrow> EFiberState option"
  context_of :: "nat \<Rightarrow> action list"
  fiber_count :: nat
  locked :: "nat \<Rightarrow> bool"
  printed :: "string list"

definition scheduler_new :: scheduler where
  "scheduler_new = \<lparr>links = items_new, state_of = (\<lambda>f. None), context_of = (\<lambda>f. []), fiber_count = 0,
     locked = (\<lambda>m. False), printed = []\<rparr>"

definition SetState :: "EFiberState \<Rightarrow> nat \<Rightarrow> scheduler \<Rightarrow> scheduler" where
  "SetState st f s = s\<lparr>state_of := (state_of s)(f \<mapsto> st)\<rparr>"

definition Schedule :: "nat \<Rightarrow> scheduler \<Rightarrow> scheduler" where
  "Schedule f s = (let s = SetState Runnable f s in s\<lparr>links := PushBack SchedulerQueue (FiberPtr f) (links s)\<rparr>)"

definition SpawnFiber :: "action list \<Rightarrow> scheduler \<Rightarrow> scheduler" where
  "SpawnFiber routine s =
     (let f = fiber_count s;
          s = s\<lparr>fiber_count := f + 1, state_of := (state_of s)(f \<mapsto> Runnable), context_of := (context_of s)(f := routine)\<rparr>
      in Schedule f s)"

text \<open>\<open>Yield\<close> of the fiber \<open>f\<close>: what it has still to do is its saved context.\<close>

definition SwitchTo_main :: "nat \<Rightarrow> action list \<Rightarrow> scheduler \<Rightarrow> scheduler" where
  "SwitchTo_main f rest s = s\<lparr>context_of := (context_of s)(f := rest)\<rparr>"

definition Suspend :: "nat \<Rightarrow> scheduler \<Rightarrow> scheduler" where
  "Suspend f s = SetState Suspended f s"

definition Terminate :: "nat \<Rightarrow> scheduler \<Rightarrow> scheduler" where
  "Terminate f s = SwitchTo_main f [] (SetState Finished f s)"

section \<open>The condition variable and the mutex\<close>

definition WaitIn :: "ptr \<Rightarrow> nat \<Rightarrow> action list \<Rightarrow> scheduler \<Rightarrow> scheduler" where
  "WaitIn queue f rest s =
     (let s = Suspend f s; s = s\<lparr>links := PushBack queue (FiberPtr f) (links s)\<rparr> in SwitchTo_main f rest s)"

definition NotifyOneIn :: "ptr \<Rightarrow> scheduler \<Rightarrow> bool \<times> scheduler" where
  "NotifyOneIn queue s =
     (if Empty queue (links s) then (False, s)
      else case PopFront queue (links s) of
        (FiberPtr f, l) \<Rightarrow> (True, Schedule f (s\<lparr>links := l\<rparr>))
      | (_, l) \<Rightarrow> (True, s\<lparr>links := l\<rparr>))"

partial_function (option) NotifyAllIn :: "ptr \<Rightarrow> scheduler \<Rightarrow> scheduler option" where
  "NotifyAllIn queue s = (case NotifyOneIn queue s of (woken, s') \<Rightarrow> if woken then NotifyAllIn queue s' else Some s')"

text \<open>One call of the fiber \<open>f\<close> with the calls \<open>rest\<close> after it: the fiber goes on, or control is back in
  \<open>Run\<close>. A fiber that waits in \<open>Lock\<close> tests \<open>locked_\<close> again when it is resumed.\<close>

datatype 's outcome = Continue 's | Switched 's

fun act :: "nat \<Rightarrow> action \<Rightarrow> action list \<Rightarrow> scheduler \<Rightarrow> scheduler outcome option" where
  "act f (Print line) rest s = Some (Continue (s\<lparr>printed := printed s @ [line]\<rparr>))"
| "act f (Spawn routine) rest s = Some (Continue (SpawnFiber routine s))"
| "act f Yield rest s = Some (Switched (SwitchTo_main f rest s))"
| "act f (Lock m) rest s =
     (if locked s m then Some (Switched (WaitIn (MutexQueue m) f (Lock m # rest) s))
      else Some (Continue (s\<lparr>locked := (locked s)(m := True)\<rparr>)))"
| "act f (Unlock m) rest s =
     Some (Continue (snd (NotifyOneIn (MutexQueue m) (s\<lparr>locked := (locked s)(m := False)\<rparr>))))"
| "act f (Wait c) rest s = Some (Switched (WaitIn (ConditionQueue c) f rest s))"
| "act f (NotifyOne c) rest s = Some (Continue (snd (NotifyOneIn (ConditionQueue c) s)))"
| "act f (NotifyAll c) rest s = map_option Continue (NotifyAllIn (ConditionQueue c) s)"

text \<open>A resumed fiber, until control is back; at the end of its routine it terminates.\<close>

fun Resume :: "nat \<Rightarrow> action list \<Rightarrow> scheduler \<Rightarrow> scheduler option" where
  "Resume f [] s = Some (Terminate f s)"
| "Resume f (a # rest) s =
     (case act f a rest s of
        None \<Rightarrow> None
      | Some (Continue s') \<Rightarrow> Resume f rest s'
      | Some (Switched s') \<Rightarrow> Some s')"

section \<open>Run\<close>

text \<open>What \<open>Run\<close> does with a fiber that gave control back; \<open>delete\<close> unlinks it.\<close>

definition AfterSwitch :: "nat \<Rightarrow> scheduler \<Rightarrow> scheduler" where
  "AfterSwitch f s =
     (case state_of s f of
        Some Runnable \<Rightarrow> Schedule f s
      | Some Finished \<Rightarrow> s\<lparr>links := Unlink (FiberPtr f) (links s), state_of := (state_of s)(f := None)\<rparr>
      | _ \<Rightarrow> s)"

partial_function (option) RunLoop :: "scheduler \<Rightarrow> scheduler option" where
  "RunLoop s =
     (if Empty SchedulerQueue (links s) then Some s
      else case PopFront SchedulerQueue (links s) of
        (FiberPtr f, l) \<Rightarrow> Option.bind (Resume f (context_of s f) (s\<lparr>links := l\<rparr>)) (\<lambda>s'. RunLoop (AfterSwitch f s'))
      | (_, l) \<Rightarrow> None)"

declare NotifyAllIn.simps [code] RunLoop.simps [code]

definition Run :: "action list \<Rightarrow> scheduler \<Rightarrow> scheduler option" where
  "Run routine s = RunLoop (SpawnFiber routine s)"

text \<open>The program: two fibers that print under a mutex, \<open>rounds\<close> times \<open>lines\<close> lines (both five in the code).\<close>

definition player :: "nat \<Rightarrow> nat \<Rightarrow> string \<Rightarrow> action list" where
  "player rounds lines line =
     concat (replicate rounds (Lock 0 # concat (replicate lines [Print line, Yield]) @ [Unlock 0, Yield]))"

definition main_routine :: "nat \<Rightarrow> nat \<Rightarrow> action list" where
  "main_routine rounds lines =
     [Spawn (player rounds lines ''{Fiber #1} Ping''), Spawn (player rounds lines ''{Fiber #2} Pong''),
      Print ''{Fiber #0} Spawned 2 children'']"

section \<open>The lists of fibers\<close>

definition dummies :: "ptr set" where
  "dummies = - range FiberPtr"

lemma dummies_simps [simp]: "SchedulerQueue \<in> dummies" "MutexQueue m \<in> dummies" "ConditionQueue c \<in> dummies" "FiberPtr f \<notin> dummies"
  by (auto simp: dummies_def)

definition lists_of :: "(ptr \<Rightarrow> nat list) \<Rightarrow> ptr links \<Rightarrow> bool" where
  "lists_of ls l \<longleftrightarrow> holds_lists dummies (\<lambda>d. map FiberPtr (ls d)) l"

lemma lists_ofD:
  assumes "lists_of ls l" and "d \<in> dummies"
  shows "distinct (ls d)" and "e \<in> dummies \<Longrightarrow> d \<noteq> e \<Longrightarrow> set (ls d) \<inter> set (ls e) = {}"
proof -
  show "distinct (ls d)" using holds_listsD(2) [OF assms [unfolded lists_of_def]] by (simp add: distinct_map)
  show "set (ls d) \<inter> set (ls e) = {}" if "e \<in> dummies" "d \<noteq> e"
  proof -
    have "FiberPtr ` set (ls d) \<inter> FiberPtr ` set (ls e) = {}"
      using assms that by (simp add: lists_of_def holds_lists_def)
    then show ?thesis by blast
  qed
qed

lemma lists_of_new: "lists_of (\<lambda>d. []) items_new"
  by (simp add: lists_of_def holds_lists_new)

lemma lists_of_Empty: "lists_of ls l \<Longrightarrow> d \<in> dummies \<Longrightarrow> Empty d l \<longleftrightarrow> ls d = []"
  using serve_on_lists [of dummies "EmptyOf d" "\<lambda>d. map FiberPtr (ls d)" l] by (simp add: lists_of_def)

lemma lists_of_PushBack:
  assumes "lists_of ls l" and "d \<in> dummies" and "\<forall>e \<in> dummies. f \<notin> set (ls e)"
  shows "lists_of (ls(d := ls d @ [f])) (PushBack d (FiberPtr f) l)"
proof -
  let ?ls = "\<lambda>d. map FiberPtr (ls d)"
  have pushed: "holds_lists dummies ((remove_item (FiberPtr f) ?ls)(d := remove_item (FiberPtr f) ?ls d @ [FiberPtr f])) (PushBack d (FiberPtr f) l)"
    using serve_on_lists [of dummies "PushBackOf d (FiberPtr f)" ?ls l] assms(1,2) by (simp add: lists_of_def)
  have "remove_item (FiberPtr f) ?ls e = ?ls e" if "e \<in> dummies" for e
    using assms(3) that by (intro remove_item_absent) auto
  then show ?thesis unfolding lists_of_def by (intro holds_lists_cong [OF pushed]) (simp add: assms(2))
qed

lemma lists_of_PopFront:
  assumes "lists_of ls l" and "d \<in> dummies" and "ls d = f # fs"
  shows "\<exists>l'. PopFront d l = (FiberPtr f, l') \<and> lists_of (ls(d := fs)) l'"
proof -
  obtain l' where l': "PopFront d l = (FiberPtr f, l')" "holds_lists dummies ((\<lambda>d. map FiberPtr (ls d))(d := map FiberPtr fs)) l'"
    using serve_on_lists [of dummies "PopFrontOf d" "\<lambda>d. map FiberPtr (ls d)" l] assms by (auto simp: lists_of_def split: prod.splits)
  moreover have "(\<lambda>d. map FiberPtr (ls d))(d := map FiberPtr fs) = (\<lambda>e. map FiberPtr ((ls(d := fs)) e))" by auto
  ultimately show ?thesis by (auto simp: lists_of_def)
qed

lemma lists_of_Unlink:
  assumes "lists_of ls l" and "\<forall>e \<in> dummies. f \<notin> set (ls e)"
  shows "lists_of ls (Unlink (FiberPtr f) l)"
proof -
  let ?ls = "\<lambda>d. map FiberPtr (ls d)"
  have removed: "holds_lists dummies (remove_item (FiberPtr f) ?ls) (Unlink (FiberPtr f) l)"
    using assms(1) by (intro holds_lists_Unlink) (simp_all add: lists_of_def)
  have "remove_item (FiberPtr f) ?ls e = ?ls e" if "e \<in> dummies" for e
    using assms(2) that by (intro remove_item_absent) auto
  then show ?thesis unfolding lists_of_def by (intro holds_lists_cong [OF removed]) simp
qed

section \<open>Every fiber is running or in one list\<close>

text \<open>The lists \<open>ls\<close> hold the live fibers except the running one: the runnable ones the scheduler's, the
  suspended ones a list of a mutex or a condition variable.\<close>

definition consistent :: "(ptr \<Rightarrow> nat list) \<Rightarrow> nat option \<Rightarrow> scheduler \<Rightarrow> bool" where
  "consistent ls running s \<longleftrightarrow> lists_of ls (links s)
     \<and> (\<forall>d \<in> dummies. \<forall>f \<in> set (ls d). Some f \<noteq> running
          \<and> state_of s f = Some (if d = SchedulerQueue then Runnable else Suspended))
     \<and> (\<forall>f. state_of s f \<noteq> None \<longrightarrow> f < fiber_count s \<and> (Some f = running \<or> (\<exists>d \<in> dummies. f \<in> set (ls d))))
     \<and> (\<forall>f. running = Some f \<longrightarrow> state_of s f = Some Runnable)"

lemma consistentD:
  assumes "consistent ls running s"
  shows "lists_of ls (links s)"
    and "d \<in> dummies \<Longrightarrow> f \<in> set (ls d) \<Longrightarrow> Some f \<noteq> running"
    and "d \<in> dummies \<Longrightarrow> f \<in> set (ls d) \<Longrightarrow> state_of s f = Some (if d = SchedulerQueue then Runnable else Suspended)"
    and "d \<in> dummies \<Longrightarrow> f \<in> set (ls d) \<Longrightarrow> f < fiber_count s"
    and "state_of s f \<noteq> None \<Longrightarrow> f < fiber_count s"
    and "state_of s f \<noteq> None \<Longrightarrow> Some f = running \<or> (\<exists>d \<in> dummies. f \<in> set (ls d))"
    and "running = Some f \<Longrightarrow> state_of s f = Some Runnable"
  using assms by (auto simp: consistent_def)

lemma consistent_new: "consistent (\<lambda>d. []) None scheduler_new"
  by (simp add: consistent_def scheduler_new_def lists_of_new)

definition notified :: "ptr \<Rightarrow> (ptr \<Rightarrow> nat list) \<Rightarrow> ptr \<Rightarrow> nat list" where
  "notified q ls =
     (case ls q of [] \<Rightarrow> ls | f # fs \<Rightarrow> ls(q := fs, SchedulerQueue := ls SchedulerQueue @ [f]))"

lemma notified_mem:
  assumes "lists_of ls l" and "q \<in> dummies" and "q \<noteq> SchedulerQueue" and "ls q = f # fs" and "d \<in> dummies"
  shows "g \<in> set (notified q ls d) \<longleftrightarrow> (if g = f then d = SchedulerQueue else g \<in> set (ls d))"
proof -
  have "f \<notin> set fs" using lists_ofD(1) [OF assms(1,2)] assms(4) by simp
  moreover have "f \<notin> set (ls d)" if "d \<noteq> q" using lists_ofD(2) [OF assms(1,5,2) that] assms(4) by auto
  ultimately show ?thesis using assms(3,4) by (auto simp: notified_def)
qed

lemma Schedule_links:
  "Schedule f s = s\<lparr>state_of := (state_of s)(f \<mapsto> Runnable), links := PushBack SchedulerQueue (FiberPtr f) (links s)\<rparr>"
  by (simp add: Schedule_def SetState_def Let_def)

lemma NotifyOneIn_effect:
  assumes "consistent ls running s" and "q \<in> dummies" and "q \<noteq> SchedulerQueue"
  shows "ls q = [] \<Longrightarrow> NotifyOneIn q s = (False, s)"
    and "ls q = f # fs \<Longrightarrow> \<exists>l. NotifyOneIn q s = (True, s\<lparr>state_of := (state_of s)(f \<mapsto> Runnable), links := l\<rparr>)
        \<and> consistent (notified q ls) running (s\<lparr>state_of := (state_of s)(f \<mapsto> Runnable), links := l\<rparr>)"
proof -
  note c = consistentD [OF assms(1)]
  show "NotifyOneIn q s = (False, s)" if "ls q = []"
    using lists_of_Empty [OF c(1) assms(2)] that by (simp add: NotifyOneIn_def)
  show "\<exists>l. NotifyOneIn q s = (True, s\<lparr>state_of := (state_of s)(f \<mapsto> Runnable), links := l\<rparr>)
        \<and> consistent (notified q ls) running (s\<lparr>state_of := (state_of s)(f \<mapsto> Runnable), links := l\<rparr>)" if q: "ls q = f # fs"
  proof -
    obtain l where l: "PopFront q (links s) = (FiberPtr f, l)" "lists_of (ls(q := fs)) l"
      using lists_of_PopFront [OF c(1) assms(2) q] by blast
    have dist: "f \<notin> set fs" using lists_ofD(1) [OF c(1) assms(2)] q by simp
    have only: "f \<notin> set (ls d)" if "d \<in> dummies" "d \<noteq> q" for d
      using lists_ofD(2) [OF c(1) that(1) assms(2) that(2)] q by auto
    let ?l = "PushBack SchedulerQueue (FiberPtr f) l"
    have "lists_of ((ls(q := fs))(SchedulerQueue := (ls(q := fs)) SchedulerQueue @ [f])) ?l"
      using l(2) dist only by (intro lists_of_PushBack) auto
    then have lists: "lists_of (notified q ls) ?l" using q assms(3) by (simp add: notified_def)
    have mem: "g \<in> set (notified q ls d) \<longleftrightarrow> (if g = f then d = SchedulerQueue else g \<in> set (ls d))" if "d \<in> dummies" for g d
      using notified_mem [OF c(1) assms(2,3) q that] .
    have f: "Some f \<noteq> running" "state_of s f = Some Suspended" "f < fiber_count s" using c(2-4) [OF assms(2)] q assms(3) by auto
    have "consistent (notified q ls) running (s\<lparr>state_of := (state_of s)(f \<mapsto> Runnable), links := ?l\<rparr>)"
      unfolding consistent_def
    proof (intro conjI ballI allI impI)
      show "lists_of (notified q ls) (links (s\<lparr>state_of := (state_of s)(f \<mapsto> Runnable), links := ?l\<rparr>))"
        using lists by simp
      fix d g assume d: "d \<in> dummies" "g \<in> set (notified q ls d)"
      then show "Some g \<noteq> running" using mem f(1) c(2) by (auto split: if_splits)
      show "state_of (s\<lparr>state_of := (state_of s)(f \<mapsto> Runnable), links := ?l\<rparr>) g
        = Some (if d = SchedulerQueue then Runnable else Suspended)"
        using d mem c(3) by (auto split: if_splits)
    next
      fix g assume "state_of (s\<lparr>state_of := (state_of s)(f \<mapsto> Runnable), links := ?l\<rparr>) g \<noteq> None"
      then have g: "g = f \<or> state_of s g \<noteq> None" by (auto split: if_splits)
      then show "g < fiber_count (s\<lparr>state_of := (state_of s)(f \<mapsto> Runnable), links := ?l\<rparr>)"
        using f(3) c(5) by auto
      show "Some g = running \<or> (\<exists>d \<in> dummies. g \<in> set (notified q ls d))"
      proof (cases "g = f")
        case True
        then show ?thesis using mem [of SchedulerQueue] by (intro disjI2 bexI [of _ SchedulerQueue]) auto
      next
        case False
        then show ?thesis using g c(6) [of g] mem by auto
      qed
    next
      fix g assume "running = Some g"
      then show "state_of (s\<lparr>state_of := (state_of s)(f \<mapsto> Runnable), links := ?l\<rparr>) g = Some Runnable"
        using c(7) by simp
    qed
    moreover have "NotifyOneIn q s = (True, s\<lparr>state_of := (state_of s)(f \<mapsto> Runnable), links := ?l\<rparr>)"
      using lists_of_Empty [OF c(1) assms(2)] q l(1) by (simp add: NotifyOneIn_def Schedule_links)
    ultimately show ?thesis by blast
  qed
qed

lemma notified_Nil: "ls q = [] \<Longrightarrow> notified q ls = ls"
  by (simp add: notified_def)

lemma NotifyOneIn_cases:
  assumes "consistent ls running s" and "q \<in> dummies" and "q \<noteq> SchedulerQueue"
  obtains l st where "snd (NotifyOneIn q s) = s\<lparr>state_of := st, links := l\<rparr>"
    and "consistent (notified q ls) running (s\<lparr>state_of := st, links := l\<rparr>)"
    and "\<And>g. st g = None \<longleftrightarrow> state_of s g = None"
proof (cases "ls q")
  case Nil
  then show thesis using NotifyOneIn_effect(1) [OF assms] assms(1)
    by (intro that [of "links s" "state_of s"]) (simp_all add: notified_Nil)
next
  case (Cons f fs)
  have "state_of s f \<noteq> None" using consistentD(3) [OF assms(1,2)] Cons by fastforce
  then show thesis using NotifyOneIn_effect(2) [OF assms Cons] that [where st = "(state_of s)(f \<mapsto> Runnable)"]
    by fastforce
qed

lemma NotifyAllIn_effect:
  assumes "consistent ls running s" and "q \<in> dummies" and "q \<noteq> SchedulerQueue"
  shows "\<exists>l st. NotifyAllIn q s = Some (s\<lparr>state_of := st, links := l\<rparr>)
    \<and> consistent (ls(q := [], SchedulerQueue := ls SchedulerQueue @ ls q)) running (s\<lparr>state_of := st, links := l\<rparr>)
    \<and> (\<forall>g. st g = None \<longleftrightarrow> state_of s g = None)"
  using assms(1)
proof (induction "ls q" arbitrary: ls s)
  case Nil
  then have "NotifyAllIn q s = Some (s\<lparr>state_of := state_of s, links := links s\<rparr>)"
    using NotifyOneIn_effect(1) [OF Nil.prems assms(2,3)] by (subst NotifyAllIn.simps) simp
  moreover have "ls(q := [], SchedulerQueue := ls SchedulerQueue @ ls q) = ls" using Nil(1) by auto
  ultimately show ?case using Nil.prems
    by (intro exI [of _ "links s"] exI [of _ "state_of s"]) (simp del: fun_upd_apply)
next
  case (Cons f fs)
  obtain l where n: "NotifyOneIn q s = (True, s\<lparr>state_of := (state_of s)(f \<mapsto> Runnable), links := l\<rparr>)"
    "consistent (notified q ls) running (s\<lparr>state_of := (state_of s)(f \<mapsto> Runnable), links := l\<rparr>)"
    using NotifyOneIn_effect(2) [OF Cons.prems assms(2,3) Cons(2) [symmetric]] by blast
  have ls: "notified q ls q = fs" "notified q ls SchedulerQueue = ls SchedulerQueue @ [f]"
    using Cons(2) [symmetric] assms(3) by (simp_all add: notified_def)
  have same: "(notified q ls)(q := [], SchedulerQueue := (ls SchedulerQueue @ [f]) @ fs)
    = ls(q := [], SchedulerQueue := ls SchedulerQueue @ ls q)"
    using Cons(2) [symmetric] assms(3) by (auto simp: notified_def)
  have f: "state_of s f \<noteq> None" using consistentD(3) [OF Cons.prems assms(2)] Cons(2) [symmetric] by fastforce
  obtain l' st where r: "NotifyAllIn q (s\<lparr>state_of := (state_of s)(f \<mapsto> Runnable), links := l\<rparr>) = Some (s\<lparr>state_of := st, links := l'\<rparr>)"
    "consistent (ls(q := [], SchedulerQueue := ls SchedulerQueue @ ls q)) running (s\<lparr>state_of := st, links := l'\<rparr>)"
    "\<forall>g. st g = None \<longleftrightarrow> ((state_of s)(f \<mapsto> Runnable)) g = None"
    using Cons.hyps(1) [OF ls(1) [symmetric] n(2)] unfolding ls same by auto
  then have "NotifyAllIn q s = Some (s\<lparr>state_of := st, links := l'\<rparr>)" using n(1) by (subst NotifyAllIn.simps) simp
  moreover have "\<forall>g. st g = None \<longleftrightarrow> state_of s g = None" using r(3) f by simp
  ultimately show ?case using r(2) by blast
qed

section \<open>A measure of the work that is left\<close>

fun weight :: "action \<Rightarrow> nat" and weights :: "action list \<Rightarrow> nat" where
  "weight (Print line) = 1"
| "weight (Spawn routine) = 2 + weights routine"
| "weight Yield = 1"
| "weight (Lock m) = 1"
| "weight (Unlock m) = 1"
| "weight (Wait c) = 1"
| "weight (NotifyOne c) = 1"
| "weight (NotifyAll c) = 1"
| "weights [] = 0"
| "weights (a # rest) = weight a + weights rest"

definition credit :: "(ptr \<Rightarrow> nat list) \<Rightarrow> scheduler \<Rightarrow> nat \<Rightarrow> nat" where
  "credit ls s f =
     (case state_of s f of
        None \<Rightarrow> 0
      | Some _ \<Rightarrow> weights (context_of s f) + (if \<exists>m. f \<in> set (ls (MutexQueue m)) then 0 else 1))"

definition work :: "(ptr \<Rightarrow> nat list) \<Rightarrow> nat option \<Rightarrow> scheduler \<Rightarrow> nat" where
  "work ls running s = (\<Sum>f | f < fiber_count s \<and> Some f \<noteq> running. credit ls s f)"

lemma work_change:
  assumes "fiber_count s' = fiber_count s" and "\<And>g. g \<noteq> f \<Longrightarrow> Some g \<noteq> running \<Longrightarrow> credit ls' s' g \<le> credit ls s g"
    and "Some f \<noteq> running \<Longrightarrow> credit ls' s' f \<le> credit ls s f + k"
  shows "work ls' running s' \<le> work ls running s + k"
proof -
  let ?F = "{g. g < fiber_count s \<and> Some g \<noteq> running}"
  have fin: "finite ?F" by simp
  have "work ls' running s' \<le> (\<Sum>g \<in> ?F. credit ls s g + (if g = f then k else 0))"
    unfolding work_def assms(1) by (rule sum_mono) (use assms(2,3) in auto)
  also have "\<dots> = work ls running s + (\<Sum>g \<in> ?F. if g = f then k else 0)"
    by (simp add: work_def sum.distrib)
  also have "(\<Sum>g \<in> ?F. if g = f then k else 0) \<le> k" by (simp add: sum.delta)
  finally show ?thesis by simp
qed

lemma work_start:
  assumes "f < fiber_count s"
  shows "work ls None s = work ls (Some f) s + credit ls s f"
proof -
  have "{g. g < fiber_count s \<and> Some g \<noteq> None} = insert f {g. g < fiber_count s \<and> Some g \<noteq> Some f}"
    using assms by auto
  moreover have "sum (credit ls s) (insert f {g. g < fiber_count s \<and> Some g \<noteq> Some f})
    = credit ls s f + sum (credit ls s) {g. g < fiber_count s \<and> Some g \<noteq> Some f}"
    by (rule sum.insert) auto
  ultimately show ?thesis by (simp only: work_def add.commute)
qed

lemma credit_le:
  assumes "state_of s' g = None \<longleftrightarrow> state_of s g = None" and "context_of s' g = context_of s g"
  shows "(\<exists>m. g \<in> set (ls (MutexQueue m))) \<longrightarrow> (\<exists>m. g \<in> set (ls' (MutexQueue m))) \<Longrightarrow> credit ls' s' g \<le> credit ls s g"
    and "credit ls' s' g \<le> credit ls s g + 1"
  using assms by (auto simp: credit_def split: option.splits)

lemma work_notified:
  assumes "consistent ls running s" and "q \<in> dummies" and "q \<noteq> SchedulerQueue"
    and "fiber_count s' = fiber_count s" "context_of s' = context_of s"
    and "\<And>g. state_of s' g = None \<longleftrightarrow> state_of s g = None"
  shows "work (notified q ls) running s' \<le> work ls running s + 1"
proof (cases "ls q")
  case Nil
  moreover have "credit ls s' g \<le> credit ls s g" for g using credit_le(1) [of s' g s ls ls] assms(4-6) by simp
  then have "work ls running s' \<le> work ls running s + 1"
    by (intro work_change [OF assms(4), of 0]) (simp_all add: le_SucI)
  ultimately show ?thesis by (simp add: notified_Nil)
next
  case (Cons f fs)
  note mem = notified_mem [OF consistentD(1) [OF assms(1)] assms(2,3) Cons]
  show ?thesis
  proof (rule work_change [of s' s f])
    show "credit (notified q ls) s' g \<le> credit ls s g" if "g \<noteq> f" for g
      using that mem [of "MutexQueue _" g] credit_le(1) [of s' g s ls "notified q ls"] assms(5,6) by simp
    show "credit (notified q ls) s' f \<le> credit ls s f + 1"
      using credit_le(2) [of s' f s "notified q ls" ls] assms(5,6) by simp
  qed (rule assms(4))
qed

lemma work_notified_all:
  assumes "consistent ls running s" and "fiber_count s' = fiber_count s" "context_of s' = context_of s"
    and "\<And>g. state_of s' g = None \<longleftrightarrow> state_of s g = None"
  shows "work (ls(ConditionQueue c := [], SchedulerQueue := fs)) running s' \<le> work ls running s"
  using work_change [of s' s 0 running "ls(ConditionQueue c := [], SchedulerQueue := fs)" ls 0]
    credit_le(1) [of s' _ s ls "ls(ConditionQueue c := [], SchedulerQueue := fs)"] assms(2-4)
  by simp

section \<open>One turn of a fiber\<close>

lemma consistent_push:
  assumes "consistent ls r s" and "d \<in> dummies" and "\<forall>e \<in> dummies. f \<notin> set (ls e)"
    and "links s' = PushBack d (FiberPtr f) (links s)"
    and "state_of s' = (state_of s)(f \<mapsto> (if d = SchedulerQueue then Runnable else Suspended))"
    and "f < fiber_count s'" "fiber_count s \<le> fiber_count s'"
    and "Some f \<noteq> r'" and "r' = r \<or> r = Some f \<and> r' = None"
  shows "consistent (ls(d := ls d @ [f])) r' s'"
proof -
  note c = consistentD [OF assms(1)]
  have "lists_of (ls(d := ls d @ [f])) (links s')"
    unfolding assms(4) using c(1) assms(2,3) by (rule lists_of_PushBack)
  moreover have "Some g \<noteq> r' \<and> state_of s' g = Some (if e = SchedulerQueue then Runnable else Suspended)"
    if "e \<in> dummies" "g \<in> set ((ls(d := ls d @ [f])) e)" for e g
  proof (cases "g = f")
    case True
    then have "e = d" using that assms(3) by (auto split: if_splits)
    then show ?thesis using True assms(5,8) by simp
  next
    case False
    then have "g \<in> set (ls e)" using that(2) by (auto split: if_splits)
    then show ?thesis using c(2,3) [OF that(1)] False assms(5,9) by auto
  qed
  moreover have "g < fiber_count s' \<and> (Some g = r' \<or> (\<exists>e \<in> dummies. g \<in> set ((ls(d := ls d @ [f])) e)))"
    if "state_of s' g \<noteq> None" for g
  proof (cases "g = f")
    case True
    then show ?thesis using assms(2,6) by auto
  next
    case False
    then have "state_of s g \<noteq> None" using that assms(5) by simp
    then have "g < fiber_count s" "Some g = r \<or> (\<exists>e \<in> dummies. g \<in> set (ls e))" using c(5,6) by blast+
    then show ?thesis using False assms(7,9) by auto
  qed
  moreover have "state_of s' g = Some Runnable" if "r' = Some g" for g
    using that assms(5,8,9) c(7) [of g] by auto
  ultimately show ?thesis unfolding consistent_def by blast
qed

lemma running_unlisted: "consistent ls (Some f) s \<Longrightarrow> \<forall>e \<in> dummies. f \<notin> set (ls e)"
  by (auto simp: consistent_def)

lemma SpawnFiber_consistent:
  assumes "consistent ls running s"
  shows "consistent (ls(SchedulerQueue := ls SchedulerQueue @ [fiber_count s])) running (SpawnFiber routine s)"
proof (rule consistent_push [OF assms])
  show "\<forall>e \<in> dummies. fiber_count s \<notin> set (ls e)" using consistentD(4) [OF assms] by fastforce
  show "Some (fiber_count s) \<noteq> running" using consistentD(5,7) [OF assms, of "fiber_count s"] by auto
qed (simp_all add: SpawnFiber_def Schedule_links Let_def)

lemma WaitIn_consistent:
  assumes "consistent ls (Some f) s" and "q \<in> dummies" and "q \<noteq> SchedulerQueue"
  shows "consistent (ls(q := ls q @ [f])) None (AfterSwitch f (WaitIn q f rest s))"
proof (rule consistent_push [OF assms(1,2) running_unlisted [OF assms(1)]])
  show "f < fiber_count (AfterSwitch f (WaitIn q f rest s))"
    using consistentD(5,7) [OF assms(1), of f] by (simp add: AfterSwitch_def WaitIn_def Suspend_def SetState_def SwitchTo_main_def Let_def)
qed (use assms(3) in \<open>simp_all add: AfterSwitch_def WaitIn_def Suspend_def SetState_def SwitchTo_main_def Let_def\<close>)

lemma SwitchTo_main_consistent:
  assumes "consistent ls (Some f) s"
  shows "consistent (ls(SchedulerQueue := ls SchedulerQueue @ [f])) None (AfterSwitch f (SwitchTo_main f rest s))"
proof (rule consistent_push [OF assms _ running_unlisted [OF assms]])
  have f: "state_of s f = Some Runnable" "f < fiber_count s" using consistentD(5,7) [OF assms, of f] by auto
  then show "f < fiber_count (AfterSwitch f (SwitchTo_main f rest s))"
    by (simp add: AfterSwitch_def SwitchTo_main_def Schedule_links)
  show "links (AfterSwitch f (SwitchTo_main f rest s)) = PushBack SchedulerQueue (FiberPtr f) (links s)"
    "state_of (AfterSwitch f (SwitchTo_main f rest s)) = (state_of s)(f \<mapsto> (if SchedulerQueue = SchedulerQueue then Runnable else Suspended))"
    "fiber_count s \<le> fiber_count (AfterSwitch f (SwitchTo_main f rest s))"
    using f by (simp_all add: AfterSwitch_def SwitchTo_main_def Schedule_links)
qed simp_all

lemma Terminate_links:
  "AfterSwitch f (Terminate f s) = s\<lparr>links := Unlink (FiberPtr f) (links s), state_of := (state_of s)(f := None),
     context_of := (context_of s)(f := [])\<rparr>"
  by (simp add: AfterSwitch_def Terminate_def SetState_def SwitchTo_main_def)

lemma Terminate_consistent:
  assumes "consistent ls (Some f) s"
  shows "consistent ls None (AfterSwitch f (Terminate f s))"
proof -
  note c = consistentD [OF assms] and out = running_unlisted [OF assms]
  have "lists_of ls (Unlink (FiberPtr f) (links s))" using lists_of_Unlink [OF c(1) out] .
  moreover have "\<exists>d \<in> dummies. g \<in> set (ls d)" if "g \<noteq> f" "state_of s g = Some st" for g st using c(6) [of g] that by simp
  ultimately show ?thesis unfolding Terminate_links consistent_def using c(3,5) out by auto
qed

lemma pop_consistent:
  assumes "consistent ls None s" and "ls SchedulerQueue = f # fs"
  shows "\<exists>l. PopFront SchedulerQueue (links s) = (FiberPtr f, l) \<and> consistent (ls(SchedulerQueue := fs)) (Some f) (s\<lparr>links := l\<rparr>)"
proof -
  note c = consistentD [OF assms(1)]
  obtain l where l: "PopFront SchedulerQueue (links s) = (FiberPtr f, l)" "lists_of (ls(SchedulerQueue := fs)) l"
    using lists_of_PopFront [OF c(1) _ assms(2)] by auto
  have f: "f \<notin> set fs" "\<And>d. d \<in> dummies \<Longrightarrow> d \<noteq> SchedulerQueue \<Longrightarrow> f \<notin> set (ls d)"
    using lists_ofD [OF c(1), of SchedulerQueue] assms(2) by auto
  have mem: "g \<in> set ((ls(SchedulerQueue := fs)) d) \<longleftrightarrow> g \<noteq> f \<and> g \<in> set (ls d)" if "d \<in> dummies" for g d
    using f that assms(2) by auto
  have st: "state_of s f = Some Runnable" using c(3) [of SchedulerQueue f] assms(2) by simp
  have "consistent (ls(SchedulerQueue := fs)) (Some f) (s\<lparr>links := l\<rparr>)"
    unfolding consistent_def using l(2) mem c(3) c(5,6) st by (simp del: fun_upd_apply)
  then show ?thesis using l(1) by blast
qed

lemma work_add:
  assumes "f < fiber_count s'" and "\<And>g. g \<noteq> f \<Longrightarrow> credit ls' s' g \<le> credit ls s g"
    and "fiber_count s' = fiber_count s \<and> r = Some f \<or> fiber_count s' = Suc f \<and> fiber_count s = f \<and> r \<noteq> Some f \<and> r' = r"
    and "r' = None \<or> r' = r" "r' \<noteq> Some f"
  shows "work ls' r' s' \<le> work ls r s + credit ls' s' f"
proof -
  have set: "{g. g < fiber_count s' \<and> Some g \<noteq> r'} = insert f {g. g < fiber_count s \<and> Some g \<noteq> r}"
    using assms(1,3-5) by auto
  have "f \<notin> {g. g < fiber_count s \<and> Some g \<noteq> r}" using assms(3) by auto
  then have "work ls' r' s' = credit ls' s' f + (\<Sum>g | g < fiber_count s \<and> Some g \<noteq> r. credit ls' s' g)"
    unfolding work_def set by (rule sum.insert [rotated]) simp
  moreover have "(\<Sum>g | g < fiber_count s \<and> Some g \<noteq> r. credit ls' s' g) \<le> work ls r s"
    unfolding work_def by (rule sum_mono) (use assms(2,3) in auto)
  ultimately show ?thesis by simp
qed

text \<open>A call never adds to the work that is left, and what the calls do to the lists.\<close>

fun lists_after :: "action \<Rightarrow> scheduler \<Rightarrow> (ptr \<Rightarrow> nat list) \<Rightarrow> ptr \<Rightarrow> nat list" where
  "lists_after (Spawn routine) s ls = ls(SchedulerQueue := ls SchedulerQueue @ [fiber_count s])"
| "lists_after (Unlock m) s ls = notified (MutexQueue m) ls"
| "lists_after (NotifyOne c) s ls = notified (ConditionQueue c) ls"
| "lists_after (NotifyAll c) s ls = ls(ConditionQueue c := [], SchedulerQueue := ls SchedulerQueue @ ls (ConditionQueue c))"
| "lists_after _ s ls = ls"

fun list_to_wait :: "action \<Rightarrow> ptr" where
  "list_to_wait (Lock m) = MutexQueue m"
| "list_to_wait (Wait c) = ConditionQueue c"
| "list_to_wait _ = SchedulerQueue"

lemma act_Continue:
  assumes "consistent ls (Some f) s" and "act f a rest s = Some (Continue s')"
  shows "consistent (lists_after a s ls) (Some f) s' \<and> work (lists_after a s ls) (Some f) s' + weights rest \<le> work ls (Some f) s + weights (a # rest)"
proof -
  have same: "consistent ls (Some f) s'" "work ls (Some f) s' = work ls (Some f) s"
    if "links s' = links s" "state_of s' = state_of s" "fiber_count s' = fiber_count s" "context_of s' = context_of s" for s'
  proof -
    have "credit ls s' = credit ls s" using that by (simp add: credit_def fun_eq_iff split: option.split)
    then show "consistent ls (Some f) s'" "work ls (Some f) s' = work ls (Some f) s"
      using assms(1) that by (simp_all add: consistent_def work_def)
  qed
  show ?thesis
  proof (cases a)
    case (Print line)
    then show ?thesis using assms(2) same [of s'] by auto
  next
    case (Spawn routine)
    let ?n = "fiber_count s" let ?ls = "ls(SchedulerQueue := ls SchedulerQueue @ [?n])"
    have s': "s' = SpawnFiber routine s" using Spawn assms(2) by simp
    have "work ?ls (Some f) s' \<le> work ls (Some f) s + credit ?ls s' ?n"
      unfolding s' by (rule work_add) (use consistentD(5,7) [OF assms(1), of f] in
          \<open>auto simp: SpawnFiber_def Schedule_links Let_def credit_def split: option.split\<close>)
    moreover have "credit ?ls s' ?n \<le> weights routine + 1"
      by (simp add: s' credit_def SpawnFiber_def Schedule_links Let_def)
    ultimately show ?thesis using Spawn SpawnFiber_consistent [OF assms(1)] s' by simp
  next
    case (Lock m)
    then show ?thesis using assms(2) same [of s'] by (auto split: if_splits)
  next
    case (Unlock m)
    let ?s = "s\<lparr>locked := (locked s)(m := False)\<rparr>"
    have c: "consistent ls (Some f) ?s" using same(1) by simp
    obtain l st where n: "snd (NotifyOneIn (MutexQueue m) ?s) = ?s\<lparr>state_of := st, links := l\<rparr>"
      "consistent (notified (MutexQueue m) ls) (Some f) (?s\<lparr>state_of := st, links := l\<rparr>)" "\<And>g. st g = None \<longleftrightarrow> state_of ?s g = None"
      using NotifyOneIn_cases [OF c, of "MutexQueue m"] by auto
    have "work (notified (MutexQueue m) ls) (Some f) (?s\<lparr>state_of := st, links := l\<rparr>) \<le> work ls (Some f) ?s + 1"
      by (rule work_notified [OF c]) (use n(3) in simp_all)
    then show ?thesis using Unlock n(1,2) assms(2) same(2) [of ?s] by auto
  next
    case (NotifyOne c)
    obtain l st where n: "snd (NotifyOneIn (ConditionQueue c) s) = s\<lparr>state_of := st, links := l\<rparr>"
      "consistent (notified (ConditionQueue c) ls) (Some f) (s\<lparr>state_of := st, links := l\<rparr>)" "\<And>g. st g = None \<longleftrightarrow> state_of s g = None"
      using NotifyOneIn_cases [OF assms(1), of "ConditionQueue c"] by auto
    have "work (notified (ConditionQueue c) ls) (Some f) (s\<lparr>state_of := st, links := l\<rparr>) \<le> work ls (Some f) s + 1"
      by (rule work_notified [OF assms(1)]) (use n(3) in simp_all)
    then show ?thesis using NotifyOne n(1,2) assms(2) by auto
  next
    case (NotifyAll c)
    obtain l st where n: "NotifyAllIn (ConditionQueue c) s = Some (s\<lparr>state_of := st, links := l\<rparr>)"
      "consistent (lists_after a s ls) (Some f) (s\<lparr>state_of := st, links := l\<rparr>)" "\<forall>g. st g = None \<longleftrightarrow> state_of s g = None"
      using NotifyAllIn_effect [OF assms(1), of "ConditionQueue c"] NotifyAll by auto
    have "work (lists_after a s ls) (Some f) (s\<lparr>state_of := st, links := l\<rparr>) \<le> work ls (Some f) s"
      unfolding NotifyAll lists_after.simps by (rule work_notified_all [OF assms(1)]) (use n(3) in simp_all)
    then show ?thesis using NotifyAll n(1,2) assms(2) by auto
  qed (use assms(2) in auto)
qed

lemma act_Switched:
  assumes "consistent ls (Some f) s" and "act f a rest s = Some (Switched s')"
  shows "consistent (ls(list_to_wait a := ls (list_to_wait a) @ [f])) None (AfterSwitch f s')
    \<and> work (ls(list_to_wait a := ls (list_to_wait a) @ [f])) None (AfterSwitch f s') \<le> work ls (Some f) s + weights (a # rest)"
proof -
  have f: "state_of s f = Some Runnable" "f < fiber_count s" using consistentD(5,7) [OF assms(1), of f] by auto
  have wait: "consistent (ls(q := ls q @ [f])) None (AfterSwitch f (WaitIn q f rest' s))
      \<and> work (ls(q := ls q @ [f])) None (AfterSwitch f (WaitIn q f rest' s))
        \<le> work ls (Some f) s + (weights rest' + (if \<exists>m. q = MutexQueue m then 0 else 1))"
    if q: "q \<in> dummies" "q \<noteq> SchedulerQueue" for q rest'
  proof -
    let ?s = "AfterSwitch f (WaitIn q f rest' s)"
    have s: "?s = s\<lparr>state_of := (state_of s)(f \<mapsto> Suspended), links := PushBack q (FiberPtr f) (links s), context_of := (context_of s)(f := rest')\<rparr>"
      by (simp add: AfterSwitch_def WaitIn_def Suspend_def SetState_def SwitchTo_main_def Let_def)
    have "work (ls(q := ls q @ [f])) None ?s \<le> work ls (Some f) s + credit (ls(q := ls q @ [f])) ?s f"
      by (rule work_add) (use f in \<open>auto simp: s credit_def split: option.split\<close>)
    moreover have "credit (ls(q := ls q @ [f])) ?s f \<le> weights rest' + (if \<exists>m. q = MutexQueue m then 0 else 1)"
      by (auto simp: s credit_def)
    ultimately show ?thesis using WaitIn_consistent [OF assms(1) q] by simp
  qed
  show ?thesis
  proof (cases a)
    case Yield
    let ?s = "AfterSwitch f (SwitchTo_main f rest s)" and ?ls = "ls(SchedulerQueue := ls SchedulerQueue @ [f])"
    have s: "?s = s\<lparr>state_of := (state_of s)(f \<mapsto> Runnable), links := PushBack SchedulerQueue (FiberPtr f) (links s), context_of := (context_of s)(f := rest)\<rparr>"
      using f by (simp add: AfterSwitch_def SwitchTo_main_def Schedule_links)
    have "work ?ls None ?s \<le> work ls (Some f) s + credit ?ls ?s f"
      by (rule work_add) (use f in \<open>auto simp: s credit_def split: option.split\<close>)
    moreover have "credit ?ls ?s f \<le> weights rest + 1" by (simp add: s credit_def)
    ultimately show ?thesis using Yield assms(2) SwitchTo_main_consistent [OF assms(1)] by auto
  next
    case (Lock m)
    then show ?thesis using assms(2) wait [of "MutexQueue m" "Lock m # rest"] by (auto split: if_splits)
  next
    case (Wait c)
    then show ?thesis using assms(2) wait [of "ConditionQueue c" rest] by auto
  qed (use assms(2) in auto)
qed

lemma act_total: "consistent ls (Some f) s \<Longrightarrow> act f a rest s \<noteq> None"
  using NotifyAllIn_effect [of ls "Some f" s "ConditionQueue _"] by (cases a) force+

lemma work_Terminate:
  assumes "consistent ls (Some f) s"
  shows "work ls None (AfterSwitch f (Terminate f s)) \<le> work ls (Some f) s"
proof -
  have f: "f < fiber_count s" using consistentD(5,7) [OF assms, of f] by auto
  have "work ls None (AfterSwitch f (Terminate f s)) \<le> work ls (Some f) s + credit ls (AfterSwitch f (Terminate f s)) f"
    by (rule work_add) (use f in \<open>auto simp: Terminate_links credit_def split: option.split\<close>)
  then show ?thesis by (simp add: Terminate_links credit_def)
qed

lemma Resume_consistent:
  assumes "consistent ls (Some f) s"
  shows "\<exists>s' ls'. Resume f rest s = Some s' \<and> consistent ls' None (AfterSwitch f s')
    \<and> work ls' None (AfterSwitch f s') \<le> work ls (Some f) s + weights rest"
  using assms
proof (induction rest arbitrary: s ls)
  case Nil
  then show ?case using Terminate_consistent work_Terminate by (auto intro!: exI [of _ ls])
next
  case (Cons a rest)
  obtain out where out: "act f a rest s = Some out" using act_total [OF Cons.prems] by fastforce
  show ?case
  proof (cases out)
    case (Continue s1)
    then have c: "consistent (lists_after a s ls) (Some f) s1"
      "work (lists_after a s ls) (Some f) s1 + weights rest \<le> work ls (Some f) s + weights (a # rest)"
      using act_Continue [OF Cons.prems] out by auto
    then show ?thesis using Cons.IH [OF c(1)] out Continue by fastforce
  next
    case (Switched s1)
    then show ?thesis using act_Switched [OF Cons.prems] out by auto
  qed
qed

lemma turn_work:
  assumes "consistent ls None s" and "ls SchedulerQueue = f # fs"
  shows "work ls None s = work (ls(SchedulerQueue := fs)) (Some f) (s\<lparr>links := l\<rparr>) + weights (context_of s f) + 1"
proof -
  note c = consistentD [OF assms(1)]
  let ?ls = "ls(SchedulerQueue := fs)"
  have f: "f \<in> set (ls SchedulerQueue)" using assms(2) by simp
  have "f \<notin> set (ls (MutexQueue m))" for m using lists_ofD(2) [OF c(1), of SchedulerQueue "MutexQueue m"] f by auto
  then have "credit ls s f = weights (context_of s f) + 1" using c(3) [OF _ f] by (simp add: credit_def)
  moreover have "credit ?ls (s\<lparr>links := l\<rparr>) = credit ls s"
    by (simp add: credit_def fun_eq_iff split: option.split)
  then have "work ?ls (Some f) (s\<lparr>links := l\<rparr>) = work ls (Some f) s" by (simp add: work_def)
  ultimately show ?thesis using work_start [OF c(4) [OF _ f], of ls] by simp
qed

lemma RunLoop_returns:
  assumes "consistent ls None s"
  shows "\<exists>s' ls'. RunLoop s = Some s' \<and> consistent ls' None s' \<and> ls' SchedulerQueue = []"
  using assms
proof (induction "work ls None s" arbitrary: ls s rule: less_induct)
  case less
  note c = consistentD [OF less.prems]
  show ?case
  proof (cases "ls SchedulerQueue")
    case Nil
    then show ?thesis using less.prems lists_of_Empty [OF c(1)] by (subst RunLoop.simps) auto
  next
    case (Cons f fs)
    let ?ls = "ls(SchedulerQueue := fs)"
    obtain l where l: "PopFront SchedulerQueue (links s) = (FiberPtr f, l)" "consistent ?ls (Some f) (s\<lparr>links := l\<rparr>)"
      using pop_consistent [OF less.prems Cons] by blast
    obtain s' ls' where r: "Resume f (context_of s f) (s\<lparr>links := l\<rparr>) = Some s'" "consistent ls' None (AfterSwitch f s')"
      "work ls' None (AfterSwitch f s') \<le> work ?ls (Some f) (s\<lparr>links := l\<rparr>) + weights (context_of s f)"
      using Resume_consistent [OF l(2), of "context_of s f"] by blast
    then have "work ls' None (AfterSwitch f s') < work ls None s" using turn_work [OF less.prems Cons, of l] by simp
    then show ?thesis using less.hyps [OF _ r(2)] l(1) r(1) Cons lists_of_Empty [OF c(1)]
      by (subst RunLoop.simps) simp
  qed
qed

section \<open>Fibers that lock in order\<close>

text \<open>A routine that takes mutexes in ascending order, gives back only what it holds and everything it
  holds, and waits for mutexes only.\<close>

function (sequential) orderly :: "nat list \<Rightarrow> action list \<Rightarrow> bool" where
  "orderly held [] \<longleftrightarrow> held = []"
| "orderly held (Spawn routine # rest) \<longleftrightarrow> orderly [] routine \<and> orderly held rest"
| "orderly held (Lock m # rest) \<longleftrightarrow> (\<forall>h \<in> set held. h < m) \<and> orderly (m # held) rest"
| "orderly held (Unlock m # rest) \<longleftrightarrow> m \<in> set held \<and> orderly (removeAll m held) rest"
| "orderly held (Wait c # rest) \<longleftrightarrow> False"
| "orderly held (a # rest) \<longleftrightarrow> orderly held rest"
  by pat_completeness auto
termination by (relation "measure (\<lambda>(held, rest). weights rest)") auto

text \<open>Which mutexes each fiber holds, what the waiting fibers wait for, and that a fiber waits for a free
  mutex only while another one is about to lock it.\<close>

definition fair :: "(nat \<Rightarrow> nat list) \<Rightarrow> (ptr \<Rightarrow> nat list) \<Rightarrow> scheduler \<Rightarrow> bool" where
  "fair H ls s \<longleftrightarrow>
     (\<forall>f m. state_of s f \<noteq> None \<longrightarrow> m \<in> set (H f) \<longrightarrow> locked s m)
   \<and> (\<forall>m. locked s m \<longrightarrow> (\<exists>f. state_of s f \<noteq> None \<and> m \<in> set (H f)))
   \<and> (\<forall>f g m. state_of s f \<noteq> None \<longrightarrow> state_of s g \<noteq> None \<longrightarrow> m \<in> set (H f) \<longrightarrow> m \<in> set (H g) \<longrightarrow> f = g)
   \<and> (\<forall>m. \<forall>f \<in> set (ls (MutexQueue m)). \<exists>rest. context_of s f = Lock m # rest)
   \<and> (\<forall>c. ls (ConditionQueue c) = [])"

definition next_locker :: "(ptr \<Rightarrow> nat list) \<Rightarrow> scheduler \<Rightarrow> nat \<Rightarrow> bool" where
  "next_locker ls s m \<longleftrightarrow> (\<exists>f \<in> set (ls SchedulerQueue). \<exists>rest. context_of s f = Lock m # rest)"

text \<open>While the fiber \<open>f\<close> runs and has the calls \<open>rest\<close> to make, and when none runs.\<close>

definition fair_running :: "(nat \<Rightarrow> nat list) \<Rightarrow> (ptr \<Rightarrow> nat list) \<Rightarrow> nat \<Rightarrow> action list \<Rightarrow> scheduler \<Rightarrow> bool" where
  "fair_running H ls f rest s \<longleftrightarrow> fair H ls s
     \<and> orderly (H f) rest
     \<and> (\<forall>g. state_of s g \<noteq> None \<longrightarrow> g \<noteq> f \<longrightarrow> orderly (H g) (context_of s g))
     \<and> (\<forall>m. \<not> locked s m \<longrightarrow> ls (MutexQueue m) \<noteq> [] \<longrightarrow> next_locker ls s m \<or> (\<exists>rest'. rest = Lock m # rest'))"

definition fair_idle :: "(nat \<Rightarrow> nat list) \<Rightarrow> (ptr \<Rightarrow> nat list) \<Rightarrow> scheduler \<Rightarrow> bool" where
  "fair_idle H ls s \<longleftrightarrow> fair H ls s
     \<and> (\<forall>g. state_of s g \<noteq> None \<longrightarrow> orderly (H g) (context_of s g))
     \<and> (\<forall>m. \<not> locked s m \<longrightarrow> ls (MutexQueue m) \<noteq> [] \<longrightarrow> next_locker ls s m)"

lemmas fair_defs = fair_def fair_running_def fair_idle_def next_locker_def

lemma fairD:
  assumes "fair H ls s"
  shows "state_of s f \<noteq> None \<Longrightarrow> m \<in> set (H f) \<Longrightarrow> locked s m"
    and "locked s m \<Longrightarrow> \<exists>f. state_of s f \<noteq> None \<and> m \<in> set (H f)"
    and "state_of s f \<noteq> None \<Longrightarrow> state_of s g \<noteq> None \<Longrightarrow> m \<in> set (H f) \<Longrightarrow> m \<in> set (H g) \<Longrightarrow> f = g"
    and "f \<in> set (ls (MutexQueue m)) \<Longrightarrow> \<exists>rest. context_of s f = Lock m # rest"
    and "ls (ConditionQueue c) = []"
  using assms unfolding fair_def by blast+

lemma fair_finished:
  assumes "consistent ls None s" and "fair_idle H ls s" and "ls SchedulerQueue = []"
  shows "(\<forall>d \<in> dummies. ls d = []) \<and> (\<forall>f. state_of s f = None) \<and> (\<forall>m. \<not> locked s m)"
proof -
  note c = consistentD [OF assms(1)]
  have fair: "fair H ls s" "\<And>g. state_of s g \<noteq> None \<Longrightarrow> orderly (H g) (context_of s g)"
    "\<And>m. \<not> locked s m \<Longrightarrow> ls (MutexQueue m) = []"
    using assms(2,3) by (auto simp: fair_idle_def next_locker_def)
  have waits: "\<exists>m'. m < m' \<and> ls (MutexQueue m') \<noteq> []" if m: "locked s m" for m
  proof -
    obtain f where f: "state_of s f \<noteq> None" "m \<in> set (H f)" using fair(1) m unfolding fair_def by blast
    obtain d where d: "d \<in> dummies" "f \<in> set (ls d)" using c(6) [OF f(1)] by blast
    then obtain m' where m': "d = MutexQueue m'" using assms(3) fair(1) by (cases d) (auto simp: fair_def)
    obtain rest where "context_of s f = Lock m' # rest" using d(2) m' fairD(4) [OF fair(1)] by blast
    then have "m < m'" using fair(2) [OF f(1)] f(2) by simp
    then show ?thesis using d(2) m' by auto
  qed
  let ?M = "{m. ls (MutexQueue m) \<noteq> []}"
  have "?M \<subseteq> (\<lambda>f. case context_of s f of Lock m # _ \<Rightarrow> m | _ \<Rightarrow> 0) ` {..<fiber_count s}"
  proof
    fix m assume "m \<in> ?M"
    then obtain f where f: "f \<in> set (ls (MutexQueue m))" using hd_in_set by blast
    then obtain rest where "context_of s f = Lock m # rest" using fairD(4) [OF fair(1)] by blast
    then show "m \<in> (\<lambda>f. case context_of s f of Lock m # _ \<Rightarrow> m | _ \<Rightarrow> 0) ` {..<fiber_count s}"
      using c(4) [OF _ f] by (intro image_eqI [of _ _ f]) auto
  qed
  then have fin: "finite ?M" by (rule finite_subset) simp
  have "?M = {}"
  proof (rule ccontr)
    assume "?M \<noteq> {}"
    then have "Max ?M \<in> ?M" using fin by (intro Max_in)
    then have "locked s (Max ?M)" using fair(3) by blast
    then obtain m' where "Max ?M < m'" "m' \<in> ?M" using waits by blast
    then show False using fin Max_ge leD by blast
  qed
  then have no_mutex: "ls (MutexQueue m) = []" "\<not> locked s m" for m using waits by blast+
  have empty: "ls d = []" if "d \<in> dummies" for d
    using that no_mutex(1) assms(3) fair(1) by (cases d) (auto simp: fair_def)
  then have "state_of s f = None" for f using c(6) [of f] by force
  then show ?thesis using empty no_mutex(2) by blast
qed

lemma fair_links: "fair H ls (s\<lparr>links := l\<rparr>) \<longleftrightarrow> fair H ls s" "next_locker ls (s\<lparr>links := l\<rparr>) m \<longleftrightarrow> next_locker ls s m"
  "fair_running H ls f rest (s\<lparr>links := l\<rparr>) \<longleftrightarrow> fair_running H ls f rest s"
  by (simp_all add: fair_defs)

lemma fair_runningD:
  assumes "fair_running H ls f rest s"
  shows "fair H ls s" and "orderly (H f) rest"
    and "state_of s g \<noteq> None \<Longrightarrow> g \<noteq> f \<Longrightarrow> orderly (H g) (context_of s g)"
    and "\<not> locked s m \<Longrightarrow> ls (MutexQueue m) \<noteq> [] \<Longrightarrow> next_locker ls s m \<or> (\<exists>rest'. rest = Lock m # rest')"
  using assms unfolding fair_running_def by blast+

lemma fair_start:
  assumes "consistent ls None s" and "fair_idle H ls s" and "ls SchedulerQueue = f # fs"
  shows "fair_running H (ls(SchedulerQueue := fs)) f (context_of s f) s"
proof -
  have "state_of s f \<noteq> None" using consistentD(3) [OF assms(1), of SchedulerQueue f] assms(3) by simp
  then show ?thesis using assms(2,3) by (auto simp: fair_defs)
qed

lemma fair_Spawn:
  assumes "consistent ls (Some f) s" and "fair_running H ls f (Spawn routine # rest) s"
  shows "fair_running (H(fiber_count s := [])) (lists_after (Spawn routine) s ls) f rest (SpawnFiber routine s)"
proof -
  note c = consistentD [OF assms(1)] and F = fair_runningD [OF assms(2)]
  note fair = fairD [OF F(1)]
  have new: "state_of s (fiber_count s) = None" using c(5) [of "fiber_count s"] by blast
  then have new': "f \<noteq> fiber_count s" using c(7) [of f] by auto
  have mq: "fiber_count s \<notin> set (ls d)" if "d \<in> dummies" for d using c(4) [OF that] by blast
  have "fair (H(fiber_count s := [])) (lists_after (Spawn routine) s ls) (SpawnFiber routine s)"
    unfolding fair_def
  proof (intro conjI allI ballI impI)
    fix m assume "locked (SpawnFiber routine s) m"
    then have "locked s m" by (simp add: SpawnFiber_def Schedule_links Let_def)
    then obtain g where "state_of s g \<noteq> None" "m \<in> set (H g)" using fair(2) by blast
    then show "\<exists>g. state_of (SpawnFiber routine s) g \<noteq> None \<and> m \<in> set ((H(fiber_count s := [])) g)"
      using new new' by (intro exI [of _ g]) (auto simp: SpawnFiber_def Schedule_links Let_def)
  next
    fix m g assume "g \<in> set (lists_after (Spawn routine) s ls (MutexQueue m))"
    then show "\<exists>rest. context_of (SpawnFiber routine s) g = Lock m # rest"
      using fair(4) mq [of "MutexQueue m"] by (auto simp: SpawnFiber_def Schedule_links Let_def)
  qed (use fair(1,3,5) in \<open>auto simp: SpawnFiber_def Schedule_links Let_def split: if_splits\<close>)
  moreover have "next_locker (lists_after (Spawn routine) s ls) (SpawnFiber routine s) m" if "next_locker ls s m" for m
  proof -
    obtain g rest' where g: "g \<in> set (ls SchedulerQueue)" "context_of s g = Lock m # rest'"
      using \<open>next_locker ls s m\<close> by (auto simp: next_locker_def)
    then have "g \<noteq> fiber_count s" using mq [of SchedulerQueue] by auto
    then show ?thesis using g unfolding next_locker_def
      by (intro bexI [of _ g]) (auto simp: SpawnFiber_def Schedule_links Let_def)
  qed
  ultimately show ?thesis using F(2-4) new' unfolding fair_running_def
    by (auto simp: SpawnFiber_def Schedule_links Let_def)
qed

lemma fair_Lock:
  assumes "consistent ls (Some f) s" and "fair_running H ls f (Lock m # rest) s" and "\<not> locked s m"
  shows "fair_running (H(f := m # H f)) ls f rest (s\<lparr>locked := (locked s)(m := True)\<rparr>)"
proof -
  note F = fair_runningD [OF assms(2)]
  note fair = fairD [OF F(1)]
  have f: "state_of s f \<noteq> None" using consistentD(7) [OF assms(1)] by simp
  have free: "m \<notin> set (H g)" if "state_of s g \<noteq> None" for g using fair(1) that assms(3) by blast
  have "fair (H(f := m # H f)) ls (s\<lparr>locked := (locked s)(m := True)\<rparr>)"
    unfolding fair_def
  proof (intro conjI allI ballI impI)
    fix m' assume "locked (s\<lparr>locked := (locked s)(m := True)\<rparr>) m'"
    then have "m' = m \<or> locked s m'" by (auto split: if_splits)
    then show "\<exists>g. state_of (s\<lparr>locked := (locked s)(m := True)\<rparr>) g \<noteq> None \<and> m' \<in> set ((H(f := m # H f)) g)"
      using f fair(2) [of m'] by fastforce
  qed (use fair(1,3-5) free in \<open>auto split: if_splits\<close>)
  moreover have "next_locker ls s m'" if "\<not> locked s m'" "ls (MutexQueue m') \<noteq> []" "m' \<noteq> m" for m'
    using F(4) [of m'] that by auto
  ultimately show ?thesis using F(2,3) unfolding fair_running_def by (auto simp: next_locker_def)
qed

lemma fair_wait:
  assumes "consistent ls (Some f) s" and "fair_running H ls f (Lock m # rest) s" and "locked s m"
  shows "fair_idle H (ls(MutexQueue m := ls (MutexQueue m) @ [f])) (AfterSwitch f (WaitIn (MutexQueue m) f (Lock m # rest) s))"
proof -
  note F = fair_runningD [OF assms(2)] and out = running_unlisted [OF assms(1)]
  note fair = fairD [OF F(1)]
  have f: "state_of s f \<noteq> None" using consistentD(7) [OF assms(1)] by simp
  let ?s = "AfterSwitch f (WaitIn (MutexQueue m) f (Lock m # rest) s)"
  have s: "state_of ?s = (state_of s)(f \<mapsto> Suspended)" "context_of ?s = (context_of s)(f := Lock m # rest)" "locked ?s = locked s"
    by (simp_all add: AfterSwitch_def WaitIn_def Suspend_def SetState_def SwitchTo_main_def Let_def)
  have "fair H (ls(MutexQueue m := ls (MutexQueue m) @ [f])) ?s"
    unfolding fair_def s
  proof (intro conjI allI ballI impI)
    fix m' assume "locked s m'"
    then show "\<exists>g. ((state_of s)(f \<mapsto> Suspended)) g \<noteq> None \<and> m' \<in> set (H g)" using fair(2) [of m'] by fastforce
  next
    fix m' g assume "g \<in> set ((ls(MutexQueue m := ls (MutexQueue m) @ [f])) (MutexQueue m'))"
    then show "\<exists>rest'. ((context_of s)(f := Lock m # rest)) g = Lock m' # rest'"
      using fair(4) [of g m'] out by (auto split: if_splits)
  qed (use f fair(1,3,5) in \<open>auto split: if_splits\<close>)
  moreover have "next_locker (ls(MutexQueue m := ls (MutexQueue m) @ [f])) ?s m'" if "next_locker ls s m'" for m'
  proof -
    have "f \<notin> set (ls SchedulerQueue)" using out by simp
    then show ?thesis using that unfolding next_locker_def s by (metis fun_upd_other ptr.distinct(1))
  qed
  moreover have "next_locker ls s m'" if "\<not> locked s m'" "ls (MutexQueue m') \<noteq> []" for m'
    using F(4) [of m'] that assms(3) by auto
  ultimately show ?thesis using F(2,3) assms(3) unfolding fair_idle_def s by (auto split: if_splits)
qed

lemma fair_Unlock:
  assumes "consistent ls (Some f) s" and "fair_running H ls f (Unlock m # rest) s"
    and "act f (Unlock m) rest s = Some (Continue s')"
  shows "fair_running (H(f := removeAll m (H f))) (notified (MutexQueue m) ls) f rest s'"
proof -
  note F = fair_runningD [OF assms(2)] and c = consistentD [OF assms(1)]
  note fair = fairD [OF F(1)]
  let ?s = "s\<lparr>locked := (locked s)(m := False)\<rparr>" and ?H = "H(f := removeAll m (H f))" and ?ls = "notified (MutexQueue m) ls"
  have cs: "consistent ls (Some f) ?s" using assms(1) by (simp add: consistent_def)
  obtain l st where n: "s' = ?s\<lparr>state_of := st, links := l\<rparr>" "\<And>g. st g = None \<longleftrightarrow> state_of s g = None"
  proof (rule NotifyOneIn_cases [OF cs, of "MutexQueue m"])
    fix l st assume "snd (NotifyOneIn (MutexQueue m) ?s) = ?s\<lparr>state_of := st, links := l\<rparr>" "\<And>g. st g = None \<longleftrightarrow> state_of ?s g = None"
    then show thesis using assms(3) by (intro that [of l st]) auto
  qed simp_all
  have f: "state_of s f \<noteq> None" "m \<in> set (H f)" using c(7) F(2) by auto
  have only: "m \<notin> set (H g)" if "state_of s g \<noteq> None" "g \<noteq> f" for g using fair(3) that f by blast
  have mq: "set (?ls (MutexQueue m')) \<subseteq> set (ls (MutexQueue m'))" for m'
    by (cases "ls (MutexQueue m)") (auto simp: notified_def)
  have sq: "set (ls SchedulerQueue) \<subseteq> set (?ls SchedulerQueue)"
    by (cases "ls (MutexQueue m)") (auto simp: notified_def)
  have "fair ?H ?ls s'"
    unfolding fair_def
  proof (intro conjI allI ballI impI)
    fix m' assume l: "locked s' m'"
    then have "m' \<noteq> m" "locked s m'" by (auto simp: n(1) split: if_splits)
    then obtain g where g: "state_of s g \<noteq> None" "m' \<in> set (H g)" using fair(2) by blast
    then show "\<exists>g. state_of s' g \<noteq> None \<and> m' \<in> set (?H g)"
      using n \<open>m' \<noteq> m\<close> by (intro exI [of _ g]) auto
  next
    fix g m' assume "state_of s' g \<noteq> None" "m' \<in> set (?H g)"
    then have "state_of s g \<noteq> None" "m' \<in> set (H g)" "g = f \<longrightarrow> m' \<noteq> m" using n by (auto split: if_splits)
    then show "locked s' m'" using fair(1) [of g m'] only [of g] n(1) by auto
  next
    fix g g' m' assume "state_of s' g \<noteq> None" "state_of s' g' \<noteq> None" "m' \<in> set (?H g)" "m' \<in> set (?H g')"
    then show "g = g'" using fair(3) [of g g' m'] n by (auto split: if_splits)
  next
    fix m' g assume "g \<in> set (?ls (MutexQueue m'))"
    then have "g \<in> set (ls (MutexQueue m'))" using mq by blast
    then show "\<exists>rest. context_of s' g = Lock m' # rest" using fair(4) n(1) by simp
  next
    fix c show "?ls (ConditionQueue c) = []"
      using fair(5) by (cases "ls (MutexQueue m)") (auto simp: notified_def)
  qed
  moreover have "next_locker ?ls s' m'" if m': "\<not> locked s' m'" "?ls (MutexQueue m') \<noteq> []" for m'
  proof (cases "m' = m")
    case True
    then obtain g gs where g: "ls (MutexQueue m) = g # gs" using m'(2) by (cases "ls (MutexQueue m)") (auto simp: notified_def)
    then obtain rest' where "context_of s g = Lock m # rest'" using fair(4) by force
    then show ?thesis using g n(1) True by (auto simp: next_locker_def notified_def)
  next
    case False
    have "ls (MutexQueue m') \<noteq> []" using m'(2) mq by (metis list.set(1) subset_empty set_empty)
    moreover have "\<not> locked s m'" using m'(1) False by (simp add: n(1))
    ultimately have "next_locker ls s m'" using F(4) by blast
    then show ?thesis using sq by (auto simp: next_locker_def n(1))
  qed
  ultimately show ?thesis using F(2,3) n unfolding fair_running_def by simp
qed

lemma fair_Yield:
  assumes "consistent ls (Some f) s" and "fair_running H ls f (Yield # rest) s"
  shows "fair_idle H (ls(SchedulerQueue := ls SchedulerQueue @ [f])) (AfterSwitch f (SwitchTo_main f rest s))"
proof -
  note F = fair_runningD [OF assms(2)] and out = running_unlisted [OF assms(1)]
  note fair = fairD [OF F(1)]
  have f: "state_of s f = Some Runnable" using consistentD(7) [OF assms(1)] by simp
  let ?s = "AfterSwitch f (SwitchTo_main f rest s)" and ?ls = "ls(SchedulerQueue := ls SchedulerQueue @ [f])"
  have s: "state_of ?s = state_of s" "context_of ?s = (context_of s)(f := rest)" "locked ?s = locked s"
    using f by (auto simp: AfterSwitch_def SwitchTo_main_def Schedule_links)
  have "fair H ?ls ?s"
    unfolding fair_def s
  proof (intro conjI allI ballI impI)
    fix m assume "locked s m"
    then show "\<exists>g. state_of s g \<noteq> None \<and> m \<in> set (H g)" by (rule fair(2))
  next
    fix m g assume "g \<in> set (?ls (MutexQueue m))"
    then have "g \<in> set (ls (MutexQueue m))" "g \<noteq> f" using out by (auto simp del: fun_upd_apply simp: fun_upd_other)
    then show "\<exists>rest'. ((context_of s)(f := rest)) g = Lock m # rest'" using fair(4) by simp
  qed (use fair(1,3,5) in auto)
  moreover have "next_locker ?ls ?s m" if m: "next_locker ls s m" for m
  proof -
    have "f \<notin> set (ls SchedulerQueue)" using out by simp
    then show ?thesis using m by (force simp: next_locker_def s)
  qed
  moreover have "next_locker ls s m" if "\<not> locked s m" "ls (MutexQueue m) \<noteq> []" for m
    using F(4) [of m] that by auto
  ultimately show ?thesis using F(2,3) unfolding fair_idle_def s by (auto split: if_splits)
qed

lemma fair_Terminate:
  assumes "consistent ls (Some f) s" and "fair_running H ls f [] s"
  shows "fair_idle H ls (AfterSwitch f (Terminate f s))"
proof -
  note F = fair_runningD [OF assms(2)] and out = running_unlisted [OF assms(1)]
  note fair = fairD [OF F(1)]
  have f: "H f = []" using F(2) by simp
  let ?s = "AfterSwitch f (Terminate f s)"
  have "fair H ls ?s"
    unfolding fair_def Terminate_links
  proof (intro conjI allI ballI impI, goal_cases)
    case (2 m)
    then have "locked s m" by simp
    then obtain g where "state_of s g \<noteq> None" "m \<in> set (H g)" using fair(2) by blast
    then show ?case using f by (intro exI [of _ g]) auto
  next
    case (4 m g)
    then have "g \<noteq> f" using out by auto
    then show ?case using fair(4) [OF 4] by simp
  qed (use fair(1,3,5) in \<open>auto split: if_splits\<close>)
  moreover have "next_locker ls ?s m" if m: "next_locker ls s m" for m
  proof -
    have "f \<notin> set (ls SchedulerQueue)" using out by simp
    then show ?thesis using m by (force simp: next_locker_def Terminate_links)
  qed
  moreover have "next_locker ls s m" if "\<not> locked s m" "ls (MutexQueue m) \<noteq> []" for m
    using F(4) [of m] that by auto
  ultimately show ?thesis using F(3) unfolding fair_idle_def by (auto simp: Terminate_links split: if_splits)
qed

lemma Resume_fair:
  assumes "consistent ls (Some f) s" and "fair_running H ls f rest s"
  shows "\<exists>s' ls' H'. Resume f rest s = Some s' \<and> consistent ls' None (AfterSwitch f s') \<and> fair_idle H' ls' (AfterSwitch f s')
    \<and> work ls' None (AfterSwitch f s') \<le> work ls (Some f) s + weights rest"
  using assms
proof (induction rest arbitrary: s ls H)
  case Nil
  have "Resume f [] s = Some (Terminate f s)" by simp
  then show ?case using Terminate_consistent [OF Nil(1)] work_Terminate [OF Nil(1)] fair_Terminate [OF Nil] by fastforce
next
  case (Cons a rest)
  note F = fair_runningD [OF Cons.prems(2)]
  obtain out where out: "act f a rest s = Some out" using act_total [OF Cons.prems(1)] by fastforce
  show ?case
  proof (cases out)
    case (Continue s1)
    have "\<exists>H'. fair_running H' (lists_after a s ls) f rest s1"
    proof (cases a)
      case (Spawn routine)
      then show ?thesis using fair_Spawn [OF Cons.prems(1)] Cons.prems(2) out Continue by auto
    next
      case (Lock m)
      then show ?thesis using fair_Lock [OF Cons.prems(1)] Cons.prems(2) out Continue by (auto split: if_splits)
    next
      case (Unlock m)
      then show ?thesis using fair_Unlock [OF Cons.prems(1), of H m rest s1] Cons.prems(2) out Continue
        unfolding Unlock lists_after.simps by blast
    next
      case (NotifyOne c)
      have "ls (ConditionQueue c) = []" using fairD(5) [OF F(1)] .
      then have "s1 = s" "lists_after a s ls = ls"
        using NotifyOne out Continue NotifyOneIn_effect(1) [OF Cons.prems(1), of "ConditionQueue c"] by (simp_all add: notified_Nil)
      then show ?thesis using Cons.prems(2) NotifyOne unfolding fair_running_def by auto
    next
      case (NotifyAll c)
      have nil: "ls (ConditionQueue c) = []" using fairD(5) [OF F(1)] .
      then have "NotifyAllIn (ConditionQueue c) s = Some s"
        using NotifyOneIn_effect(1) [OF Cons.prems(1), of "ConditionQueue c"] by (subst NotifyAllIn.simps) simp
      moreover have "lists_after a s ls = ls" using NotifyAll nil by auto
      ultimately show ?thesis using Cons.prems(2) NotifyAll out Continue unfolding fair_running_def by auto
    next
      case (Print line)
      then have "s1 = s\<lparr>printed := printed s @ [line]\<rparr>" using out Continue by simp
      then have "fair_running H (lists_after a s ls) f rest s1"
        using Cons.prems(2) Print by (simp add: fair_defs)
      then show ?thesis by blast
    qed (use out Continue in auto)
    then show ?thesis using Cons.IH [of "lists_after a s ls" s1] act_Continue [OF Cons.prems(1)] out Continue by fastforce
  next
    case (Switched s1)
    have "fair_idle H (ls(list_to_wait a := ls (list_to_wait a) @ [f])) (AfterSwitch f s1)"
    proof (cases a)
      case Yield
      then show ?thesis using fair_Yield [OF Cons.prems(1)] Cons.prems(2) out Switched by auto
    next
      case (Lock m)
      then show ?thesis using fair_wait [OF Cons.prems(1)] Cons.prems(2) out Switched by (auto split: if_splits)
    qed (use F(2) out Switched in auto)
    then show ?thesis using act_Switched [OF Cons.prems(1)] out Switched by fastforce
  qed
qed

lemma RunLoop_fair:
  assumes "consistent ls None s" and "fair_idle H ls s"
  shows "\<exists>s' ls' H'. RunLoop s = Some s' \<and> consistent ls' None s' \<and> fair_idle H' ls' s' \<and> ls' SchedulerQueue = []"
  using assms
proof (induction "work ls None s" arbitrary: ls s H rule: less_induct)
  case less
  note c = consistentD [OF less.prems(1)]
  show ?case
  proof (cases "ls SchedulerQueue")
    case Nil
    then show ?thesis using less.prems lists_of_Empty [OF c(1)] by (subst RunLoop.simps) auto
  next
    case (Cons f fs)
    let ?ls = "ls(SchedulerQueue := fs)"
    obtain l where l: "PopFront SchedulerQueue (links s) = (FiberPtr f, l)" "consistent ?ls (Some f) (s\<lparr>links := l\<rparr>)"
      using pop_consistent [OF less.prems(1) Cons] by blast
    have "fair_running H ?ls f (context_of s f) (s\<lparr>links := l\<rparr>)"
      using fair_start [OF less.prems Cons] by (simp add: fair_links)
    then obtain s' ls' H' where r: "Resume f (context_of s f) (s\<lparr>links := l\<rparr>) = Some s'" "consistent ls' None (AfterSwitch f s')"
      "fair_idle H' ls' (AfterSwitch f s')" "work ls' None (AfterSwitch f s') \<le> work ?ls (Some f) (s\<lparr>links := l\<rparr>) + weights (context_of s f)"
      using Resume_fair [OF l(2)] by blast
    then have "work ls' None (AfterSwitch f s') < work ls None s" using turn_work [OF less.prems(1) Cons, of l] by simp
    then show ?thesis using less.hyps [OF _ r(2,3)] l(1) r(1) Cons lists_of_Empty [OF c(1)]
      by (subst RunLoop.simps) simp
  qed
qed

section \<open>Properties\<close>

text \<open>C16. \<open>Run\<close> returns when every routine makes finitely many calls, one after the other, whatever its
  fibers spawn, lock, wait for and notify; then no fiber is runnable, and the fibers that were not deleted
  are suspended. In the model a routine is the list of its calls, so this says nothing of a routine with
  an endless loop, such as one that yields for ever: with it \<open>Run\<close> of the code does not return.\<close>

theorem Run_returns:
  "\<exists>s. Run routine scheduler_new = Some s \<and> Empty SchedulerQueue (links s)
    \<and> (\<forall>f. state_of s f = None \<or> state_of s f = Some Suspended)"
proof -
  obtain s ls where r: "Run routine scheduler_new = Some s" "consistent ls None s" "ls SchedulerQueue = []"
    using RunLoop_returns [OF SpawnFiber_consistent [OF consistent_new]] unfolding Run_def by blast
  have "state_of s f = Some Suspended" if live: "state_of s f \<noteq> None" for f
  proof -
    obtain d where d: "d \<in> dummies" "f \<in> set (ls d)" using consistentD(6) [OF r(2) live] by auto
    then have "d \<noteq> SchedulerQueue" using r(3) by auto
    then show ?thesis using consistentD(3) [OF r(2) d] by simp
  qed
  then have "\<forall>f. state_of s f = None \<or> state_of s f = Some Suspended" by blast
  then show ?thesis using r(1,3) lists_of_Empty [OF consistentD(1) [OF r(2)], of SchedulerQueue] by simp
qed

text \<open>C15. Fibers that take mutexes in ascending order and give them back never deadlock and lose no wake-up:
  \<open>Run\<close> returns with every fiber finished and deleted, every mutex free and every list empty.\<close>

theorem Run_finishes:
  assumes "orderly [] routine"
  shows "\<exists>s. Run routine scheduler_new = Some s \<and> (\<forall>f. state_of s f = None) \<and> (\<forall>m. \<not> locked s m)
    \<and> (\<forall>d. (\<forall>f. d \<noteq> FiberPtr f) \<longrightarrow> Empty d (links s))"
proof -
  let ?s = "SpawnFiber routine scheduler_new" and ?ls = "(\<lambda>d. [])(SchedulerQueue := [0])"
  have c: "consistent ?ls None ?s"
    using SpawnFiber_consistent [OF consistent_new, of routine] by (simp add: scheduler_new_def)
  have "fair_idle (\<lambda>f. []) ?ls ?s"
    using assms by (auto simp: fair_defs SpawnFiber_def scheduler_new_def Schedule_links Let_def)
  then obtain s ls H where r: "Run routine scheduler_new = Some s" "consistent ls None s" "fair_idle H ls s" "ls SchedulerQueue = []"
    using RunLoop_fair [OF c] unfolding Run_def by blast
  note F = fair_finished [OF r(2-4)]
  have "Empty d (links s)" if "\<forall>f. d \<noteq> FiberPtr f" for d
  proof -
    have "d \<in> dummies" using that by (auto simp: dummies_def)
    then show ?thesis using F lists_of_Empty [OF consistentD(1) [OF r(2)]] by blast
  qed
  then show ?thesis using r(1) F by blast
qed

lemma orderly_Print_Yield: "orderly held (concat (replicate n [Print line, Yield]) @ rest) \<longleftrightarrow> orderly held rest"
  by (induction n) simp_all

lemma orderly_player: "orderly [] (player rounds lines line)"
  by (induction rounds) (simp_all add: player_def orderly_Print_Yield)

theorem Run_finishes_witness:
  "\<exists>s. Run (main_routine 5 5) scheduler_new = Some s \<and> (\<forall>f. state_of s f = None) \<and> \<not> locked s 0
    \<and> Empty (MutexQueue 0) (links s)"
proof -
  have "orderly [] (main_routine 5 5)" by (simp add: main_routine_def orderly_player)
  from Run_finishes [OF this] show ?thesis by auto
qed

end
