(* ===== verification/Bank.thy ===== *)
theory Bank
  imports Prelude
begin

text \<open>
  The three banks of \<open>seminars/2023/09-hello-threading\<close>: accounts with a mutex each, and threads that
  deposit, read a balance and exchange money. \<open>06-bank-lock\<close> takes both mutexes of an exchange with a
  \<open>std::scoped_lock\<close>, \<open>06-bank-mutex\<close> one after the other, \<open>06-bank-racy\<close> has no mutexes. A step
  locks or unlocks one mutex, or is one call on an account; a \<open>scoped_lock\<close> takes its mutexes in one step,
  when all are free, since it keeps none while it waits. What C++ leaves undefined (an overflow, a client
  that does not exist, one mutex locked twice) leaves the thread in the phase \<open>Undefined\<close>.
\<close>

section \<open>Accounts\<close>

datatype bank_error = NotEnoughMoney | Overflow

definition fits_int :: "int \<Rightarrow> bool" where
  "fits_int x \<longleftrightarrow> - 2147483648 \<le> x \<and> x \<le> 2147483647"

definition Deposit :: "int \<Rightarrow> int \<Rightarrow> bank_error + int" where
  "Deposit amount balance = (if fits_int (balance + amount) then Inr (balance + amount) else Inl Overflow)"

definition Withdraw :: "int \<Rightarrow> int \<Rightarrow> bank_error + int" where
  "Withdraw amount balance =
     (if balance < amount then Inl NotEnoughMoney
      else if fits_int (balance - amount) then Inr (balance - amount) else Inl Overflow)"

section \<open>Calls of the bank\<close>

datatype bank_call = CallDeposit nat int | CallBalance nat | CallExchange nat nat int

datatype outcome = Done | IsBalance int | ThrewNotEnoughMoney

text \<open>Where a thread is in its call: before a mutex, before a call on an account (it holds the mutexes of
  the call), or leaving with mutexes to unlock.\<close>

datatype phase =
  Idle
| WantDeposit nat int | Depositing nat int
| WantBalance nat | ReadingBalance nat
| WantFirst nat nat int | WantSecond nat nat int | WantBoth nat nat int
| Withdrawing nat nat int | Crediting nat nat int
| Releasing "nat list"
| Undefined

record bank =
  accounts :: "int list"
  owner :: "nat \<Rightarrow> nat option"
  phase_of :: "nat \<Rightarrow> phase"

definition Bank_new :: "nat \<Rightarrow> bank" where
  "Bank_new num_clients = \<lparr>accounts = replicate num_clients 0, owner = (\<lambda>c. None), phase_of = (\<lambda>t. Idle)\<rparr>"

definition NumClients :: "bank \<Rightarrow> nat" where
  "NumClients s = length (accounts s)"

definition goto :: "nat \<Rightarrow> phase \<Rightarrow> bank \<Rightarrow> bank" where
  "goto t p s = s\<lparr>phase_of := (phase_of s)(t := p)\<rparr>"

text \<open>An event is a call that takes effect, with its outcome.\<close>

type_synonym event = "nat \<times> bank_call \<times> outcome"

fun entry_lock :: "bank \<Rightarrow> bank_call \<Rightarrow> phase" where
  "entry_lock s (CallDeposit c amount) = (if c < NumClients s then WantDeposit c amount else Undefined)"
| "entry_lock s (CallBalance c) = (if c < NumClients s then WantBalance c else Undefined)"
| "entry_lock s (CallExchange from to amount) =
     (if from < NumClients s \<and> to < NumClients s \<and> from \<noteq> to then WantBoth from to amount else Undefined)"

fun entry_mutex :: "bank \<Rightarrow> bank_call \<Rightarrow> phase" where
  "entry_mutex s (CallExchange from to amount) =
     (if from < NumClients s \<and> to < NumClients s \<and> from \<noteq> to then WantFirst from to amount else Undefined)"
| "entry_mutex s call = entry_lock s call"

definition acquire :: "nat \<Rightarrow> nat \<Rightarrow> phase \<Rightarrow> bank \<Rightarrow> (event list \<times> bank) option" where
  "acquire t c p s =
     (if owner s c = None then Some ([], goto t p (s\<lparr>owner := (owner s)(c \<mapsto> t)\<rparr>)) else None)"

text \<open>The next step of the thread \<open>t\<close>, unless it is idle or blocked. An exception of \<open>Withdraw\<close> leaves
  \<open>Exchange\<close> before the deposit; the guards unlock in the reverse order.\<close>

fun move :: "nat \<Rightarrow> bank \<Rightarrow> (event list \<times> bank) option" where
  "move t s =
     (case phase_of s t of
        Idle \<Rightarrow> None
      | Undefined \<Rightarrow> None
      | WantDeposit c amount \<Rightarrow> acquire t c (Depositing c amount) s
      | Depositing c amount \<Rightarrow>
          (case Deposit amount (accounts s ! c) of
             Inr b \<Rightarrow> Some ([(t, CallDeposit c amount, Done)], goto t (Releasing [c]) (s\<lparr>accounts := (accounts s)[c := b]\<rparr>))
           | Inl _ \<Rightarrow> Some ([], goto t Undefined s))
      | WantBalance c \<Rightarrow> acquire t c (ReadingBalance c) s
      | ReadingBalance c \<Rightarrow> Some ([(t, CallBalance c, IsBalance (accounts s ! c))], goto t (Releasing [c]) s)
      | WantFirst from to amount \<Rightarrow> acquire t from (WantSecond from to amount) s
      | WantSecond from to amount \<Rightarrow> acquire t to (Withdrawing from to amount) s
      | WantBoth from to amount \<Rightarrow>
          if owner s from = None \<and> owner s to = None
          then Some ([], goto t (Withdrawing from to amount) (s\<lparr>owner := (owner s)(from \<mapsto> t, to \<mapsto> t)\<rparr>))
          else None
      | Withdrawing from to amount \<Rightarrow>
          (case Withdraw amount (accounts s ! from) of
             Inr b \<Rightarrow> Some ([], goto t (Crediting from to amount) (s\<lparr>accounts := (accounts s)[from := b]\<rparr>))
           | Inl NotEnoughMoney \<Rightarrow> Some ([(t, CallExchange from to amount, ThrewNotEnoughMoney)], goto t (Releasing [to, from]) s)
           | Inl Overflow \<Rightarrow> Some ([], goto t Undefined s))
      | Crediting from to amount \<Rightarrow>
          (case Deposit amount (accounts s ! to) of
             Inr b \<Rightarrow> Some ([(t, CallExchange from to amount, Done)], goto t (Releasing [to, from]) (s\<lparr>accounts := (accounts s)[to := b]\<rparr>))
           | Inl _ \<Rightarrow> Some ([], goto t Undefined s))
      | Releasing [] \<Rightarrow> Some ([], goto t Idle s)
      | Releasing (c # cs) \<Rightarrow> Some ([], goto t (Releasing cs) (s\<lparr>owner := (owner s)(c := None)\<rparr>)))"

text \<open>The runs of a bank from \<open>s0\<close>, with the events in their order; any number of threads.\<close>

inductive bank_run :: "(bank \<Rightarrow> bank_call \<Rightarrow> phase) \<Rightarrow> bank \<Rightarrow> event list \<Rightarrow> bank \<Rightarrow> bool" for entry s0 where
  bank_start: "bank_run entry s0 [] s0"
| bank_call: "bank_run entry s0 es s \<Longrightarrow> phase_of s t = Idle \<Longrightarrow> bank_run entry s0 es (goto t (entry s call) s)"
| bank_move: "bank_run entry s0 es s \<Longrightarrow> move t s = Some (e, s') \<Longrightarrow> bank_run entry s0 (es @ e) s'"

inductive_cases bank_runE: "bank_run entry s0 es s"

section \<open>One call after the other\<close>

text \<open>What a call does to the accounts alone, and the accounts after events, provided that each has the
  outcome it has when the calls are made one after the other.\<close>

fun alone :: "bank_call \<Rightarrow> int list \<Rightarrow> bank_error + outcome \<times> int list" where
  "alone (CallDeposit c amount) accs = ebind (Deposit amount (accs ! c)) (\<lambda>b. Inr (Done, accs[c := b]))"
| "alone (CallBalance c) accs = Inr (IsBalance (accs ! c), accs)"
| "alone (CallExchange from to amount) accs =
     (case Withdraw amount (accs ! from) of
        Inl NotEnoughMoney \<Rightarrow> Inr (ThrewNotEnoughMoney, accs)
      | Inl Overflow \<Rightarrow> Inl Overflow
      | Inr b \<Rightarrow> (let accs = accs[from := b] in ebind (Deposit amount (accs ! to)) (\<lambda>b. Inr (Done, accs[to := b]))))"

fun one_by_one :: "event list \<Rightarrow> int list \<Rightarrow> int list option" where
  "one_by_one [] accs = Some accs"
| "one_by_one ((t, call, out) # es) accs =
     (case alone call accs of Inr (out', accs') \<Rightarrow> if out' = out then one_by_one es accs' else None | Inl _ \<Rightarrow> None)"

lemma one_by_one_append:
  "one_by_one (es @ es') accs = Option.bind (one_by_one es accs) (one_by_one es')"
  by (induction es accs rule: one_by_one.induct) (auto split: sum.splits prod.splits)

section \<open>Who holds which mutex\<close>

fun held :: "phase \<Rightarrow> nat list" where
  "held (Depositing c amount) = [c]"
| "held (ReadingBalance c) = [c]"
| "held (WantSecond from to amount) = [from]"
| "held (Withdrawing from to amount) = [to, from]"
| "held (Crediting from to amount) = [to, from]"
| "held (Releasing cs) = cs"
| "held _ = []"

fun well_formed :: "nat \<Rightarrow> phase \<Rightarrow> bool" where
  "well_formed n (WantDeposit c amount) \<longleftrightarrow> c < n"
| "well_formed n (Depositing c amount) \<longleftrightarrow> c < n"
| "well_formed n (WantBalance c) \<longleftrightarrow> c < n"
| "well_formed n (ReadingBalance c) \<longleftrightarrow> c < n"
| "well_formed n (WantFirst from to amount) \<longleftrightarrow> from < n \<and> to < n \<and> from \<noteq> to"
| "well_formed n (WantSecond from to amount) \<longleftrightarrow> from < n \<and> to < n \<and> from \<noteq> to"
| "well_formed n (WantBoth from to amount) \<longleftrightarrow> from < n \<and> to < n \<and> from \<noteq> to"
| "well_formed n (Withdrawing from to amount) \<longleftrightarrow> from < n \<and> to < n \<and> from \<noteq> to"
| "well_formed n (Crediting from to amount) \<longleftrightarrow> from < n \<and> to < n \<and> from \<noteq> to"
| "well_formed n (Releasing cs) \<longleftrightarrow> distinct cs"
| "well_formed n _ \<longleftrightarrow> True"

text \<open>The accounts with the money back that is between two accounts.\<close>

definition restored :: "bank \<Rightarrow> int list \<Rightarrow> bool" where
  "restored s accs \<longleftrightarrow> length accs = length (accounts s)
     \<and> (\<forall>t from to amount. phase_of s t = Crediting from to amount \<longrightarrow>
          accs ! from = accounts s ! from + amount \<and> 0 \<le> accounts s ! from \<and> fits_int (accounts s ! from))
     \<and> (\<forall>c. (\<forall>t to amount. phase_of s t \<noteq> Crediting c to amount) \<longrightarrow> accs ! c = accounts s ! c)"

definition owners :: "bank \<Rightarrow> bool" where
  "owners s \<longleftrightarrow> (\<forall>c t. owner s c = Some t \<longleftrightarrow> c \<in> set (held (phase_of s t)))
     \<and> (\<forall>t. well_formed (NumClients s) (phase_of s t))"

lemma ownersD:
  assumes "owners s"
  shows "owner s c = Some t \<longleftrightarrow> c \<in> set (held (phase_of s t))" and "well_formed (NumClients s) (phase_of s t)"
    and "c \<in> set (held (phase_of s t)) \<Longrightarrow> c \<in> set (held (phase_of s u)) \<Longrightarrow> t = u"
  using assms unfolding owners_def by (blast, blast, metis option.inject)

lemma bank_goto_simps [simp]: "phase_of (goto t p s) = (phase_of s)(t := p)" "owner (goto t p s) = owner s"
  "accounts (goto t p s) = accounts s" "NumClients (goto t p s) = NumClients s"
  by (simp_all add: goto_def NumClients_def)

lemma NumClients_update [simp]: "NumClients (s\<lparr>owner := ow\<rparr>) = NumClients s" "NumClients (s\<lparr>phase_of := ph\<rparr>) = NumClients s"
  "NumClients (s\<lparr>accounts := (accounts s)[c := b]\<rparr>) = NumClients s"
  by (simp_all add: NumClients_def)

text \<open>A step of \<open>t\<close> that takes the mutexes \<open>C\<close> that are free, gives back those in \<open>D\<close> and keeps the others.\<close>

lemma owners_step:
  assumes "owners s" and "well_formed (NumClients s') p" and "NumClients s' = NumClients s"
    and "phase_of s' = (phase_of s)(t := p)"
    and "\<And>c. owner s' c = (if c \<in> C then Some t else if c \<in> D then None else owner s c)"
    and "\<And>c. c \<in> C \<Longrightarrow> owner s c = None" and "D \<subseteq> set (held (phase_of s t))" and "C \<inter> D = {}"
    and "set (held p) = (set (held (phase_of s t)) - D) \<union> C"
  shows "owners s'"
proof -
  note o = ownersD [OF assms(1)]
  have "owner s' c = Some u \<longleftrightarrow> c \<in> set (held (phase_of s' u))" for c u
  proof (cases "u = t")
    case True
    then show ?thesis using assms(4-9) o(1) [of c t] by auto
  next
    case False
    then show ?thesis using assms(4-9) o(1) [of c u] o(1) [of c t] by auto
  qed
  moreover have "well_formed (NumClients s') (phase_of s' u)" for u using assms(2-4) o(2) [of u] by simp
  ultimately show ?thesis by (simp add: owners_def)
qed

lemma restored_same:
  assumes "restored s accs" and "accounts s' = accounts s"
    and "phase_of s' = (phase_of s)(t := p)" and "\<forall>c to amount. phase_of s t \<noteq> Crediting c to amount"
    and "\<forall>c to amount. p \<noteq> Crediting c to amount"
  shows "restored s' accs"
  using assms unfolding restored_def by (auto split: if_splits) metis

lemma acquire_step:
  assumes "owners s" and "restored s accs" and "acquire t c p s = Some (e, s')"
    and "held (phase_of s t) = cs" and "set (held p) = insert c (set cs)" and "well_formed (NumClients s) p"
    and "\<forall>c to amount. phase_of s t \<noteq> Crediting c to amount" and "\<forall>c to amount. p \<noteq> Crediting c to amount"
  shows "owners s' \<and> (\<exists>accs'. one_by_one e accs = Some accs' \<and> restored s' accs')"
proof -
  have s': "e = []" "s' = goto t p (s\<lparr>owner := (owner s)(c \<mapsto> t)\<rparr>)" "owner s c = None"
    using assms(3) by (auto simp: acquire_def split: if_splits)
  have "owners s'"
    by (rule owners_step [OF assms(1), where C = "{c}" and D = "{}" and p = p and t = t]) (use assms(4-6) s' in auto)
  moreover have "restored s' accs" by (rule restored_same [OF assms(2), where t = t and p = p]) (use assms(7,8) s' in auto)
  ultimately show ?thesis using s'(1) by simp
qed

lemma Deposit_Inr: "Deposit amount balance = Inr b \<longleftrightarrow> b = balance + amount \<and> fits_int b"
  by (auto simp: Deposit_def)

lemma Withdraw_Inr: "Withdraw amount balance = Inr b \<longleftrightarrow> b = balance - amount \<and> amount \<le> balance \<and> fits_int b"
  by (auto simp: Withdraw_def)

lemma Withdraw_NotEnoughMoney: "Withdraw amount balance = Inl NotEnoughMoney \<longleftrightarrow> balance < amount"
  by (auto simp: Withdraw_def)

lemma move_invariant:
  assumes "owners s" and "restored s accs" and "move t s = Some (e, s')" and "phase_of s' t \<noteq> Undefined"
  shows "owners s' \<and> (\<exists>accs'. one_by_one e accs = Some accs' \<and> restored s' accs')"
proof -
  note o = ownersD [OF assms(1)] and wf = ownersD(2) [OF assms(1), of t]
  have untouched: "accs ! c = accounts s ! c" if "c \<in> set (held (phase_of s t))" "\<forall>src dst amount. phase_of s t \<noteq> Crediting src dst amount" for c
  proof -
    have "\<forall>u dst amount. phase_of s u \<noteq> Crediting c dst amount"
      using o(3) [OF that(1)] that(2) by (metis held.simps(5) list.set_intros(1) set_subset_Cons subsetD)
    then show ?thesis using assms(2) by (simp add: restored_def)
  qed
  have len: "length accs = NumClients s" using assms(2) by (simp add: restored_def NumClients_def)
  show ?thesis
  proof (cases "phase_of s t")
    case (WantDeposit c amount)
    then show ?thesis using acquire_step [OF assms(1,2), of t c "Depositing c amount" e s'] assms(3) wf by simp
  next
    case (WantBalance c)
    then show ?thesis using acquire_step [OF assms(1,2), of t c "ReadingBalance c" e s'] assms(3) wf by simp
  next
    case (WantFirst src dst amount)
    then show ?thesis using acquire_step [OF assms(1,2), of t src "WantSecond src dst amount" e s'] assms(3) wf by simp
  next
    case (WantSecond src dst amount)
    then show ?thesis using acquire_step [OF assms(1,2), of t dst "Withdrawing src dst amount" e s'] assms(3) wf by auto
  next
    case (WantBoth src dst amount)
    then have s': "e = []" "s' = goto t (Withdrawing src dst amount) (s\<lparr>owner := (owner s)(src \<mapsto> t, dst \<mapsto> t)\<rparr>)"
      "owner s src = None" "owner s dst = None"
      using assms(3) by (auto split: if_splits)
    have "owners s'"
      by (rule owners_step [OF assms(1), where C = "{src, dst}" and D = "{}" and p = "Withdrawing src dst amount" and t = t])
        (use WantBoth wf s' in auto)
    moreover have "restored s' accs"
      by (rule restored_same [OF assms(2), where t = t and p = "Withdrawing src dst amount"]) (use WantBoth s' in auto)
    ultimately show ?thesis using s'(1) by simp
  next
    case (Depositing c amount)
    then obtain b where b: "Deposit amount (accounts s ! c) = Inr b" "e = [(t, CallDeposit c amount, Done)]"
      "s' = goto t (Releasing [c]) (s\<lparr>accounts := (accounts s)[c := b]\<rparr>)"
      using assms(3,4) by (auto split: sum.splits)
    have c: "accs ! c = accounts s ! c" "c < length accs" using untouched Depositing wf len by auto
    have "owners s'"
      by (rule owners_step [OF assms(1), where C = "{}" and D = "{}" and p = "Releasing [c]" and t = t])
        (use Depositing wf b(3) in auto)
    moreover have "restored s' (accs[c := b])"
    proof -
      have none: "src \<noteq> c" if "phase_of s u = Crediting src dst amount" for u src dst amount
        using o(3) [of c t u] Depositing that by auto
      show ?thesis
        unfolding restored_def
      proof (intro conjI allI impI)
        fix u src dst amount assume "phase_of s' u = Crediting src dst amount"
        then have "phase_of s u = Crediting src dst amount" using b(3) by (auto split: if_splits)
        then show "accs[c := b] ! src = accounts s' ! src + amount" "0 \<le> accounts s' ! src" "fits_int (accounts s' ! src)"
          using none [of u src] assms(2) b(3) by (auto simp: restored_def)
      next
        fix c' assume c': "\<forall>u dst amount. phase_of s' u \<noteq> Crediting c' dst amount"
        have "phase_of s u \<noteq> Crediting c' dst amount'" for u dst amount'
          using c' [rule_format, of u] b(3) Depositing by (cases "u = t") auto
        then show "accs[c := b] ! c' = accounts s' ! c'"
          using assms(2) b(3) c(2) by (auto simp: restored_def nth_list_update)
      qed (use assms(2) b(3) in \<open>simp add: restored_def\<close>)
    qed
    ultimately show ?thesis using b(1,2) c by simp
  next
    case (ReadingBalance c)
    then have s': "e = [(t, CallBalance c, IsBalance (accounts s ! c))]" "s' = goto t (Releasing [c]) s"
      using assms(3) by simp_all
    have "owners s'"
      by (rule owners_step [OF assms(1), where C = "{}" and D = "{}" and p = "Releasing [c]" and t = t])
        (use ReadingBalance wf s' in auto)
    moreover have "restored s' accs"
      by (rule restored_same [OF assms(2), where t = t and p = "Releasing [c]"]) (use ReadingBalance s' in auto)
    ultimately show ?thesis using s'(1) untouched [of c] ReadingBalance by simp
  next
    case (Withdrawing src dst amount)
    have src: "accs ! src = accounts s ! src" "src < length accs" "src \<noteq> dst" "src \<in> set (held (phase_of s t))"
      using untouched [of src] Withdrawing wf len by auto
    show ?thesis
    proof (cases "accounts s ! src < amount")
      case True
      then have s': "e = [(t, CallExchange src dst amount, ThrewNotEnoughMoney)]" "s' = goto t (Releasing [dst, src]) s"
        using assms(3) Withdrawing by (simp_all add: Withdraw_def)
      have "owners s'"
        by (rule owners_step [OF assms(1), where C = "{}" and D = "{}" and p = "Releasing [dst, src]" and t = t])
          (use Withdrawing wf s' in auto)
      moreover have "restored s' accs"
        by (rule restored_same [OF assms(2), where t = t and p = "Releasing [dst, src]"]) (use Withdrawing s' in auto)
      ultimately show ?thesis using s'(1) src(1) True by (simp add: Withdraw_def)
    next
      case False
      then obtain b where b: "b = accounts s ! src - amount" "e = []" "0 \<le> b" "fits_int b"
        "s' = goto t (Crediting src dst amount) (s\<lparr>accounts := (accounts s)[src := b]\<rparr>)"
        using assms(3,4) Withdrawing by (auto simp: Withdraw_def split: if_splits)
      have "owners s'"
        by (rule owners_step [OF assms(1), where C = "{}" and D = "{}" and p = "Crediting src dst amount" and t = t])
          (use Withdrawing wf b(5) in auto)
      moreover have "restored s' accs"
      proof -
        have none: "src' \<noteq> src" if "phase_of s u = Crediting src' dst' amount'" for u src' dst' amount'
          using o(3) [OF src(4), of u] Withdrawing that by auto
        show ?thesis
          unfolding restored_def
        proof (intro conjI allI impI)
          fix u src' dst' amount' assume "phase_of s' u = Crediting src' dst' amount'"
          then have "u = t \<and> src' = src \<and> amount' = amount \<or> u \<noteq> t \<and> phase_of s u = Crediting src' dst' amount'"
            using b(5) by (auto split: if_splits)
          then show "accs ! src' = accounts s' ! src' + amount'" "0 \<le> accounts s' ! src'" "fits_int (accounts s' ! src')"
            using none [of u src'] assms(2) b src(1,2) by (auto simp: restored_def)
        next
          fix c' assume c': "\<forall>u dst amount. phase_of s' u \<noteq> Crediting c' dst amount"
          have "c' \<noteq> src" using c' [rule_format, of t] b(5) by auto
          moreover have "phase_of s u \<noteq> Crediting c' dst' amount'" for u dst' amount'
            using c' [rule_format, of u] b(5) Withdrawing by (cases "u = t") auto
          ultimately show "accs ! c' = accounts s' ! c'" using assms(2) b(5) by (simp add: restored_def)
        qed (use assms(2) b(5) in \<open>simp add: restored_def\<close>)
      qed
      ultimately show ?thesis using b(2) by simp
    qed
  next
    case (Crediting src dst amount)
    then obtain b where b: "b = accounts s ! dst + amount" "fits_int b" "e = [(t, CallExchange src dst amount, Done)]"
      "s' = goto t (Releasing [dst, src]) (s\<lparr>accounts := (accounts s)[dst := b]\<rparr>)"
      using assms(3,4) by (auto simp: Deposit_def split: if_splits)
    have h: "src \<in> set (held (phase_of s t))" "dst \<in> set (held (phase_of s t))" "src \<noteq> dst" "src < length accs" "dst < length accs"
      using Crediting wf len by auto
    have others: "src' \<noteq> src \<and> src' \<noteq> dst" if "phase_of s u = Crediting src' dst' amount'" "u \<noteq> t" for u src' dst' amount'
      using o(3) [OF h(1), of u] o(3) [OF h(2), of u] that by auto
    have src: "accs ! src = accounts s ! src + amount" and src0: "0 \<le> accounts s ! src" "fits_int (accounts s ! src)"
      using assms(2) Crediting by (simp_all add: restored_def)
    have "phase_of s u \<noteq> Crediting dst dst' amount'" for u dst' amount'
      using others [of u dst dst' amount'] Crediting h(3) by (cases "u = t") auto
    then have dst: "accs ! dst = accounts s ! dst" using assms(2) by (simp add: restored_def)
    have "owners s'"
      by (rule owners_step [OF assms(1), where C = "{}" and D = "{}" and p = "Releasing [dst, src]" and t = t])
        (use Crediting wf b(4) in auto)
    moreover have "restored s' (accs[src := accounts s ! src, dst := b])"
      unfolding restored_def
    proof (intro conjI allI impI)
      fix u src' dst' amount' assume "phase_of s' u = Crediting src' dst' amount'"
      then have "phase_of s u = Crediting src' dst' amount'" "u \<noteq> t" using b(4) by (auto split: if_splits)
      then show "accs[src := accounts s ! src, dst := b] ! src' = accounts s' ! src' + amount'"
        "0 \<le> accounts s' ! src'" "fits_int (accounts s' ! src')"
        using others [of u src' dst' amount'] assms(2) b(4) by (auto simp: restored_def)
    next
      fix c assume c: "\<forall>u dst' amount'. phase_of s' u \<noteq> Crediting c dst' amount'"
      have "phase_of s u \<noteq> Crediting c dst' amount'" if "c \<noteq> src" for u dst' amount'
        using c [rule_format, of u] b(4) Crediting that by (cases "u = t") auto
      then have "c = src \<or> (\<forall>u dst' amount'. phase_of s u \<noteq> Crediting c dst' amount')" by blast
      then show "accs[src := accounts s ! src, dst := b] ! c = accounts s' ! c"
        using assms(2) h(3-5) b(4) by (auto simp: restored_def nth_list_update)
    qed (use assms(2) b(4) in \<open>simp add: restored_def\<close>)
    moreover have "one_by_one e accs = Some (accs[src := accounts s ! src, dst := b])"
      using src src0 dst h b(1-3) by (simp add: Withdraw_def Deposit_def)
    ultimately show ?thesis by blast
  next
    case (Releasing cs)
    show ?thesis
    proof (cases cs)
      case Nil
      then have s': "e = []" "s' = goto t Idle s" using assms(3) Releasing by simp_all
      have "owners s'"
        by (rule owners_step [OF assms(1), where C = "{}" and D = "{}" and p = Idle and t = t]) (use Releasing Nil s' in auto)
      moreover have "restored s' accs"
        by (rule restored_same [OF assms(2), where t = t and p = Idle]) (use Releasing s' in auto)
      ultimately show ?thesis using s'(1) by simp
    next
      case (Cons c cs')
      then have s': "e = []" "s' = goto t (Releasing cs') (s\<lparr>owner := (owner s)(c := None)\<rparr>)" using assms(3) Releasing by simp_all
      have "owners s'"
        by (rule owners_step [OF assms(1), where C = "{}" and D = "{c}" and p = "Releasing cs'" and t = t])
          (use Releasing Cons wf s' in auto)
      moreover have "restored s' accs"
        by (rule restored_same [OF assms(2), where t = t and p = "Releasing cs'"]) (use Releasing s' in auto)
      ultimately show ?thesis using s'(1) by simp
    qed
  qed (use assms(3) in auto)
qed

section \<open>Runs\<close>

lemma move_frame:
  assumes "move t s = Some (e, s')"
  shows "u \<noteq> t \<Longrightarrow> phase_of s' u = phase_of s u" and "NumClients s' = NumClients s" and "phase_of s t \<noteq> Undefined"
  using assms by (auto simp: acquire_def split: phase.splits list.splits sum.splits if_splits bank_error.splits)

fun valid_call :: "nat \<Rightarrow> bank_call \<Rightarrow> bool" where
  "valid_call n (CallDeposit c amount) \<longleftrightarrow> c < n"
| "valid_call n (CallBalance c) \<longleftrightarrow> c < n"
| "valid_call n (CallExchange from to amount) \<longleftrightarrow> from < n \<and> to < n \<and> from \<noteq> to"

lemma move_event_valid:
  assumes "owners s" and "move t s = Some (e, s')" and "ev \<in> set e"
  shows "valid_call (NumClients s) (fst (snd ev))"
  using ownersD(2) [OF assms(1), of t] assms(2,3)
  by (auto simp: acquire_def split: phase.splits list.splits sum.splits if_splits bank_error.splits)

lemma owners_call:
  assumes "owners s" and "phase_of s t = Idle" and "entry = entry_lock \<or> entry = entry_mutex"
  shows "owners (goto t (entry s call) s)"
proof -
  have p: "held (entry s call) = []" "well_formed (NumClients s) (entry s call)"
    using assms(3) by (cases call; force)+
  show ?thesis
    by (rule owners_step [OF assms(1), where C = "{}" and D = "{}" and t = t and p = "entry s call"]) (use p assms(2) in auto)
qed

lemma run_invariant:
  assumes "bank_run entry (Bank_new n) es s" and "entry = entry_lock \<or> entry = entry_mutex" and "\<forall>t. phase_of s t \<noteq> Undefined"
  shows "owners s \<and> NumClients s = n \<and> (\<exists>accs. one_by_one es (replicate n 0) = Some accs \<and> restored s accs)
    \<and> (\<forall>ev \<in> set es. valid_call n (fst (snd ev)))"
  using assms(1,3)
proof (induction rule: bank_run.induct)
  case bank_start
  then show ?case by (simp add: Bank_new_def owners_def restored_def NumClients_def)
next
  case (bank_call es s t call)
  have "phase_of s u \<noteq> Undefined" for u using bank_call.prems [rule_format, of u] bank_call.hyps(2) by (auto split: if_splits)
  then have IH: "owners s" "NumClients s = n"
    "\<exists>accs. one_by_one es (replicate n 0) = Some accs \<and> restored s accs"
    "\<forall>ev \<in> set es. valid_call n (fst (snd ev))"
    using bank_call.IH by blast+
  have "\<forall>a b amount. entry s call \<noteq> Crediting a b amount" using assms(2) by (cases call) (auto split: if_splits)
  then have "restored (goto t (entry s call) s) accs" if "restored s accs" for accs
    by (intro restored_same [OF that, of _ t "entry s call"]) (simp_all add: bank_call.hyps(2))
  then show ?case using owners_call [OF IH(1) bank_call.hyps(2) assms(2)] IH(2-4) by auto
next
  case (bank_move es s t e s')
  note frame = move_frame [OF bank_move.hyps(2)]
  have "phase_of s u \<noteq> Undefined" for u using bank_move.prems [rule_format, of u] frame(1,3) by (cases "u = t") auto
  then obtain accs where IH: "owners s" "NumClients s = n" "one_by_one es (replicate n 0) = Some accs" "restored s accs"
    "\<forall>ev \<in> set es. valid_call n (fst (snd ev))"
    using bank_move.IH by blast
  have "owners s' \<and> (\<exists>accs'. one_by_one e accs = Some accs' \<and> restored s' accs')"
    by (rule move_invariant [OF IH(1,4) bank_move.hyps(2)]) (use bank_move.prems in blast)
  then show ?case using IH frame(2) move_event_valid [OF IH(1) bank_move.hyps(2)]
    by (auto simp: one_by_one_append)
qed

text \<open>The money that the successful deposits of the events brought in.\<close>

fun deposited :: "event list \<Rightarrow> int" where
  "deposited [] = 0"
| "deposited ((t, CallDeposit c amount, Done) # es) = amount + deposited es"
| "deposited (e # es) = deposited es"

lemma sum_list_update_int: "c < length xs \<Longrightarrow> sum_list (xs[c := b]) = sum_list xs - xs ! c + (b :: int)"
  by (induction xs arbitrary: c) (auto split: nat.splits)

lemma one_by_one_sum:
  assumes "one_by_one es accs = Some accs'"
    and "\<forall>ev \<in> set es. valid_call (length accs) (fst (snd ev))"
  shows "sum_list accs' = sum_list accs + deposited es"
  using assms
proof (induction es accs rule: one_by_one.induct)
  case (2 t call out es accs)
  obtain accs1 where a: "alone call accs = Inr (out, accs1)" "one_by_one es accs1 = Some accs'"
    using 2(2) by (auto split: sum.splits prod.splits if_splits)
  have c: "valid_call (length accs) call" using 2(3) by auto
  have "sum_list accs1 = sum_list accs + deposited [(t, call, out)] \<and> length accs1 = length accs"
  proof (cases call)
    case (CallDeposit x amount)
    then show ?thesis using a(1) c by (auto simp: Deposit_Inr sum_list_update_int)
  next
    case (CallExchange x y amount)
    then have xy: "x \<noteq> y" "x < length accs" "y < length accs" using c by auto
    show ?thesis
    proof (cases "accs ! x < amount")
      case True
      then show ?thesis using a(1) CallExchange by (auto simp: Withdraw_def)
    next
      case False
      then show ?thesis using a(1) CallExchange xy
        by (auto simp: Withdraw_def Deposit_def Let_def sum_list_update_int nth_list_update split: if_splits)
    qed
  qed (use a(1) in auto)
  moreover have "deposited ((t, call, out) # es) = deposited [(t, call, out)] + deposited es"
    by (cases call; cases out) simp_all
  ultimately show ?case using 2(1) a 2(3) by auto
qed simp

lemma restored_idle: "restored s accs \<Longrightarrow> \<forall>t. phase_of s t = Idle \<Longrightarrow> accs = accounts s"
  by (intro nth_equalityI) (auto simp: restored_def)

lemma move_phase:
  assumes "move t s = Some (e, s')" and "phase_of s' t = WantFirst a b amount \<or> phase_of s' t = WantSecond a b amount"
  shows "phase_of s t = WantFirst a b amount"
proof (cases "phase_of s t")
  case (Releasing cs)
  then show ?thesis using assms by (cases cs) auto
qed (use assms in \<open>auto simp: acquire_def split: sum.splits if_splits bank_error.splits\<close>)

lemma lock_phases:
  assumes "bank_run entry_lock (Bank_new n) es s"
  shows "phase_of s t \<noteq> WantFirst a b amount \<and> phase_of s t \<noteq> WantSecond a b amount"
  using assms
proof (induction rule: bank_run.induct)
  case (bank_call es s u call)
  then show ?case by (cases call) (auto split: if_splits)
next
  case (bank_move es s u e s')
  then show ?case using move_frame(1) [OF bank_move.hyps(2)] move_phase [OF bank_move.hyps(2)] by (cases "t = u") auto
qed (simp add: Bank_new_def)

text \<open>A thread that holds a mutex and is not about to lock another one can go on.\<close>

lemma holder_moves:
  assumes "held (phase_of s u) \<noteq> []" and "\<forall>a b amount. phase_of s u \<noteq> WantSecond a b amount"
  shows "\<exists>e s'. move u s = Some (e, s')"
  using assms
  by (cases "phase_of s u") (auto simp: Deposit_def Withdraw_def neq_Nil_conv split: sum.splits bank_error.splits)

section \<open>Properties\<close>

text \<open>C18. Whatever the threads do, the calls of the banks with mutexes take effect one after the other: every
  outcome that was returned, the exception included, is that of the calls made alone in this order, no
  money is lost or made, and when all threads are idle the accounts are those after these calls.\<close>

theorem bank_linearizable:
  assumes "bank_run entry (Bank_new n) es s" and "entry = entry_lock \<or> entry = entry_mutex" and "\<forall>t. phase_of s t \<noteq> Undefined"
  shows "\<exists>accs. one_by_one es (replicate n 0) = Some accs \<and> sum_list accs = deposited es
    \<and> ((\<forall>t. phase_of s t = Idle) \<longrightarrow> accounts s = accs)"
proof -
  obtain accs where r: "one_by_one es (replicate n 0) = Some accs" "restored s accs"
    "\<forall>ev \<in> set es. valid_call n (fst (snd ev))"
    using run_invariant [OF assms] by blast
  then show ?thesis using one_by_one_sum [OF r(1)] restored_idle [OF r(2)] by (auto simp: sum_list_replicate)
qed

text \<open>C19. The bank that takes both mutexes at once never deadlocks: while a thread is in a call, some thread
  that is in a call can take its next step.\<close>

theorem bank_lock_progress:
  assumes "bank_run entry_lock (Bank_new n) es s" and "\<forall>t. phase_of s t \<noteq> Undefined" and "phase_of s t \<noteq> Idle"
  shows "\<exists>u e s'. phase_of s u \<noteq> Idle \<and> move u s = Some (e, s')"
proof -
  have o: "owners s" using run_invariant [OF assms(1) _ assms(2)] by blast
  have owner_moves: "\<exists>u e s'. phase_of s u \<noteq> Idle \<and> move u s = Some (e, s')" if "owner s c = Some u" for c u
  proof -
    have "c \<in> set (held (phase_of s u))" using ownersD(1) [OF o] that by simp
    then have "held (phase_of s u) \<noteq> []" by auto
    then have "phase_of s u \<noteq> Idle" by auto
    moreover have "\<exists>e s'. move u s = Some (e, s')"
      using holder_moves [OF \<open>held (phase_of s u) \<noteq> []\<close>] lock_phases [OF assms(1)] by blast
    ultimately show ?thesis by blast
  qed
  show ?thesis
  proof (cases "move t s")
    case None
    then have "\<exists>c u. owner s c = Some u"
    proof (cases "phase_of s t")
      case (WantBoth a b amount)
      then show ?thesis using None by (auto split: if_splits)
    next
      case (Withdrawing a b amount)
      then show ?thesis using None holder_moves [of s t] by auto
    next
      case (Crediting a b amount)
      then show ?thesis using None holder_moves [of s t] by auto
    next
      case (Depositing c amount)
      then show ?thesis using None holder_moves [of s t] by auto
    next
      case (Releasing cs)
      then show ?thesis using None by (cases cs) auto
    qed (use None assms(2,3) lock_phases [OF assms(1)] in \<open>auto simp: acquire_def split: if_splits\<close>)
    then show ?thesis using owner_moves by blast
  qed (use assms(3) in auto)
qed

section \<open>Schedules\<close>

text \<open>A schedule says which thread starts a call or takes its next step; it gives a run to evaluate.\<close>

datatype choice = Start nat bank_call | Step nat

fun follow :: "(bank \<Rightarrow> bank_call \<Rightarrow> phase) \<Rightarrow> choice list \<Rightarrow> bank \<Rightarrow> (event list \<times> bank) option" where
  "follow entry [] s = Some ([], s)"
| "follow entry (Start t call # cs) s =
     (if phase_of s t = Idle then follow entry cs (goto t (entry s call) s) else None)"
| "follow entry (Step t # cs) s =
     (case move t s of
        None \<Rightarrow> None
      | Some (e, s') \<Rightarrow> map_option (\<lambda>(es, s''). (e @ es, s'')) (follow entry cs s'))"

lemma follow_run: "follow entry cs s = Some (es', s') \<Longrightarrow> bank_run entry s0 es s \<Longrightarrow> bank_run entry s0 (es @ es') s'"
proof (induction entry cs s arbitrary: es es' rule: follow.induct)
  case (2 entry t call cs s)
  then show ?case using bank_call [OF 2(3), of t call] by (auto split: if_splits)
next
  case (3 entry t cs s)
  then obtain e s1 es1 where m: "move t s = Some (e, s1)" "follow entry cs s1 = Some (es1, s')" "es' = e @ es1"
    by (auto simp del: move.simps split: option.splits)
  then show ?case using 3(1) [OF m(1) refl m(2) bank_move [OF 3(3) m(1)]] by simp
qed simp

definition two_deposits :: "choice list" where
  "two_deposits = [Start 0 (CallDeposit 0 10), Step 0, Step 0, Step 0, Step 0, Start 0 (CallDeposit 1 20), Step 0, Step 0, Step 0, Step 0]"

text \<open>Alice and Bob exchange money with each other: each thread holds the mutex the other one waits for.\<close>

definition crossed_exchanges :: "choice list" where
  "crossed_exchanges = two_deposits @ [Start 0 (CallExchange 1 0 10), Start 1 (CallExchange 0 1 10), Step 0, Step 1]"

lemma bank_mutex_deadlock:
  "\<exists>es s. bank_run entry_mutex (Bank_new 2) es s \<and> (\<forall>t. phase_of s t \<noteq> Undefined)
    \<and> phase_of s 0 = WantSecond 1 0 10 \<and> phase_of s 1 = WantSecond 0 1 10 \<and> (\<forall>t. move t s = None)"
proof -
  obtain es s where f: "follow entry_mutex crossed_exchanges (Bank_new 2) = Some (es, s)"
    and s: "phase_of s = (\<lambda>t. Idle)(0 := WantSecond 1 0 10, 1 := WantSecond 0 1 10)" "owner s 0 = Some 1" "owner s 1 = Some 0"
    by (simp add: crossed_exchanges_def two_deposits_def Bank_new_def NumClients_def goto_def acquire_def Deposit_def fits_int_def)
  have "move t s = None" for t using s by (simp add: acquire_def)
  moreover have "phase_of s 0 = WantSecond 1 0 10" "phase_of s 1 = WantSecond 0 1 10" "\<forall>t. phase_of s t \<noteq> Undefined"
    using s(1) by simp_all
  ultimately show ?thesis using follow_run [OF f bank_start] by blast
qed

theorem bank_linearizable_witness:
  "\<exists>es s accs. bank_run entry_lock (Bank_new 2) es s \<and> one_by_one es (replicate 2 0) = Some accs
    \<and> sum_list accs = 30 \<and> deposited es = 30"
proof -
  let ?cs = "two_deposits @ [Start 1 (CallExchange 1 0 30), Start 0 (CallExchange 1 0 15), Step 1, Step 1, Step 1, Step 1, Step 1, Step 0, Step 0, Step 0]"
  obtain es s where f: "follow entry_lock ?cs (Bank_new 2) = Some (es, s)"
    and s: "phase_of s = (\<lambda>t. Idle)(1 := Idle, 0 := Releasing [0, 1])" "deposited es = 30"
    by (simp add: two_deposits_def Bank_new_def NumClients_def goto_def acquire_def Deposit_def Withdraw_def fits_int_def)
  have run: "bank_run entry_lock (Bank_new 2) es s" using follow_run [OF f bank_start] by simp
  have ok: "\<forall>t. phase_of s t \<noteq> Undefined" using s(1) by simp
  show ?thesis using bank_linearizable [OF run _ ok] run s(2) by auto
qed

theorem bank_lock_progress_witness:
  "\<exists>es s u e s'. bank_run entry_lock (Bank_new 2) es s \<and> phase_of s 1 = WantBoth 0 1 10 \<and> owner s 0 \<noteq> None
    \<and> phase_of s u \<noteq> Idle \<and> move u s = Some (e, s')"
proof -
  let ?cs = "two_deposits @ [Start 0 (CallExchange 1 0 10), Start 1 (CallExchange 0 1 10), Step 0]"
  obtain es s where f: "follow entry_lock ?cs (Bank_new 2) = Some (es, s)"
    and s: "phase_of s = (\<lambda>t. Idle)(1 := WantBoth 0 1 10, 0 := Withdrawing 1 0 10)" "owner s 0 \<noteq> None"
    by (simp add: two_deposits_def Bank_new_def NumClients_def goto_def acquire_def Deposit_def Withdraw_def fits_int_def)
  have run: "bank_run entry_lock (Bank_new 2) es s" using follow_run [OF f bank_start] by simp
  have "\<forall>t. phase_of s t \<noteq> Undefined" "phase_of s 1 \<noteq> Idle" "phase_of s 1 = WantBoth 0 1 10" using s(1) by simp_all
  then show ?thesis using bank_lock_progress [OF run, of 1] run s(2) by blast
qed

section \<open>The bank without mutexes\<close>

text \<open>Each access of \<open>balance_\<close> is a step: the check of \<open>Withdraw\<close>, and a load and a store for each \<open>-=\<close> and \<open>+=\<close>.\<close>

datatype racy_phase =
  RacyIdle
| AddLoad nat int | AddStore nat int
| Check nat nat int | SubLoad nat nat int | SubStore nat nat int int
| RacyUndefined

record racy_bank =
  racy_accounts :: "int list"
  racy_phase_of :: "nat \<Rightarrow> racy_phase"
  succeeded :: "nat \<Rightarrow> bool"

definition racy_goto :: "nat \<Rightarrow> racy_phase \<Rightarrow> racy_bank \<Rightarrow> racy_bank" where
  "racy_goto t p s = s\<lparr>racy_phase_of := (racy_phase_of s)(t := p)\<rparr>"

definition store :: "nat \<Rightarrow> nat \<Rightarrow> int \<Rightarrow> racy_phase \<Rightarrow> racy_bank \<Rightarrow> racy_bank" where
  "store t c b p s =
     (if fits_int b then racy_goto t p (s\<lparr>racy_accounts := (racy_accounts s)[c := b]\<rparr>) else racy_goto t RacyUndefined s)"

text \<open>\<open>succeeded\<close> is what \<open>op\<close> of \<open>main\<close> records: whether the last call of a thread returned or threw.\<close>

fun racy_move :: "nat \<Rightarrow> racy_bank \<Rightarrow> racy_bank option" where
  "racy_move t s =
     (case racy_phase_of s t of
        RacyIdle \<Rightarrow> None
      | RacyUndefined \<Rightarrow> None
      | Check from to amount \<Rightarrow>
          if racy_accounts s ! from < amount then Some (racy_goto t RacyIdle (s\<lparr>succeeded := (succeeded s)(t := False)\<rparr>))
          else Some (racy_goto t (SubLoad from to amount) s)
      | SubLoad from to amount \<Rightarrow> Some (racy_goto t (SubStore from to amount (racy_accounts s ! from)) s)
      | SubStore from to amount b \<Rightarrow> Some (store t from (b - amount) (AddLoad to amount) s)
      | AddLoad c amount \<Rightarrow> Some (racy_goto t (AddStore c (racy_accounts s ! c + amount)) s)
      | AddStore c b \<Rightarrow> Some (store t c b RacyIdle (s\<lparr>succeeded := (succeeded s)(t := True)\<rparr>)))"

definition racy_exchange :: "nat \<Rightarrow> nat \<Rightarrow> nat \<Rightarrow> int \<Rightarrow> racy_bank \<Rightarrow> racy_bank" where
  "racy_exchange t a b amount s = racy_goto t (Check a b amount) (s\<lparr>succeeded := (succeeded s)(t := False)\<rparr>)"

definition racy_deposit :: "nat \<Rightarrow> nat \<Rightarrow> int \<Rightarrow> racy_bank \<Rightarrow> racy_bank" where
  "racy_deposit t c amount s = racy_goto t (AddLoad c amount) s"

fun racy_follow :: "nat list \<Rightarrow> racy_bank \<Rightarrow> racy_bank option" where
  "racy_follow [] s = Some s"
| "racy_follow (t # ts) s = Option.bind (racy_move t s) (racy_follow ts)"

text \<open>The accounts of \<open>main\<close> hold 10 and 20, and two threads move 20 from the second to the first. Both can
  succeed, with the second account at -20 or with one of the two exchanges lost, depending on the order of
  the accesses; in no order of the two calls do both succeed.\<close>

definition both_exchange :: racy_bank where
  "both_exchange = racy_exchange 0 1 0 20 (racy_exchange 1 1 0 20
     \<lparr>racy_accounts = [10, 20], racy_phase_of = (\<lambda>t. RacyIdle), succeeded = (\<lambda>t. False)\<rparr>)"

lemma racy_overdraft:
  "map_option (\<lambda>s. (racy_accounts s, succeeded s 0, succeeded s 1))
     (racy_follow [0, 1, 0, 0, 1, 1, 0, 0, 1, 1] both_exchange) = Some ([50, - 20], True, True)"
  "map_option (\<lambda>s. (racy_accounts s, succeeded s 0, succeeded s 1))
     (racy_follow [0, 1, 0, 1, 0, 1, 0, 1, 0, 1] both_exchange) = Some ([30, 0], True, True)"
  "one_by_one [(t, CallExchange 1 0 20, Done), (u, CallExchange 1 0 20, Done)] [10, 20] = None"
  by (simp_all add: both_exchange_def racy_exchange_def racy_goto_def store_def fits_int_def Withdraw_def Deposit_def Let_def)

end
