(* ===== verification/RoundTable.thy ===== *)
theory RoundTable
  imports Locks
begin

text \<open>
  The philosophers of \<open>lectures/2021/09-condvars/round_table.cpp\<close>: \<open>n\<close> philosophers and \<open>n\<close> forks, which
  are mutexes, and four functions \<open>lock\<close> that take two forks. A step locks, tries or unlocks one fork, or
  eats. A meal takes at least one millisecond and is chosen by the random generators, as is which
  fork comes first; the models allow every choice.
\<close>

section \<open>The table\<close>

datatype strategy = SmartPolite | Smart | Persistent | Ordered

text \<open>Where a philosopher is in \<open>eat\<close>, with the forks \<open>first\<close> and \<open>second\<close> and the time \<open>d\<close> of the meal in
  milliseconds. In \<open>lock\<close> the outer fork is locked before the inner one; the outer fork is \<open>first\<close>, or
  \<open>second\<close> when \<open>swapped\<close>. The philosopher thinks, is about to lock the outer fork, holds it and tries the
  inner fork, holds it and gives it back, yields, holds it and locks the inner fork, eats, or gives its
  forks back.\<close>

datatype diner =
  Thinking
| LockOuter bool nat nat nat | TryInner bool nat nat nat | GiveUp bool nat nat nat | Yielding bool nat nat nat
| LockInner bool nat nat nat
| Eating nat nat nat
| Leaving "nat list"

definition outer :: "bool \<Rightarrow> nat \<Rightarrow> nat \<Rightarrow> nat" where
  "outer swapped a b = (if swapped then b else a)"

definition inner :: "bool \<Rightarrow> nat \<Rightarrow> nat \<Rightarrow> nat" where
  "inner swapped a b = (if swapped then a else b)"

record table =
  fork_of :: "nat \<Rightarrow> nat option"
  diner_of :: "nat \<Rightarrow> diner"
  eat_time :: "nat \<Rightarrow> nat"

definition full :: nat where
  "full = 30000"

definition table_new :: table where
  "table_new = \<lparr>fork_of = (\<lambda>f. None), diner_of = (\<lambda>i. Thinking), eat_time = (\<lambda>i. 0)\<rparr>"

definition left_fork :: "nat \<Rightarrow> nat" where
  "left_fork i = i"

definition right_fork :: "nat \<Rightarrow> nat \<Rightarrow> nat" where
  "right_fork n i = (if i < n - 1 then i + 1 else 0)"

definition sit :: "nat \<Rightarrow> diner \<Rightarrow> table \<Rightarrow> table" where
  "sit i p s = s\<lparr>diner_of := (diner_of s)(i := p)\<rparr>"

definition take_fork :: "nat \<Rightarrow> nat \<Rightarrow> diner \<Rightarrow> table \<Rightarrow> table" where
  "take_fork i f p s = sit i p (s\<lparr>fork_of := (fork_of s)(f \<mapsto> i)\<rparr>)"

definition put_fork :: "nat \<Rightarrow> nat \<Rightarrow> diner \<Rightarrow> table \<Rightarrow> table" where
  "put_fork i f p s = sit i p (s\<lparr>fork_of := (fork_of s)(f := None)\<rparr>)"

section \<open>The steps\<close>

text \<open>The start of \<open>eat\<close>: \<open>heads\<close> is the coin, \<open>ms\<close> the drawn time.\<close>

definition get_eat_duration :: "nat \<Rightarrow> nat \<Rightarrow> nat" where
  "get_eat_duration ms eaten = min ms (full - eaten)"

definition begin_lock :: "strategy \<Rightarrow> nat \<Rightarrow> nat \<Rightarrow> nat \<Rightarrow> diner" where
  "begin_lock strategy first second d =
     (case strategy of Ordered \<Rightarrow> LockOuter (\<not> first < second) first second d | _ \<Rightarrow> LockOuter False first second d)"

definition eat :: "strategy \<Rightarrow> nat \<Rightarrow> nat \<Rightarrow> bool \<Rightarrow> nat \<Rightarrow> table \<Rightarrow> table option" where
  "eat strategy n i heads ms s =
     (if diner_of s i = Thinking \<and> eat_time s i < full then
        let d = get_eat_duration ms (eat_time s i) in
        if heads then Some (sit i (begin_lock strategy (left_fork i) (right_fork n i) d) s)
        else Some (sit i (begin_lock strategy (right_fork n i) (left_fork i) d) s)
      else None)"

text \<open>What follows a failed \<open>try_lock\<close>, when the fork is back.\<close>

fun retry :: "strategy \<Rightarrow> bool \<Rightarrow> nat \<Rightarrow> nat \<Rightarrow> nat \<Rightarrow> diner" where
  "retry SmartPolite sw a b d = Yielding sw a b d"
| "retry Smart sw a b d = LockOuter (\<not> sw) a b d"
| "retry Persistent sw a b d = LockOuter sw a b d"
| "retry Ordered sw a b d = LockOuter sw a b d"

text \<open>The step of a philosopher in \<open>eat\<close>, unless it is blocked. \<open>try_lock\<close> of a mutex may also fail when the
  mutex is free (\<open>spurious\<close>). At the end of \<open>eat\<close> the forks are given back, \<open>second\<close> before \<open>first\<close>.\<close>

fun dine :: "strategy \<Rightarrow> bool \<Rightarrow> nat \<Rightarrow> table \<Rightarrow> table option" where
  "dine strategy spurious i s =
     (case diner_of s i of
        Thinking \<Rightarrow> None
      | LockOuter sw a b d \<Rightarrow>
          if fork_of s (outer sw a b) = None
          then Some (take_fork i (outer sw a b) (if strategy = Ordered then LockInner sw a b d else TryInner sw a b d) s) else None
      | TryInner sw a b d \<Rightarrow>
          if fork_of s (inner sw a b) = None \<and> \<not> spurious then Some (take_fork i (inner sw a b) (Eating a b d) s)
          else Some (sit i (GiveUp sw a b d) s)
      | GiveUp sw a b d \<Rightarrow> Some (put_fork i (outer sw a b) (retry strategy sw a b d) s)
      | Yielding sw a b d \<Rightarrow> Some (sit i (LockOuter (\<not> sw) a b d) s)
      | LockInner sw a b d \<Rightarrow> if fork_of s (inner sw a b) = None then Some (take_fork i (inner sw a b) (Eating a b d) s) else None
      | Eating a b d \<Rightarrow> Some (sit i (Leaving [b, a]) (s\<lparr>eat_time := (eat_time s)(i := eat_time s i + d)\<rparr>))
      | Leaving [] \<Rightarrow> Some (sit i Thinking s)
      | Leaving (f # fs) \<Rightarrow> Some (put_fork i f (Leaving fs) s))"

inductive table_step :: "strategy \<Rightarrow> nat \<Rightarrow> table \<Rightarrow> table \<Rightarrow> bool" for strategy n where
  "i < n \<Longrightarrow> 1 \<le> ms \<Longrightarrow> ms \<le> 10 \<Longrightarrow> eat strategy n i heads ms s = Some s' \<Longrightarrow> table_step strategy n s s'"
| "i < n \<Longrightarrow> dine strategy spurious i s = Some s' \<Longrightarrow> table_step strategy n s s'"

inductive_cases table_stepE: "table_step strategy n s s'"

section \<open>The forks\<close>

fun held_forks :: "diner \<Rightarrow> nat list" where
  "held_forks (TryInner sw a b d) = [outer sw a b]"
| "held_forks (GiveUp sw a b d) = [outer sw a b]"
| "held_forks (LockInner sw a b d) = [outer sw a b]"
| "held_forks (Eating a b d) = [b, a]"
| "held_forks (Leaving fs) = fs"
| "held_forks _ = []"

definition own_forks :: "nat \<Rightarrow> nat \<Rightarrow> nat \<Rightarrow> nat \<Rightarrow> bool" where
  "own_forks n i a b \<longleftrightarrow> {a, b} = {left_fork i, right_fork n i} \<and> a \<noteq> b"

text \<open>A philosopher reaches for its own forks, in the order of the strategy, and its meal ends in time.\<close>

fun well_seated :: "strategy \<Rightarrow> nat \<Rightarrow> nat \<Rightarrow> nat \<Rightarrow> diner \<Rightarrow> bool" where
  "well_seated strategy n i eaten Thinking \<longleftrightarrow> eaten \<le> full"
| "well_seated strategy n i eaten (LockOuter sw a b d) \<longleftrightarrow> own_forks n i a b \<and> 1 \<le> d \<and> eaten + d \<le> full
     \<and> (strategy = Ordered \<longrightarrow> outer sw a b < inner sw a b)"
| "well_seated strategy n i eaten (TryInner sw a b d) \<longleftrightarrow> own_forks n i a b \<and> 1 \<le> d \<and> eaten + d \<le> full \<and> strategy \<noteq> Ordered"
| "well_seated strategy n i eaten (GiveUp sw a b d) \<longleftrightarrow> own_forks n i a b \<and> 1 \<le> d \<and> eaten + d \<le> full \<and> strategy \<noteq> Ordered"
| "well_seated strategy n i eaten (Yielding sw a b d) \<longleftrightarrow> own_forks n i a b \<and> 1 \<le> d \<and> eaten + d \<le> full \<and> strategy \<noteq> Ordered"
| "well_seated strategy n i eaten (LockInner sw a b d) \<longleftrightarrow> own_forks n i a b \<and> 1 \<le> d \<and> eaten + d \<le> full
     \<and> strategy = Ordered \<and> outer sw a b < inner sw a b"
| "well_seated strategy n i eaten (Eating a b d) \<longleftrightarrow> own_forks n i a b \<and> 1 \<le> d \<and> eaten + d \<le> full"
| "well_seated strategy n i eaten (Leaving fs) \<longleftrightarrow> distinct fs \<and> set fs \<subseteq> {left_fork i, right_fork n i} \<and> eaten \<le> full"

definition table_inv :: "strategy \<Rightarrow> nat \<Rightarrow> table \<Rightarrow> bool" where
  "table_inv strategy n s \<longleftrightarrow>
     (\<forall>f i. fork_of s f = Some i \<longleftrightarrow> f \<in> set (held_forks (diner_of s i)))
   \<and> (\<forall>i. well_seated strategy n i (eat_time s i) (diner_of s i))
   \<and> (\<forall>i. n \<le> i \<longrightarrow> diner_of s i = Thinking)"

lemma table_invD:
  assumes "table_inv strategy n s"
  shows "fork_of s f = Some i \<longleftrightarrow> f \<in> set (held_forks (diner_of s i))"
    and "well_seated strategy n i (eat_time s i) (diner_of s i)"
    and "diner_of s i \<noteq> Thinking \<Longrightarrow> i < n"
    and "f \<in> set (held_forks (diner_of s i)) \<Longrightarrow> f \<in> set (held_forks (diner_of s j)) \<Longrightarrow> i = j"
proof -
  have own: "fork_of s f = Some i \<longleftrightarrow> f \<in> set (held_forks (diner_of s i))" for f i
    using assms by (simp add: table_inv_def)
  then show "fork_of s f = Some i \<longleftrightarrow> f \<in> set (held_forks (diner_of s i))" .
  show "well_seated strategy n i (eat_time s i) (diner_of s i)" using assms by (simp add: table_inv_def)
  show "i < n" if "diner_of s i \<noteq> Thinking" using assms that by (auto simp: table_inv_def not_le [symmetric])
  show "i = j" if "f \<in> set (held_forks (diner_of s i))" "f \<in> set (held_forks (diner_of s j))"
    using that own [of f i] own [of f j] by simp
qed

text \<open>A step that takes the forks \<open>A\<close> that are free and puts the forks \<open>B\<close> down.\<close>

lemma table_inv_step:
  assumes "table_inv strategy n s" and "i < n"
    and "diner_of s' = (diner_of s)(i := p)" and "\<forall>j. j \<noteq> i \<longrightarrow> eat_time s' j = eat_time s j"
    and "\<And>f. fork_of s' f = (if f \<in> A then Some i else if f \<in> B then None else fork_of s f)"
    and "\<And>f. f \<in> A \<Longrightarrow> fork_of s f = None" and "B \<subseteq> set (held_forks (diner_of s i))" and "A \<inter> B = {}"
    and "set (held_forks p) = (set (held_forks (diner_of s i)) - B) \<union> A"
    and "well_seated strategy n i (eat_time s' i) p"
  shows "table_inv strategy n s'"
proof -
  note I = table_invD [OF assms(1)]
  have "fork_of s' f = Some j \<longleftrightarrow> f \<in> set (held_forks (diner_of s' j))" for f j
  proof (cases "j = i")
    case True
    then show ?thesis using assms(3,5-9) I(1) [of f i] by auto
  next
    case False
    then show ?thesis using assms(3,5-9) I(1) [of f j] I(1) [of f i] by auto
  qed
  moreover have "well_seated strategy n j (eat_time s' j) (diner_of s' j)" for j
    using assms(3,4,10) I(2) [of j] by (cases "j = i") auto
  moreover have "n \<le> j \<longrightarrow> diner_of s' j = Thinking" for j using assms(2,3) I(3) [of j] by (cases "diner_of s j = Thinking") auto
  ultimately show ?thesis by (simp add: table_inv_def)
qed

lemma sit_simps [simp]: "diner_of (sit i p s) = (diner_of s)(i := p)" "fork_of (sit i p s) = fork_of s" "eat_time (sit i p s) = eat_time s"
  by (simp_all add: sit_def)

lemma take_put_simps [simp]:
  "diner_of (take_fork i f p s) = (diner_of s)(i := p)" "fork_of (take_fork i f p s) = (fork_of s)(f \<mapsto> i)" "eat_time (take_fork i f p s) = eat_time s"
  "diner_of (put_fork i f p s) = (diner_of s)(i := p)" "fork_of (put_fork i f p s) = (fork_of s)(f := None)" "eat_time (put_fork i f p s) = eat_time s"
  by (simp_all add: take_fork_def put_fork_def)

lemma own_forks_swap: "own_forks n i a b \<Longrightarrow> outer sw a b \<noteq> inner sw a b \<and> {outer sw a b, inner sw a b} = {a, b}"
  by (auto simp: own_forks_def outer_def inner_def)

lemma forks_differ: "2 \<le> n \<Longrightarrow> i < n \<Longrightarrow> left_fork i \<noteq> right_fork n i"
  by (auto simp: left_fork_def right_fork_def)

lemma eat_inv:
  assumes "table_inv strategy n s" and "2 \<le> n" and "i < n" and "1 \<le> ms" and "eat strategy n i heads ms s = Some s'"
  shows "table_inv strategy n s'"
proof -
  define d where "d = get_eat_duration ms (eat_time s i)"
  define a where "a = (if heads then left_fork i else right_fork n i)"
  define b where "b = (if heads then right_fork n i else left_fork i)"
  have s: "diner_of s i = Thinking" "eat_time s i < full" "s' = sit i (begin_lock strategy a b d) s"
    using assms(5) by (auto simp: eat_def d_def a_def b_def Let_def split: if_splits)
  have d: "1 \<le> d" "eat_time s i + d \<le> full" using assms(4) s(2) by (auto simp: d_def get_eat_duration_def)
  have own: "own_forks n i a b" using forks_differ [OF assms(2,3)] by (auto simp: own_forks_def a_def b_def)
  have seat: "well_seated strategy n i (eat_time s i) (begin_lock strategy a b d)" "held_forks (begin_lock strategy a b d) = []"
    using own d by (cases strategy; auto simp: begin_lock_def outer_def inner_def own_forks_def)+
  show ?thesis
    by (rule table_inv_step [OF assms(1,3), where A = "{}" and B = "{}" and p = "begin_lock strategy a b d"])
      (use s seat in auto)
qed

lemma dine_inv:
  assumes "table_inv strategy n s" and "i < n" and "dine strategy spurious i s = Some s'"
  shows "table_inv strategy n s'"
proof -
  note I = table_invD [OF assms(1)] and step = table_inv_step [OF assms(1,2)]
  have seat: "well_seated strategy n i (eat_time s i) (diner_of s i)" by (rule I(2))
  show ?thesis
  proof (cases "diner_of s i")
    case (LockOuter sw a b d)
    let ?p = "if strategy = Ordered then LockInner sw a b d else TryInner sw a b d"
    have s': "fork_of s (outer sw a b) = None" "s' = take_fork i (outer sw a b) ?p s"
      using assms(3) LockOuter by (auto split: if_splits)
    show ?thesis by (rule step [where A = "{outer sw a b}" and B = "{}" and p = ?p]) (use LockOuter s' seat in auto)
  next
    case (TryInner sw a b d)
    have own: "outer sw a b \<noteq> inner sw a b" "{outer sw a b, inner sw a b} = {a, b}"
      using own_forks_swap [of n i a b sw] seat [unfolded TryInner] unfolding well_seated.simps by blast+
    show ?thesis
    proof (cases "fork_of s (inner sw a b) = None \<and> \<not> spurious")
      case True
      then have s': "s' = take_fork i (inner sw a b) (Eating a b d) s" using assms(3) TryInner by simp
      show ?thesis
        by (rule step [where A = "{inner sw a b}" and B = "{}" and p = "Eating a b d"]) (use TryInner True s' seat own in auto)
    next
      case False
      then have s': "s' = sit i (GiveUp sw a b d) s" using assms(3) TryInner by auto
      show ?thesis by (rule step [where A = "{}" and B = "{}" and p = "GiveUp sw a b d"]) (use TryInner s' seat in auto)
    qed
  next
    case (GiveUp sw a b d)
    have s': "s' = put_fork i (outer sw a b) (retry strategy sw a b d) s" using assms(3) GiveUp by simp
    have r: "held_forks (retry strategy sw a b d) = []" "well_seated strategy n i (eat_time s i) (retry strategy sw a b d)"
      using seat GiveUp by (cases strategy; simp)+
    show ?thesis by (rule step [where A = "{}" and B = "{outer sw a b}" and p = "retry strategy sw a b d"]) (use GiveUp s' r in auto)
  next
    case (Yielding sw a b d)
    have s': "s' = sit i (LockOuter (\<not> sw) a b d) s" using assms(3) Yielding by simp
    show ?thesis by (rule step [where A = "{}" and B = "{}" and p = "LockOuter (\<not> sw) a b d"]) (use Yielding s' seat in auto)
  next
    case (LockInner sw a b d)
    have own: "outer sw a b \<noteq> inner sw a b" "{outer sw a b, inner sw a b} = {a, b}"
      using own_forks_swap [of n i a b sw] seat [unfolded LockInner] unfolding well_seated.simps by blast+
    have s': "fork_of s (inner sw a b) = None" "s' = take_fork i (inner sw a b) (Eating a b d) s"
      using assms(3) LockInner by (auto split: if_splits)
    show ?thesis by (rule step [where A = "{inner sw a b}" and B = "{}" and p = "Eating a b d"]) (use LockInner s' seat own in auto)
  next
    case (Eating a b d)
    have s': "s' = sit i (Leaving [b, a]) (s\<lparr>eat_time := (eat_time s)(i := eat_time s i + d)\<rparr>)"
      using assms(3) Eating by simp
    show ?thesis
      by (rule step [where A = "{}" and B = "{}" and p = "Leaving [b, a]"]) (use Eating s' seat in \<open>auto simp: own_forks_def\<close>)
  next
    case (Leaving fs)
    show ?thesis
    proof (cases fs)
      case Nil
      then have s': "s' = sit i Thinking s" using assms(3) Leaving by simp
      show ?thesis by (rule step [where A = "{}" and B = "{}" and p = Thinking]) (use Leaving Nil s' seat in auto)
    next
      case (Cons f fs')
      then have s': "s' = put_fork i f (Leaving fs') s" using assms(3) Leaving by simp
      show ?thesis by (rule step [where A = "{}" and B = "{f}" and p = "Leaving fs'"]) (use Leaving Cons s' seat in auto)
    qed
  qed (use assms(3) in simp)
qed

lemma table_inv_new: "table_inv strategy n table_new"
  by (simp add: table_inv_def table_new_def)

interpretation table: invariant "table_step strategy n" "\<lambda>s. 2 \<le> n \<and> table_inv strategy n s" for strategy n
  by unfold_locales (auto elim!: table_stepE intro: eat_inv dine_inv)

lemma reachable_table: "2 \<le> n \<Longrightarrow> (table_step strategy n)\<^sup>*\<^sup>* table_new s \<Longrightarrow> table_inv strategy n s"
  using table.steps_inv [of strategy n table_new s] table_inv_new by blast

section \<open>Nobody is blocked for ever\<close>

text \<open>Only a philosopher before a fork that another one holds is blocked.\<close>

lemma blocked_fork:
  assumes "table_inv strategy n s" and "i < n" and "diner_of s i \<noteq> Thinking" and "dine strategy spurious i s = None"
  obtains f where "fork_of s f \<noteq> None" and "\<And>g. g \<in> set (held_forks (diner_of s i)) \<Longrightarrow> g < f \<and> strategy = Ordered"
    and "f \<in> {left_fork i, right_fork n i}"
proof (cases "diner_of s i")
  case (LockOuter sw a b d)
  then show thesis using assms(4) table_invD(2) [OF assms(1), of i] own_forks_swap [of n i a b sw]
    by (intro that [of "outer sw a b"]) (auto simp: own_forks_def split: if_splits)
next
  case (LockInner sw a b d)
  then show thesis using assms(4) table_invD(2) [OF assms(1), of i] own_forks_swap [of n i a b sw]
    by (intro that [of "inner sw a b"]) (auto simp: own_forks_def split: if_splits)
next
  case (Leaving fs)
  then show thesis using assms(4) by (cases fs) auto
qed (use assms(3,4) in \<open>auto split: if_splits\<close>)

lemma fork_range: "i < n \<Longrightarrow> f \<in> {left_fork i, right_fork n i} \<Longrightarrow> f < n"
  by (auto simp: left_fork_def right_fork_def)

lemma someone_dines:
  assumes "table_inv strategy n s" and "diner_of s i \<noteq> Thinking"
  shows "\<exists>j s'. j < n \<and> dine strategy False j s = Some s'"
proof (rule ccontr)
  assume stuck: "\<not> ?thesis"
  note I = table_invD [OF assms(1)]
  have up: "\<exists>j f'. diner_of s j \<noteq> Thinking \<and> fork_of s f' \<noteq> None \<and> f < f' \<and> f' < n" if f: "fork_of s f \<noteq> None" for f
  proof -
    obtain j where j: "f \<in> set (held_forks (diner_of s j))" using f I(1) by auto
    then have busy: "diner_of s j \<noteq> Thinking" by auto
    then have "j < n" by (rule I(3))
    then have "dine strategy False j s = None" using stuck by (meson not_None_eq)
    then obtain f' where "fork_of s f' \<noteq> None" "f < f'" "f' \<in> {left_fork j, right_fork n j}"
      using blocked_fork [OF assms(1) \<open>j < n\<close> busy] j by metis
    then show ?thesis using busy fork_range [OF \<open>j < n\<close>] by blast
  qed
  have chain: "\<exists>f. fork_of s f \<noteq> None \<and> k \<le> f" for k
  proof (induction k)
    case 0
    have "i < n" using assms(2) by (rule I(3))
    then have "dine strategy False i s = None" using stuck by (meson not_None_eq)
    then show ?case using blocked_fork [OF assms(1) \<open>i < n\<close> assms(2)] by blast
  next
    case (Suc k)
    then show ?case using up by (meson Suc_leI le_less_trans)
  qed
  obtain f where "fork_of s f \<noteq> None" "n \<le> f" using chain by blast
  then show False using up by (meson le_less_trans not_less order.strict_trans)
qed

section \<open>The ordered table finishes\<close>

fun rank :: "diner \<Rightarrow> nat" where
  "rank (LockOuter sw a b d) = 6"
| "rank (LockInner sw a b d) = 5"
| "rank (Eating a b d) = 4"
| "rank (Leaving fs) = 8 + length fs"
| "rank _ = 7"

definition energy :: "nat \<Rightarrow> table \<Rightarrow> nat" where
  "energy n s = (\<Sum>i < n. 8 * (full - eat_time s i) + rank (diner_of s i))"

lemma energy_step:
  assumes "i < n" and "diner_of s' = (diner_of s)(i := p)" and "\<forall>j. j \<noteq> i \<longrightarrow> eat_time s' j = eat_time s j"
    and "8 * (full - eat_time s' i) + rank p < 8 * (full - eat_time s i) + rank (diner_of s i)"
  shows "energy n s' < energy n s"
  unfolding energy_def
proof (rule sum_strict_mono_ex1)
  show "\<forall>j \<in> {..<n}. 8 * (full - eat_time s' j) + rank (diner_of s' j) \<le> 8 * (full - eat_time s j) + rank (diner_of s j)"
    using assms(2-4) by (auto simp: less_imp_le)
  show "\<exists>j \<in> {..<n}. 8 * (full - eat_time s' j) + rank (diner_of s' j) < 8 * (full - eat_time s j) + rank (diner_of s j)"
    using assms by (intro bexI [of _ i]) auto
qed simp

lemma ordered_step_energy:
  assumes "table_inv Ordered n s" and "table_step Ordered n s s'"
  shows "energy n s' < energy n s"
  using assms(2)
proof (cases rule: table_step.cases)
  case (1 i ms heads)
  then have p: "\<exists>p. s' = sit i p s \<and> rank p = 6" "diner_of s i = Thinking"
    by (auto simp: eat_def begin_lock_def Let_def split: if_splits)
  then obtain p where "s' = sit i p s" "rank p = 6" by blast
  then show ?thesis using p(2) 1(1) by (intro energy_step [of i n s' s p]) auto
next
  case (2 i spurious)
  have seat: "well_seated Ordered n i (eat_time s i) (diner_of s i)" by (rule table_invD(2) [OF assms(1)])
  show ?thesis
  proof (cases "diner_of s i")
    case (LockOuter sw a b d)
    then show ?thesis using 2 by (intro energy_step [of i n s' s "LockInner sw a b d"]) (auto split: if_splits)
  next
    case (LockInner sw a b d)
    then show ?thesis using 2 by (intro energy_step [of i n s' s "Eating a b d"]) (auto split: if_splits)
  next
    case (Eating a b d)
    then show ?thesis using 2 seat by (intro energy_step [of i n s' s "Leaving [b, a]"]) auto
  next
    case (Leaving fs)
    show ?thesis
    proof (cases fs)
      case Nil
      then show ?thesis using 2 Leaving by (intro energy_step [of i n s' s Thinking]) auto
    next
      case (Cons f fs')
      then show ?thesis using 2 Leaving by (intro energy_step [of i n s' s "Leaving fs'"]) auto
    qed
  qed (use 2 seat in auto)
qed

lemma ordered_run_energy:
  assumes "2 \<le> n" and "(table_step Ordered n ^^ k) table_new s"
  shows "k + energy n s \<le> n * 240007 \<and> table_inv Ordered n s"
  using assms(2)
proof (induction k arbitrary: s)
  case 0
  then have "s = table_new" by simp
  moreover have "energy n table_new = n * 240007" by (simp add: energy_def table_new_def full_def)
  ultimately show ?case using table_inv_new by simp
next
  case (Suc k)
  then obtain s1 where s1: "(table_step Ordered n ^^ k) table_new s1" "table_step Ordered n s1 s" by auto
  then have IH: "k + energy n s1 \<le> n * 240007" "table_inv Ordered n s1" using Suc.IH by auto
  have "table_inv Ordered n s" using table.step_inv [OF s1(2)] IH(2) assms(1) by blast
  then show ?case using ordered_step_energy [OF IH(2) s1(2)] IH(1) by simp
qed

lemma hungry_steps:
  assumes "table_inv strategy n s" and "i < n" and "eat_time s i < full \<or> diner_of s i \<noteq> Thinking"
  shows "\<exists>s'. table_step strategy n s s'"
proof (cases "diner_of s i = Thinking")
  case True
  then have "eat strategy n i True 1 s \<noteq> None" using assms(3) by (simp add: eat_def Let_def)
  then show ?thesis using table_step.intros(1) [of i n 1 strategy True s] assms(2) by auto
next
  case False
  then show ?thesis using someone_dines [OF assms(1)] table_step.intros(2) by blast
qed

section \<open>Properties\<close>

text \<open>C21. With every strategy and from two philosophers on: two philosophers that eat at the same time share no
  fork, nobody eats more than 30 seconds, and while somebody is hungry or in \<open>eat\<close> some thread can take a
  step, so the table never deadlocks.\<close>

theorem round_table_safe:
  assumes "2 \<le> n" and "(table_step strategy n)\<^sup>*\<^sup>* table_new s"
  shows "(\<forall>i j a b d a' b' d'. i \<noteq> j \<longrightarrow> diner_of s i = Eating a b d \<longrightarrow> diner_of s j = Eating a' b' d' \<longrightarrow>
        {left_fork i, right_fork n i} \<inter> {left_fork j, right_fork n j} = {})
    \<and> (\<forall>i. eat_time s i \<le> full)
    \<and> (\<forall>i < n. eat_time s i < full \<or> diner_of s i \<noteq> Thinking \<longrightarrow> (\<exists>s'. table_step strategy n s s'))"
proof (intro conjI allI impI)
  have inv: "table_inv strategy n s" using reachable_table [OF assms] .
  note I = table_invD [OF inv]
  fix i
  show "\<exists>s'. table_step strategy n s s'" if "i < n" "eat_time s i < full \<or> diner_of s i \<noteq> Thinking"
    using hungry_steps [OF inv that] .
  show "eat_time s i \<le> full" using I(2) [of i] by (cases "diner_of s i") auto
  fix j a b d a' b' d' assume e: "i \<noteq> j" "diner_of s i = Eating a b d" "diner_of s j = Eating a' b' d'"
  have "{a, b} = {left_fork i, right_fork n i}" "{a', b'} = {left_fork j, right_fork n j}"
    using I(2) [of i] I(2) [of j] e(2,3) by (simp_all only: well_seated.simps own_forks_def)
  moreover have "{a, b} \<inter> {a', b'} = {}" using I(4) [of _ i j] e by auto
  ultimately show "{left_fork i, right_fork n i} \<inter> {left_fork j, right_fork n j} = {}" by metis
qed

text \<open>C20. With the forks taken in the order of their addresses everybody finishes: no run is longer than
  240007 steps for each philosopher, and a run can only end when each has eaten for exactly 30 seconds
  and all forks are free.\<close>

theorem ordered_table_finishes:
  assumes "2 \<le> n" and "(table_step Ordered n ^^ k) table_new s"
  shows "k \<le> n * 240007
    \<and> ((\<nexists>s'. table_step Ordered n s s') \<longrightarrow> (\<forall>i < n. eat_time s i = full) \<and> (\<forall>f. fork_of s f = None))"
proof -
  have inv: "k + energy n s \<le> n * 240007" "table_inv Ordered n s" using ordered_run_energy [OF assms] by auto
  note I = table_invD [OF inv(2)]
  have sated: "eat_time s i = full \<and> diner_of s i = Thinking" if "i < n" "\<nexists>s'. table_step Ordered n s s'" for i
  proof -
    have t: "diner_of s i = Thinking" "\<not> eat_time s i < full" using hungry_steps [OF inv(2) that(1)] that(2) by blast+
    then show ?thesis using I(2) [of i] by simp
  qed
  have "fork_of s f = None" if "\<nexists>s'. table_step Ordered n s s'" for f
  proof (rule ccontr)
    assume "fork_of s f \<noteq> None"
    then obtain i where i: "f \<in> set (held_forks (diner_of s i))" using I(1) by auto
    then have "i < n" by (intro I(3)) auto
    then show False using sated that i by auto
  qed
  then show ?thesis using inv(1) sated by simp
qed

text \<open>Runs to evaluate: who begins to eat with which coin and time, and who takes the next step.\<close>

datatype table_choice = Begin nat bool nat | Go nat

fun follow_table :: "strategy \<Rightarrow> nat \<Rightarrow> table_choice list \<Rightarrow> table \<Rightarrow> table option" where
  "follow_table strategy n [] s = Some s"
| "follow_table strategy n (Begin i heads ms # cs) s =
     (if i < n \<and> 1 \<le> ms \<and> ms \<le> 10 then Option.bind (eat strategy n i heads ms s) (follow_table strategy n cs) else None)"
| "follow_table strategy n (Go i # cs) s =
     (if i < n then Option.bind (dine strategy False i s) (follow_table strategy n cs) else None)"

lemma follow_table_steps: "follow_table strategy n cs s = Some s' \<Longrightarrow> (table_step strategy n ^^ length cs) s s'"
proof (induction strategy n cs s rule: follow_table.induct)
  case (2 strategy n i heads ms cs s)
  then obtain s1 where "i < n" "1 \<le> ms" "ms \<le> 10" "eat strategy n i heads ms s = Some s1" "follow_table strategy n cs s1 = Some s'"
    by (auto split: if_splits Option.bind_splits)
  then show ?case using 2(1) table_step.intros(1) [of i n ms strategy heads s s1]
    by (auto simp del: relpowp.simps intro: relpowp_Suc_I2)
next
  case (3 strategy n i cs s)
  then obtain s1 where "i < n" "dine strategy False i s = Some s1" "follow_table strategy n cs s1 = Some s'"
    by (auto simp del: dine.simps split: if_splits Option.bind_splits)
  then show ?case using 3(1) table_step.intros(2) [of i n strategy False s s1]
    by (auto simp del: relpowp.simps dine.simps intro: relpowp_Suc_I2)
qed simp

theorem round_table_safe_witness:
  "\<exists>s. (table_step Smart 4)\<^sup>*\<^sup>* table_new s \<and> diner_of s 0 = Eating 0 1 5 \<and> diner_of s 2 = Eating 3 2 7
    \<and> diner_of s 1 = LockOuter True 2 1 3 \<and> eat_time s 0 \<le> full \<and> (\<exists>s'. table_step Smart 4 s s')"
proof -
  let ?cs = "[Begin 0 True 5, Go 0, Begin 1 False 3, Go 1, Go 0, Go 1, Go 1, Begin 2 False 7, Go 2, Go 2]"
  obtain s where f: "follow_table Smart 4 ?cs table_new = Some s"
    and s: "diner_of s 0 = Eating 0 1 5" "diner_of s 2 = Eating 3 2 7" "diner_of s 1 = LockOuter True 2 1 3"
    by (simp add: eat_def table_new_def full_def get_eat_duration_def begin_lock_def left_fork_def right_fork_def
        sit_def take_fork_def put_fork_def outer_def inner_def Let_def)
  have run: "(table_step Smart 4)\<^sup>*\<^sup>* table_new s" using follow_table_steps [OF f] by (rule relpowp_imp_rtranclp)
  have two: "(2::nat) \<le> 4" and one: "1 < (4::nat)" "diner_of s 1 \<noteq> Thinking" using s(3) by simp_all
  note R = round_table_safe [OF two run]
  have "eat_time s 0 \<le> full" "\<exists>s'. table_step Smart 4 s s'" using R one by blast+
  then show ?thesis using run s by blast
qed

theorem ordered_table_finishes_witness:
  "\<exists>s. (table_step Ordered 2 ^^ 4) table_new s \<and> diner_of s 0 = Eating 0 1 10 \<and> diner_of s 1 = LockOuter True 1 0 4
    \<and> (4::nat) \<le> 2 * 240007"
proof -
  let ?cs = "[Begin 1 True 4, Begin 0 True 10, Go 0, Go 0]"
  obtain s where f: "follow_table Ordered 2 ?cs table_new = Some s"
    and s: "diner_of s 0 = Eating 0 1 10" "diner_of s 1 = LockOuter True 1 0 4"
    by (simp add: eat_def table_new_def full_def get_eat_duration_def begin_lock_def left_fork_def right_fork_def
        sit_def take_fork_def put_fork_def outer_def inner_def Let_def)
  have run: "(table_step Ordered 2 ^^ 4) table_new s"
    using follow_table_steps [OF f] by (simp only: list.size add_0 plus_1_eq_Suc numeral_eq_Suc pred_numeral_simps arith_simps add_Suc_right add_0_right)
  show ?thesis using ordered_table_finishes [OF _ run] run s by auto
qed

end
