(* ===== verification/Latches.thy ===== *)
theory Latches
  imports Locks
begin

text \<open>
  The classes of \<open>seminars/2023/10-condition-variables\<close> that wait on a condition variable: the event, the
  latch, the latch with an atomic counter and the semaphore. A step is one critical section: up to the
  end of the call, or up to blocking in \<open>wait\<close>, which gives up the mutex and blocks at once. A notification
  makes blocked threads wake; a blocked thread may also wake by itself. A thread that wakes tests the
  condition again. The threads are \<open>0, \<dots>, n - 1\<close>.
\<close>

datatype waiter = Away | Tested | Blocked | Awake | ToNotify | Through

text \<open>\<open>notify_all\<close>, and \<open>notify_one\<close>, which wakes the thread \<open>u\<close> that the library chooses, if any is blocked.\<close>

definition wake_all :: "(nat \<Rightarrow> waiter) \<Rightarrow> nat \<Rightarrow> waiter" where
  "wake_all phase t = (if phase t = Blocked then Awake else phase t)"

definition wake_one :: "nat \<Rightarrow> (nat \<Rightarrow> waiter) \<Rightarrow> nat \<Rightarrow> waiter" where
  "wake_one u phase = (if phase u = Blocked then phase(u := Awake) else phase)"

section \<open>The event\<close>

record event =
  ready :: bool
  event_phase :: "nat \<Rightarrow> waiter"

definition Event_new :: event where
  "Event_new = \<lparr>ready = False, event_phase = (\<lambda>t. Away)\<rparr>"

definition Signal :: "nat \<Rightarrow> event \<Rightarrow> event option" where
  "Signal t e =
     (case event_phase e t of
        Away \<Rightarrow> Some (e\<lparr>ready := True, event_phase := (event_phase e)(t := ToNotify)\<rparr>)
      | ToNotify \<Rightarrow> Some (e\<lparr>event_phase := (wake_all (event_phase e))(t := Away)\<rparr>)
      | _ \<Rightarrow> None)"

definition WaitEvent :: "nat \<Rightarrow> event \<Rightarrow> event option" where
  "WaitEvent t e =
     (case event_phase e t of
        Away \<Rightarrow> Some (e\<lparr>event_phase := (event_phase e)(t := if ready e then Through else Blocked)\<rparr>)
      | Awake \<Rightarrow> Some (e\<lparr>event_phase := (event_phase e)(t := if ready e then Through else Blocked)\<rparr>)
      | _ \<Rightarrow> None)"

definition WakeEvent :: "nat \<Rightarrow> event \<Rightarrow> event option" where
  "WakeEvent t e = (if event_phase e t = Blocked then Some (e\<lparr>event_phase := (event_phase e)(t := Awake)\<rparr>) else None)"

inductive event_step :: "event \<Rightarrow> event \<Rightarrow> bool" where
  "Signal t e = Some e' \<Longrightarrow> event_step e e'"
| "WaitEvent t e = Some e' \<Longrightarrow> event_step e e'"
| "WakeEvent t e = Some e' \<Longrightarrow> event_step e e'"

inductive_cases event_stepE: "event_step e e'"

definition event_inv :: "event \<Rightarrow> bool" where
  "event_inv e \<longleftrightarrow> (ready e \<longrightarrow> (\<exists>t. event_phase e t = Blocked) \<longrightarrow> (\<exists>t. event_phase e t = ToNotify))
     \<and> (\<forall>t. event_phase e t = Through \<longrightarrow> ready e)"

lemma event_step_inv: "event_step e e' \<Longrightarrow> event_inv e \<Longrightarrow> event_inv e'"
proof (elim event_stepE)
  fix t assume "Signal t e = Some e'" "event_inv e"
  then show "event_inv e'"
    by (auto simp: Signal_def event_inv_def wake_all_def split: waiter.splits if_splits)
next
  fix t assume "WaitEvent t e = Some e'" "event_inv e"
  then show "event_inv e'"
    by (auto simp: WaitEvent_def event_inv_def split: waiter.splits if_splits) (metis waiter.distinct)+
next
  fix t assume "WakeEvent t e = Some e'" "event_inv e"
  then show "event_inv e'"
    by (auto simp: WakeEvent_def event_inv_def split: waiter.splits if_splits) (metis waiter.distinct)+
qed

interpretation event: invariant event_step event_inv
  by unfold_locales (rule event_step_inv)

section \<open>The latch\<close>

record latch =
  latch_value :: int
  latch_phase :: "nat \<Rightarrow> waiter"

definition Latch_new :: "int \<Rightarrow> latch" where
  "Latch_new initial_value = \<lparr>latch_value = initial_value, latch_phase = (\<lambda>t. Away)\<rparr>"

definition Arrive :: "latch \<Rightarrow> latch" where
  "Arrive l =
     (let l = l\<lparr>latch_value := latch_value l - 1\<rparr> in if latch_value l = 0 then l\<lparr>latch_phase := wake_all (latch_phase l)\<rparr> else l)"

definition WaitLatch :: "nat \<Rightarrow> latch \<Rightarrow> latch option" where
  "WaitLatch t l =
     (if latch_phase l t = Away \<or> latch_phase l t = Awake
      then Some (l\<lparr>latch_phase := (latch_phase l)(t := if latch_value l = 0 then Through else Blocked)\<rparr>) else None)"

definition WakeLatch :: "nat \<Rightarrow> latch \<Rightarrow> latch option" where
  "WakeLatch t l = (if latch_phase l t = Blocked then Some (l\<lparr>latch_phase := (latch_phase l)(t := Awake)\<rparr>) else None)"

text \<open>The runs of a latch, with the number of arrivals.\<close>

inductive latch_run :: "int \<Rightarrow> nat \<Rightarrow> latch \<Rightarrow> bool" for initial where
  latch_start: "latch_run initial 0 (Latch_new initial)"
| latch_arrive: "latch_run initial k l \<Longrightarrow> latch_run initial (k + 1) (Arrive l)"
| latch_wait: "latch_run initial k l \<Longrightarrow> WaitLatch t l = Some l' \<Longrightarrow> latch_run initial k l'"
| latch_wake: "latch_run initial k l \<Longrightarrow> WakeLatch t l = Some l' \<Longrightarrow> latch_run initial k l'"

lemma latch_run_inv:
  "latch_run initial k l \<Longrightarrow> latch_value l = initial - int k \<and> (latch_value l = 0 \<longrightarrow> (\<forall>t. latch_phase l t \<noteq> Blocked))
     \<and> ((\<exists>t. latch_phase l t = Through) \<longrightarrow> initial \<le> int k)"
proof (induction rule: latch_run.induct)
  case (latch_arrive k l)
  then show ?case by (auto simp: Arrive_def Let_def wake_all_def split: if_splits)
next
  case (latch_wait k l t l')
  then show ?case by (auto simp: WaitLatch_def split: if_splits)
next
  case (latch_wake k l t l')
  then show ?case by (auto simp: WakeLatch_def split: if_splits)
qed (simp add: Latch_new_def)

section \<open>The latch with an atomic counter\<close>

text \<open>\<open>Arrive\<close> does not take the mutex: it decrements in one step and notifies in another one. So \<open>Wait\<close> is
  two steps: it takes the mutex and tests the condition, and then blocks.\<close>

record atomic_latch =
  atomic_value :: int
  atomic_phase :: "nat \<Rightarrow> waiter"

definition AtomicLatch_new :: "int \<Rightarrow> atomic_latch" where
  "AtomicLatch_new initial_value = \<lparr>atomic_value = initial_value, atomic_phase = (\<lambda>t. Away)\<rparr>"

definition ArriveAtomic :: "nat \<Rightarrow> atomic_latch \<Rightarrow> atomic_latch option" where
  "ArriveAtomic t l =
     (case atomic_phase l t of
        Away \<Rightarrow> Some (l\<lparr>atomic_value := atomic_value l - 1,
          atomic_phase := (atomic_phase l)(t := if atomic_value l = 1 then ToNotify else Away)\<rparr>)
      | ToNotify \<Rightarrow> Some (l\<lparr>atomic_phase := (wake_all (atomic_phase l))(t := Away)\<rparr>)
      | _ \<Rightarrow> None)"

text \<open>The thread \<open>m\<close>, if any, has the mutex: it has tested the condition.\<close>

definition WaitAtomic :: "nat \<Rightarrow> nat \<Rightarrow> atomic_latch \<Rightarrow> atomic_latch option" where
  "WaitAtomic n t l =
     (case atomic_phase l t of
        Tested \<Rightarrow> Some (l\<lparr>atomic_phase := (atomic_phase l)(t := Blocked)\<rparr>)
      | p \<Rightarrow> if (p = Away \<or> p = Awake) \<and> (\<forall>m \<in> {..<n}. atomic_phase l m \<noteq> Tested)
             then Some (l\<lparr>atomic_phase := (atomic_phase l)(t := if atomic_value l = 0 then Through else Tested)\<rparr>)
             else None)"

definition WakeAtomic :: "nat \<Rightarrow> atomic_latch \<Rightarrow> atomic_latch option" where
  "WakeAtomic t l =
     (if atomic_phase l t = Blocked then Some (l\<lparr>atomic_phase := (atomic_phase l)(t := Awake)\<rparr>) else None)"

inductive atomic_step :: "nat \<Rightarrow> atomic_latch \<Rightarrow> atomic_latch \<Rightarrow> bool" for n where
  "t < n \<Longrightarrow> ArriveAtomic t l = Some l' \<Longrightarrow> atomic_step n l l'"
| "t < n \<Longrightarrow> WaitAtomic n t l = Some l' \<Longrightarrow> atomic_step n l l'"
| "t < n \<Longrightarrow> WakeAtomic t l = Some l' \<Longrightarrow> atomic_step n l l'"

lemma atomic_latch_lost_wake_up:
  "\<exists>l. (atomic_step 2)\<^sup>*\<^sup>* (AtomicLatch_new 1) l \<and> atomic_value l = 0
    \<and> atomic_phase l = (\<lambda>t. Away)(0 := Blocked)"
proof -
  let ?l = "AtomicLatch_new 1"
  obtain l1 where l1: "WaitAtomic 2 0 ?l = Some l1" "l1 = \<lparr>atomic_value = 1, atomic_phase = (\<lambda>t. Away)(0 := Tested)\<rparr>"
    by (simp add: WaitAtomic_def AtomicLatch_new_def)
  obtain l2 where l2: "ArriveAtomic 1 l1 = Some l2" "l2 = \<lparr>atomic_value = 0, atomic_phase = (\<lambda>t. Away)(0 := Tested, 1 := ToNotify)\<rparr>"
    by (simp add: ArriveAtomic_def l1(2))
  obtain l3 where l3: "ArriveAtomic 1 l2 = Some l3" "l3 = \<lparr>atomic_value = 0, atomic_phase = (\<lambda>t. Away)(0 := Tested)\<rparr>"
    by (auto simp: ArriveAtomic_def l2(2) wake_all_def fun_eq_iff)
  obtain l4 where l4: "WaitAtomic 2 0 l3 = Some l4" "l4 = \<lparr>atomic_value = 0, atomic_phase = (\<lambda>t. Away)(0 := Blocked)\<rparr>"
    by (auto simp: WaitAtomic_def l3(2) fun_eq_iff)
  have "atomic_step 2 ?l l1" "atomic_step 2 l1 l2" "atomic_step 2 l2 l3" "atomic_step 2 l3 l4"
    using l1(1) l2(1) l3(1) l4(1) atomic_step.intros(1) [of 1 2] atomic_step.intros(2) [of 0 2] by auto
  then have "(atomic_step 2)\<^sup>*\<^sup>* ?l l4" by (meson rtranclp.rtrancl_into_rtrancl three_steps)
  then show ?thesis using l4(2) by auto
qed

section \<open>The semaphore\<close>

record sema =
  counter :: int
  sema_phase :: "nat \<Rightarrow> waiter"

definition Semaphore_new :: "int \<Rightarrow> sema" where
  "Semaphore_new initial = \<lparr>counter = initial, sema_phase = (\<lambda>t. Away)\<rparr>"

definition lock_sema :: "nat \<Rightarrow> sema \<Rightarrow> sema option" where
  "lock_sema t s =
     (if sema_phase s t = Away \<or> sema_phase s t = Awake
      then if counter s > 0 then Some (s\<lparr>counter := counter s - 1, sema_phase := (sema_phase s)(t := Through)\<rparr>)
           else Some (s\<lparr>sema_phase := (sema_phase s)(t := Blocked)\<rparr>)
      else None)"

definition unlock_sema :: "nat \<Rightarrow> nat \<Rightarrow> sema \<Rightarrow> sema option" where
  "unlock_sema u t s =
     (case sema_phase s t of
        Through \<Rightarrow> Some (s\<lparr>counter := counter s + 1, sema_phase := (sema_phase s)(t := ToNotify)\<rparr>)
      | ToNotify \<Rightarrow>
          if sema_phase s u = Blocked \<or> (\<nexists>v. sema_phase s v = Blocked)
          then Some (s\<lparr>sema_phase := (wake_one u (sema_phase s))(t := Away)\<rparr>) else None
      | _ \<Rightarrow> None)"

definition wake_sema :: "nat \<Rightarrow> sema \<Rightarrow> sema option" where
  "wake_sema t s = (if sema_phase s t = Blocked then Some (s\<lparr>sema_phase := (sema_phase s)(t := Awake)\<rparr>) else None)"

inductive semaphore_step :: "nat \<Rightarrow> sema \<Rightarrow> sema \<Rightarrow> bool" for n where
  "t < n \<Longrightarrow> lock_sema t s = Some s' \<Longrightarrow> semaphore_step n s s'"
| "t < n \<Longrightarrow> unlock_sema u t s = Some s' \<Longrightarrow> semaphore_step n s s'"
| "t < n \<Longrightarrow> wake_sema t s = Some s' \<Longrightarrow> semaphore_step n s s'"

inductive_cases semaphore_stepE: "semaphore_step n s s'"

definition sema_inv :: "nat \<Rightarrow> int \<Rightarrow> sema \<Rightarrow> bool" where
  "sema_inv n initial s \<longleftrightarrow> 0 \<le> counter s \<and> counter s + int (holders n Through (sema_phase s)) = initial
     \<and> (\<forall>t. n \<le> t \<longrightarrow> sema_phase s t = Away)
     \<and> ((\<exists>t. sema_phase s t = Blocked)
         \<longrightarrow> counter s \<le> int (holders n Awake (sema_phase s)) + int (holders n ToNotify (sema_phase s)))"

lemma holders_goto:
  assumes "t < n" and "phase t \<noteq> q"
  shows "holders n p (phase(t := q)) + (if phase t = p then 1 else 0) = holders n p phase + (if q = p then 1 else 0)"
  using assms holders_update [OF assms(1), of p phase q] holders_pos [OF assms(1), of phase p] by auto

lemma semaphore_step_inv:
  assumes "semaphore_step n s s'" and "sema_inv n initial s"
  shows "sema_inv n initial s'"
  using assms(1)
proof (rule semaphore_stepE)
  fix t assume t: "t < n" "lock_sema t s = Some s'"
  then have p: "sema_phase s t = Away \<or> sema_phase s t = Awake" by (auto simp: lock_sema_def split: if_splits)
  show ?thesis
  proof (cases "0 < counter s")
    case True
    then have s': "s' = s\<lparr>counter := counter s - 1, sema_phase := (sema_phase s)(t := Through)\<rparr>"
      using t(2) p by (simp add: lock_sema_def split: if_splits)
    note h = holders_goto [OF t(1), of "sema_phase s" Through]
    show ?thesis using assms(2) p t(1) True h [of Through] h [of Awake] h [of ToNotify]
      unfolding sema_inv_def s' by (auto split: if_splits)
  next
    case False
    then have s': "s' = s\<lparr>sema_phase := (sema_phase s)(t := Blocked)\<rparr>"
      using t(2) p by (simp add: lock_sema_def split: if_splits)
    note h = holders_goto [OF t(1), of "sema_phase s" Blocked]
    show ?thesis using assms(2) p t(1) False h [of Through] h [of Awake] h [of ToNotify]
      unfolding sema_inv_def s' by (auto split: if_splits)
  qed
next
  fix t u assume t: "t < n" "unlock_sema u t s = Some s'"
  then consider (release) "sema_phase s t = Through" "s' = s\<lparr>counter := counter s + 1, sema_phase := (sema_phase s)(t := ToNotify)\<rparr>"
    | (none) "sema_phase s t = ToNotify" "\<nexists>v. sema_phase s v = Blocked" "s' = s\<lparr>sema_phase := (sema_phase s)(t := Away)\<rparr>"
    | (some) "sema_phase s t = ToNotify" "sema_phase s u = Blocked" "s' = s\<lparr>sema_phase := (sema_phase s)(u := Awake, t := Away)\<rparr>"
    by (auto simp: unlock_sema_def wake_one_def split: waiter.splits if_splits)
  then show ?thesis
  proof cases
    case release
    note h = holders_goto [OF t(1), of "sema_phase s" ToNotify]
    show ?thesis using assms(2) release t(1) h [of Through] h [of Awake] h [of ToNotify]
      unfolding sema_inv_def by (auto split: if_splits)
  next
    case none
    note h = holders_goto [OF t(1), of "sema_phase s" Away]
    show ?thesis using assms(2) none t(1) h [of Through]
      unfolding sema_inv_def by (auto split: if_splits)
  next
    case some
    have u: "u < n" "u \<noteq> t" using assms(2) some by (auto simp: sema_inv_def not_le [symmetric])
    note h = holders_goto [OF u(1), of "sema_phase s" Awake]
    note h' = holders_goto [OF t(1), of "(sema_phase s)(u := Awake)" Away]
    show ?thesis using assms(2) some u t(1) h [of Through] h [of Awake] h [of ToNotify] h' [of Through] h' [of Awake] h' [of ToNotify]
      unfolding sema_inv_def by (auto split: if_splits)
  qed
next
  fix t assume t: "t < n" "wake_sema t s = Some s'"
  then have s': "sema_phase s t = Blocked" "s' = s\<lparr>sema_phase := (sema_phase s)(t := Awake)\<rparr>"
    by (auto simp: wake_sema_def split: if_splits)
  note h = holders_goto [OF t(1), of "sema_phase s" Awake]
  show ?thesis using assms(2) s' t(1) h [of Through] h [of Awake] h [of ToNotify]
    unfolding sema_inv_def by (auto split: if_splits)
qed

interpretation semaphore: invariant "semaphore_step n" "sema_inv n initial" for n initial
  by unfold_locales (rule semaphore_step_inv)

section \<open>Properties\<close>

text \<open>Nobody is left behind by an event: once it is signalled and every \<open>Signal\<close> has returned no thread is
  blocked in \<open>Wait\<close>, and \<open>Wait\<close> returns only after a \<open>Signal\<close>.\<close>

lemma event_wakes_all:
  assumes "event_step\<^sup>*\<^sup>* Event_new e"
  shows "(ready e \<longrightarrow> (\<forall>t. event_phase e t \<noteq> ToNotify) \<longrightarrow> (\<forall>t. event_phase e t \<noteq> Blocked))
     \<and> ((\<exists>t. event_phase e t = Through) \<longrightarrow> ready e)"
proof -
  have "event_inv Event_new" by (simp add: event_inv_def Event_new_def)
  then have "event_inv e" using event.steps_inv [OF assms] by blast
  then show ?thesis unfolding event_inv_def by blast
qed

text \<open>Nor by a latch: when its value is zero no thread is blocked, and \<open>Wait\<close> returns only when the initial
  number of arrivals was made. The latch with the atomic counter has no such lemma.\<close>

lemma latch_wakes_all:
  assumes "latch_run initial k l"
  shows "latch_value l = initial - int k \<and> (latch_value l = 0 \<longrightarrow> (\<forall>t. latch_phase l t \<noteq> Blocked))
     \<and> ((\<exists>t. latch_phase l t = Through) \<longrightarrow> initial \<le> int k)"
  using latch_run_inv [OF assms] .

text \<open>The semaphore lets at most \<open>initial\<close> threads through at a time and loses no wake-up: while the
  counter is positive and a thread is blocked, some thread is awake and about to test the counter, or is
  about to notify.\<close>

theorem semaphore_bound:
  assumes "0 \<le> initial" and "(semaphore_step n)\<^sup>*\<^sup>* (Semaphore_new initial) s"
  shows "int (card {t. sema_phase s t = Through}) = initial - counter s \<and> 0 \<le> counter s
    \<and> (0 < counter s \<longrightarrow> (\<exists>t. sema_phase s t = Blocked) \<longrightarrow> (\<exists>t < n. sema_phase s t = Awake \<or> sema_phase s t = ToNotify))"
proof -
  have "sema_inv n initial (Semaphore_new initial)"
    using assms(1) by (simp add: sema_inv_def Semaphore_new_def holders_def)
  then have inv: "sema_inv n initial s" using semaphore.steps_inv [OF assms(2)] by blast
  have "{t. sema_phase s t = Through} = {t. t < n \<and> sema_phase s t = Through}"
    using inv by (auto simp: sema_inv_def not_le [symmetric])
  then have through: "int (card {t. sema_phase s t = Through}) = initial - counter s" "0 \<le> counter s"
    using inv by (simp_all add: sema_inv_def holders_def)
  have some: "\<exists>t < n. sema_phase s t = p" if "0 < holders n p (sema_phase s)" for p
    using that by (auto simp: holders_def card_gt_0_iff)
  have "\<exists>t < n. sema_phase s t = Awake \<or> sema_phase s t = ToNotify" if "0 < counter s" "\<exists>t. sema_phase s t = Blocked"
  proof -
    have "counter s \<le> int (holders n Awake (sema_phase s)) + int (holders n ToNotify (sema_phase s))"
      using inv that(2) unfolding sema_inv_def by blast
    then have "0 < holders n Awake (sema_phase s) \<or> 0 < holders n ToNotify (sema_phase s)" using that(1) by linarith
    then show ?thesis using some by blast
  qed
  then show ?thesis using through by blast
qed

theorem semaphore_bound_witness:
  "\<exists>s. (semaphore_step 2)\<^sup>*\<^sup>* (Semaphore_new 1) s \<and> sema_phase s 0 = ToNotify \<and> sema_phase s 1 = Blocked
    \<and> counter s = 1 \<and> int (card {t. sema_phase s t = Through}) = 0
    \<and> (\<exists>t < 2. sema_phase s t = Awake \<or> sema_phase s t = ToNotify)"
proof -
  let ?s = "Semaphore_new 1"
  obtain s1 where s1: "lock_sema 0 ?s = Some s1" "s1 = \<lparr>counter = 0, sema_phase = (\<lambda>t. Away)(0 := Through)\<rparr>"
    by (simp add: lock_sema_def Semaphore_new_def)
  obtain s2 where s2: "lock_sema 1 s1 = Some s2" "s2 = \<lparr>counter = 0, sema_phase = (\<lambda>t. Away)(0 := Through, 1 := Blocked)\<rparr>"
    by (simp add: lock_sema_def s1(2))
  obtain s3 where s3: "unlock_sema 1 0 s2 = Some s3" "counter s3 = 1" "sema_phase s3 0 = ToNotify" "sema_phase s3 1 = Blocked"
    by (simp add: unlock_sema_def s2(2))
  have "semaphore_step 2 ?s s1" "semaphore_step 2 s1 s2" "semaphore_step 2 s2 s3"
    using s1(1) s2(1) s3(1) semaphore_step.intros(1) [of 0 2] semaphore_step.intros(1) [of 1 2] semaphore_step.intros(2) [of 0 2] by auto
  then have run: "(semaphore_step 2)\<^sup>*\<^sup>* ?s s3" by (rule three_steps)
  have "0 \<le> (1 :: int)" "0 < counter s3" "\<exists>t. sema_phase s3 t = Blocked" using s3 by auto
  then show ?thesis using semaphore_bound [OF _ run] run s3(2-4) by auto
qed

end
