(* ===== verification/ThreadPool.thy ===== *)
theory ThreadPool
  imports Locks "HOL-Library.Multiset"
begin

text \<open>
  The blocking queue and the thread pool of \<open>seminars/2023/10-condition-variables\<close> (\<open>05-queue.cpp\<close>,
  \<open>06-thread-pool.cpp\<close>). A step is one critical section of the queue's mutex, the end of a task, or the
  end of \<open>Join\<close>. A worker blocks in \<open>Take\<close> while the queue is open and empty; it wakes when it is notified or
  by itself, and tests the condition again. A task is a value; it returns, and does not throw. The workers
  are \<open>0, \<dots>, n - 1\<close>.
\<close>

section \<open>The queue\<close>

datatype 'a worker = Fetching | Blocked | Awake | Working 'a | Exited

record 'a pool =
  buffer :: "'a list"
  stopped :: bool
  worker_of :: "nat \<Rightarrow> 'a worker"
  accepted :: "'a list"
  started :: "'a list"
  finished :: "'a list"
  joined :: bool

text \<open>A fresh pool; \<open>accepted\<close>, \<open>started\<close> and \<open>finished\<close> are the tasks that \<open>Put\<close> accepted, that workers took and
  that returned, in their order.\<close>

definition ThreadPool_new :: "'a pool" where
  "ThreadPool_new = \<lparr>buffer = [], stopped = False, worker_of = (\<lambda>w. Fetching), accepted = [], started = [],
     finished = [], joined = False\<rparr>"

definition notify_all :: "(nat \<Rightarrow> 'a worker) \<Rightarrow> nat \<Rightarrow> 'a worker" where
  "notify_all ws w = (if ws w = Blocked then Awake else ws w)"

text \<open>\<open>Put\<close>, where \<open>u\<close> is the blocked worker that \<open>notify_one\<close> picks, if any is blocked: the reply, and the pool.\<close>

definition Put :: "nat \<Rightarrow> 'a \<Rightarrow> 'a pool \<Rightarrow> (bool \<times> 'a pool) option" where
  "Put u task s =
     (if stopped s then Some (False, s)
      else if worker_of s u = Blocked
      then Some (True, s\<lparr>buffer := buffer s @ [task], accepted := accepted s @ [task], worker_of := (worker_of s)(u := Awake)\<rparr>)
      else if \<forall>w. worker_of s w \<noteq> Blocked
      then Some (True, s\<lparr>buffer := buffer s @ [task], accepted := accepted s @ [task]\<rparr>)
      else None)"

text \<open>\<open>Take\<close> of the worker \<open>w\<close>, up to its end or to blocking: with a task it works, without one it ends its loop.\<close>

definition Take :: "nat \<Rightarrow> 'a pool \<Rightarrow> 'a pool option" where
  "Take w s =
     (if worker_of s w = Fetching \<or> worker_of s w = Awake then
        case buffer s of
          task # tasks \<Rightarrow> Some (s\<lparr>buffer := tasks, started := started s @ [task], worker_of := (worker_of s)(w := Working task)\<rparr>)
        | [] \<Rightarrow> if stopped s then Some (s\<lparr>worker_of := (worker_of s)(w := Exited)\<rparr>)
                else Some (s\<lparr>worker_of := (worker_of s)(w := Blocked)\<rparr>)
      else None)"

definition CloseImpl :: "bool \<Rightarrow> 'a pool \<Rightarrow> 'a pool" where
  "CloseImpl clear s =
     (let s = s\<lparr>stopped := True\<rparr>; s = if clear then s\<lparr>buffer := []\<rparr> else s in s\<lparr>worker_of := notify_all (worker_of s)\<rparr>)"

definition Close :: "'a pool \<Rightarrow> 'a pool" where
  "Close s = CloseImpl False s"

definition Cancel :: "'a pool \<Rightarrow> 'a pool" where
  "Cancel s = CloseImpl True s"

section \<open>The pool\<close>

definition WakeWorker :: "nat \<Rightarrow> 'a pool \<Rightarrow> 'a pool option" where
  "WakeWorker w s = (if worker_of s w = Blocked then Some (s\<lparr>worker_of := (worker_of s)(w := Awake)\<rparr>) else None)"

definition EndTask :: "nat \<Rightarrow> 'a pool \<Rightarrow> 'a pool option" where
  "EndTask w s =
     (case worker_of s w of
        Working task \<Rightarrow> Some (s\<lparr>finished := finished s @ [task], worker_of := (worker_of s)(w := Fetching)\<rparr>)
      | _ \<Rightarrow> None)"

definition Submit :: "nat \<Rightarrow> 'a \<Rightarrow> 'a pool \<Rightarrow> 'a pool option" where
  "Submit u task s = map_option snd (Put u task s)"

text \<open>The end of \<open>Join\<close>, once the queue is closed: every worker has ended its loop.\<close>

definition JoinWorkers :: "nat \<Rightarrow> 'a pool \<Rightarrow> 'a pool option" where
  "JoinWorkers n s = (if stopped s \<and> (\<forall>w < n. worker_of s w = Exited) then Some (s\<lparr>joined := True\<rparr>) else None)"

text \<open>The steps of the workers, and all steps of a pool, where the client submits tasks and joins.\<close>

inductive worker_step :: "nat \<Rightarrow> 'a pool \<Rightarrow> 'a pool \<Rightarrow> bool" for n where
  "w < n \<Longrightarrow> Take w s = Some s' \<Longrightarrow> worker_step n s s'"
| "w < n \<Longrightarrow> EndTask w s = Some s' \<Longrightarrow> worker_step n s s'"

inductive pool_step :: "nat \<Rightarrow> 'a pool \<Rightarrow> 'a pool \<Rightarrow> bool" for n where
  pool_worker: "worker_step n s s' \<Longrightarrow> pool_step n s s'"
| pool_wake: "w < n \<Longrightarrow> WakeWorker w s = Some s' \<Longrightarrow> pool_step n s s'"
| pool_submit: "Submit u task s = Some s' \<Longrightarrow> pool_step n s s'"
| pool_close: "pool_step n s (Close s)"
| pool_join: "JoinWorkers n s = Some s' \<Longrightarrow> pool_step n s s'"

inductive_cases worker_stepE: "worker_step n s s'"
inductive_cases pool_stepE: "pool_step n s s'"

definition working :: "nat \<Rightarrow> 'a pool \<Rightarrow> 'a multiset" where
  "working n s = (\<Sum>w < n. case worker_of s w of Working task \<Rightarrow> {#task#} | _ \<Rightarrow> {#})"

definition pool_inv :: "nat \<Rightarrow> 'a pool \<Rightarrow> bool" where
  "pool_inv n s \<longleftrightarrow>
     accepted s = started s @ buffer s
   \<and> mset (started s) = mset (finished s) + working n s
   \<and> (\<forall>w. n \<le> w \<longrightarrow> worker_of s w = Fetching)
   \<and> (\<forall>w. worker_of s w = Exited \<longrightarrow> stopped s \<and> buffer s = [])
   \<and> (stopped s \<longrightarrow> (\<forall>w. worker_of s w \<noteq> Blocked))
   \<and> ((\<exists>w. worker_of s w = Blocked) \<longrightarrow> length (buffer s) \<le> holders n Awake (worker_of s))
   \<and> (joined s \<longrightarrow> stopped s \<and> (\<forall>w < n. worker_of s w = Exited))"

section \<open>The invariant\<close>

fun task_of :: "'a worker \<Rightarrow> 'a multiset" where
  "task_of (Working task) = {#task#}"
| "task_of _ = {#}"

lemma working_alt: "working n s = (\<Sum>w < n. task_of (worker_of s w))"
  unfolding working_def by (rule sum.cong) (auto split: worker.splits)

lemma working_update:
  assumes "w < n" and "worker_of s' = (worker_of s)(w := p)"
  shows "working n s' + task_of (worker_of s w) = working n s + task_of p"
proof -
  have "(\<Sum>v \<in> {..<n} - {w}. task_of (worker_of s' v)) = (\<Sum>v \<in> {..<n} - {w}. task_of (worker_of s v))"
    by (rule sum.cong) (auto simp: assms(2))
  then show ?thesis using assms by (simp add: working_alt sum.remove [of "{..<n}" w])
qed

lemma working_same: "(\<And>w. w < n \<Longrightarrow> task_of (worker_of s' w) = task_of (worker_of s w)) \<Longrightarrow> working n s' = working n s"
  unfolding working_alt by (rule sum.cong) auto

lemma awake_update:
  assumes "w < n" and "ws w \<noteq> p"
  shows "holders n Awake (ws(w := p)) + (if ws w = Awake then 1 else 0) = holders n Awake ws + (if p = Awake then 1 else 0)"
  using assms holders_update [OF assms(1), of Awake ws p] holders_pos [OF assms(1), of ws Awake] by auto

lemma pool_invD:
  assumes "pool_inv n s"
  shows "accepted s = started s @ buffer s" and "mset (started s) = mset (finished s) + working n s"
    and "n \<le> w \<Longrightarrow> worker_of s w = Fetching" and "worker_of s w = Exited \<Longrightarrow> stopped s \<and> buffer s = []"
    and "stopped s \<Longrightarrow> worker_of s w \<noteq> Blocked"
    and "worker_of s w = Blocked \<Longrightarrow> length (buffer s) \<le> holders n Awake (worker_of s)"
    and "joined s \<Longrightarrow> stopped s \<and> (\<forall>w < n. worker_of s w = Exited)"
  using assms by (auto simp: pool_inv_def)

lemma Take_inv:
  assumes "pool_inv n s" and "w < n" and "Take w s = Some s'"
  shows "pool_inv n s'"
proof -
  note I = pool_invD [OF assms(1)]
  have p: "worker_of s w = Fetching \<or> worker_of s w = Awake" using assms(3) by (auto simp: Take_def split: if_splits)
  have joined: "\<not> joined s" using I(7) assms(2) p by auto
  show ?thesis
  proof (cases "buffer s")
    case (Cons task tasks)
    then have s': "s' = s\<lparr>buffer := tasks, started := started s @ [task], worker_of := (worker_of s)(w := Working task)\<rparr>"
      using assms(3) p by (auto simp: Take_def)
    have h: "length tasks \<le> holders n Awake ((worker_of s)(w := Working task))" if "worker_of s v = Blocked" for v
      using awake_update [OF assms(2), of "worker_of s" "Working task"] p I(6) [OF that] Cons by (auto split: if_splits)
    have "working n s' = working n s + {#task#}" using working_update [OF assms(2), of s' s "Working task"] p s' by auto
    then show ?thesis unfolding pool_inv_def
      using I(1-5) p Cons joined h assms(2) by (auto simp: s' split: if_splits)
  next
    case Nil
    then obtain q where s': "s' = s\<lparr>worker_of := (worker_of s)(w := q)\<rparr>" and q: "q = (if stopped s then Exited else Blocked)"
      using assms(3) p by (auto simp: Take_def split: if_splits)
    have "working n s' = working n s" by (rule working_same) (use s' q p in auto)
    then show ?thesis unfolding pool_inv_def
      using I(1-5) p Nil joined assms(2) q by (auto simp: s' split: if_splits)
  qed
qed

lemma EndTask_inv:
  assumes "pool_inv n s" and "w < n" and "EndTask w s = Some s'"
  shows "pool_inv n s'"
proof -
  note I = pool_invD [OF assms(1)]
  obtain task where p: "worker_of s w = Working task"
    and s': "s' = s\<lparr>finished := finished s @ [task], worker_of := (worker_of s)(w := Fetching)\<rparr>"
    using assms(3) by (auto simp: EndTask_def split: worker.splits)
  have joined: "\<not> joined s" using I(7) assms(2) p by auto
  have "working n s' + {#task#} = working n s" using working_update [OF assms(2), of s' s Fetching] p s' by simp
  then have "mset (started s') = mset (finished s') + working n s'" using I(2) s' by (simp add: ac_simps)
  moreover have "holders n Awake ((worker_of s)(w := Fetching)) = holders n Awake (worker_of s)"
    using awake_update [OF assms(2), of "worker_of s" Fetching] p by simp
  ultimately show ?thesis unfolding pool_inv_def using I(1,3-6) joined by (auto simp: s' split: if_splits)
qed

lemma WakeWorker_inv:
  assumes "pool_inv n s" and "w < n" and "WakeWorker w s = Some s'"
  shows "pool_inv n s'"
proof -
  note I = pool_invD [OF assms(1)]
  have p: "worker_of s w = Blocked" and s': "s' = s\<lparr>worker_of := (worker_of s)(w := Awake)\<rparr>"
    using assms(3) by (auto simp: WakeWorker_def split: if_splits)
  have joined: "\<not> joined s" using I(7) assms(2) p by auto
  have "working n s' = working n s" by (rule working_same) (use s' p in auto)
  moreover have "holders n Awake ((worker_of s)(w := Awake)) = holders n Awake (worker_of s) + 1"
    using awake_update [OF assms(2), of "worker_of s" Awake] p by simp
  ultimately show ?thesis unfolding pool_inv_def
    using I(1-5) I(6) [OF p] joined assms(2) p by (auto simp: s' split: if_splits)
qed

lemma Submit_inv:
  assumes "pool_inv n s" and "Submit u task s = Some s'"
  shows "pool_inv n s'"
proof -
  note I = pool_invD [OF assms(1)]
  consider (stopped) "stopped s" "s' = s"
    | (wake) "\<not> stopped s" "worker_of s u = Blocked"
      "s' = s\<lparr>buffer := buffer s @ [task], accepted := accepted s @ [task], worker_of := (worker_of s)(u := Awake)\<rparr>"
    | (none) "\<not> stopped s" "\<forall>w. worker_of s w \<noteq> Blocked" "s' = s\<lparr>buffer := buffer s @ [task], accepted := accepted s @ [task]\<rparr>"
    using assms(2) by (auto simp: Submit_def Put_def split: if_splits)
  then show ?thesis
  proof cases
    case stopped
    then show ?thesis using assms(1) by simp
  next
    case wake
    have u: "u < n" using I(3) [of u] wake(2) by (cases "n \<le> u") auto
    have "working n s' = working n s" by (rule working_same) (use wake in auto)
    moreover have "holders n Awake ((worker_of s)(u := Awake)) = holders n Awake (worker_of s) + 1"
      using awake_update [OF u, of "worker_of s" Awake] wake(2) by simp
    ultimately show ?thesis unfolding pool_inv_def
      using I(1-4) I(6) [OF wake(2)] I(7) wake u by (auto split: if_splits)
  next
    case none
    have "working n s' = working n s" by (rule working_same) (use none in auto)
    then show ?thesis unfolding pool_inv_def using I(1-4,7) none by auto
  qed
qed

lemma Close_inv:
  assumes "pool_inv n s"
  shows "pool_inv n (Close s)"
proof -
  note I = pool_invD [OF assms]
  have "working n (Close s) = working n s"
    by (rule working_same) (auto simp: Close_def CloseImpl_def notify_all_def)
  then show ?thesis unfolding pool_inv_def
    using I(1-4,7) by (auto simp: Close_def CloseImpl_def notify_all_def)
qed

lemma JoinWorkers_inv:
  assumes "pool_inv n s" and "JoinWorkers n s = Some s'"
  shows "pool_inv n s'"
proof -
  have "stopped s" "\<forall>w < n. worker_of s w = Exited" and s': "s' = s\<lparr>joined := True\<rparr>"
    using assms(2) by (simp_all add: JoinWorkers_def split: if_splits)
  moreover have "working n s' = working n s" by (rule working_same) (simp add: s')
  ultimately show ?thesis using pool_invD [OF assms(1)] unfolding pool_inv_def by (simp add: s')
qed

lemma worker_step_inv: "worker_step n s s' \<Longrightarrow> pool_inv n s \<Longrightarrow> pool_inv n s'"
  by (erule worker_stepE) (blast intro: Take_inv EndTask_inv)+

lemma pool_step_inv: "pool_step n s s' \<Longrightarrow> pool_inv n s \<Longrightarrow> pool_inv n s'"
  by (erule pool_stepE) (blast intro: worker_step_inv WakeWorker_inv Submit_inv Close_inv JoinWorkers_inv)+

interpretation pool: invariant "pool_step n" "pool_inv n" for n
  by unfold_locales (rule pool_step_inv)

lemma pool_inv_new: "pool_inv n ThreadPool_new"
  by (simp add: pool_inv_def ThreadPool_new_def working_def)

section \<open>Every accepted task runs once\<close>

lemma all_exited:
  assumes "pool_inv n s" and "0 < n" and "\<forall>w < n. worker_of s w = Exited"
  shows "mset (finished s) = mset (accepted s)"
proof -
  note I = pool_invD [OF assms(1)]
  have "working n s = {#}" using assms(3) by (simp add: working_alt)
  moreover have "buffer s = []" using I(4) [of 0] assms(2,3) by simp
  ultimately show ?thesis using I(1,2) by simp
qed

text \<open>A worker that fetches, has woken up or works can take its next step.\<close>

lemma worker_ready:
  assumes "w < n" and "worker_of s w \<noteq> Blocked" and "worker_of s w \<noteq> Exited"
  shows "\<exists>s'. worker_step n s s'"
proof (cases "worker_of s w")
  case (Working task)
  then have "EndTask w s \<noteq> None" by (simp add: EndTask_def)
  then show ?thesis using assms(1) by (auto intro: worker_step.intros)
next
  case Fetching
  then have "Take w s \<noteq> None" by (simp add: Take_def split: list.splits)
  then show ?thesis using assms(1) by (auto intro: worker_step.intros)
next
  case Awake
  then have "Take w s \<noteq> None" by (simp add: Take_def split: list.splits)
  then show ?thesis using assms(1) by (auto intro: worker_step.intros)
qed (use assms in auto)

text \<open>No wake-up is lost: while there are tasks in the queue, some worker goes on.\<close>

lemma no_lost_task:
  assumes "pool_inv n s" and "0 < n" and "buffer s \<noteq> []"
  shows "\<exists>s'. worker_step n s s'"
proof (rule ccontr)
  note I = pool_invD [OF assms(1)]
  assume stuck: "\<nexists>s'. worker_step n s s'"
  have blocked: "worker_of s w = Blocked" if "w < n" for w
    using worker_ready [OF that] stuck I(4) [of w] assms(3) by blast
  then have "holders n Awake (worker_of s) = 0" by (auto simp: holders_def)
  then show False using I(6) [OF blocked [OF assms(2)]] assms(3) by simp
qed

section \<open>The workers after \<open>Join\<close> closed the queue\<close>

fun worker_weight :: "'a worker \<Rightarrow> nat" where
  "worker_weight (Working task) = 2"
| "worker_weight Fetching = 1"
| "worker_weight Awake = 1"
| "worker_weight _ = 0"

definition pool_weight :: "nat \<Rightarrow> 'a pool \<Rightarrow> nat" where
  "pool_weight n s = 2 * length (buffer s) + (\<Sum>w < n. worker_weight (worker_of s w))"

lemma weight_update:
  assumes "w < n" and "worker_of s' = (worker_of s)(w := p)"
  shows "(\<Sum>v < n. worker_weight (worker_of s' v)) + worker_weight (worker_of s w)
    = (\<Sum>v < n. worker_weight (worker_of s v)) + worker_weight p"
proof -
  have "(\<Sum>v \<in> {..<n} - {w}. worker_weight (worker_of s' v)) = (\<Sum>v \<in> {..<n} - {w}. worker_weight (worker_of s v))"
    by (rule sum.cong) (auto simp: assms(2))
  then show ?thesis using assms by (simp add: sum.remove [of "{..<n}" w])
qed

lemma Take_weight:
  assumes "w < n" and "Take w s = Some s'"
  shows "pool_weight n s' < pool_weight n s" and "stopped s' = stopped s" and "accepted s' = accepted s"
proof -
  have p: "worker_weight (worker_of s w) = 1" using assms(2) by (auto simp: Take_def split: if_splits)
  have "pool_weight n s' < pool_weight n s \<and> stopped s' = stopped s \<and> accepted s' = accepted s"
  proof (cases "buffer s")
    case (Cons task tasks)
    then have s': "s' = s\<lparr>buffer := tasks, started := started s @ [task], worker_of := (worker_of s)(w := Working task)\<rparr>"
      using assms(2) by (simp add: Take_def split: if_splits)
    have "worker_of s' = (worker_of s)(w := Working task)" by (simp add: s')
    from weight_update [OF assms(1) this] show ?thesis using p Cons s' by (simp add: pool_weight_def del: fun_upd_apply)
  next
    case Nil
    then obtain q where q: "q = Exited \<or> q = Blocked" and s': "s' = s\<lparr>worker_of := (worker_of s)(w := q)\<rparr>"
      using assms(2) by (auto simp: Take_def split: if_splits)
    have "worker_of s' = (worker_of s)(w := q)" by (simp add: s')
    from weight_update [OF assms(1) this] show ?thesis
      using p q s' by (auto simp add: pool_weight_def simp del: fun_upd_apply)
  qed
  then show "pool_weight n s' < pool_weight n s" and "stopped s' = stopped s" and "accepted s' = accepted s" by simp_all
qed

lemma EndTask_weight:
  assumes "w < n" and "EndTask w s = Some s'"
  shows "pool_weight n s' < pool_weight n s" and "stopped s' = stopped s" and "accepted s' = accepted s"
proof -
  obtain task where p: "worker_of s w = Working task"
    and s': "s' = s\<lparr>finished := finished s @ [task], worker_of := (worker_of s)(w := Fetching)\<rparr>"
    using assms(2) by (auto simp: EndTask_def split: worker.splits)
  have "worker_of s' = (worker_of s)(w := Fetching)" by (simp add: s')
  from weight_update [OF assms(1) this] show "pool_weight n s' < pool_weight n s"
    using p s' by (simp add: pool_weight_def del: fun_upd_apply)
  show "stopped s' = stopped s" and "accepted s' = accepted s" by (simp_all add: s')
qed

lemma worker_step_weight:
  assumes "worker_step n s s'"
  shows "pool_weight n s' < pool_weight n s" and "stopped s' = stopped s" and "accepted s' = accepted s"
  using assms by (auto elim!: worker_stepE dest: Take_weight EndTask_weight)

lemma worker_run:
  assumes "(worker_step n ^^ k) s s'" and "pool_inv n s"
  shows "k + pool_weight n s' \<le> pool_weight n s" and "pool_inv n s'" and "stopped s' = stopped s"
    and "accepted s' = accepted s"
proof -
  have "k + pool_weight n s' \<le> pool_weight n s \<and> pool_inv n s' \<and> stopped s' = stopped s \<and> accepted s' = accepted s"
    using assms(1)
  proof (induction k arbitrary: s')
    case 0
    then show ?case using assms(2) by simp
  next
    case (Suc k)
    then obtain r where r: "(worker_step n ^^ k) s r" "worker_step n r s'" by auto
    show ?case using Suc.IH [OF r(1)] worker_step_weight [OF r(2)] worker_step_inv [OF r(2)] by auto
  qed
  then show "k + pool_weight n s' \<le> pool_weight n s" and "pool_inv n s'" and "stopped s' = stopped s"
    and "accepted s' = accepted s" by simp_all
qed

lemma pool_weight_le: "pool_weight n s \<le> 2 * length (buffer s) + 2 * n"
proof -
  have "worker_weight p \<le> 2" for p :: "'a worker" by (cases p) auto
  then have "(\<Sum>w < n. worker_weight (worker_of s w)) \<le> 2 * n"
    using sum_bounded_above [of "{..<n}" "\<lambda>w. worker_weight (worker_of s w)" 2] by simp
  then show ?thesis by (simp add: pool_weight_def)
qed

lemma quiet_pool:
  assumes "pool_inv n s" and "0 < n" and "\<nexists>s'. worker_step n s s'"
  shows "mset (finished s) = mset (accepted s)" and "stopped s \<Longrightarrow> JoinWorkers n s \<noteq> None"
proof -
  note I = pool_invD [OF assms(1)]
  have quiet: "worker_of s w = Blocked \<or> worker_of s w = Exited" if "w < n" for w
    using worker_ready [OF that] assms(3) by blast
  have "working n s = (\<Sum>w < n. {#})" unfolding working_alt by (rule sum.cong) (use quiet in fastforce)+
  moreover have "buffer s = []" using no_lost_task [OF assms(1,2)] assms(3) by blast
  ultimately show "mset (finished s) = mset (accepted s)" using I(1,2) by simp
  show "JoinWorkers n s \<noteq> None" if "stopped s" using quiet I(5) that by (auto simp: JoinWorkers_def)
qed

text \<open>After \<open>Cancel\<close> the queue refuses every value and has none to give, so each worker that comes to it ends.\<close>

lemma Cancel_ends:
  shows "Put u task (Cancel s) = Some (False, Cancel s)"
    and "worker_of (Cancel s) w = Fetching \<or> worker_of (Cancel s) w = Awake
      \<Longrightarrow> map_option (\<lambda>s'. worker_of s' w) (Take w (Cancel s)) = Some Exited"
  by (simp_all add: Cancel_def CloseImpl_def Put_def Take_def)

text \<open>The reader of a queue that is used by one thread gets what was put in, in order.\<close>

lemma Take_first:
  assumes "Put u task s = Some (True, s')" and "buffer s = []" and "worker_of s' w = Fetching \<or> worker_of s' w = Awake"
  shows "map_option (\<lambda>s'. worker_of s' w) (Take w s') = Some (Working task)"
  using assms by (auto simp: Put_def Take_def split: if_splits)

text \<open>Once \<open>Join\<close> has returned every accepted task has run.\<close>

lemma Join_waits:
  assumes "0 < n" and "(pool_step n)\<^sup>*\<^sup>* ThreadPool_new s" and "joined s"
  shows "mset (finished s) = mset (accepted s) \<and> buffer s = []"
proof -
  note inv = pool.steps_inv [OF assms(2) pool_inv_new]
  note I = pool_invD [OF inv]
  have "\<forall>w < n. worker_of s w = Exited" using I(7) [OF assms(3)] by simp
  then show ?thesis using all_exited [OF inv assms(1)] I(4) [of 0] assms(1) by simp
qed

text \<open>C22. Whatever the clients and workers of a pool did, tasks are started in the order in which they were
  accepted, each once, and those not finished are being worked on. From there the workers alone make
  only finitely many steps, and they stop only when every accepted task is finished: no task waits in
  the queue while all workers sleep. If the queue was closed by then, \<open>Join\<close> returns.\<close>

theorem thread_pool_drains:
  assumes "0 < n" and "(pool_step n)\<^sup>*\<^sup>* ThreadPool_new s" and "(worker_step n ^^ k) s s'"
  shows "accepted s' = started s' @ buffer s' \<and> mset (started s') = mset (finished s') + working n s'
    \<and> k \<le> 2 * length (buffer s) + 2 * n
    \<and> ((\<nexists>r. worker_step n s' r) \<longrightarrow>
        mset (finished s') = mset (accepted s') \<and> (stopped s \<longrightarrow> (\<exists>r. JoinWorkers n s' = Some r)))"
proof -
  note inv = pool.steps_inv [OF assms(2) pool_inv_new]
  note R = worker_run [OF assms(3) inv]
  have "k \<le> 2 * length (buffer s) + 2 * n" using R(1) pool_weight_le [of n s] by linarith
  then show ?thesis using pool_invD(1,2) [OF R(2)] quiet_pool [OF R(2) assms(1)] R(3) by auto
qed

text \<open>One worker, one task, and \<open>Join\<close>.\<close>

theorem thread_pool_drains_witness:
  "\<exists>s s' :: nat pool. (pool_step 1)\<^sup>*\<^sup>* ThreadPool_new s \<and> (worker_step 1 ^^ 3) s s' \<and> accepted s = [7]
    \<and> mset (finished s') = {#7#} \<and> (3::nat) \<le> 2 * 1 + 2 * 1 \<and> (\<exists>r. JoinWorkers 1 s' = Some r)"
proof -
  define a :: "nat pool" where "a = ThreadPool_new\<lparr>buffer := [7], accepted := [7]\<rparr>"
  define s where "s = Close a"
  define b where "b = s\<lparr>buffer := [], started := [7], worker_of := (worker_of s)(0 := Working 7)\<rparr>"
  define c where "c = b\<lparr>finished := [7], worker_of := (worker_of b)(0 := Fetching)\<rparr>"
  define d where "d = c\<lparr>worker_of := (worker_of c)(0 := Exited)\<rparr>"
  note defs = a_def s_def b_def c_def d_def ThreadPool_new_def Close_def CloseImpl_def notify_all_def
  have "Submit 0 7 ThreadPool_new = Some a" by (simp add: defs Submit_def Put_def)
  then have run: "(pool_step 1)\<^sup>*\<^sup>* ThreadPool_new s"
    unfolding s_def by (intro two_steps [of _ _ a] pool_step.intros)
  have "Take 0 s = Some b" "EndTask 0 b = Some c" "Take 0 c = Some d"
    by (simp_all add: defs Take_def EndTask_def)
  then have steps: "worker_step 1 s b" "worker_step 1 b c" "worker_step 1 c d"
    by (auto intro: worker_step.intros [where w = 0])
  have three: "(worker_step 1 ^^ 3) s d"
    using steps by (auto simp: numeral_3_eq_3 OO_def)
  have quiet: "\<nexists>r. worker_step 1 d r"
    by (auto elim!: worker_stepE simp: Take_def EndTask_def d_def)
  have "accepted s = [7]" "stopped s" "accepted d = [7]" "length (buffer s) = 1" by (simp_all add: defs)
  then show ?thesis using thread_pool_drains [OF _ run three] run three quiet by (intro exI [of _ s] exI [of _ d]) simp
qed

end
