(* ===== verification/DoubleArray.thy ===== *)
theory DoubleArray
  imports Prelude
begin

text \<open>
  The pair of arrays of \<open>seminars/2023/01-memory/01-new-sucks.cpp\<close>, over an explicit free store. What
  may throw, throws as a list of outcomes says, one for each array that is made and each that is copied.
  \<open>None\<close> is undefined behaviour: an array is deleted that is not there, or accessed out of its range.
\<close>

section \<open>The free store\<close>

datatype thrown = StdException | OtherException

text \<open>An operation ends well, or throws, when it copies at the given element.\<close>

datatype outcome = Fine | Throws thrown nat

record 'a free_store =
  blocks :: "nat \<Rightarrow> 'a list option"
  next_block :: nat
  outcomes :: "outcome list"

definition free_store_new :: "outcome list \<Rightarrow> 'a free_store" where
  "free_store_new os = \<lparr>blocks = (\<lambda>p. None), next_block = 0, outcomes = os\<rparr>"

fun next_outcome :: "'a free_store \<Rightarrow> outcome \<times> 'a free_store" where
  "next_outcome s = (case outcomes s of [] \<Rightarrow> (Fine, s) | r # rs \<Rightarrow> (r, s\<lparr>outcomes := rs\<rparr>))"

text \<open>\<open>new T[n]\<close>: when an element or the allocation throws, nothing is left of the array.\<close>

definition new_block :: "'a \<Rightarrow> nat \<Rightarrow> 'a free_store \<Rightarrow> (thrown + nat) \<times> 'a free_store" where
  "new_block dflt n s =
     (case next_outcome s of
        (Throws e k, s) \<Rightarrow> (Inl e, s)
      | (Fine, s) \<Rightarrow> (Inr (next_block s),
          s\<lparr>blocks := (blocks s)(next_block s := Some (replicate n dflt)), next_block := Suc (next_block s)\<rparr>))"

definition delete_block :: "nat \<Rightarrow> 'a free_store \<Rightarrow> 'a free_store option" where
  "delete_block p s = (if blocks s p = None then None else Some (s\<lparr>blocks := (blocks s)(p := None)\<rparr>))"

text \<open>\<open>std::copy\<close> of \<open>n\<close> elements.\<close>

definition copy_block :: "nat \<Rightarrow> nat \<Rightarrow> nat \<Rightarrow> 'a free_store \<Rightarrow> (thrown option \<times> 'a free_store) option" where
  "copy_block source n target s =
     (case (blocks s source, blocks s target) of
        (Some xs, Some ys) \<Rightarrow>
          if length xs < n \<or> length ys < n then None
          else (case next_outcome s of
              (Fine, s) \<Rightarrow> Some (None, s\<lparr>blocks := (blocks s)(target := Some (take n xs @ drop n ys))\<rparr>)
            | (Throws e k, s) \<Rightarrow>
                Some (if k < n then Some e else None,
                  s\<lparr>blocks := (blocks s)(target := Some (take (min k n) xs @ drop (min k n) ys))\<rparr>))
      | _ \<Rightarrow> None)"

section \<open>The class\<close>

record double_array =
  first :: nat
  first_size :: nat
  second :: nat
  second_size :: nat

text \<open>The constructor: the handler catches what derives from \<open>std::exception\<close>.\<close>

definition DoubleArray_new ::
    "'a \<Rightarrow> nat \<Rightarrow> nat \<Rightarrow> 'a free_store \<Rightarrow> ((thrown + double_array) \<times> 'a free_store) option" where
  "DoubleArray_new dflt n m s =
     (case new_block dflt n s of
        (Inl e, s) \<Rightarrow> Some (Inl e, s)
      | (Inr p, s) \<Rightarrow>
          (case new_block dflt m s of
             (Inr q, s) \<Rightarrow> Some (Inr \<lparr>first = p, first_size = n, second = q, second_size = m\<rparr>, s)
           | (Inl StdException, s) \<Rightarrow> map_option (Pair (Inl StdException)) (delete_block p s)
           | (Inl OtherException, s) \<Rightarrow> Some (Inl OtherException, s)))"

definition Free :: "double_array \<Rightarrow> 'a free_store \<Rightarrow> 'a free_store option" where
  "Free this s = Option.bind (delete_block (second this) s) (delete_block (first this))"

text \<open>\<open>operator=\<close>, with the object after it.\<close>

definition AssignArrays ::
    "'a \<Rightarrow> double_array \<Rightarrow> double_array \<Rightarrow> 'a free_store \<Rightarrow> ((thrown + double_array) \<times> 'a free_store) option" where
  "AssignArrays dflt this other s =
     (case new_block dflt (first_size other) s of
        (Inl e, s) \<Rightarrow> Some (Inl e, s)
      | (Inr p, s) \<Rightarrow>
          (case new_block dflt (second_size other) s of
             (Inl e, s) \<Rightarrow> Some (Inl e, s)
           | (Inr q, s) \<Rightarrow>
               (case copy_block (first other) (first_size other) p s of
                  None \<Rightarrow> None
                | Some (Some e, s) \<Rightarrow> Some (Inl e, s)
                | Some (None, s) \<Rightarrow>
                    (case copy_block (second other) (second_size other) q s of
                       None \<Rightarrow> None
                     | Some (Some e, s) \<Rightarrow> Some (Inl e, s)
                     | Some (None, s) \<Rightarrow>
                         map_option (Pair (Inr (this\<lparr>first_size := first_size other, second_size := second_size other,
                           first := p, second := q\<rparr>))) (Free this s)))))"

text \<open>A program that makes arrays, assigns them to each other and ends their lives; what it does with an object
  that it does not have is nothing. A reply is the exception that left the operation.\<close>

datatype array_call = Make nat nat | Assign nat nat | Destroy nat

fun do_call :: "'a \<Rightarrow> array_call \<Rightarrow> double_array list \<times> 'a free_store
    \<Rightarrow> (thrown option \<times> double_array list \<times> 'a free_store) option" where
  "do_call dflt (Make n m) (objs, s) =
     (case DoubleArray_new dflt n m s of
        None \<Rightarrow> None
      | Some (Inl e, s) \<Rightarrow> Some (Some e, objs, s)
      | Some (Inr a, s) \<Rightarrow> Some (None, objs @ [a], s))"
| "do_call dflt (Assign i j) (objs, s) =
     (if i < length objs \<and> j < length objs then
        (case AssignArrays dflt (objs ! i) (objs ! j) s of
           None \<Rightarrow> None
         | Some (Inl e, s) \<Rightarrow> Some (Some e, objs, s)
         | Some (Inr a, s) \<Rightarrow> Some (None, objs[i := a], s))
      else Some (None, objs, s))"
| "do_call dflt (Destroy i) (objs, s) =
     (if i < length objs then map_option (\<lambda>s. (None, take i objs @ drop (Suc i) objs, s)) (Free (objs ! i) s)
      else Some (None, objs, s))"

fun do_calls :: "'a \<Rightarrow> array_call list \<Rightarrow> double_array list \<times> 'a free_store
    \<Rightarrow> (thrown option list \<times> double_array list \<times> 'a free_store) option" where
  "do_calls dflt [] s = Some ([], s)"
| "do_calls dflt (c # cs) s =
     (case do_call dflt c s of
        None \<Rightarrow> None
      | Some (r, s) \<Rightarrow> (case do_calls dflt cs s of None \<Rightarrow> None | Some (rs, s) \<Rightarrow> Some (r # rs, s)))"

section \<open>Pairs of lists\<close>

text \<open>The same program over values: what throws changes nothing.\<close>

fun value_call :: "'a \<Rightarrow> array_call \<Rightarrow> thrown option \<Rightarrow> ('a list \<times> 'a list) list \<Rightarrow> ('a list \<times> 'a list) list" where
  "value_call dflt c (Some e) vs = vs"
| "value_call dflt (Make n m) None vs = vs @ [(replicate n dflt, replicate m dflt)]"
| "value_call dflt (Assign i j) None vs = (if i < length vs \<and> j < length vs then vs[i := vs ! j] else vs)"
| "value_call dflt (Destroy i) None vs = (if i < length vs then take i vs @ drop (Suc i) vs else vs)"

fun value_calls :: "'a \<Rightarrow> (array_call \<times> thrown option) list \<Rightarrow> ('a list \<times> 'a list) list \<Rightarrow> ('a list \<times> 'a list) list" where
  "value_calls dflt [] vs = vs"
| "value_calls dflt ((c, r) # crs) vs = value_calls dflt crs (value_call dflt c r vs)"

text \<open>Calls after which no array is lost: those that do not throw, and a constructor that throws what it catches.\<close>

fun tidy :: "array_call \<times> thrown option \<Rightarrow> bool" where
  "tidy (c, None) = True"
| "tidy (Make n m, Some e) = (e = StdException)"
| "tidy (c, Some e) = False"

definition holds :: "'a free_store \<Rightarrow> double_array \<Rightarrow> 'a list \<times> 'a list \<Rightarrow> bool" where
  "holds s a v \<longleftrightarrow> blocks s (first a) = Some (fst v) \<and> length (fst v) = first_size a
     \<and> blocks s (second a) = Some (snd v) \<and> length (snd v) = second_size a"

fun pointers :: "double_array list \<Rightarrow> nat list" where
  "pointers [] = []"
| "pointers (a # objs) = first a # second a # pointers objs"

definition bounded :: "'a free_store \<Rightarrow> bool" where
  "bounded s \<longleftrightarrow> (\<forall>p. blocks s p \<noteq> None \<longrightarrow> p < next_block s)"

definition array_inv :: "double_array list \<Rightarrow> 'a free_store \<Rightarrow> ('a list \<times> 'a list) list \<Rightarrow> bool" where
  "array_inv objs s vs \<longleftrightarrow> list_all2 (holds s) objs vs \<and> distinct (pointers objs) \<and> bounded s"

section \<open>What the operations do to the store\<close>

lemma new_block_result:
  assumes "new_block dflt n s = (r, s')"
  shows "case r of Inl e \<Rightarrow> blocks s' = blocks s \<and> next_block s' = next_block s
    | Inr p \<Rightarrow> p = next_block s \<and> blocks s' = (blocks s)(p := Some (replicate n dflt)) \<and> next_block s' = Suc p"
  using assms by (auto simp: new_block_def split: outcome.splits list.splits)

lemma new_blockE:
  obtains (thrown) e s' where "new_block dflt n s = (Inl e, s')" "blocks s' = blocks s" "next_block s' = next_block s"
  | (made) s' where "new_block dflt n s = (Inr (next_block s), s')"
      "blocks s' = (blocks s)(next_block s := Some (replicate n dflt))" "next_block s' = Suc (next_block s)"
  using new_block_result [of dflt n s] by (cases "new_block dflt n s"; cases "fst (new_block dflt n s)") auto

lemma copy_blockE:
  assumes "blocks s source = Some xs" and "blocks s target = Some ys" and "length ys = length xs" and "n = length xs"
  obtains (thrown) e s' zs where "copy_block source n target s = Some (Some e, s')"
      "blocks s' = (blocks s)(target := Some zs)" "next_block s' = next_block s"
  | (copied) s' where "copy_block source n target s = Some (None, s')"
      "blocks s' = (blocks s)(target := Some xs)" "next_block s' = next_block s"
proof (cases "next_outcome s")
  case (Pair r s')
  then have s': "blocks s' = blocks s" "next_block s' = next_block s" by (auto split: list.splits)
  show thesis
  proof (cases r)
    case Fine
    then show thesis using assms Pair s' copied [of "s'\<lparr>blocks := (blocks s')(target := Some xs)\<rparr>"]
      by (simp add: copy_block_def del: next_outcome.simps)
  next
    case (Throws e k)
    then show thesis
      using assms Pair s' copied [of "s'\<lparr>blocks := (blocks s')(target := Some (take (min k n) xs @ drop (min k n) ys))\<rparr>"]
        thrown [of e "s'\<lparr>blocks := (blocks s')(target := Some (take (min k n) xs @ drop (min k n) ys))\<rparr>"]
      by (cases "k < n") (simp_all add: copy_block_def min_def del: next_outcome.simps)
  qed
qed

text \<open>What was there before stays: the store \<open>s'\<close> differs from \<open>s\<close> in new blocks only.\<close>

definition extends :: "'a free_store \<Rightarrow> 'a free_store \<Rightarrow> bool" where
  "extends s s' \<longleftrightarrow> bounded s' \<and> (\<forall>p < next_block s. blocks s' p = blocks s p)"

lemma DoubleArray_newE:
  assumes "bounded s"
  obtains (thrown) e s' where "DoubleArray_new dflt n m s = Some (Inl e, s')" "extends s s'"
      "e = StdException \<Longrightarrow> blocks s' = blocks s"
  | (made) a s' where "DoubleArray_new dflt n m s = Some (Inr a, s')"
      "first a = next_block s" "first_size a = n" "second a = Suc (next_block s)" "second_size a = m"
      "blocks s' = (blocks s)(next_block s := Some (replicate n dflt), Suc (next_block s) := Some (replicate m dflt))"
      "next_block s' = Suc (Suc (next_block s))"
proof (cases dflt n s rule: new_blockE)
  case (thrown e s')
  then show thesis using assms that(1) [of e s'] by (auto simp: DoubleArray_new_def extends_def bounded_def)
next
  case 1: (made s1)
  show thesis
  proof (cases dflt m s1 rule: new_blockE)
    case (made s2)
    then show thesis
      using 1 that(2) [of "\<lparr>first = next_block s, first_size = n, second = Suc (next_block s), second_size = m\<rparr>" s2]
      by (simp add: DoubleArray_new_def)
  next
    case (thrown e s2)
    have fresh: "blocks s (next_block s) = None" using assms by (auto simp: bounded_def)
    show thesis
    proof (cases e)
      case StdException
      then show thesis using 1 thrown assms fresh
        by (intro that(1) [of StdException "s2\<lparr>blocks := (blocks s2)(next_block s := None)\<rparr>"])
          (auto simp: DoubleArray_new_def delete_block_def extends_def bounded_def less_SucI)
    next
      case OtherException
      then show thesis using 1 thrown assms
        by (intro that(1) [of OtherException s2]) (auto simp: DoubleArray_new_def extends_def bounded_def less_SucI)
    qed
  qed
qed

lemma extends_trans: "extends s s1 \<Longrightarrow> extends s1 s2 \<Longrightarrow> next_block s \<le> next_block s1 \<Longrightarrow> extends s s2"
  by (simp add: extends_def)

lemma holds_bound: "holds s a v \<Longrightarrow> bounded s \<Longrightarrow> first a < next_block s \<and> second a < next_block s"
  by (auto simp: holds_def bounded_def)

lemma Free_result:
  assumes "blocks s (first a) \<noteq> None" and "blocks s (second a) \<noteq> None" and "first a \<noteq> second a"
  shows "Free a s = Some (s\<lparr>blocks := (blocks s)(second a := None, first a := None)\<rparr>)"
  using assms by (simp add: Free_def delete_block_def)

lemma AssignArraysE:
  assumes "bounded s" and "holds s this w" and "holds s other v" and "first this \<noteq> second this"
  obtains (thrown) e s' where "AssignArrays dflt this other s = Some (Inl e, s')" "extends s s'" "next_block s \<le> next_block s'"
  | (made) a s' where "AssignArrays dflt this other s = Some (Inr a, s')"
      "first a = next_block s" "first_size a = length (fst v)" "second a = Suc (next_block s)" "second_size a = length (snd v)"
      "blocks s' = (blocks s)(next_block s := Some (fst v), Suc (next_block s) := Some (snd v),
         second this := None, first this := None)"
      "next_block s' = Suc (Suc (next_block s))"
proof -
  have o: "blocks s (first other) = Some (fst v)" "first_size other = length (fst v)"
    "blocks s (second other) = Some (snd v)" "second_size other = length (snd v)"
    using assms(3) by (simp_all add: holds_def)
  have b: "first this < next_block s" "second this < next_block s" "first other < next_block s" "second other < next_block s"
    using holds_bound assms(1-3) by blast+
  show thesis
  proof (cases dflt "first_size other" s rule: new_blockE)
    case (thrown e s1)
    then show thesis using assms(1) that(1) [of e s1] by (simp add: AssignArrays_def extends_def bounded_def)
  next
    case 1: (made s1)
    show thesis
    proof (cases dflt "second_size other" s1 rule: new_blockE)
      case (thrown e s2)
      then show thesis using 1 assms(1) that(1) [of e s2]
        by (auto simp: AssignArrays_def extends_def bounded_def less_SucI)
    next
      case 2: (made s2)
      have s2: "blocks s2 (first other) = Some (fst v)" "blocks s2 (second other) = Some (snd v)"
        "blocks s2 (next_block s) = Some (replicate (first_size other) dflt)"
        using 1 2 o b by auto
      show thesis
      proof (rule copy_blockE [OF s2(1) s2(3), of "first_size other"])
        show "length (replicate (first_size other) dflt) = length (fst v)" "first_size other = length (fst v)"
          using o by simp_all
      next
        fix e s3 zs
        assume "copy_block (first other) (first_size other) (next_block s) s2 = Some (Some e, s3)"
          "blocks s3 = (blocks s2)(next_block s := Some zs)" "next_block s3 = next_block s2"
        then show thesis using 1 2 assms(1) that(1) [of e s3]
          by (auto simp: AssignArrays_def extends_def bounded_def less_SucI)
      next
        fix s3
        assume 3: "copy_block (first other) (first_size other) (next_block s) s2 = Some (None, s3)"
          "blocks s3 = (blocks s2)(next_block s := Some (fst v))" "next_block s3 = next_block s2"
        have s3: "blocks s3 (second other) = Some (snd v)"
          "blocks s3 (Suc (next_block s)) = Some (replicate (second_size other) dflt)"
          using 1 2 3 s2 b by auto
        show thesis
        proof (rule copy_blockE [OF s3(1) s3(2), of "second_size other"])
          show "length (replicate (second_size other) dflt) = length (snd v)" "second_size other = length (snd v)"
            using o by simp_all
        next
          fix e s4 zs
          assume "copy_block (second other) (second_size other) (Suc (next_block s)) s3 = Some (Some e, s4)"
            "blocks s4 = (blocks s3)(Suc (next_block s) := Some zs)" "next_block s4 = next_block s3"
          then show thesis using 1 2 3 assms(1) that(1) [of e s4]
            by (auto simp: AssignArrays_def extends_def bounded_def less_SucI)
        next
          fix s4
          assume 4: "copy_block (second other) (second_size other) (Suc (next_block s)) s3 = Some (None, s4)"
            "blocks s4 = (blocks s3)(Suc (next_block s) := Some (snd v))" "next_block s4 = next_block s3"
          have b4: "blocks s4 = (blocks s)(next_block s := Some (fst v), Suc (next_block s) := Some (snd v))"
            using 1 2 3 4 by auto
          then have "Free this s4 = Some (s4\<lparr>blocks := (blocks s4)(second this := None, first this := None)\<rparr>)"
            using assms(2,4) b by (intro Free_result) (auto simp: holds_def)
          then show thesis using 1 2 3 4 b4 o
              that(2) [of "this\<lparr>first_size := first_size other, second_size := second_size other,
                first := next_block s, second := Suc (next_block s)\<rparr>"
                "s4\<lparr>blocks := (blocks s4)(second this := None, first this := None)\<rparr>"]
            by (simp add: AssignArrays_def)
        qed
      qed
    qed
  qed
qed

section \<open>Programs\<close>

lemma pointers_append [simp]: "pointers (xs @ ys) = pointers xs @ pointers ys"
  by (induction xs) auto

lemma holds_same:
  "holds s a v \<Longrightarrow> blocks s' (first a) = blocks s (first a) \<Longrightarrow> blocks s' (second a) = blocks s (second a) \<Longrightarrow> holds s' a v"
  by (simp add: holds_def)

lemma all_hold_same:
  "list_all2 (holds s) objs vs \<Longrightarrow> (\<And>p. p \<in> set (pointers objs) \<Longrightarrow> blocks s' p = blocks s p) \<Longrightarrow> list_all2 (holds s') objs vs"
  by (induction rule: list_all2_induct) (auto intro: holds_same)

lemma pointers_bound: "list_all2 (holds s) objs vs \<Longrightarrow> bounded s \<Longrightarrow> p \<in> set (pointers objs) \<Longrightarrow> p < next_block s"
  by (induction rule: list_all2_induct) (auto dest: holds_bound)

lemma inv_extends: "array_inv objs s vs \<Longrightarrow> extends s s' \<Longrightarrow> array_inv objs s' vs"
  unfolding array_inv_def extends_def using pointers_bound by (blast intro: all_hold_same)

text \<open>An object in the middle of the others.\<close>

lemma list_all2_at:
  assumes "list_all2 P xs ys" and "i < length xs"
  obtains us x ws us' y ws' where "xs = us @ x # ws" "ys = us' @ y # ws'" "length us = i" "length us' = i" "P x y"
    "list_all2 P us us'" "list_all2 P ws ws'"
proof -
  have "i < length ys" using assms by (simp add: list_all2_lengthD)
  then show thesis using assms id_take_nth_drop [OF assms(2)] id_take_nth_drop [of i ys]
    by (intro that [of "take i xs" "xs ! i" "drop (Suc i) xs" "take i ys" "ys ! i" "drop (Suc i) ys"])
      (auto simp: list_all2_lengthD list_all2_nthD intro: list_all2_takeI list_all2_dropI)
qed

text \<open>\<open>exact\<close>: there are no arrays but those of the objects.\<close>

definition exact_store :: "double_array list \<Rightarrow> 'a free_store \<Rightarrow> bool" where
  "exact_store objs s \<longleftrightarrow> dom (blocks s) = set (pointers objs)"

definition good_call :: "'a \<Rightarrow> array_call \<Rightarrow> double_array list \<times> 'a free_store \<Rightarrow> ('a list \<times> 'a list) list \<Rightarrow> bool" where
  "good_call dflt c st vs \<longleftrightarrow> (\<exists>r objs' s'. do_call dflt c st = Some (r, objs', s')
     \<and> array_inv objs' s' (value_call dflt c r vs)
     \<and> (tidy (c, r) \<longrightarrow> exact_store (fst st) (snd st) \<longrightarrow> exact_store objs' s'))"

lemma Make_good:
  assumes "array_inv objs s vs"
  shows "good_call dflt (Make n m) (objs, s) vs"
proof -
  have I: "list_all2 (holds s) objs vs" "distinct (pointers objs)" "bounded s" using assms by (auto simp: array_inv_def)
  show ?thesis
  proof (rule DoubleArray_newE [OF I(3), of dflt n m], goal_cases)
    case thrown: (1 e s')
    then show ?thesis using inv_extends [OF assms] by (simp add: good_call_def exact_store_def)
  next
    case made: (2 a s')
    have below: "p < next_block s" if "p \<in> set (pointers objs)" for p using pointers_bound [OF I(1,3) that] .
    then have "blocks s' p = blocks s p" if "p \<in> set (pointers objs)" for p using below [OF that] made(6) by simp
    then have "list_all2 (holds s') objs vs" by (rule all_hold_same [OF I(1)])
    moreover have "holds s' a (replicate n dflt, replicate m dflt)" using made by (simp add: holds_def)
    moreover have "distinct (pointers (objs @ [a]))" using made below I(2) by fastforce
    moreover have "bounded s'" using made I(3) by (auto simp: bounded_def less_SucI)
    moreover have "exact_store objs s \<longrightarrow> exact_store (objs @ [a]) s'" using made by (auto simp: exact_store_def)
    ultimately show ?thesis using made by (simp add: good_call_def array_inv_def list_all2_appendI)
  qed
qed

lemma Destroy_good:
  assumes "array_inv objs s vs"
  shows "good_call dflt (Destroy i) (objs, s) vs"
proof (cases "i < length objs")
  case True
  have I: "list_all2 (holds s) objs vs" "distinct (pointers objs)" "bounded s" using assms by (auto simp: array_inv_def)
  obtain us a ws us' v ws' where d: "objs = us @ a # ws" "vs = us' @ v # ws'" "length us = i" "length us' = i" "holds s a v"
    "list_all2 (holds s) us us'" "list_all2 (holds s) ws ws'"
    by (rule list_all2_at [OF I(1) True])
  define s' where "s' = s\<lparr>blocks := (blocks s)(second a := None, first a := None)\<rparr>"
  have apart: "first a \<noteq> second a" "first a \<notin> set (pointers (us @ ws))" "second a \<notin> set (pointers (us @ ws))"
    using I(2) d(1) by auto
  then have free: "Free a s = Some s'" unfolding s'_def using d(5) by (intro Free_result) (auto simp: holds_def)
  have "list_all2 (holds s') (us @ ws) (us' @ ws')"
    by (rule all_hold_same [OF list_all2_appendI [OF d(6,7)]]) (use apart in \<open>auto simp: s'_def\<close>)
  moreover have "bounded s'" using I(3) by (auto simp: bounded_def s'_def)
  moreover have "distinct (pointers (us @ ws))" using I(2) d(1) by auto
  moreover have "exact_store objs s \<longrightarrow> exact_store (us @ ws) s'" using apart d(1) by (auto simp: exact_store_def s'_def)
  moreover have "do_call dflt (Destroy i) (objs, s) = Some (None, us @ ws, s')"
    "value_call dflt (Destroy i) None vs = us' @ ws'"
    using free d(1-4) by (auto simp: nth_append)
  ultimately show ?thesis unfolding good_call_def array_inv_def by (metis fst_conv snd_conv)
next
  case False
  moreover have "length vs = length objs" using assms by (auto simp: array_inv_def list_all2_lengthD)
  ultimately show ?thesis using assms by (simp add: good_call_def)
qed

lemma Assign_good:
  assumes "array_inv objs s vs"
  shows "good_call dflt (Assign i j) (objs, s) vs"
proof (cases "i < length objs \<and> j < length objs")
  case True
  have I: "list_all2 (holds s) objs vs" "distinct (pointers objs)" "bounded s" using assms by (auto simp: array_inv_def)
  have len: "length vs = length objs" using I(1) by (simp add: list_all2_lengthD)
  have other: "holds s (objs ! j) (vs ! j)" using I(1) True by (simp add: list_all2_nthD)
  have i: "i < length objs" using True by simp
  obtain us this ws us' w ws' where d: "objs = us @ this # ws" "vs = us' @ w # ws'" "length us = i" "length us' = i"
    "holds s this w" "list_all2 (holds s) us us'" "list_all2 (holds s) ws ws'"
    by (rule list_all2_at [OF I(1) i])
  have at_i: "objs ! i = this" using d by (metis nth_append_length)
  have apart: "first this \<noteq> second this" "first this \<notin> set (pointers (us @ ws))" "second this \<notin> set (pointers (us @ ws))"
    using I(2) d(1) by auto
  show ?thesis
  proof (rule AssignArraysE [OF I(3) d(5) other apart(1), of dflt], goal_cases)
    case thrown: (1 e s')
    then show ?thesis using True inv_extends [OF assms] at_i by (simp add: good_call_def)
  next
    case made: (2 a s')
    have below: "p < next_block s" if "p \<in> set (pointers (us @ this # ws))" for p
      using pointers_bound [OF I(1,3)] that d(1) by simp
    have b: "first this < next_block s" "second this < next_block s" using below by simp_all
    have new: "first a \<notin> set (pointers (us @ ws))" "second a \<notin> set (pointers (us @ ws))" "first a \<noteq> second a"
      using made below by fastforce+
    have "list_all2 (holds s') (us @ ws) (us' @ ws')"
      by (rule all_hold_same [OF list_all2_appendI [OF d(6,7)]]) (use apart made(2,4,6) new in auto)
    moreover have "holds s' a (vs ! j)" using made b by (simp add: holds_def)
    ultimately have "list_all2 (holds s') (us @ a # ws) (us' @ vs ! j # ws')"
      using d(3,4) by (simp add: list_all2_append)
    moreover have "distinct (pointers (us @ a # ws))" using I(2) d(1) new by auto
    moreover have "bounded s'" using made I(3) by (auto simp: bounded_def less_SucI)
    moreover have "exact_store objs s \<longrightarrow> exact_store (us @ a # ws) s'"
      using made apart d(1) b by (auto simp: exact_store_def dom_def split: if_splits)
    moreover have "objs[i := a] = us @ a # ws" "vs[i := vs ! j] = us' @ vs ! j # ws'"
      using d by (simp_all add: list_update_append)
    ultimately show ?thesis using made True at_i len by (simp add: good_call_def array_inv_def)
  qed
next
  case False
  moreover have "length vs = length objs" using assms by (auto simp: array_inv_def list_all2_lengthD)
  ultimately show ?thesis using assms by (auto simp: good_call_def)
qed

lemma call_good: "array_inv objs s vs \<Longrightarrow> good_call dflt c (objs, s) vs"
  by (cases c) (simp_all add: Make_good Assign_good Destroy_good)

lemma do_calls_values:
  assumes "array_inv objs s vs"
  shows "\<exists>rs objs' s'. do_calls dflt cs (objs, s) = Some (rs, objs', s') \<and> length rs = length cs
    \<and> array_inv objs' s' (value_calls dflt (zip cs rs) vs)
    \<and> (list_all tidy (zip cs rs) \<longrightarrow> exact_store objs s \<longrightarrow> exact_store objs' s')"
  using assms
proof (induction cs arbitrary: objs s vs)
  case (Cons c cs)
  obtain r o1 s1 where c: "do_call dflt c (objs, s) = Some (r, o1, s1)" "array_inv o1 s1 (value_call dflt c r vs)"
    "tidy (c, r) \<Longrightarrow> exact_store objs s \<Longrightarrow> exact_store o1 s1"
    using call_good [OF Cons.prems, of dflt c] by (auto simp: good_call_def)
  obtain rs o2 s2 where cs: "do_calls dflt cs (o1, s1) = Some (rs, o2, s2)" "length rs = length cs"
    "array_inv o2 s2 (value_calls dflt (zip cs rs) (value_call dflt c r vs))"
    "list_all tidy (zip cs rs) \<Longrightarrow> exact_store o1 s1 \<Longrightarrow> exact_store o2 s2"
    using Cons.IH [OF c(2)] by blast
  show ?case using c cs by (intro exI [of _ "r # rs"] exI [of _ o2] exI [of _ s2]) auto
qed simp

text \<open>C25. Whatever allocations and copies throw, a program with pairs of arrays never deletes an array twice or
  uses one that is gone, and its objects hold the values of the program over pairs of lists, where an
  operation that throws changes nothing. If no assignment throws, and constructors throw only what they
  catch, no array is lost: those that remain are those of the objects that are alive.\<close>

theorem double_array_exceptions:
  "\<exists>rs objs s. do_calls dflt cs ([], free_store_new os) = Some (rs, objs, s) \<and> length rs = length cs
    \<and> list_all2 (holds s) objs (value_calls dflt (zip cs rs) [])
    \<and> (list_all tidy (zip cs rs) \<longrightarrow> dom (blocks s) = set (pointers objs))"
proof -
  have new: "array_inv [] (free_store_new os) []" "exact_store [] (free_store_new os)"
    by (simp_all add: array_inv_def free_store_new_def bounded_def exact_store_def)
  show ?thesis
    using do_calls_values [OF new(1), of dflt cs] new(2) unfolding array_inv_def exact_store_def by blast
qed

text \<open>A constructor that throws and cleans up, an assignment of an object to itself, and the end of its life.\<close>

theorem double_array_exceptions_witness:
  "\<exists>s. do_calls (0::int) [Make 2 1, Make 1 2, Assign 0 0, Destroy 0] ([], free_store_new [Fine, Throws StdException 0])
     = Some ([Some StdException, None, None, None], [], s) \<and> dom (blocks s) = {}"
proof -
  let ?cs = "[Make 2 1, Make 1 2, Assign 0 0, Destroy 0]" and ?os = "[Fine, Throws StdException 0]"
  obtain s where run: "do_calls (0::int) ?cs ([], free_store_new ?os) = Some ([Some StdException, None, None, None], [], s)"
    by (simp add: DoubleArray_new_def AssignArrays_def new_block_def copy_block_def Free_def delete_block_def free_store_new_def)
  obtain rs objs s' where "do_calls (0::int) ?cs ([], free_store_new ?os) = Some (rs, objs, s')"
    "list_all tidy (zip ?cs rs) \<longrightarrow> dom (blocks s') = set (pointers objs)"
    using double_array_exceptions [of 0 ?cs ?os] by blast
  then have "dom (blocks s) = {}" unfolding run by auto
  with run show ?thesis by blast
qed

text \<open>An assignment that throws keeps the values, but the arrays it made are lost: two, when a copy throws.\<close>

lemma assignment_leaks:
  "map_option (\<lambda>(rs, objs, s). (rs, objs, map (\<lambda>p. blocks s p) [0..<next_block s]))
     (do_calls (0::int) [Make 1 1, Assign 0 0, Destroy 0] ([], free_store_new [Fine, Fine, Fine, Fine, Throws StdException 0]))
   = Some ([None, Some StdException, None], [], [None, None, Some [0], Some [0]])"
  by (simp add: DoubleArray_new_def AssignArrays_def new_block_def copy_block_def Free_def delete_block_def free_store_new_def upt_rec)

end
