(* ===== verification/Counters.thy ===== *)
theory Counters
  imports Locks
begin

text \<open>
  Counters that threads add to, and a lock that spins (\<open>seminars/2023/09-hello-threading\<close>,
  \<open>09-atomic-sum.cpp\<close> and \<open>11-spinlock.cpp\<close>). A step is an access to an atomic or a volatile variable. The
  race on the volatile counter is taken as what the hardware does with it: a load, and later a store.
\<close>

section \<open>Sums\<close>

text \<open>A thread in \<open>Summator\<close>: the numbers that it has still to add, and what it loaded in \<open>Add\<close> of the volatile
  counter and did not store yet.\<close>

record summator =
  lo :: "64 word"
  hi :: "64 word"
  loaded :: "64 word option"

record counter =
  counter_value :: "64 word"
  summator_of :: "nat \<Rightarrow> summator"

definition Summator :: "64 word \<Rightarrow> 64 word \<Rightarrow> summator" where
  "Summator l h = \<lparr>lo = l, hi = h, loaded = None\<rparr>"

text \<open>\<open>AtomicCounter::Add\<close> in the loop of a thread.\<close>

definition AddAtomic :: "nat \<Rightarrow> counter \<Rightarrow> counter option" where
  "AddAtomic t s =
     (let th = summator_of s t in
      if lo th < hi th then
        Some \<lparr>counter_value = counter_value s + lo th, summator_of = (summator_of s)(t := th\<lparr>lo := lo th + 1\<rparr>)\<rparr>
      else None)"

text \<open>\<open>RacyCounter::Add\<close>: first the load, then the store.\<close>

definition AddRacy :: "nat \<Rightarrow> counter \<Rightarrow> counter option" where
  "AddRacy t s =
     (let th = summator_of s t in
      case loaded th of
        Some v \<Rightarrow> Some \<lparr>counter_value = v + lo th, summator_of = (summator_of s)(t := th\<lparr>lo := lo th + 1, loaded := None\<rparr>)\<rparr>
      | None \<Rightarrow>
          if lo th < hi th then Some (s\<lparr>summator_of := (summator_of s)(t := th\<lparr>loaded := Some (counter_value s)\<rparr>)\<rparr>)
          else None)"

definition sum_step :: "(nat \<Rightarrow> counter \<Rightarrow> counter option) \<Rightarrow> nat \<Rightarrow> counter \<Rightarrow> counter \<Rightarrow> bool" where
  "sum_step add n s s' \<longleftrightarrow> (\<exists>t < n. add t s = Some s')"

definition kLimit :: nat where
  "kLimit = 100000000"

text \<open>The two threads of \<open>RacySum\<close> and \<open>AtomicSum\<close>.\<close>

definition Sum_new :: counter where
  "Sum_new = \<lparr>counter_value = 0, summator_of =
     (\<lambda>t. if t = 0 then Summator 0 (word_of_nat (kLimit div 2)) else Summator (word_of_nat (kLimit div 2)) (word_of_nat kLimit))\<rparr>"

section \<open>The atomic counter\<close>

definition left_to_add :: "summator \<Rightarrow> 64 word" where
  "left_to_add th = (\<Sum>k = unat (lo th)..<unat (hi th). word_of_nat k)"

definition adds_left :: "summator \<Rightarrow> nat" where
  "adds_left th = unat (hi th) - unat (lo th)"

lemma unat_next:
  fixes l h :: "64 word"
  assumes "l < h"
  shows "unat (l + 1) = Suc (unat l)"
proof -
  have "unat h < 2 ^ LENGTH(64)" by (rule unsigned_less)
  then show ?thesis using assms by (simp add: unat_word_ariths word_less_nat_alt)
qed

lemma left_to_add_next:
  assumes "lo th < hi th"
  shows "left_to_add th = lo th + left_to_add (th\<lparr>lo := lo th + 1\<rparr>)"
    and "adds_left th = Suc (adds_left (th\<lparr>lo := lo th + 1\<rparr>))"
proof -
  have "unat (lo th) < unat (hi th)" using assms by (simp add: word_less_nat_alt)
  then show "left_to_add th = lo th + left_to_add (th\<lparr>lo := lo th + 1\<rparr>)"
    and "adds_left th = Suc (adds_left (th\<lparr>lo := lo th + 1\<rparr>))"
    using unat_next [OF assms] by (simp_all add: left_to_add_def adds_left_def sum.atLeast_Suc_lessThan)
qed

lemma sum_over_update:
  fixes f :: "'a \<Rightarrow> 'b :: comm_monoid_add"
  assumes "t < (n :: nat)"
  shows "(\<Sum>u < n. f ((g(t := x)) u)) + f (g t) = (\<Sum>u < n. f (g u)) + f x"
proof -
  have "(\<Sum>u \<in> {..<n} - {t}. f ((g(t := x)) u)) = (\<Sum>u \<in> {..<n} - {t}. f (g u))" by (rule sum.cong) auto
  then show ?thesis using assms by (simp add: sum.remove [of "{..<n}" t] ac_simps)
qed

definition total :: "nat \<Rightarrow> counter \<Rightarrow> 64 word" where
  "total n s = counter_value s + (\<Sum>t < n. left_to_add (summator_of s t))"

lemma atomic_step:
  assumes "sum_step AddAtomic n s s'"
  shows "total n s' = total n s" and "Suc (\<Sum>t < n. adds_left (summator_of s' t)) = (\<Sum>t < n. adds_left (summator_of s t))"
proof -
  obtain t where t: "t < n" "lo (summator_of s t) < hi (summator_of s t)"
    "counter_value s' = counter_value s + lo (summator_of s t)"
    "summator_of s' = (summator_of s)(t := (summator_of s t)\<lparr>lo := lo (summator_of s t) + 1\<rparr>)"
    using assms by (auto simp: sum_step_def AddAtomic_def Let_def split: if_splits)
  note next_one = left_to_add_next [OF t(2)]
  let ?th = "(summator_of s t)\<lparr>lo := lo (summator_of s t) + 1\<rparr>"
  let ?new = "\<Sum>u < n. left_to_add (summator_of s' u)" and ?old = "\<Sum>u < n. left_to_add (summator_of s u)"
  have "?new + left_to_add (summator_of s t) = ?old + left_to_add ?th"
    using sum_over_update [OF t(1), of left_to_add "summator_of s" ?th] by (simp only: t(4))
  then have "?new + lo (summator_of s t) + left_to_add ?th = ?old + left_to_add ?th"
    by (simp only: next_one(1) add.assoc)
  then have "?new + lo (summator_of s t) = ?old" by simp
  then show "total n s' = total n s" by (simp add: total_def t(3) ac_simps)
  show "Suc (\<Sum>t < n. adds_left (summator_of s' t)) = (\<Sum>t < n. adds_left (summator_of s t))"
    using sum_over_update [OF t(1), of adds_left "summator_of s" ?th] next_one(2) by (simp only: t(4))
qed

lemma atomic_run:
  assumes "(sum_step AddAtomic n ^^ k) s s'"
  shows "total n s' = total n s \<and> k + (\<Sum>t < n. adds_left (summator_of s' t)) = (\<Sum>t < n. adds_left (summator_of s t))"
  using assms
proof (induction k arbitrary: s')
  case (Suc k)
  then obtain r where r: "(sum_step AddAtomic n ^^ k) s r" "sum_step AddAtomic n r s'" by auto
  show ?case using Suc.IH [OF r(1)] atomic_step [OF r(2)] by simp
qed simp

lemma atomic_end:
  assumes "\<nexists>s'. sum_step AddAtomic n s s'" and "t < n"
  shows "left_to_add (summator_of s t) = 0" and "adds_left (summator_of s t) = 0"
proof -
  have "AddAtomic t s = None" using assms by (cases "AddAtomic t s") (auto simp: sum_step_def)
  then have "\<not> lo (summator_of s t) < hi (summator_of s t)" by (simp add: AddAtomic_def Let_def split: if_splits)
  then have "unat (hi (summator_of s t)) \<le> unat (lo (summator_of s t))" by (simp add: word_less_nat_alt)
  then show "left_to_add (summator_of s t) = 0" and "adds_left (summator_of s t) = 0"
    by (simp_all add: left_to_add_def adds_left_def)
qed

lemma two_threads: "(\<Sum>t < 2. f t) = f 0 + f (1 :: nat)"
  by (simp add: numeral_2_eq_2)

lemma sum_words: "(\<Sum>k = a..<b. word_of_nat k :: 64 word) = word_of_nat (\<Sum>k = a..<b. k)"
  by simp

lemma sum_below: "(\<Sum>k = 0..<n. k) = n * (n - 1) div (2 :: nat)"
  by (cases n) (simp_all add: atLeastLessThanSuc_atLeastAtMost gauss_sum_nat mult.commute)

lemma Sum_new_threads:
  "total 2 Sum_new = word_of_nat (kLimit * (kLimit - 1) div 2)" "(\<Sum>t < 2. adds_left (summator_of Sum_new t)) = kLimit"
proof -
  have u: "unat (word_of_nat (kLimit div 2) :: 64 word) = kLimit div 2" "unat (word_of_nat kLimit :: 64 word) = kLimit"
    by (simp_all add: kLimit_def unat_of_nat)
  have "total 2 Sum_new = (\<Sum>k = 0..<kLimit div 2. word_of_nat k) + (\<Sum>k = kLimit div 2..<kLimit. word_of_nat k)"
    by (simp add: total_def Sum_new_def Summator_def left_to_add_def u two_threads del: of_nat_sum)
  also have "\<dots> = (\<Sum>k = 0..<kLimit. word_of_nat k)" by (rule sum.atLeastLessThan_concat) (simp_all add: kLimit_def)
  also have "\<dots> = word_of_nat (kLimit * (kLimit - 1) div 2)" by (simp only: sum_words sum_below)
  finally show "total 2 Sum_new = word_of_nat (kLimit * (kLimit - 1) div 2)" .
  have "kLimit div 2 + (kLimit - kLimit div 2) = kLimit" by (simp add: kLimit_def)
  then show "(\<Sum>t < 2. adds_left (summator_of Sum_new t)) = kLimit"
    by (simp add: Sum_new_def Summator_def adds_left_def u two_threads)
qed

text \<open>In every interleaving the atomic counter ends at the number that \<open>AtomicSum\<close> expects.\<close>

lemma atomic_sum_exact:
  assumes "(sum_step AddAtomic 2 ^^ k) Sum_new s"
  shows "k \<le> kLimit \<and> ((\<nexists>s'. sum_step AddAtomic 2 s s') \<longrightarrow> k = kLimit \<and> counter_value s = word_of_nat (kLimit * (kLimit - 1) div 2))"
proof -
  note R = atomic_run [OF assms, unfolded Sum_new_threads]
  have "k = kLimit \<and> counter_value s = word_of_nat (kLimit * (kLimit - 1) div 2)" if "\<nexists>s'. sum_step AddAtomic 2 s s'"
    using R atomic_end [OF that] by (simp add: total_def)
  then show ?thesis using R by auto
qed

section \<open>The volatile counter\<close>

text \<open>A thread that is not disturbed adds all its numbers.\<close>

lemma racy_alone:
  assumes "t < n" and "summator_of s t = th" and "loaded th = None"
  shows "\<exists>s' th'. (sum_step AddRacy n)\<^sup>*\<^sup>* s s' \<and> counter_value s' = counter_value s + left_to_add th
    \<and> summator_of s' = (summator_of s)(t := th') \<and> \<not> lo th' < hi th' \<and> loaded th' = None"
  using assms(2,3)
proof (induction "adds_left th" arbitrary: s th)
  case 0
  then have "\<not> lo th < hi th" by (simp add: adds_left_def word_less_nat_alt)
  moreover have "left_to_add th = 0" using 0 by (simp add: left_to_add_def adds_left_def)
  ultimately show ?case using 0 by (intro exI [of _ s] exI [of _ th]) auto
next
  case (Suc k)
  then have less: "lo th < hi th" by (simp add: adds_left_def word_less_nat_alt)
  define r where "r = s\<lparr>summator_of := (summator_of s)(t := th\<lparr>loaded := Some (counter_value s)\<rparr>)\<rparr>"
  define q where "q = \<lparr>counter_value = counter_value s + lo th, summator_of = (summator_of s)(t := th\<lparr>lo := lo th + 1, loaded := None\<rparr>)\<rparr>"
  have same: "th\<lparr>lo := lo th + 1, loaded := None\<rparr> = th\<lparr>lo := lo th + 1\<rparr>" using Suc.prems(2) by (cases th) simp
  have "AddRacy t s = Some r" "AddRacy t r = Some q" using less Suc.prems by (simp_all add: AddRacy_def r_def q_def Let_def)
  then have steps: "sum_step AddRacy n s r" "sum_step AddRacy n r q" using assms(1) by (auto simp: sum_step_def)
  have q: "q = \<lparr>counter_value = counter_value s + lo th, summator_of = (summator_of s)(t := th\<lparr>lo := lo th + 1\<rparr>)\<rparr>"
    by (simp only: q_def same)
  note next_one = left_to_add_next [OF less]
  obtain s' th' where "(sum_step AddRacy n)\<^sup>*\<^sup>* q s'" "counter_value s' = counter_value q + left_to_add (th\<lparr>lo := lo th + 1\<rparr>)"
    "summator_of s' = (summator_of q)(t := th')" "\<not> lo th' < hi th'" "loaded th' = None"
    using Suc.hyps(1) [of "th\<lparr>lo := lo th + 1\<rparr>" q] Suc.hyps(2) Suc.prems next_one(2) by (auto simp: q)
  then show ?case
    using steps next_one(1) by (intro exI [of _ s'] exI [of _ th'])
      (auto simp: q add.assoc intro: converse_rtranclp_into_rtranclp)
qed

text \<open>The volatile counter can lose every number of the second thread.\<close>

lemma racy_sum_loses:
  "\<exists>s. (sum_step AddRacy 2)\<^sup>*\<^sup>* Sum_new s \<and> (\<nexists>s'. sum_step AddRacy 2 s s') \<and> counter_value s = 1249999975000000"
proof -
  let ?half = "word_of_nat (kLimit div 2) :: 64 word"
  define th where "th = Summator 0 ?half"
  define r where "r = Sum_new\<lparr>summator_of := (summator_of Sum_new)(0 := th\<lparr>loaded := Some 0\<rparr>)\<rparr>"
  have half: "unat ?half = kLimit div 2" by (simp add: kLimit_def unat_of_nat)
  have zero: "summator_of Sum_new 0 = th" "counter_value Sum_new = 0" by (simp_all add: Sum_new_def th_def)
  have one: "summator_of r 1 = summator_of Sum_new 1" "loaded (summator_of Sum_new 1) = None"
    by (simp_all add: r_def Sum_new_def Summator_def)
  have less: "lo th < hi th" "loaded th = None" "lo th = 0"
    by (simp_all add: th_def Summator_def kLimit_def)
  have "AddRacy 0 Sum_new = Some r" using zero less by (simp add: AddRacy_def r_def)
  then have load: "sum_step AddRacy 2 Sum_new r" by (auto simp: sum_step_def intro: exI [of _ 0])
  obtain s1 th1 where run1: "(sum_step AddRacy 2)\<^sup>*\<^sup>* r s1" "summator_of s1 = (summator_of r)(1 := th1)"
    and end1: "\<not> lo th1 < hi th1" "loaded th1 = None"
    using racy_alone [of 1 2 r "summator_of Sum_new 1"] one by auto
  define q where "q = \<lparr>counter_value = 0, summator_of = (summator_of s1)(0 := th\<lparr>lo := 1, loaded := None\<rparr>)\<rparr>"
  have s1: "summator_of s1 0 = th\<lparr>loaded := Some 0\<rparr>" using run1(2) by (simp add: r_def)
  have "AddRacy 0 s1 = Some q" using less(3) by (simp add: AddRacy_def s1 q_def)
  then have store: "sum_step AddRacy 2 s1 q" by (auto simp: sum_step_def intro: exI [of _ 0])
  obtain s2 th2 where run2: "(sum_step AddRacy 2)\<^sup>*\<^sup>* q s2" "summator_of s2 = (summator_of q)(0 := th2)"
    and v2: "counter_value s2 = counter_value q + left_to_add (th\<lparr>lo := 1, loaded := None\<rparr>)"
    and end2: "\<not> lo th2 < hi th2" "loaded th2 = None"
    using racy_alone [of 0 2 q "th\<lparr>lo := 1, loaded := None\<rparr>"] by (auto simp: q_def)
  have "(sum_step AddRacy 2)\<^sup>*\<^sup>* Sum_new s2"
    using load run1(1) store run2(1) by (meson converse_rtranclp_into_rtranclp rtranclp_trans)
  moreover have "AddRacy t s2 = None" if "t < 2" for t
    using that end1 end2 run1(2) run2(2) by (cases "t = 0") (auto simp: AddRacy_def q_def less_2_cases_iff)
  moreover have "counter_value s2 = word_of_nat (kLimit div 2 * (kLimit div 2 - 1) div 2)"
  proof -
    have "counter_value s2 = left_to_add (th\<lparr>lo := 1, loaded := None\<rparr>)" using v2 by (simp add: q_def)
    also have "\<dots> = (\<Sum>k = 1..<kLimit div 2. word_of_nat k)"
      by (simp only: left_to_add_def) (simp add: th_def Summator_def half del: of_nat_sum)
    also have "\<dots> = (\<Sum>k = 0..<kLimit div 2. word_of_nat k)"
      using sum.atLeast_Suc_lessThan [of 0 "kLimit div 2" "word_of_nat :: nat \<Rightarrow> 64 word"]
      by (simp add: kLimit_def del: of_nat_sum)
    finally show ?thesis by (simp only: sum_words sum_below)
  qed
  ultimately show ?thesis by (intro exI [of _ s2]) (auto simp: sum_step_def kLimit_def)
qed

section \<open>A lock that spins\<close>

datatype tas_phase = Away | Spinning | Inside

record tas_lock =
  locked :: bool
  tas_phase_of :: "nat \<Rightarrow> tas_phase"

definition SpinLock_new :: tas_lock where
  "SpinLock_new = \<lparr>locked = False, tas_phase_of = (\<lambda>t. Away)\<rparr>"

text \<open>\<open>lock\<close>: the call, and each \<open>exchange\<close> of its loop.\<close>

definition spin_lock :: "nat \<Rightarrow> tas_lock \<Rightarrow> tas_lock option" where
  "spin_lock t s =
     (case tas_phase_of s t of
        Away \<Rightarrow> Some (s\<lparr>tas_phase_of := (tas_phase_of s)(t := Spinning)\<rparr>)
      | Spinning \<Rightarrow>
          if locked s then Some (s\<lparr>locked := True\<rparr>)
          else Some (s\<lparr>locked := True, tas_phase_of := (tas_phase_of s)(t := Inside)\<rparr>)
      | Inside \<Rightarrow> None)"

definition spin_unlock :: "nat \<Rightarrow> tas_lock \<Rightarrow> tas_lock option" where
  "spin_unlock t s =
     (if tas_phase_of s t = Inside then Some (s\<lparr>locked := False, tas_phase_of := (tas_phase_of s)(t := Away)\<rparr>) else None)"

definition tas_step :: "tas_lock \<Rightarrow> tas_lock \<Rightarrow> bool" where
  "tas_step s s' \<longleftrightarrow> (\<exists>t. spin_lock t s = Some s' \<or> spin_unlock t s = Some s')"

definition tas_inv :: "tas_lock \<Rightarrow> bool" where
  "tas_inv s \<longleftrightarrow> (\<forall>t u. tas_phase_of s t = Inside \<longrightarrow> tas_phase_of s u = Inside \<longrightarrow> t = u)
     \<and> (locked s \<longleftrightarrow> (\<exists>t. tas_phase_of s t = Inside))"

lemma tas_step_inv:
  assumes "tas_step s s'" and "tas_inv s"
  shows "tas_inv s'"
proof -
  consider (lock) t where "spin_lock t s = Some s'" | (unlock) t where "spin_unlock t s = Some s'"
    using assms(1) by (auto simp: tas_step_def)
  then show ?thesis
  proof cases
    case (lock t)
    show ?thesis
    proof (cases "tas_phase_of s t = Spinning \<and> \<not> locked s")
      case True
      then have "tas_phase_of s' u = Inside \<longleftrightarrow> u = t" for u
        using lock assms(2) by (auto simp: spin_lock_def tas_inv_def split: if_splits)
      moreover have "locked s'" using lock True by (auto simp: spin_lock_def)
      ultimately show ?thesis by (simp add: tas_inv_def)
    next
      case False
      then have "tas_phase_of s' u = Inside \<longleftrightarrow> tas_phase_of s u = Inside" "locked s' = locked s" for u
        using lock by (auto simp: spin_lock_def split: tas_phase.splits if_splits)
      then show ?thesis using assms(2) by (simp add: tas_inv_def)
    qed
  next
    case (unlock t)
    then have t: "tas_phase_of s t = Inside" "s' = s\<lparr>locked := False, tas_phase_of := (tas_phase_of s)(t := Away)\<rparr>"
      by (auto simp: spin_unlock_def split: if_splits)
    have "tas_phase_of s' u \<noteq> Inside" for u using t assms(2) by (auto simp: tas_inv_def)
    moreover have "\<not> locked s'" by (simp add: t(2))
    ultimately show ?thesis by (simp add: tas_inv_def)
  qed
qed

interpretation tas: invariant tas_step tas_inv
  by unfold_locales (rule tas_step_inv)

text \<open>One thread at most is inside, and when none is, each thread that spins gets in with its next exchange.\<close>

lemma tas_exclusion:
  assumes "tas_step\<^sup>*\<^sup>* SpinLock_new s"
  shows "tas_phase_of s t = Inside \<Longrightarrow> tas_phase_of s u = Inside \<Longrightarrow> t = u"
    and "(\<forall>v. tas_phase_of s v \<noteq> Inside) \<Longrightarrow> tas_phase_of s t = Spinning
      \<Longrightarrow> map_option (\<lambda>s'. tas_phase_of s' t) (spin_lock t s) = Some Inside"
proof -
  have "tas_inv SpinLock_new" by (simp add: tas_inv_def SpinLock_new_def)
  with assms have inv: "tas_inv s" by (rule tas.steps_inv)
  show "tas_phase_of s t = Inside \<Longrightarrow> tas_phase_of s u = Inside \<Longrightarrow> t = u"
    using inv by (auto simp: tas_inv_def)
  show "(\<forall>v. tas_phase_of s v \<noteq> Inside) \<Longrightarrow> tas_phase_of s t = Spinning
      \<Longrightarrow> map_option (\<lambda>s'. tas_phase_of s' t) (spin_lock t s) = Some Inside"
    using inv by (auto simp: tas_inv_def spin_lock_def split: if_splits)
qed

end
