(* ===== verification/Spec2Isabelle.thy ===== *)
theory Spec2Isabelle
  imports AdvancedProps BlockCode MetaEval ConstexprMap Editor HashMap Channels Parallel
    LocationService SlowNumbers MpscStack TestFramework TimerQueue Itertools Spline Euclid Dungeon BoundedQueue SmallClasses UserNames
    Nanofibers Bank RoundTable Latches ThreadPool DoubleArray Counters
begin

text \<open>
  A verification library for the programs under \<open>src/tasks\<close>, and those of the seminars and lectures whose
  threads, fibers or exceptions take some care: an interpreter of Scheme in two stages, a decoder of
  baseline JPEG images, and the smaller programs around them. Every definition is a
  translation of code; a function that may throw returns \<open>exception + value\<close> (theory \<open>Prelude\<close>),
  undefined behaviour is an exception of its own or \<open>None\<close>, and code whose threads interact is a step
  relation. Paths below are relative to \<open>src/tasks\<close>, those that begin with \<open>seminars\<close> or \<open>lectures\<close> to \<open>src\<close>.

  \<^bold>\<open>The interpreter of Scheme\<close> (\<open>scheme/basic\<close>, \<open>scheme/advanced\<close>). Text becomes tokens (\<open>Tokenizer\<close>:
  \<open>tokenizer.h\<close>, \<open>tokenizer.cpp\<close>, the stream is the list of its characters), tokens become objects
  (\<open>Parser\<close>: \<open>parser.cpp\<close>, \<open>object.h\<close>; the recursive descent is proved to terminate), and objects are
  evaluated and printed. The first stage has no variables: \<open>Basic\<close> has its function objects,
  \<open>Compute\<close>, \<open>Serialize\<close> and \<open>Run\<close> (\<open>functions*.cpp\<close>, \<open>helpers.cpp\<close>, \<open>scheme.cpp\<close>) over trees.
  The second stage shares its objects, so \<open>Heap\<close> has a store of cells and lambdas, \<open>Memory\<close> the
  variables with their counters and the stack of scopes (\<open>scheme_memory.cpp\<close>), and \<open>HeapEval\<close> every
  function object, the calls of lambdas, \<open>HCompute\<close> and \<open>HRun\<close>.
    \<^item> \<open>BasicProps\<close>, \<open>BasicNumbers\<close>, \<open>RoundTrip\<close>, \<open>Exceptions\<close>, \<open>SchemeProps\<close>: which values an evaluation
      can give, where an exception of the reader or of a call operator comes from (a number that is too
      long, a check that the code does not make), the integer functions compute what their names say,
      and reading what was printed gives the object back.
    \<^item> \<open>HeapProps\<close>, \<open>HeapSpec\<close>, \<open>AdvancedProps\<close>: no operation reaches for something that does not
      exist, a call leaves the scopes as it found them, a call of a lambda is the evaluation of its
      body with its parameters bound, lists in the store refine the trees, and on arithmetic both stages
      give the same numbers and kinds of exceptions, but for overflows on the way of a subtraction. The call operators see the evaluator through locales (\<open>safe_evaluator\<close> and others),
      which \<open>HCompute\<close> interprets.
    \<^item> Fuel: \<open>HCompute n\<close> bounds the depth of the recursion by \<open>n\<close> and returns \<open>None\<close> when it is used up;
      with more fuel a run that returned returns the same (lemma \<open>HCompute_fuel\<close>), so \<open>None\<close> for every \<open>n\<close> is
      an evaluation that does not end. Walking a list in the store, and printing, have one more unit
      of fuel than there are cells, which a list without a cycle cannot use up.

  \<^bold>\<open>The JPEG decoder\<close> (\<open>jpeg-decoder/baseline\<close>, \<open>jpeg-decoder/huffman\<close>). \<open>BitReader\<close> reads bits, \<open>Huffman\<close>
  builds the trees and walks them, \<open>JpegReader\<close> reads the segments and the scan, \<open>Transforms\<close> turns
  coefficients into an image. \<open>JpegProps\<close> shows that the geometry of the reader keeps every access of
  the construction in range, \<open>BlockCode\<close> that a block encoded as the standard says is read back. The
  inverse transform of \<open>fftw\<close> and the rounding of floating-point arithmetic are parameters.

  \<^bold>\<open>Threads.\<close> \<open>Locks\<close> (\<open>lock-free/rw-spinlock\<close>, \<open>condvars/rw-lock\<close>, \<open>condvars/semaphore\<close>), \<open>Channels\<close>
  (\<open>condvars/buffered-channel\<close>, \<open>condvars/unbuffered-channel\<close>), \<open>HashMap\<close> (\<open>baby-threads/hash-table\<close>),
  \<open>MpscStack\<close> (\<open>lock-free/mpsc-stack\<close>), \<open>TimerQueue\<close> (\<open>condvars/timerqueue\<close>) and \<open>BoundedQueue\<close>
  (\<open>lock-free/fast-queue\<close>, one thread at a time). A step is an atomic access or a critical section,
  memory is sequentially consistent, a waiting thread may wake up at any time, and exchanges may fail
  for no reason. The locale \<open>invariant\<close> of \<open>Locks\<close> gives reachability, and each machine interprets it
  or has its own rule induction: exclusion and progress of the locks, the order of admission, first in
  first out for channels, the abstract map, stack and queue for the containers. Removing from the empty
  timer queue, which the code can do, is a step that breaks the queue. \<open>Parallel\<close>
  (\<open>baby-threads/reduce\<close>, \<open>is-prime\<close>, \<open>subset-sum\<close>) has the computations whose threads are independent.

  \<^bold>\<open>Threads and fibers of the seminars and lectures.\<close> \<open>Bank\<close> (\<open>seminars/2023/09-hello-threading/06-bank-*.cpp\<close>)
  has the bank with both mutexes taken at once, with one after the other, and with none: the first two
  are linearizable, the second can deadlock, the third can lose money; \<open>Counters\<close> has the sums and the
  spinning lock of the same directory. \<open>Latches\<close> and \<open>ThreadPool\<close>
  (\<open>seminars/2023/10-condition-variables\<close>) model notifications: who is asleep and who was woken,
  that no wake-up is lost, and that one latch loses one. \<open>Nanofibers\<close>
  (\<open>seminars/2023/12-advanced-threads/03-nanofibers-mutex\<close>) is the scheduler of fibers with its mutexes, over \<open>IntrusiveList\<close>, the lists it links its fibers in; \<open>RoundTable\<close>
  (\<open>lectures/2021/09-condvars/round_table.cpp\<close>) are the dining philosophers with their four strategies.
  Termination and progress are shown by measures of what is left to do: the calls of all fibers, the
  tasks and the workers, and for the philosophers the meals: at most 240007 steps each, since each
  millisecond of the 30000 that a philosopher eats accounts for at most eight steps.

  \<^bold>\<open>Programs that read commands.\<close> \<open>Console\<close> models \<open>std::cin\<close>; \<open>LocationService\<close> (\<open>move/reallol\<close>) and
  \<open>SlowNumbers\<close> (\<open>move/rule-of-5\<close>) are whole programs over it with explicit stores, so that dangling
  pointers and moved-from objects are seen: each refines a program over plain values under the exact
  condition under which its pointers stay alive. \<open>Euclid\<close> (\<open>intro/gcd\<close>) and \<open>UserNames\<close>
  (\<open>bonus/bad-hash\<close>, \<open>bonus/bad-rand\<close>) read from it, too.

  \<^bold>\<open>Classes and templates.\<close> \<open>Editor\<close> (\<open>patterns/editor\<close>), \<open>ConstexprMap\<close> (\<open>meta/constexpr-map\<close>), \<open>MetaEval\<close>
  (\<open>meta/compile-eval\<close>), \<open>TestFramework\<close> (\<open>patterns/small-test-framework\<close>), \<open>Itertools\<close>
  (\<open>types/itertools\<close>), \<open>Spline\<close> (\<open>patterns/pimpl\<close>: without rounding it is the cubic spline of its points), \<open>Dungeon\<close> (\<open>types/dungeon\<close>), \<open>SmallClasses\<close>
  (\<open>patterns/any\<close>, \<open>memory/deque\<close>, \<open>memory/dedup\<close>, \<open>memory/string-view\<close>, \<open>errors/defer\<close>), \<open>DoubleArray\<close>
  (\<open>seminars/2023/01-memory/01-new-sucks.cpp\<close>: what is lost and what stays when allocations and copies
  throw). \<open>Refinement\<close> has the contract under which a component that serves requests gives the replies of its specification.

  \<^bold>\<open>Not modelled.\<close> Copies of modelled code (\<open>scheme/tokenizer\<close>, \<open>scheme/parser\<close>, \<open>jpeg-decoder/faster\<close> and
  \<open>progressive\<close>, \<open>scheme/tidy\<close>, whose collector is unfinished and does not compile); exercises that are
  declarations without bodies (\<open>smart-ptrs\<close>, \<open>unassigned\<close>, most of \<open>move\<close>, \<open>memory\<close> and \<open>bonus\<close>); thin
  layers over the system or a library (encoding of images, \<open>errors/grep\<close>, futexes, hazard pointers,
  function references); vendored code (\<open>contrib\<close>, \<open>bonus/solve-or-die\<close>, \<open>errors/grep/utf8\<close>), tests,
  benchmarks; the other files of the lectures and seminars, which are copies from one year to the next,
  examples of a single feature, or measurements. Weak memory orders and the limits of compilers and of
  the call stack are not modelled either.
\<close>

end
